(* ===== verification/Prelude.thy ===== *)
theory Prelude
  imports Main "HOL-Library.Word"
begin

unbundle bit_operations_syntax

text \<open>
  What the component theories share: names for the machine types of the C++ sources, the
  object representation of unsigned integers (the bytes \<open>memcpy\<close> sees), bounded byte
  buffers with out-of-range writes as a value, a flat byte-addressed memory, and generic
  facts on words, lists and finite sums.
\<close>

section \<open>Machine types and collections\<close>

type_synonym byte = "8 word"
type_synonym u16 = "16 word"
type_synonym u32 = "32 word"
type_synonym u64 = "64 word"

named_theorems mem_simps \<open>reading a memory or a buffer after a write\<close>
named_theorems stat_simps \<open>field equations of the per-thread statistics\<close>
named_theorems frame_simps \<open>fields an operation leaves alone\<close>

section \<open>Words\<close>

lemma odd_mult_cancel:
  fixes a b x y :: "'a::len word"
  assumes "a * b = 1" and "a * x = a * y"
  shows "x = y"
proof -
  have "b * (a * x) = b * (a * y)" using assms(2) by simp
  then have "(a * b) * x = (a * b) * y" by (simp add: ac_simps)
  then show ?thesis using assms(1) by simp
qed

lemma unat_and_mask:
  "unat (x AND mask n :: 'a::len word) = unat x mod 2 ^ n"
proof -
  have "x AND mask n = take_bit n x" by (simp add: take_bit_eq_mask)
  then show ?thesis by (simp only: unsigned_take_bit_eq) (simp add: take_bit_eq_mod)
qed

lemma unat_power2: "n < 64 \<Longrightarrow> unat ((2 :: u64) ^ n) = 2 ^ n"
proof -
  assume "n < 64"
  then have "(2::nat) ^ n < 2 ^ 64" by (intro power_strict_increasing) auto
  moreover have "unat ((2 :: u64) ^ n) = unat (of_nat (2 ^ n) :: u64)" by simp
  ultimately show ?thesis by (simp add: unat_of_nat del: of_nat_power)
qed

lemma unat_lt64: "unat (w :: u64) < 2 ^ 64"
  using unsigned_less [where 'a = nat, of w] by simp

lemma unat_ucast_widen:
  "LENGTH('a) \<le> LENGTH('b) \<Longrightarrow> unat (ucast (w :: 'a::len word) :: 'b::len word) = unat w"
proof -
  assume "LENGTH('a) \<le> LENGTH('b)"
  then have "(2::nat) ^ LENGTH('a) \<le> 2 ^ LENGTH('b)" by (intro power_increasing) auto
  then have "unat w < 2 ^ LENGTH('b)" using unsigned_less [where 'a = nat, of w] by linarith
  then show ?thesis by (simp add: unsigned_ucast_eq take_bit_nat_eq_self)
qed

lemma mask_eq_minus_one: "(2 ^ n - 1 :: 'a::len word) = mask n"
  by (simp add: mask_eq_exp_minus_1)

section \<open>Object representation of unsigned integers\<close>

text \<open>
  \<open>le_bytes n w\<close> is the low \<open>n\<close> bytes of \<open>w\<close>, least significant first;
  \<open>rep_bytes be n w\<close> is the representation of an \<open>n\<close>-byte unsigned integer on a
  machine whose byte order is big endian iff \<open>be\<close>.
\<close>

fun le_bytes :: "nat \<Rightarrow> 'a::len word \<Rightarrow> byte list" where
  "le_bytes 0 w = []"
| "le_bytes (Suc n) w = ucast w # le_bytes n (drop_bit 8 w)"

fun le_word :: "byte list \<Rightarrow> 'a::len word" where
  "le_word [] = 0"
| "le_word (b # bs) = ucast b OR push_bit 8 (le_word bs)"

definition rep_bytes :: "bool \<Rightarrow> nat \<Rightarrow> 'a::len word \<Rightarrow> byte list" where
  "rep_bytes be n w = (if be then rev (le_bytes n w) else le_bytes n w)"

lemma length_le_bytes [simp]: "length (le_bytes n w) = n"
  by (induction n arbitrary: w) auto

lemma length_rep_bytes [simp]: "length (rep_bytes be n w) = n"
  by (simp add: rep_bytes_def)

lemma low_byte_or_rest:
  "ucast (ucast w :: byte) OR push_bit 8 (take_bit k (drop_bit 8 w)) = take_bit (8 + k) (w :: 'a::len word)"
  by (rule bit_word_eqI) (auto simp: bit_simps)

lemma le_word_le_bytes: "le_word (le_bytes n w) = take_bit (8 * n) (w :: 'a::len word)"
  by (induction n arbitrary: w) (simp_all add: low_byte_or_rest)

lemma le_bytes_eq_iff:
  "le_bytes n v = le_bytes n (w :: 'a::len word) \<longleftrightarrow> take_bit (8 * n) v = take_bit (8 * n) w"
proof
  assume "le_bytes n v = le_bytes n w"
  then have "le_word (le_bytes n v) = (le_word (le_bytes n w) :: 'a word)" by simp
  then show "take_bit (8 * n) v = take_bit (8 * n) w" by (simp only: le_word_le_bytes)
next
  show "take_bit (8 * n) v = take_bit (8 * n) w \<Longrightarrow> le_bytes n v = le_bytes n w"
  proof (induction n arbitrary: v w)
    case (Suc n)
    have bits: "\<And>i. i < 8 * Suc n \<Longrightarrow> bit v i = bit w i"
      using Suc.prems by (metis bit_take_bit_iff)
    have "(ucast v :: byte) = ucast w"
      by (rule bit_word_eqI) (simp add: bit_ucast_iff bits)
    moreover have "take_bit (8 * n) (drop_bit 8 v) = take_bit (8 * n) (drop_bit 8 w)"
      by (rule bit_word_eqI) (auto simp: bit_take_bit_iff bit_drop_bit_eq bits)
    then have "le_bytes n (drop_bit 8 v) = le_bytes n (drop_bit 8 w)" by (rule Suc.IH)
    ultimately show ?case by simp
  qed simp
qed

lemma le_bytes_le_word: "8 * length bs \<le> LENGTH('a) \<Longrightarrow> le_bytes (length bs) (le_word bs :: 'a::len word) = bs"
proof (induction bs)
  case (Cons b bs)
  let ?w = "le_word bs :: 'a word"
  have "ucast ((ucast b :: 'a word) OR push_bit 8 ?w) = b"
    using Cons.prems by (intro bit_word_eqI) (auto simp: bit_simps)
  moreover have "take_bit (8 * length bs) (drop_bit 8 ((ucast b :: 'a word) OR push_bit 8 ?w)) = take_bit (8 * length bs) ?w"
    using Cons.prems by (intro bit_word_eqI) (auto simp: bit_simps dest: bit_imp_le_length)
  then have "le_bytes (length bs) (drop_bit 8 ((ucast b :: 'a word) OR push_bit 8 ?w)) = le_bytes (length bs) ?w"
    by (simp add: le_bytes_eq_iff)
  ultimately show ?case using Cons by simp
qed simp

lemma rep_bytes_eq_iff:
  "rep_bytes be n v = rep_bytes be n (w :: 'a::len word)
     \<longleftrightarrow> take_bit (8 * n) v = take_bit (8 * n) w"
  by (simp add: rep_bytes_def le_bytes_eq_iff)

section \<open>Bounded byte buffers\<close>

text \<open>
  \<open>buf_write buf off bs\<close> stores \<open>bs\<close> at offset \<open>off\<close> of an array of
  \<open>length buf\<close> bytes. A store past the end is undefined behaviour in the source and the
  value \<open>None\<close> here.
\<close>

definition buf_write :: "byte list \<Rightarrow> nat \<Rightarrow> byte list \<Rightarrow> byte list option" where
  "buf_write buf off bs =
     (if off + length bs \<le> length buf
      then Some (take off buf @ bs @ drop (off + length bs) buf) else None)"

lemma buf_write_length: "buf_write buf off bs = Some buf' \<Longrightarrow> length buf' = length buf"
  by (auto simp: buf_write_def split: if_splits)

lemma buf_write_Some_iff: "(\<exists>b. buf_write buf off bs = Some b) \<longleftrightarrow> off + length bs \<le> length buf"
  by (simp add: buf_write_def)

lemma take_buf_write [mem_simps]:
  "buf_write buf off bs = Some buf' \<Longrightarrow> take off buf' = take off buf"
  by (auto simp: buf_write_def split: if_splits)

lemma slice_buf_write [mem_simps]:
  "buf_write buf off bs = Some buf' \<Longrightarrow> take (length bs) (drop off buf') = bs"
  by (auto simp: buf_write_def split: if_splits)

lemma take_all_buf_write [mem_simps]:
  "buf_write buf off bs = Some buf' \<Longrightarrow> take (off + length bs) buf' = take off buf @ bs"
  by (auto simp: buf_write_def split: if_splits)

lemma buf_write_Some:
  "off + length bs \<le> length buf \<Longrightarrow>
   buf_write buf off bs = Some (take off buf @ bs @ drop (off + length bs) buf)"
  by (simp add: buf_write_def)

lemma buf_write_append:
  assumes "off + length a + length b \<le> length buf"
  shows "buf_write (take off buf @ a @ drop (off + length a) buf) (off + length a) b
           = buf_write buf off (a @ b)"
proof -
  have "min (length buf) off = off" using assms by simp
  then show ?thesis using assms
    by (simp add: buf_write_def add.assoc add.commute [of "length b"])
qed

section \<open>Flat memory\<close>

text \<open>A byte-addressed memory, as the persistent pools of the stores are.\<close>

type_synonym memory = "nat \<Rightarrow> byte"

definition mem_write :: "memory \<Rightarrow> nat \<Rightarrow> byte list \<Rightarrow> memory" where
  "mem_write m p bs = (\<lambda>a. if p \<le> a \<and> a < p + length bs then bs ! (a - p) else m a)"

definition mem_read :: "memory \<Rightarrow> nat \<Rightarrow> nat \<Rightarrow> byte list" where
  "mem_read m p n = List.map m [p..<p + n]"

lemma length_mem_read [simp]: "length (mem_read m p n) = n"
  by (simp add: mem_read_def)

lemma mem_read_nth: "i < n \<Longrightarrow> mem_read m p n ! i = m (p + i)"
  by (simp add: mem_read_def)

lemma mem_read_write_same [mem_simps]: "mem_read (mem_write m p bs) p (length bs) = bs"
  by (rule nth_equalityI) (simp_all add: mem_read_nth mem_write_def)

lemma mem_read_write_disjoint [mem_simps]:
  "p + length bs \<le> q \<or> q + n \<le> p \<Longrightarrow> mem_read (mem_write m p bs) q n = mem_read m q n"
  by (rule nth_equalityI) (auto simp: mem_read_nth mem_write_def)

lemma mem_read_write_inside:
  assumes "p \<le> q" and "q + n \<le> p + length bs"
  shows "mem_read (mem_write m p bs) q n = take n (drop (q - p) bs)"
  using assms by (intro nth_equalityI) (auto simp: mem_read_nth mem_write_def)

lemma mem_read_append: "mem_read m p (a + b) = mem_read m p a @ mem_read m (p + a) b"
  unfolding mem_read_def by (metis add.assoc le_add1 map_append upt_add_eq_append)

lemma mem_read_cong: "(\<And>a. p \<le> a \<Longrightarrow> a < p + n \<Longrightarrow> m a = m' a) \<Longrightarrow> mem_read m p n = mem_read m' p n"
  by (auto simp: mem_read_def)

lemma le_word_le_bytes_full:
  "LENGTH('a) \<le> 8 * n \<Longrightarrow> le_word (le_bytes n w) = (w :: 'a::len word)"
  by (simp add: le_word_le_bytes take_bit_word_eq_self)

end
