(* ===== verification/Utils.thy ===== *)
theory Utils
  imports Prelude
begin

unbundle bit_operations_syntax

text \<open>
  The scrambling helpers of \<^verbatim>\<open>benchmark/include/utils.hpp\<close> and
  \<^verbatim>\<open>benchmark/include/ycsb/utils.h\<close>: the multiplicative hash that turns record
  numbers into keys, the discrete logarithm permutation, the two FNV hashes, and the
  endianness test.
\<close>

section \<open>Multiplicative hash\<close>

definition multiplicative_hash :: "u64 \<Rightarrow> u64" where
  "multiplicative_hash x = 11400714819323198393 * x"

definition multiplicative_hash32 :: "u32 \<Rightarrow> u32" where
  "multiplicative_hash32 x = 2654435761 * x"

definition multiplicative_unhash :: "u64 \<Rightarrow> u64" where
  "multiplicative_unhash y = 7581284681210600073 * y"

lemma hash_multiplier_inverse:
  "(11400714819323198393 :: u64) * 7581284681210600073 = 1"
  "(2654435761 :: u32) * 244002641 = 1"
  by simp_all

lemma multiplicative_unhash_hash: "multiplicative_unhash (multiplicative_hash x) = x"
proof -
  have "multiplicative_unhash (multiplicative_hash x) = (11400714819323198393 * 7581284681210600073) * x"
    unfolding multiplicative_hash_def multiplicative_unhash_def by (simp only: ac_simps)
  then show ?thesis by (simp only: hash_multiplier_inverse mult_1)
qed

lemma multiplicative_hash_unhash: "multiplicative_hash (multiplicative_unhash x) = x"
  using multiplicative_unhash_hash [of x]
  unfolding multiplicative_hash_def multiplicative_unhash_def by (simp only: ac_simps)

lemma multiplicative_hash_inject [simp]:
  "multiplicative_hash x = multiplicative_hash y \<longleftrightarrow> x = y"
  by (metis multiplicative_unhash_hash)

lemma bij_multiplicative_hash: "bij multiplicative_hash"
  by (rule bijI') (auto intro: multiplicative_hash_unhash [symmetric])

lemma bij_multiplicative_hash32: "bij multiplicative_hash32"
proof (rule bijI')
  fix x y :: u32
  show "multiplicative_hash32 x = multiplicative_hash32 y \<longleftrightarrow> x = y"
    using odd_mult_cancel [OF hash_multiplier_inverse(2), of x y]
    unfolding multiplicative_hash32_def by blast
  have "multiplicative_hash32 (244002641 * y) = (2654435761 * 244002641) * y"
    unfolding multiplicative_hash32_def by (simp only: ac_simps)
  then show "\<exists>x. y = multiplicative_hash32 x"
    by (metis hash_multiplier_inverse(2) mult_1)
qed

section \<open>Endianness\<close>

text \<open>The union of \<open>is_big_endian\<close>: a 32-bit integer read back as four bytes.\<close>

definition is_big_endian :: "bool \<Rightarrow> bool" where
  "is_big_endian be \<longleftrightarrow> rep_bytes be 4 (0x01020304 :: u32) ! 0 = 1"

lemma is_big_endian_correct: "is_big_endian be = be"
proof -
  have "is_big_endian True" and "\<not> is_big_endian False" by code_simp+
  then show ?thesis by (cases be) simp_all
qed

section \<open>Discrete logarithm\<close>

definition POWER_TO_G :: "u64 list" where
  "POWER_TO_G = [29, 29, 53, 53, 117, 125, 229, 221,
    469, 517, 589, 861, 1189, 1653, 2333, 3381, 4629, 6565, 9293, 13093, 18509,
    26253, 37117, 52317, 74101, 104581, 147973, 209173, 296029, 418341, 91733,
    836661, 1183221, 1673485, 2366509, 3346853, 4732789, 6693237, 9465541,
    13386341, 18931141, 26772693, 37862197, 53545221, 75724373, 107090317]"

text \<open>
  The loop of \<open>discrete_log\<close>. Nothing in the loop bounds it, so it is a partial
  function: \<open>None\<close> is not returning.
\<close>

partial_function (option) discrete_log_loop ::
  "u64 \<Rightarrow> u64 \<Rightarrow> u64 \<Rightarrow> u64 \<Rightarrow> u64 \<Rightarrow> u64 option" where
  "discrete_log_loop P_MASK up x radix Gpow =
     (if up = 0 then Some x
      else if up AND radix \<noteq> 0
      then discrete_log_loop P_MASK ((up + Gpow + 4 * up * Gpow) AND P_MASK) (x + radix)
             (push_bit 1 radix) ((Gpow + Gpow + 4 * Gpow * Gpow) AND P_MASK)
      else discrete_log_loop P_MASK up x
             (push_bit 1 radix) ((Gpow + Gpow + 4 * Gpow * Gpow) AND P_MASK))"

datatype discrete_log_result = Rejected | Diverges | Log u64

text \<open>
  \<open>Rejected\<close> stands for the static assertion on \<open>POWER\<close> and for the assertion on the
  argument.
\<close>

definition discrete_log :: "nat \<Rightarrow> u64 \<Rightarrow> discrete_log_result" where
  "discrete_log POWER_OF_TWO k =
     (let POWER = POWER_OF_TWO + 2 in
      if \<not> (10 \<le> POWER \<and> POWER \<le> 55) then Rejected
      else
        let G = POWER_TO_G ! (POWER - 10);
            P = push_bit (POWER - 2) 1;
            P_MASK = P - 1
        in if \<not> k < push_bit (POWER - 2) 1 then Rejected
           else case discrete_log_loop P_MASK k 0 1 ((G - 1) div 4) of
                  None \<Rightarrow> Diverges
                | Some x \<Rightarrow> Log (P - x))"

subsection \<open>Powers of a generator that is 5 modulo 8\<close>

lemma power_two_power_form:
  assumes "G mod 8 = (5::nat)"
  shows "\<exists>m. G ^ 2 ^ i = 1 + 2 ^ (i + 2) * (2 * m + 1)"
proof (induction i)
  case 0
  have "G = 1 + 4 * (2 * (G div 8) + 1)" using assms by presburger
  then show ?case by auto
next
  case (Suc i)
  then obtain m where m: "G ^ 2 ^ i = 1 + 2 ^ (i + 2) * (2 * m + 1)" by blast
  have "G ^ 2 ^ Suc i = (G ^ 2 ^ i)\<^sup>2" by (simp add: power_mult [symmetric] mult.commute)
  also have "\<dots> = 1 + 2 ^ (Suc i + 2) * (2 * (m + 2 ^ i * (2 * m + 1)\<^sup>2) + 1)"
    unfolding m by (simp add: power2_eq_square algebra_simps power_add)
  finally show ?case by blast
qed

lemma mod_times4_plus1: "0 < m \<Longrightarrow> (4 * g + 1) mod (4 * m) = 4 * (g mod m) + (1::nat)"
proof -
  assume m: "0 < m"
  have "4 * g + 1 = (4 * (g mod m) + 1) + 4 * m * (g div m)"
    by (subst mod_mult_div_eq [of g m, symmetric]) (simp only: distrib_left ac_simps)
  then have "(4 * g + 1) mod (4 * m) = (4 * (g mod m) + 1) mod (4 * m)" by (metis mod_mult_self2)
  also have "\<dots> = 4 * (g mod m) + 1" using mod_less_divisor [OF m, of g] by simp
  finally show ?thesis .
qed

lemma gpow_low_bits:
  assumes G: "G mod 8 = (5::nat)" and i: "i < n"
    and g: "(4 * g + 1) mod 2 ^ (n + 2) = G ^ 2 ^ i mod 2 ^ (n + 2)"
  shows "g mod 2 ^ Suc i = 2 ^ i"
proof -
  obtain m where m: "G ^ 2 ^ i = 1 + 2 ^ (i + 2) * (2 * m + 1)"
    using power_two_power_form [OF G] by blast
  have dvd: "(2::nat) ^ (i + 3) dvd 2 ^ (n + 2)" by (rule le_imp_power_dvd) (use i in simp)
  have "(4 * g + 1) mod 2 ^ (n + 2) mod 2 ^ (i + 3) = G ^ 2 ^ i mod 2 ^ (n + 2) mod 2 ^ (i + 3)"
    by (simp only: g)
  then have "(4 * g + 1) mod 2 ^ (i + 3) = G ^ 2 ^ i mod 2 ^ (i + 3)"
    by (simp only: mod_mod_cancel [OF dvd])
  also have "G ^ 2 ^ i = (1 + 2 ^ (i + 2)) + 2 ^ (i + 3) * m"
    unfolding m by (simp add: algebra_simps power_add)
  also have "\<dots> mod 2 ^ (i + 3) = (1 + 2 ^ (i + 2)) mod 2 ^ (i + 3)" by simp
  also have "\<dots> = 1 + 2 ^ (i + 2)"
  proof (rule mod_less)
    have "(1::nat) \<le> 2 ^ i" by simp
    then have "(1::nat) + 2 ^ i * 4 < 2 ^ i * 8" by linarith
    then show "(1::nat) + 2 ^ (i + 2) < 2 ^ (i + 3)" by (simp add: power_add)
  qed
  finally have "(4 * g + 1) mod (4 * 2 ^ Suc i) = 1 + 4 * 2 ^ i"
    by (simp add: power_add mult.commute)
  then have "4 * (g mod 2 ^ Suc i) + 1 = 1 + 4 * 2 ^ i"
    by (simp only: mod_times4_plus1 zero_less_power zero_less_numeral)
  then show ?thesis by simp
qed


lemma unat_masked_poly:
  fixes a b :: u64
  assumes "n \<le> 64"
  shows "unat ((a + b + 4 * a * b) AND mask n) = (unat a + unat b + 4 * unat a * unat b) mod 2 ^ n"
proof -
  have dvd: "(2::nat) ^ n dvd 2 ^ 64" by (rule le_imp_power_dvd) (rule assms)
  have "unat (a + b + 4 * a * b) = (unat a + unat b + 4 * unat a * unat b) mod 2 ^ 64"
    by (simp add: unat_word_ariths mod_simps)
  then show ?thesis by (simp only: unat_and_mask mod_mod_cancel [OF dvd])
qed

lemma shift_poly_mod:
  "(4 * ((a + b + 4 * a * b) mod 2 ^ n) + 1) mod 2 ^ (n + 2) = ((4 * a + 1) * (4 * b + 1)) mod (2 ^ (n + 2) :: nat)"
proof -
  have "4 * ((a + b + 4 * a * b) mod 2 ^ n) = (4 * (a + b + 4 * a * b)) mod (4 * 2 ^ n)"
    by (simp only: mod_mult_mult1)
  moreover have "(2::nat) ^ (n + 2) = 4 * 2 ^ n" by (simp add: power_add)
  ultimately have "(4 * ((a + b + 4 * a * b) mod 2 ^ n) + 1) mod 2 ^ (n + 2)
      = (4 * (a + b + 4 * a * b) + 1) mod 2 ^ (n + 2)" by (simp add: mod_simps)
  also have "4 * (a + b + 4 * a * b) + 1 = (4 * a + 1) * (4 * b + 1)" by (simp add: algebra_simps)
  finally show ?thesis .
qed

lemma bit_test_dvd:
  fixes up :: u64
  assumes "i < 64" and "2 ^ i dvd unat up"
  shows "up AND push_bit i 1 \<noteq> 0 \<longleftrightarrow> unat up mod 2 ^ Suc i = 2 ^ i"
    and "up AND push_bit i 1 = 0 \<longleftrightarrow> 2 ^ Suc i dvd unat up"
proof -
  obtain q where q: "unat up = 2 ^ i * q" using assms(2) by blast
  have "up AND push_bit i 1 \<noteq> 0 \<longleftrightarrow> bit up i"
    by (metis and.commute and_exp_eq_0_iff_not_bit push_bit_of_1)
  also have "bit up i \<longleftrightarrow> bit (unat up) i" by (simp add: bit_unsigned_iff)
  also have "\<dots> \<longleftrightarrow> odd (unat up div 2 ^ i)" by (rule bit_iff_odd)
  also have "\<dots> \<longleftrightarrow> odd q" by (simp add: q)
  finally have *: "up AND push_bit i 1 \<noteq> 0 \<longleftrightarrow> odd q" .
  have "unat up mod 2 ^ Suc i = 2 ^ i * (q mod 2)"
    unfolding q power_Suc2 by (simp only: mod_mult_mult1)
  with * show "up AND push_bit i 1 \<noteq> 0 \<longleftrightarrow> unat up mod 2 ^ Suc i = 2 ^ i"
    by (auto simp: odd_iff_mod_2_eq_one)
  show "up AND push_bit i 1 = 0 \<longleftrightarrow> 2 ^ Suc i dvd unat up"
    using * by (auto simp: q)
qed


text \<open>One iteration that adds \<open>radix\<close> clears bit \<open>i\<close> of \<open>up\<close>.\<close>

lemma poly_clears_bit:
  assumes "a mod 2 ^ Suc i = (2 ^ i :: nat)" and "b mod 2 ^ Suc i = 2 ^ i" and "Suc i \<le> n"
  shows "2 ^ Suc i dvd (a + b + 4 * a * b) mod 2 ^ n"
proof -
  obtain p q where a: "a = 2 ^ i + 2 ^ Suc i * p" and b: "b = 2 ^ i + 2 ^ Suc i * q"
    using assms(1,2) by (metis mod_mult_div_eq)
  have "a + b + 4 * a * b = 2 ^ Suc i * (1 + p + q + 2 * (1 + 2 * p) * b)"
    unfolding a by (subst b) (simp add: algebra_simps)
  then have "2 ^ Suc i dvd a + b + 4 * a * b" by simp
  moreover have "(2::nat) ^ Suc i dvd 2 ^ n" by (rule le_imp_power_dvd) (rule assms(3))
  ultimately show ?thesis by (simp only: dvd_mod_iff)
qed

text \<open>
  What the loop keeps between iterations: below bit \<open>i\<close> the residue \<open>up\<close> is zero,
  \<open>Gpow\<close> stands for \<open>G ^ 2 ^ i\<close> and \<open>up\<close> for the argument times the power found so far.
\<close>

definition dlog_inv :: "nat \<Rightarrow> nat \<Rightarrow> nat \<Rightarrow> nat \<Rightarrow> u64 \<Rightarrow> u64 \<Rightarrow> u64 \<Rightarrow> bool" where
  "dlog_inv n G c i up x Gpow \<longleftrightarrow>
     i \<le> n \<and> unat up < 2 ^ n \<and> 2 ^ i dvd unat up \<and> unat x < 2 ^ i \<and>
     (4 * unat Gpow + 1) mod 2 ^ (n + 2) = G ^ 2 ^ i mod 2 ^ (n + 2) \<and>
     (4 * unat up + 1) mod 2 ^ (n + 2) = (c * G ^ unat x) mod 2 ^ (n + 2)"

lemma dlog_inv_gpow:
  assumes "n \<le> 53" and "(4 * unat Gpow + 1) mod 2 ^ (n + 2) = G ^ 2 ^ i mod 2 ^ (n + 2)"
  shows "(4 * unat ((Gpow + Gpow + 4 * Gpow * Gpow) AND mask n :: u64) + 1) mod 2 ^ (n + 2)
           = G ^ 2 ^ Suc i mod 2 ^ (n + 2)"
proof -
  have "(4 * unat ((Gpow + Gpow + 4 * Gpow * Gpow) AND mask n) + 1) mod 2 ^ (n + 2)
      = ((4 * unat Gpow + 1) * (4 * unat Gpow + 1)) mod 2 ^ (n + 2)"
    using assms(1) by (simp only: unat_masked_poly shift_poly_mod)
  also have "\<dots> = (G ^ 2 ^ i * G ^ 2 ^ i) mod 2 ^ (n + 2)"
    using assms(2) assms(2) by (rule mod_mult_cong)
  also have "G ^ 2 ^ i * G ^ 2 ^ i = G ^ 2 ^ Suc i" by (simp add: power_add [symmetric] mult_2)
  finally show ?thesis .
qed

lemma dlog_inv_skip:
  assumes "dlog_inv n G c i up x Gpow" and "n \<le> 53" and "i < n" and "up AND push_bit i 1 = 0"
  shows "dlog_inv n G c (Suc i) up x ((Gpow + Gpow + 4 * Gpow * Gpow) AND mask n)"
proof -
  have "i < 64" using assms(2,3) by simp
  then have "2 ^ Suc i dvd unat up"
    using bit_test_dvd(2) [of i up] assms(1,4) by (simp add: dlog_inv_def)
  then show ?thesis using assms dlog_inv_gpow by (auto simp: dlog_inv_def)
qed

lemma dlog_inv_take:
  assumes inv: "dlog_inv n G c i up x Gpow" and n: "n \<le> 53" and i: "i < n"
    and G: "G mod 8 = 5" and bit1: "up AND push_bit i 1 \<noteq> 0"
  shows "dlog_inv n G c (Suc i) ((up + Gpow + 4 * up * Gpow) AND mask n) (x + push_bit i 1)
           ((Gpow + Gpow + 4 * Gpow * Gpow) AND mask n)"
proof -
  let ?up' = "(up + Gpow + 4 * up * Gpow) AND mask n"
  note I = inv [unfolded dlog_inv_def]
  have i64: "i < 64" using i n by simp
  have up': "unat ?up' = (unat up + unat Gpow + 4 * unat up * unat Gpow) mod 2 ^ n"
    using n by (simp only: unat_masked_poly)
  have "unat up mod 2 ^ Suc i = 2 ^ i" using bit_test_dvd(1) [OF i64] bit1 I by blast
  then have dvd': "2 ^ Suc i dvd unat ?up'"
    unfolding up' by (rule poly_clears_bit) (use gpow_low_bits [OF G i] I i in auto)
  have x': "unat (x + push_bit i 1) = unat x + 2 ^ i"
  proof -
    have "unat x + 2 ^ i < 2 ^ Suc i" using I by simp
    also have "(2::nat) ^ Suc i \<le> 2 ^ 64" using i64 by (intro power_increasing) auto
    finally show ?thesis using i64 by (simp add: unat_word_ariths unat_power2)
  qed
  have "(4 * unat ?up' + 1) mod 2 ^ (n + 2)
      = ((4 * unat up + 1) * (4 * unat Gpow + 1)) mod 2 ^ (n + 2)"
    using n by (simp only: unat_masked_poly shift_poly_mod)
  also have "\<dots> = (c * G ^ unat x * G ^ 2 ^ i) mod 2 ^ (n + 2)"
    by (rule mod_mult_cong) (use I in auto)
  also have "c * G ^ unat x * G ^ 2 ^ i = c * G ^ unat (x + push_bit i 1)"
    by (simp only: x' power_add mult.assoc)
  finally have "(4 * unat ?up' + 1) mod 2 ^ (n + 2) = (c * G ^ unat (x + push_bit i 1)) mod 2 ^ (n + 2)" .
  moreover have "unat ?up' < 2 ^ n" by (simp add: up')
  moreover have "unat (x + push_bit i 1) < 2 ^ Suc i" using I x' by simp
  moreover have "(4 * unat ((Gpow + Gpow + 4 * Gpow * Gpow) AND mask n) + 1) mod 2 ^ (n + 2)
      = G ^ 2 ^ Suc i mod 2 ^ (n + 2)" by (rule dlog_inv_gpow [OF n]) (use I in blast)
  ultimately show ?thesis
    unfolding dlog_inv_def using dvd' i by (simp only: Suc_le_eq simp_thms)
qed

lemma discrete_log_loop_correct:
  assumes n: "n \<le> 53" and G: "G mod 8 = (5::nat)" and "dlog_inv n G c i up x Gpow"
  shows "\<exists>y. discrete_log_loop (mask n) up x (push_bit i 1) Gpow = Some y \<and> unat y < 2 ^ n \<and>
             (c * G ^ unat y) mod 2 ^ (n + 2) = 1"
  using assms(3)
proof (induction "n - i" arbitrary: i up x Gpow rule: less_induct)
  case less
  note I = less.prems [unfolded dlog_inv_def]
  let ?g = "(Gpow + Gpow + 4 * Gpow * Gpow) AND mask n"
  show ?case
  proof (cases "up = 0")
    case True
    have "(2::nat) ^ i \<le> 2 ^ n" using I by (intro power_increasing) auto
    moreover have "(1::nat) < 2 ^ (n + 2)" by (rule one_less_power) simp_all
    moreover have "unat x < 2 ^ n" using I calculation(1) by (meson less_le_trans)
    ultimately show ?thesis using True I
      by (intro exI [of _ x]) (simp add: discrete_log_loop.simps)
  next
    case False
    then have "2 ^ i \<le> unat up" using I by (simp add: dvd_imp_le unat_gt_0)
    then have i: "i < n" using I by (metis le_neq_implies_less not_less)
    show ?thesis
    proof (cases "up AND push_bit i 1 = 0")
      case True
      have "discrete_log_loop (mask n) up x (push_bit i 1) Gpow
          = discrete_log_loop (mask n) up x (push_bit (Suc i) 1) ?g"
        using False True by (subst discrete_log_loop.simps) (simp add: mult.commute)
      then show ?thesis
        using less.hyps [OF _ dlog_inv_skip [OF less.prems n i True]] i by simp
    next
      case bit1: False
      have "discrete_log_loop (mask n) up x (push_bit i 1) Gpow
          = discrete_log_loop (mask n) ((up + Gpow + 4 * up * Gpow) AND mask n) (x + push_bit i 1)
              (push_bit (Suc i) 1) ?g"
        using False bit1 by (subst discrete_log_loop.simps) (simp add: mult.commute)
      then show ?thesis
        using less.hyps [OF _ dlog_inv_take [OF less.prems n i G bit1]] i by simp
    qed
  qed
qed

subsection \<open>The permutation\<close>

lemma POWER_TO_G_facts:
  "length POWER_TO_G = 46" "i < 46 \<Longrightarrow> unat (POWER_TO_G ! i) mod 8 = 5 \<and> unat (POWER_TO_G ! i) < 2 ^ 32"
proof -
  show "length POWER_TO_G = 46" by (simp add: POWER_TO_G_def)
  have "\<forall>g \<in> set POWER_TO_G. unat g mod 8 = 5 \<and> unat g < 2 ^ 32" by (simp add: POWER_TO_G_def)
  then show "i < 46 \<Longrightarrow> unat (POWER_TO_G ! i) mod 8 = 5 \<and> unat (POWER_TO_G ! i) < 2 ^ 32"
    using \<open>length POWER_TO_G = 46\<close> by (metis nth_mem)
qed

lemma generator_order:
  assumes "G mod 8 = (5::nat)"
  shows "G ^ 2 ^ n mod 2 ^ (n + 2) = 1"
proof -
  obtain m where m: "G ^ 2 ^ n = 1 + 2 ^ (n + 2) * (2 * m + 1)"
    using power_two_power_form [OF assms] by blast
  have "(1::nat) < 2 ^ (n + 2)" by (rule one_less_power) simp_all
  then show ?thesis unfolding m by (simp only: mod_mult_self2 mod_less)
qed

lemma inverse_power_mod:
  assumes "G mod 8 = (5::nat)" and "y < 2 ^ n" and "(c * G ^ y) mod 2 ^ (n + 2) = 1"
    and "c < 2 ^ (n + 2)"
  shows "G ^ (2 ^ n - y) mod 2 ^ (n + 2) = c"
proof -
  let ?m = "2 ^ (n + 2) :: nat"
  have one: "1 mod ?m = 1" by (rule mod_less) (rule one_less_power, simp_all)
  have "G ^ (2 ^ n - y) mod ?m = (G ^ (2 ^ n - y) * 1) mod ?m" by simp
  also have "\<dots> = (G ^ (2 ^ n - y) * (c * G ^ y)) mod ?m"
    by (rule mod_mult_cong) (simp_all only: assms(3) one)
  also have "G ^ (2 ^ n - y) * (c * G ^ y) = c * G ^ 2 ^ n"
    using assms(2) by (simp only: mult.left_commute power_add [symmetric]) simp
  also have "(c * G ^ 2 ^ n) mod ?m = (c * 1) mod ?m"
    by (rule mod_mult_cong) (simp_all only: generator_order [OF assms(1)] one)
  also have "\<dots> = c" by (simp only: mult_1_right mod_less [OF assms(4)])
  finally show ?thesis .
qed

lemma dlog_inv_initial:
  assumes "8 \<le> n" "n \<le> 53" "unat k < 2 ^ n" "G = POWER_TO_G ! (n - 8)"
  shows "dlog_inv n (unat G) (4 * unat k + 1) 0 k 0 ((G - 1) div 4)"
proof -
  have G: "unat G mod 8 = 5" using POWER_TO_G_facts(2) [of "n - 8"] assms by simp
  then have "1 \<le> unat G" by (cases "unat G = 0") simp_all
  then have "unat (G - 1) = unat G - 1" by (simp add: unat_sub_if_size)
  then have "unat ((G - 1) div 4) = (unat G - 1) div 4" by (simp add: unat_div_distrib)
  then have "4 * unat ((G - 1) div 4) + 1 = unat G" using G by presburger
  then show ?thesis using assms(3) by (simp add: dlog_inv_def)
qed

lemma discrete_log_value:
  assumes "8 \<le> n" "n \<le> 53" "unat k < 2 ^ n"
  shows "\<exists>r. discrete_log n k = Log r \<and> 1 \<le> unat r \<and> unat r \<le> 2 ^ n \<and>
             unat (POWER_TO_G ! (n - 8)) ^ unat r mod 2 ^ (n + 2) = 4 * unat k + 1"
proof -
  define G where "G = POWER_TO_G ! (n - 8)"
  have G: "unat G mod 8 = 5" using POWER_TO_G_facts(2) [of "n - 8"] assms by (simp add: G_def)
  obtain y where y: "discrete_log_loop (mask n) k 0 (push_bit 0 1) ((G - 1) div 4) = Some y"
      "unat y < 2 ^ n" "((4 * unat k + 1) * unat G ^ unat y) mod 2 ^ (n + 2) = 1"
    using discrete_log_loop_correct [OF assms(2) G dlog_inv_initial [OF assms G_def]] by blast
  have n64: "n < 64" using assms(2) by simp
  have P: "unat (2 ^ n - y) = 2 ^ n - unat y"
    using y(2) unat_power2 [OF n64] by (simp add: unat_sub word_le_nat_alt)
  have "k < push_bit n 1" using assms(3) unat_power2 [OF n64] by (simp add: word_less_nat_alt)
  then have "discrete_log n k = Log (2 ^ n - y)"
    using assms(1,2) y(1) by (simp add: discrete_log_def Let_def G_def mask_eq_minus_one)
  moreover have "4 * unat k + 1 < 2 ^ (n + 2)" using assms(3) by (simp add: power_add)
  then have "unat G ^ (2 ^ n - unat y) mod 2 ^ (n + 2) = 4 * unat k + 1"
    using inverse_power_mod [OF G y(2,3)] by blast
  ultimately show ?thesis using P y(2) by (auto simp: G_def)
qed

lemma discrete_log_inject:
  assumes "8 \<le> n" "n \<le> 53" "unat k < 2 ^ n" "unat k' < 2 ^ n" "discrete_log n k = discrete_log n k'"
  shows "k = k'"
proof -
  have "4 * unat k + 1 = 4 * unat k' + 1"
    using discrete_log_value [OF assms(1-3)] discrete_log_value [OF assms(1,2,4)] assms(5) by auto
  then show ?thesis using word_unat_eq_iff by auto
qed

text \<open>
  C29: for every admissible table entry \<open>discrete_log\<close> returns on every argument below
  \<open>2 ^ POWER_OF_TWO\<close> (its unbounded loop ends) and maps the arguments one-to-one onto the
  documented interval \<open>[1, 2 ^ POWER_OF_TWO]\<close>.
\<close>

theorem discrete_log_permutation:
  assumes "8 \<le> n" "n \<le> 53"
  shows "inj_on (discrete_log n) {k. unat k < 2 ^ n} \<and>
         discrete_log n ` {k. unat k < 2 ^ n} = Log ` {r. 1 \<le> unat r \<and> unat r \<le> 2 ^ n}"
    (is "_ \<and> ?f ` ?A = ?B")
proof (intro conjI card_seteq)
  show inj_f: "inj_on ?f ?A" using discrete_log_inject [OF assms] by (auto simp: inj_on_def)
  show "finite ?B" by simp
  show "?f ` ?A \<subseteq> ?B" using discrete_log_value [OF assms] by fastforce
  have n: "(2::nat) ^ n < 2 ^ 64" using assms(2) by (intro power_strict_increasing) auto
  have inj: "inj_on (unat :: u64 \<Rightarrow> nat) X" for X using word_unat_eq_iff by (auto intro: inj_onI)
  have A: "unat ` ?A = {..<2 ^ n}" 
  proof (intro equalityI subsetI)
    fix m assume "m \<in> {..<(2::nat) ^ n}"
    then have "m = unat (of_nat m :: u64)" "m < 2 ^ n" using n by (simp_all add: unat_of_nat)
    then show "m \<in> unat ` ?A" by (metis (mono_tags) imageI mem_Collect_eq)
  qed auto
  have B: "unat ` {r :: u64. 1 \<le> unat r \<and> unat r \<le> 2 ^ n} = {1..2 ^ n}"
  proof (intro equalityI subsetI)
    fix m assume "m \<in> {1..(2::nat) ^ n}"
    then have "m = unat (of_nat m :: u64)" "1 \<le> m" "m \<le> 2 ^ n" using n by (simp_all add: unat_of_nat)
    then show "m \<in> unat ` {r :: u64. 1 \<le> unat r \<and> unat r \<le> 2 ^ n}" by (metis (mono_tags, lifting) imageI mem_Collect_eq)
  qed auto
  have "card ?B = card {r :: u64. 1 \<le> unat r \<and> unat r \<le> 2 ^ n}"
    by (rule card_image) (simp add: inj_on_def)
  also have "\<dots> = card (unat ` {r :: u64. 1 \<le> unat r \<and> unat r \<le> 2 ^ n})"
    by (rule card_image [OF inj, symmetric])
  also have "\<dots> = 2 ^ n" by (simp only: B card_atLeastAtMost)
  also have "\<dots> = card (unat ` ?A)" by (simp only: A card_lessThan)
  also have "\<dots> = card ?A" by (rule card_image [OF inj])
  also have "\<dots> = card (?f ` ?A)"
    by (rule card_image [OF inj_f, symmetric])
  finally show "card ?B \<le> card (?f ` ?A)" by simp
qed

theorem discrete_log_permutation_witness:
  "inj_on (discrete_log 8) {k. unat k < 2 ^ 8} \<and>
   discrete_log 8 ` {k. unat k < 2 ^ 8} = Log ` {r. 1 \<le> unat r \<and> unat r \<le> 2 ^ 8}"
  by (rule discrete_log_permutation) simp_all

section \<open>FNV hashes\<close>

text \<open>
  \<open>fnv1a\<close> reads its input through \<open>const char*\<close>; \<open>char\<close> is signed on the
  supported targets, so a byte is sign-extended to the width of the sum.
\<close>

definition fnv1a_step :: "'a::len word \<Rightarrow> 'a word \<Rightarrow> byte \<Rightarrow> 'a word" where
  "fnv1a_step PRIME s b = (s XOR scast b) * PRIME"

definition fnv1a :: "byte list \<Rightarrow> u64" where
  "fnv1a src = foldl (fnv1a_step 1099511628211) 14695981039346656037 src"

definition fnv1a32 :: "byte list \<Rightarrow> u32" where
  "fnv1a32 src = foldl (fnv1a_step 16777619) 2166136261 src"

definition kFNVOffsetBasis64 :: u64 where "kFNVOffsetBasis64 = 0xCBF29CE484222325"
definition kFNVPrime64 :: u64 where "kFNVPrime64 = 1099511628211"

fun FNVHash64_loop :: "nat \<Rightarrow> u64 \<Rightarrow> u64 \<Rightarrow> u64" where
  "FNVHash64_loop 0 val hash = hash"
| "FNVHash64_loop (Suc i) val hash =
     (let octet = val AND 0x00ff in
      FNVHash64_loop i (drop_bit 8 val) ((hash XOR octet) * kFNVPrime64))"

definition FNVHash64 :: "u64 \<Rightarrow> u64" where
  "FNVHash64 val = FNVHash64_loop 8 val kFNVOffsetBasis64"

definition Hash :: "u64 \<Rightarrow> u64" where
  "Hash val = FNVHash64 val"

lemma octet_eq_ucast: "(w :: u64) AND 0x00ff = ucast (ucast w :: byte)"
proof -
  have "(0xff :: u64) = mask 8" by (simp add: mask_eq_exp_minus_1)
  then show ?thesis by (rule ssubst) (auto intro!: bit_word_eqI simp: bit_simps)
qed

lemma scast_ascii: "b < 0x80 \<Longrightarrow> (scast (b :: byte) :: u64) = ucast b"
proof -
  assume "b < 0x80"
  then have "unat b div 2 ^ 7 = 0" by (simp add: word_less_nat_alt)
  then have "\<not> bit (unat b) 7" by (simp only: bit_iff_odd) simp
  then have "\<not> bit b 7" by (simp add: bit_unsigned_iff)
  then show ?thesis
  proof (intro bit_word_eqI)
    fix n assume "n < LENGTH(64)"
    have "bit b (min 7 n) = bit b n"
    proof (cases "n \<le> 7")
      case False
      then have "\<not> bit b n" using bit_imp_le_length [of b n] by auto
      then show ?thesis using \<open>\<not> bit b 7\<close> False by (simp add: min_def)
    qed (simp add: min_def)
    then show "bit (scast b :: u64) n = bit (ucast b :: u64) n"
      using \<open>n < LENGTH(64)\<close> by (simp add: bit_simps)
  qed
qed

lemma FNVHash64_loop_eq_foldl:
  "FNVHash64_loop n v h = foldl (\<lambda>h b. (h XOR ucast (b :: byte)) * kFNVPrime64) h (le_bytes n v)"
  by (induction n arbitrary: v h) (simp_all add: Let_def octet_eq_ucast)

text \<open>The two implementations agree exactly where sign extension does not show.\<close>

lemma FNVHash64_eq_fnv1a:
  assumes "\<forall>b \<in> set (le_bytes 8 v). b < 0x80"
  shows "FNVHash64 v = fnv1a (le_bytes 8 v)"
proof -
  have "foldl (\<lambda>h b. (h XOR ucast b) * kFNVPrime64) h bs = foldl (fnv1a_step 1099511628211) h bs"
    if "\<forall>b \<in> set bs. b < 0x80" for h and bs :: "byte list"
    using that by (induction bs arbitrary: h) (simp_all add: fnv1a_step_def scast_ascii kFNVPrime64_def)
  then show ?thesis using assms
    by (simp add: FNVHash64_def fnv1a_def FNVHash64_loop_eq_foldl kFNVOffsetBasis64_def)
qed

lemma fnv1a_step_inject:
  assumes "fnv1a_step 1099511628211 s b = (fnv1a_step 1099511628211 s b' :: u64)"
  shows "b = b'"
proof -
  have inv: "(1099511628211 :: u64) * 14886173955864302971 = 1" by simp
  have "s XOR scast b = s XOR scast b'"
  proof (rule odd_mult_cancel [OF inv])
    show "1099511628211 * (s XOR scast b) = 1099511628211 * (s XOR scast b')"
      using assms unfolding fnv1a_step_def by (subst (1 2) mult.commute)
  qed
  moreover have "s XOR (s XOR z) = z" for z by (rule bit_word_eqI) (auto simp: bit_simps)
  ultimately have "(scast b :: u64) = scast b'" by metis
  moreover have "(ucast (scast z :: u64) :: byte) = z" for z :: byte
    by (rule bit_word_eqI) (simp add: bit_simps min_absorb2)
  ultimately show ?thesis by metis
qed

section \<open>Strings\<close>

definition isspace :: "char \<Rightarrow> bool" where
  "isspace c \<longleftrightarrow> (of_char c :: nat) \<in> {9, 10, 11, 12, 13, 32}"

definition tolower :: "char \<Rightarrow> char" where
  "tolower c = (let n = of_char c :: nat in if 65 \<le> n \<and> n \<le> 90 then char_of (n + 32) else c)"

definition Trim :: "string \<Rightarrow> string" where
  "Trim str = (let front = dropWhile isspace str in rev (dropWhile isspace (rev front)))"

definition StrToBool :: "string \<Rightarrow> string + bool" where
  "StrToBool str =
     (let str = List.map tolower str in
      if str = ''true'' \<or> str = ''1'' then Inr True
      else if str = ''false'' \<or> str = ''0'' then Inr False
      else Inl (''Invalid bool string: '' @ str))"

definition RandomPrintChar :: "nat \<Rightarrow> nat" where
  "RandomPrintChar r = r mod 94 + 33"

lemma RandomPrintChar_printable: "33 \<le> RandomPrintChar r \<and> RandomPrintChar r \<le> 126"
proof -
  have "r mod 94 < 94" by simp
  then show ?thesis unfolding RandomPrintChar_def by linarith
qed

lemma Trim_no_outer_space:
  "Trim s = [] \<or> \<not> isspace (hd (Trim s)) \<and> \<not> isspace (last (Trim s))"
proof -
  let ?f = "dropWhile isspace s"
  have *: "\<exists>pre post. ?f = Trim s @ post \<and> (\<forall>c \<in> set post. isspace c)"
  proof -
    have "rev ?f = takeWhile isspace (rev ?f) @ dropWhile isspace (rev ?f)" by simp
    then have "?f = Trim s @ rev (takeWhile isspace (rev ?f))"
      by (metis Trim_def rev_append rev_rev_ident)
    then show ?thesis by (metis set_rev set_takeWhileD)
  qed
  have "\<not> isspace (last (Trim s))" if "Trim s \<noteq> []"
    using that hd_dropWhile [of isspace "rev ?f"] by (simp add: Trim_def last_rev)
  moreover have "\<not> isspace (hd (Trim s))" if "Trim s \<noteq> []"
    using that * hd_dropWhile [of isspace s] by (metis append_is_Nil_conv hd_append2)
  ultimately show ?thesis by blast
qed

text \<open>\<open>split\<close> of \<^verbatim>\<open>benchmark.cpp\<close>: the pieces between delimiters, empty ones dropped.\<close>

function split_loop :: "string \<Rightarrow> string \<Rightarrow> string list" where
  "split_loop delims first =
     (if first = [] then []
      else
        let piece = takeWhile (\<lambda>x. x \<notin> set delims) first;
            second = dropWhile (\<lambda>x. x \<notin> set delims) first;
            out = (if piece = [] then [] else [piece])
        in if second = [] then out else out @ split_loop delims (tl second))"
  by pat_completeness auto
termination
proof (relation "measure (\<lambda>(_, first). length first)", goal_cases)
  case (2 delims first piece second out)
  have "length (tl second) < length second" using 2 by simp
  also have "\<dots> \<le> length first" using 2 by (simp add: length_dropWhile_le)
  finally show ?case by simp
qed simp

declare split_loop.simps [simp del]

definition split :: "string \<Rightarrow> string \<Rightarrow> string list" where
  "split str delims = split_loop delims str"

lemma split_loop_pieces:
  "p \<in> set (split_loop delims s) \<Longrightarrow> p \<noteq> [] \<and> set p \<inter> set delims = {}"
proof (induction delims s rule: split_loop.induct)
  case (1 delims first)
  let ?piece = "takeWhile (\<lambda>x. x \<notin> set delims) first"
  have "set ?piece \<inter> set delims = {}" by (auto dest: set_takeWhileD)
  then show ?case using 1 by (auto simp: split_loop.simps [of delims first] Let_def split: if_splits)
qed

lemma concat_split_loop:
  "concat (split_loop delims s) = filter (\<lambda>x. x \<notin> set delims) s"
proof (induction delims s rule: split_loop.induct)
  case (1 delims first)
  let ?ok = "\<lambda>x. x \<notin> set delims"
  have eq: "filter ?ok first = takeWhile ?ok first @ filter ?ok (tl (dropWhile ?ok first))"
  proof -
    have "filter ?ok (dropWhile ?ok first) = filter ?ok (tl (dropWhile ?ok first))"
    proof (cases "dropWhile ?ok first")
      case (Cons c cs)
      then show ?thesis using hd_dropWhile [of ?ok first] by simp
    qed (simp only: list.sel)
    moreover have "filter ?ok (takeWhile ?ok first) = takeWhile ?ok first"
      by (rule filter_True) (auto dest: set_takeWhileD)
    ultimately show ?thesis
      by (metis filter_append takeWhile_dropWhile_id)
  qed
  show ?case using 1 eq
    by (subst split_loop.simps) (auto simp: Let_def simp del: dropWhile_eq_Nil_conv)
qed

lemma split_correct:
  "concat (split str delims) = filter (\<lambda>x. x \<notin> set delims) str"
  by (simp add: split_def concat_split_loop)

end
