(* ===== verification/Key_Generator.thy ===== *)
theory Key_Generator
  imports Utils
begin

unbundle bit_operations_syntax

text \<open>
  \<^verbatim>\<open>benchmark/include/key_generator.hpp\<close> and \<^verbatim>\<open>benchmark/key_generator.cpp\<close>: the object
  state (\<open>key_generator_t\<close>), the thread-local statics every generator shares (\<open>kg_tls\<close>: the
  key buffer, the sequence counter, the seed and the random engine), the constructor,
  \<open>next\<close> and \<open>hash_id\<close>. The pure virtual \<open>next_id\<close> is an argument of \<open>next\<close>.
  The machine's byte order is the parameter \<open>be\<close>. Undefined behaviour (a buffer overrun, a
  shift by the full width) is \<open>None\<close>.
\<close>

section \<open>State\<close>

definition KEY_MAX :: nat where "KEY_MAX = 128"

record key_generator_t =
  kg_N :: u64
  kg_sz :: nat
  kg_prefix :: "byte list"

record 'g kg_tls =
  kg_buf :: "byte list"
  current_id :: u64
  kg_seed :: u32
  kg_engine :: 'g

text \<open>What a thread starts with: zeroed statics and a default-constructed engine.\<close>

definition kg_tls_init :: "'g \<Rightarrow> 'g kg_tls" where
  "kg_tls_init g = \<lparr>kg_buf = replicate KEY_MAX 0, current_id = 0, kg_seed = 0, kg_engine = g\<rparr>"

section \<open>Operations\<close>

definition key_generator_new ::
  "u64 \<Rightarrow> nat \<Rightarrow> byte list \<Rightarrow> 'g kg_tls \<Rightarrow> (key_generator_t \<times> 'g kg_tls) option" where
  "key_generator_new N sz prefix tls =
     (let buf = replicate KEY_MAX 0 in
      case buf_write buf 0 prefix of
        None \<Rightarrow> None
      | Some buf \<Rightarrow> Some (\<lparr>kg_N = N, kg_sz = sz, kg_prefix = prefix\<rparr>, tls\<lparr>kg_buf := buf\<rparr>))"

definition kg_size :: "key_generator_t \<Rightarrow> nat" where
  "kg_size kg = length (kg_prefix kg) + kg_sz kg"

definition keyspace :: "key_generator_t \<Rightarrow> u64" where
  "keyspace kg = kg_N kg"

definition set_seed :: "(u32 \<Rightarrow> 'g) \<Rightarrow> u32 \<Rightarrow> 'g kg_tls \<Rightarrow> 'g kg_tls" where
  "set_seed engine_seed seed tls = tls\<lparr>kg_seed := seed, kg_engine := engine_seed seed\<rparr>"

definition get_seed :: "'g kg_tls \<Rightarrow> u32" where
  "get_seed tls = kg_seed tls"

definition hash_id :: "bool \<Rightarrow> key_generator_t \<Rightarrow> u64 \<Rightarrow> 'g kg_tls \<Rightarrow> 'g kg_tls option" where
  "hash_id be kg rid tls =
     (let ptr = length (kg_prefix kg);
          hashed_id = multiplicative_hash rid
      in if kg_sz kg < 8 then
           let bits_to_shift = (8 - kg_sz kg) * 8 in
           if 64 \<le> bits_to_shift then None
           else
             let hashed_id =
                   (if is_big_endian be
                    then push_bit bits_to_shift (drop_bit bits_to_shift hashed_id)
                    else drop_bit bits_to_shift (push_bit bits_to_shift hashed_id))
             in map_option (\<lambda>buf. tls\<lparr>kg_buf := buf\<rparr>)
                  (buf_write (kg_buf tls) ptr (take (kg_sz kg) (rep_bytes be 8 hashed_id)))
         else
           let bytes_to_prepend = kg_sz kg - 8;
               cleared = (if 0 < bytes_to_prepend
                          then buf_write (kg_buf tls) ptr (replicate bytes_to_prepend 0)
                          else Some (kg_buf tls));
               ptr = ptr + bytes_to_prepend
           in case cleared of
                None \<Rightarrow> None
              | Some buf \<Rightarrow> map_option (\<lambda>buf. tls\<lparr>kg_buf := buf\<rparr>)
                               (buf_write buf ptr (rep_bytes be 8 hashed_id)))"

definition kg_next ::
  "bool \<Rightarrow> ('g \<Rightarrow> u64 \<times> 'g) \<Rightarrow> key_generator_t \<Rightarrow> bool \<Rightarrow> 'g kg_tls \<Rightarrow> 'g kg_tls option" where
  "kg_next be next_id kg in_sequence tls =
     (if in_sequence then
        let rid = current_id tls + 1 in hash_id be kg rid (tls\<lparr>current_id := rid\<rparr>)
      else
        let (rid, g) = next_id (kg_engine tls) in hash_id be kg rid (tls\<lparr>kg_engine := g\<rparr>))"

text \<open>The bytes a caller reads through the returned pointer: \<open>size()\<close> bytes of \<open>buf_\<close>.\<close>

definition key_bytes :: "key_generator_t \<Rightarrow> 'g kg_tls \<Rightarrow> byte list" where
  "key_bytes kg tls = take (kg_size kg) (kg_buf tls)"

section \<open>What a key looks like\<close>

definition kg_wf :: "key_generator_t \<Rightarrow> 'g kg_tls \<Rightarrow> bool" where
  "kg_wf kg tls \<longleftrightarrow> 1 \<le> kg_sz kg \<and> kg_size kg \<le> KEY_MAX \<and> length (kg_buf tls) = KEY_MAX"

definition id_bytes :: "bool \<Rightarrow> nat \<Rightarrow> u64 \<Rightarrow> byte list" where
  "id_bytes be sz rid =
     (if sz < 8 then take sz (rep_bytes be 8 (multiplicative_hash rid))
      else replicate (sz - 8) 0 @ rep_bytes be 8 (multiplicative_hash rid))"

lemma length_id_bytes [simp]: "length (id_bytes be sz rid) = sz"
  by (simp add: id_bytes_def)

lemma le_bytes_append: "le_bytes (m + n) w = le_bytes m w @ le_bytes n (drop_bit (8 * m) (w :: 'a::len word))"
  by (induction m arbitrary: w) (simp_all add: drop_bit_drop_bit algebra_simps)

lemma take_le_bytes: "m \<le> n \<Longrightarrow> take m (le_bytes n w) = le_bytes m w"
  using le_bytes_append [of m "n - m" w] by simp

lemma drop_le_bytes: "m \<le> n \<Longrightarrow> drop m (le_bytes n w) = le_bytes (n - m) (drop_bit (8 * m) w)"
  using le_bytes_append [of m "n - m" w] by simp

text \<open>Discarding bits keeps exactly the bytes that are copied, in either byte order.\<close>

lemma discarded_bits_not_copied:
  assumes "n < 8"
  shows "take n (rep_bytes be 8 (if be then push_bit ((8 - n) * 8) (drop_bit ((8 - n) * 8) h)
            else drop_bit ((8 - n) * 8) (push_bit ((8 - n) * 8) h)))
         = take n (rep_bytes be 8 (h :: u64))"
proof (cases be)
  case True
  have "drop_bit (8 * (8 - n)) (push_bit ((8 - n) * 8) (drop_bit ((8 - n) * 8) h)) = drop_bit (8 * (8 - n)) h"
    by (rule bit_word_eqI) (auto simp: bit_simps mult.commute dest: bit_imp_le_length)
  then show ?thesis using True assms
    by (simp add: rep_bytes_def take_rev drop_le_bytes mult.commute)
next
  case False
  have "take_bit (8 * n) (drop_bit ((8 - n) * 8) (push_bit ((8 - n) * 8) h)) = take_bit (8 * n) h"
    using assms by (intro bit_word_eqI) (auto simp: bit_simps)
  then show ?thesis using False assms
    by (simp add: rep_bytes_def take_le_bytes le_bytes_eq_iff)
qed

lemma hash_id_eq:
  assumes "kg_wf kg tls"
  shows "hash_id be kg rid tls =
    Some (tls\<lparr>kg_buf := take (length (kg_prefix kg)) (kg_buf tls) @ id_bytes be (kg_sz kg) rid
                        @ drop (kg_size kg) (kg_buf tls)\<rparr>)"
proof (cases "kg_sz kg < 8")
  case True
  then have "\<not> 8 \<le> 8 - kg_sz kg" using assms unfolding kg_wf_def by arith
  then show ?thesis using assms True
    by (simp add: hash_id_def kg_wf_def is_big_endian_correct Let_def discarded_bits_not_copied
        id_bytes_def kg_size_def buf_write_Some KEY_MAX_def)
next
  case False
  then obtain n where n: "kg_sz kg = n + 8" by (metis add.commute le_Suc_ex not_less)
  let ?p = "length (kg_prefix kg)" and ?z = "replicate n (0::byte)"
  have fits: "?p + n + 8 \<le> length (kg_buf tls)" using assms n by (simp add: kg_wf_def kg_size_def)
  have "(if 0 < n then buf_write (kg_buf tls) ?p ?z else Some (kg_buf tls))
      = Some (take ?p (kg_buf tls) @ ?z @ drop (?p + length ?z) (kg_buf tls))"
    using fits by (simp add: buf_write_Some)
  moreover have "buf_write (take ?p (kg_buf tls) @ ?z @ drop (?p + length ?z) (kg_buf tls)) (?p + n)
        (rep_bytes be 8 (multiplicative_hash rid))
      = buf_write (kg_buf tls) ?p (id_bytes be (kg_sz kg) rid)"
    using buf_write_append [of ?p ?z "rep_bytes be 8 (multiplicative_hash rid)" "kg_buf tls"] fits n
    by (simp add: id_bytes_def)
  ultimately show ?thesis
    using fits n by (simp add: hash_id_def Let_def buf_write_Some kg_size_def)
qed

lemma kg_next_sequence_eq:
  assumes "kg_wf kg tls"
  shows "kg_next be next_id kg True tls =
    Some (tls\<lparr>current_id := current_id tls + 1,
              kg_buf := take (length (kg_prefix kg)) (kg_buf tls) @ id_bytes be (kg_sz kg) (current_id tls + 1)
                        @ drop (kg_size kg) (kg_buf tls)\<rparr>)"
proof -
  have "kg_wf kg (tls\<lparr>current_id := current_id tls + 1\<rparr>)" using assms by (simp add: kg_wf_def)
  then show ?thesis by (simp add: kg_next_def Let_def hash_id_eq)
qed

lemma key_bytes_hash_id:
  assumes "kg_wf kg tls" and "hash_id be kg rid tls = Some tls'"
  shows "key_bytes kg tls' = take (length (kg_prefix kg)) (kg_buf tls) @ id_bytes be (kg_sz kg) rid"
  using assms by (auto simp: hash_id_eq key_bytes_def kg_size_def kg_wf_def KEY_MAX_def)

lemma kg_wf_buf [simp]:
  "kg_wf kg tls \<Longrightarrow> length (id_bytes be (kg_sz kg) rid) = kg_sz kg \<Longrightarrow>
   kg_wf kg (tls\<lparr>current_id := c, kg_buf := take (length (kg_prefix kg)) (kg_buf tls)
      @ id_bytes be (kg_sz kg) rid @ drop (kg_size kg) (kg_buf tls)\<rparr>)"
  by (simp add: kg_wf_def kg_size_def)

subsection \<open>Distinctness of keys\<close>

lemma unat_take_bit: "unat (take_bit n w :: 'a::len word) = unat w mod 2 ^ n"
  by (simp add: take_bit_eq_mask unat_and_mask)

lemma take_bit_eq_iff_unat:
  "take_bit n x = take_bit n (y :: 'a::len word) \<longleftrightarrow> unat x mod 2 ^ n = unat y mod 2 ^ n"
  by (metis unat_take_bit word_unat_eq_iff)

lemma unat_ring_mod:
  fixes c x :: "'a::len word"
  assumes "n \<le> LENGTH('a)"
  shows "unat (c * x) mod 2 ^ n = (unat c * (unat x mod 2 ^ n)) mod 2 ^ n"
    and "unat (c + x) mod 2 ^ n = (unat c + unat x mod 2 ^ n) mod 2 ^ n"
proof -
  have dvd: "(2::nat) ^ n dvd 2 ^ LENGTH('a)" by (rule le_imp_power_dvd) (rule assms)
  show "unat (c * x) mod 2 ^ n = (unat c * (unat x mod 2 ^ n)) mod 2 ^ n"
    by (simp add: unat_word_ariths mod_mod_cancel [OF dvd] mod_simps)
  show "unat (c + x) mod 2 ^ n = (unat c + unat x mod 2 ^ n) mod 2 ^ n"
    by (simp add: unat_word_ariths mod_mod_cancel [OF dvd] mod_simps)
qed

lemma take_bit_ring_cong:
  fixes c x y :: "'a::len word"
  assumes "take_bit n x = take_bit n y"
  shows "take_bit n (c * x) = take_bit n (c * y)" and "take_bit n (c + x) = take_bit n (c + y)"
proof -
  consider "n \<le> LENGTH('a)" | "x = y" using assms
    by (cases "n \<le> LENGTH('a)") (auto simp: take_bit_word_eq_self)
  then show "take_bit n (c * x) = take_bit n (c * y)" "take_bit n (c + x) = take_bit n (c + y)"
    using assms by (cases; simp add: take_bit_eq_iff_unat unat_ring_mod)+
qed

lemma take_bit_hash_iff:
  "take_bit n (multiplicative_hash x) = take_bit n (multiplicative_hash y)
     \<longleftrightarrow> take_bit n x = take_bit n y"
proof
  assume "take_bit n (multiplicative_hash x) = take_bit n (multiplicative_hash y)"
  then have "take_bit n (multiplicative_unhash (multiplicative_hash x))
      = take_bit n (multiplicative_unhash (multiplicative_hash y))"
    unfolding multiplicative_unhash_def by (rule take_bit_ring_cong(1))
  then show "take_bit n x = take_bit n y" by (simp only: multiplicative_unhash_hash)
qed (auto simp only: multiplicative_hash_def intro: take_bit_ring_cong(1))

lemma id_bytes_eq_iff:
  "id_bytes False sz x = id_bytes False sz y
     \<longleftrightarrow> take_bit (8 * min sz 8) x = take_bit (8 * min sz 8) y"
  by (cases "sz < 8")
     (simp_all add: id_bytes_def rep_bytes_def take_le_bytes le_bytes_eq_iff take_bit_hash_iff min_def)

lemma id_bytes_wide_eq_iff: "8 \<le> sz \<Longrightarrow> id_bytes be sz x = id_bytes be sz y \<longleftrightarrow> x = y"
  by (simp add: id_bytes_def rep_bytes_eq_iff take_bit_word_eq_self)

text \<open>A run of consecutive record numbers shorter than the key space has distinct keys.\<close>

lemma take_bit_offset_inject:
  fixes c :: u64
  assumes "take_bit n (c + of_nat i) = take_bit n (c + of_nat j)" and "i < 2 ^ n" "j < 2 ^ n" "n \<le> 64"
  shows "i = j"
proof -
  have "take_bit n (- c + (c + of_nat i)) = take_bit n (- c + (c + of_nat j))"
    by (rule take_bit_ring_cong(2)) (rule assms(1))
  then have "take_bit n (of_nat i :: u64) = take_bit n (of_nat j)" by simp
  then have "unat (of_nat i :: u64) mod 2 ^ n = unat (of_nat j :: u64) mod 2 ^ n"
    by (metis unat_take_bit)
  moreover have "(2::nat) ^ n \<le> 2 ^ 64" using assms(4) by (intro power_increasing) auto
  ultimately show ?thesis using assms(2,3) by (simp add: unat_of_nat)
qed

section \<open>Sequences of keys\<close>

text \<open>\<open>n\<close> calls of \<open>next(true)\<close>; each key is read before the next call overwrites it.\<close>

fun kg_sequence ::
  "bool \<Rightarrow> ('g \<Rightarrow> u64 \<times> 'g) \<Rightarrow> key_generator_t \<Rightarrow> nat \<Rightarrow> 'g kg_tls \<Rightarrow> (byte list list \<times> 'g kg_tls) option"
  where
  "kg_sequence be next_id kg 0 tls = Some ([], tls)"
| "kg_sequence be next_id kg (Suc n) tls =
     (case kg_next be next_id kg True tls of
        None \<Rightarrow> None
      | Some tls' \<Rightarrow>
          map_option (\<lambda>(ks, tls''). (key_bytes kg tls' # ks, tls''))
            (kg_sequence be next_id kg n tls'))"

definition seq_key :: "bool \<Rightarrow> key_generator_t \<Rightarrow> byte list \<Rightarrow> u64 \<Rightarrow> byte list" where
  "seq_key be kg pre rid = pre @ id_bytes be (kg_sz kg) rid"

lemma kg_next_sequence_props:
  assumes "kg_wf kg tls" and "kg_next be next_id kg True tls = Some tls'"
  shows "kg_wf kg tls'" and "current_id tls' = current_id tls + 1"
    and "take (length (kg_prefix kg)) (kg_buf tls') = take (length (kg_prefix kg)) (kg_buf tls)"
    and "key_bytes kg tls' = seq_key be kg (take (length (kg_prefix kg)) (kg_buf tls)) (current_id tls + 1)"
    and "kg_engine tls' = kg_engine tls"
  using assms by (auto simp: kg_next_sequence_eq kg_wf_def kg_size_def key_bytes_def seq_key_def)

lemma kg_sequence_eq:
  assumes "kg_wf kg tls"
  shows "\<exists>tls'. kg_sequence be next_id kg n tls =
     Some (List.map (\<lambda>i. seq_key be kg (take (length (kg_prefix kg)) (kg_buf tls))
                        (current_id tls + 1 + of_nat i)) [0..<n], tls')
     \<and> kg_wf kg tls' \<and> current_id tls' = current_id tls + of_nat n \<and> kg_engine tls' = kg_engine tls"
  using assms
proof (induction n arbitrary: tls)
  case (Suc n)
  obtain tls1 where 1: "kg_next be next_id kg True tls = Some tls1"
    using kg_next_sequence_eq [OF Suc.prems] by blast
  note step = kg_next_sequence_props [OF Suc.prems 1]
  have split0: "[0..<Suc n] = 0 # List.map Suc [0..<n]" by (simp add: map_Suc_upt upt_conv_Cons)
  show ?case using Suc.IH [OF step(1)] unfolding split0
    by (auto simp: 1 step o_def algebra_simps)
qed simp

text \<open>
  C30: \<open>next(true)\<close> never repeats a key: a thread that draws \<open>n\<close> keys in sequence gets \<open>n\<close>
  different keys of \<open>size()\<close> bytes, as long as \<open>n\<close> does not exceed the number of keys of that size
  (\<open>2 ^ (8 * size)\<close> below eight bytes), and leaves the random engine alone.
\<close>

theorem kg_sequence_distinct:
  assumes "kg_wf kg tls" and "n \<le> 2 ^ (8 * min (kg_sz kg) 8)"
  shows "\<exists>ks tls'. kg_sequence False next_id kg n tls = Some (ks, tls') \<and> length ks = n \<and> distinct ks
           \<and> (\<forall>k \<in> set ks. length k = kg_size kg)
           \<and> current_id tls' = current_id tls + of_nat n \<and> kg_engine tls' = kg_engine tls"
proof -
  let ?pre = "take (length (kg_prefix kg)) (kg_buf tls)"
  let ?k = "\<lambda>i. seq_key False kg ?pre (current_id tls + 1 + of_nat i)"
  have "inj_on ?k {0..<n}"
  proof (rule inj_onI)
    fix i j assume ij: "i \<in> {0..<n}" "j \<in> {0..<n}" and "?k i = ?k j"
    then have "take_bit (8 * min (kg_sz kg) 8) (current_id tls + 1 + of_nat i)
        = take_bit (8 * min (kg_sz kg) 8) (current_id tls + 1 + of_nat j)"
      by (simp add: seq_key_def id_bytes_eq_iff)
    then show "i = j" by (rule take_bit_offset_inject) (use ij assms(2) in auto)
  qed
  then have "distinct (List.map ?k [0..<n])" by (simp add: distinct_map)
  moreover have "length ?pre = length (kg_prefix kg)" using assms(1) by (simp add: kg_wf_def kg_size_def)
  then have "length (?k i) = kg_size kg" for i by (simp add: seq_key_def kg_size_def)
  ultimately show ?thesis using kg_sequence_eq [OF assms(1), of False next_id n] by fastforce
qed

theorem kg_sequence_distinct_witness:
  "\<exists>ks tls'. kg_sequence False (Pair 7) \<lparr>kg_N = 100, kg_sz = 2, kg_prefix = [65]\<rparr> 1000 (kg_tls_init ())
      = Some (ks, tls') \<and> length ks = 1000 \<and> distinct ks
      \<and> (\<forall>k \<in> set ks. length k = kg_size \<lparr>kg_N = 100, kg_sz = 2, kg_prefix = [65]\<rparr>)
      \<and> current_id tls' = current_id (kg_tls_init ()) + of_nat 1000
      \<and> kg_engine tls' = kg_engine (kg_tls_init ())"
  by (rule kg_sequence_distinct) (simp_all add: kg_wf_def kg_size_def KEY_MAX_def kg_tls_init_def)

text \<open>
  C31: \<open>hash_id\<close> never overruns the key buffer and two record numbers get the same key exactly
  when they agree modulo \<open>2 ^ (8 * min size 8)\<close>, so keys of eight or more bytes never collide.
\<close>

theorem hash_id_key_eq_iff:
  assumes "kg_wf kg tls"
  shows "\<exists>tls1 tls2. hash_id False kg x tls = Some tls1 \<and> hash_id False kg y tls = Some tls2 \<and>
           (key_bytes kg tls1 = key_bytes kg tls2
              \<longleftrightarrow> unat x mod 2 ^ (8 * min (kg_sz kg) 8) = unat y mod 2 ^ (8 * min (kg_sz kg) 8))"
proof -
  obtain tls1 tls2 where h: "hash_id False kg x tls = Some tls1" "hash_id False kg y tls = Some tls2"
    using hash_id_eq [OF assms] by blast
  have "key_bytes kg tls1 = key_bytes kg tls2
          \<longleftrightarrow> id_bytes False (kg_sz kg) x = id_bytes False (kg_sz kg) y"
    by (simp add: key_bytes_hash_id [OF assms h(1)] key_bytes_hash_id [OF assms h(2)])
  then show ?thesis using h by (simp add: id_bytes_eq_iff take_bit_eq_iff_unat)
qed

theorem hash_id_key_eq_iff_witness:
  "\<exists>tls1 tls2. hash_id False \<lparr>kg_N = 9, kg_sz = 1, kg_prefix = []\<rparr> 1 (kg_tls_init ()) = Some tls1 \<and>
     hash_id False \<lparr>kg_N = 9, kg_sz = 1, kg_prefix = []\<rparr> 257 (kg_tls_init ()) = Some tls2 \<and>
     (key_bytes \<lparr>kg_N = 9, kg_sz = 1, kg_prefix = []\<rparr> tls1 = key_bytes \<lparr>kg_N = 9, kg_sz = 1, kg_prefix = []\<rparr> tls2
        \<longleftrightarrow> unat (1 :: u64) mod 2 ^ (8 * min (kg_sz \<lparr>kg_N = 9, kg_sz = 1, kg_prefix = []\<rparr>) 8)
            = unat (257 :: u64) mod 2 ^ (8 * min (kg_sz \<lparr>kg_N = 9, kg_sz = 1, kg_prefix = []\<rparr>) 8))"
  by (rule hash_id_key_eq_iff) (simp add: kg_wf_def kg_size_def KEY_MAX_def kg_tls_init_def)

text \<open>
  the constructor writes the prefix into the constructing thread's buffer only. A key drawn
  there starts with the prefix; the same record number in any other thread gets a key that starts
  with that many zero bytes instead.
\<close>

theorem prefix_only_in_constructing_thread:
  assumes "1 \<le> sz" and "length prefix + sz \<le> KEY_MAX"
  shows "\<exists>kg main main' worker'. key_generator_new N sz prefix tls = Some (kg, main) \<and>
           hash_id be kg rid main = Some main' \<and> hash_id be kg rid (kg_tls_init g) = Some worker' \<and>
           key_bytes kg main' = prefix @ id_bytes be sz rid \<and>
           key_bytes kg worker' = replicate (length prefix) 0 @ id_bytes be sz rid"
proof -
  define kg where "kg = \<lparr>kg_N = N, kg_sz = sz, kg_prefix = prefix\<rparr>"
  define main where "main = tls\<lparr>kg_buf := prefix @ drop (length prefix) (replicate KEY_MAX 0)\<rparr>"
  have new: "key_generator_new N sz prefix tls = Some (kg, main)"
    using assms(2) by (simp add: key_generator_new_def buf_write_def kg_def main_def)
  have wf: "kg_wf kg main" "kg_wf kg (kg_tls_init g)"
    using assms by (simp_all add: kg_wf_def kg_size_def kg_def main_def kg_tls_init_def)
  obtain main' worker' where h: "hash_id be kg rid main = Some main'"
      "hash_id be kg rid (kg_tls_init g) = Some worker'"
    using hash_id_eq [OF wf(1)] hash_id_eq [OF wf(2)] by blast
  have "key_bytes kg main' = prefix @ id_bytes be sz rid"
    using key_bytes_hash_id [OF wf(1) h(1)] by (simp add: kg_def main_def)
  moreover have "key_bytes kg worker' = replicate (length prefix) 0 @ id_bytes be sz rid"
    using key_bytes_hash_id [OF wf(2) h(2)] assms(2) by (simp add: kg_def kg_tls_init_def min_def)
  ultimately show ?thesis using new h by blast
qed

theorem prefix_only_in_constructing_thread_witness:
  "\<exists>kg main main' worker'. key_generator_new 9 8 [65, 66] (kg_tls_init ()) = Some (kg, main) \<and>
     hash_id False kg 1 main = Some main' \<and> hash_id False kg 1 (kg_tls_init ()) = Some worker' \<and>
     key_bytes kg main' = [65, 66] @ id_bytes False 8 1 \<and>
     key_bytes kg worker' = replicate (length [65 :: byte, 66]) 0 @ id_bytes False 8 1"
  by (rule prefix_only_in_constructing_thread) (simp_all add: KEY_MAX_def)

end
