(* ===== verification/Distributions.thy ===== *)
theory Distributions
  imports Complex_Main Utils
begin

unbundle bit_operations_syntax

text \<open>
  The skewed integer distributions: \<^verbatim>\<open>zipfian_int_distribution.hpp\<close>,
  \<^verbatim>\<open>selfsimilar_int_distribution.hpp\<close> and the YCSB generators under
  \<^verbatim>\<open>benchmark/include/ycsb/\<close>. A \<open>double\<close> is a real number (rounding is not modelled), the
  conversion of a non-negative \<open>double\<close> to an integer is \<open>floor\<close>, and the uniform variate
  drawn from the engine is an argument \<open>u\<close> of the definition that draws it; the standard
  library promises \<open>0 \<le> u < 1\<close>.
\<close>

declare of_nat_unat [simp del]

section \<open>Zeta\<close>

text \<open>The loop of both \<open>zeta\<close> functions, from the item after \<open>last_num\<close> up to \<open>cur_num\<close>.\<close>

fun zeta_loop :: "real \<Rightarrow> nat \<Rightarrow> nat \<Rightarrow> real \<Rightarrow> real" where
  "zeta_loop theta i 0 ans = ans"
| "zeta_loop theta i (Suc n) ans = zeta_loop theta (Suc i) n (ans + (1 / real i) powr theta)"

definition zeta :: "nat \<Rightarrow> real \<Rightarrow> real" where
  "zeta n theta = zeta_loop theta 1 n 0"

lemma zeta_loop_sum: "zeta_loop theta i n ans = ans + (\<Sum>k = i..<i + n. (1 / real k) powr theta)"
proof (induction n arbitrary: i ans)
  case (Suc n)
  have "{i..<i + Suc n} = insert i {Suc i..<Suc i + n}" by auto
  then show ?case by (simp add: Suc.IH)
qed simp

lemma zeta_sum: "zeta n theta = (\<Sum>k = 1..n. (1 / real k) powr theta)"
proof -
  have "{1..<1 + n} = {1..n}" by auto
  then show ?thesis by (simp add: zeta_def zeta_loop_sum)
qed

lemma zeta_mono: "m \<le> n \<Longrightarrow> zeta m theta \<le> zeta n theta"
  unfolding zeta_sum by (rule sum_mono2) auto

lemma zeta_1 [simp]: "zeta (Suc 0) theta = 1" and zeta_2: "zeta 2 theta = 1 + (1 / 2) powr theta"
proof -
  have "{1..2::nat} = {1, 2}" by auto
  then show "zeta (Suc 0) theta = 1" "zeta 2 theta = 1 + (1 / 2) powr theta" by (simp_all add: zeta_sum)
qed

lemma zeta_pos: "0 < n \<Longrightarrow> 1 \<le> zeta n theta"
  using zeta_mono [of "Suc 0" n theta] by simp

lemma zeta_gt_zeta2: "2 < n \<Longrightarrow> zeta 2 theta < zeta n theta"
proof -
  assume n: "2 < n"
  have "{1..3::nat} = insert 3 {1..2}" by auto
  then have "zeta 3 theta = zeta 2 theta + (1 / 3) powr theta" by (simp add: zeta_sum)
  moreover have "zeta 3 theta \<le> zeta n theta" using n by (intro zeta_mono) simp
  moreover have "0 < (1 / 3 :: real) powr theta" by simp
  ultimately show ?thesis by linarith
qed

section \<open>\<open>zipfian_int_distribution\<close>\<close>

record zipf_param =
  zp_a :: u64
  zp_b :: u64
  zp_theta :: real
  zp_zeta :: real
  zp_zeta2theta :: real

text \<open>The constructor; \<open>None\<close> is its assertion.\<close>

definition zipf_param_new :: "u64 \<Rightarrow> u64 \<Rightarrow> real \<Rightarrow> zipf_param option" where
  "zipf_param_new a b theta =
     (if a \<le> b \<and> theta > 0 \<and> theta < 1
      then Some \<lparr>zp_a = a, zp_b = b, zp_theta = theta,
                 zp_zeta = zeta (unat (b - a + 1)) theta, zp_zeta2theta = zeta 2 theta\<rparr>
      else None)"

definition zipf_eta :: "real \<Rightarrow> real \<Rightarrow> real \<Rightarrow> real \<Rightarrow> real" where
  "zipf_eta items theta zeta2 zetan = (1 - (2 / items) powr (1 - theta)) / (1 - zeta2 / zetan)"

definition zipf_draw :: "zipf_param \<Rightarrow> real \<Rightarrow> u64" where
  "zipf_draw p u =
     (let n = real (unat (zp_b p - zp_a p + 1));
          alpha = 1 / (1 - zp_theta p);
          eta = zipf_eta n (zp_theta p) (zp_zeta2theta p) (zp_zeta p);
          uz = u * zp_zeta p
      in if uz < 1 then zp_a p
         else if uz < 1 + (1 / 2) powr (zp_theta p) then zp_a p + 1
         else of_nat (nat \<lfloor>real (unat (zp_a p)) + n * (eta * u - eta + 1) powr alpha\<rfloor>))"

text \<open>
  The tail of the Zipf formula: a variate beyond the first two ranks gives a relative rank that
  is at least \<open>2 / items\<close> and below 1.
\<close>

lemma zipf_tail_bounds:
  fixes items theta zetan u :: real
  assumes theta: "0 < theta" "theta < 1" and items: "2 < items"
    and zn: "zeta 2 theta < zetan" and u: "u < 1" "zeta 2 theta \<le> u * zetan"
  defines "eta \<equiv> zipf_eta items theta (zeta 2 theta) zetan"
  shows "2 / items \<le> (eta * u - eta + 1) powr (1 / (1 - theta))"
    and "(eta * u - eta + 1) powr (1 / (1 - theta)) < 1"
proof -
  let ?x = "eta * u - eta + 1"
  have z2: "1 \<le> zeta 2 theta" by (rule zeta_pos) simp
  have q: "zeta 2 theta / zetan < 1" "zeta 2 theta / zetan \<le> u"
    using zn z2 u by (simp_all add: divide_simps)
  have pw: "0 < (2 / items) powr (1 - theta)" "(2 / items) powr (1 - theta) < 1"
    using items theta powr_less_mono2 [of "1 - theta" "2 / items" 1] by simp_all
  then have eta: "0 < eta" unfolding eta_def zipf_eta_def using q by simp
  have "eta * (1 - u) \<le> eta * (1 - zeta 2 theta / zetan)" using eta q by simp
  also have "\<dots> = 1 - (2 / items) powr (1 - theta)" unfolding eta_def zipf_eta_def using q zn by auto
  finally have lo: "(2 / items) powr (1 - theta) \<le> ?x" by (simp add: algebra_simps)
  then have x0: "0 \<le> ?x" using pw(1) by linarith
  have hi: "?x < 1" using eta u by (simp add: algebra_simps)
  have "?x powr (1 / (1 - theta)) < 1 powr (1 / (1 - theta))"
    by (rule powr_less_mono2) (use x0 hi theta in auto)
  then show "?x powr (1 / (1 - theta)) < 1" by simp
  have "((2 / items) powr (1 - theta)) powr (1 / (1 - theta)) \<le> ?x powr (1 / (1 - theta))"
    by (rule powr_mono2) (use lo pw theta in auto)
  then show "2 / items \<le> ?x powr (1 / (1 - theta))" using theta items by (simp add: powr_powr)
qed

lemma domain_size:
  assumes "a \<le> (b :: u64)" and "a \<noteq> 0"
  shows "unat (b - a + 1) = unat b - unat a + 1"
proof -
  have ab: "unat a \<le> unat b" "0 < unat a" using assms by (simp_all add: word_le_nat_alt unat_gt_0)
  have d: "unat (b - a) = unat b - unat a" using ab by (simp add: unat_sub word_le_nat_alt)
  have "unat b < 2 ^ 64" by (rule unat_lt64)
  then have "unat b - unat a + 1 < 2 ^ 64" using ab by linarith
  then show ?thesis by (simp add: unat_word_ariths d)
qed

text \<open>Converting a rank to an item: adding the lower bound and truncating stays in the range.\<close>

lemma floor_offset:
  fixes a :: u64
  assumes "0 \<le> x" and "x < real n" and "unat a + n \<le> 2 ^ 64"
  shows "unat (of_nat (nat \<lfloor>real (unat a) + x\<rfloor>) :: u64) = unat a + nat \<lfloor>x\<rfloor>"
    and "nat \<lfloor>x\<rfloor> < n"
proof -
  have x0: "0 \<le> \<lfloor>x\<rfloor>" using assms(1) by simp
  have "\<lfloor>real (unat a) + x\<rfloor> = int (unat a) + \<lfloor>x\<rfloor>"
    by (metis int_add_floor of_int_of_nat_eq)
  then have fl: "nat \<lfloor>real (unat a) + x\<rfloor> = unat a + nat \<lfloor>x\<rfloor>" using x0 by (simp add: nat_add_distrib)
  have "\<lfloor>x\<rfloor> < int n" using assms(2) by (simp add: floor_less_iff)
  then show hi: "nat \<lfloor>x\<rfloor> < n" using x0 by linarith
  then have "unat a + nat \<lfloor>x\<rfloor> < 2 ^ 64" using assms(3) by linarith
  then show "unat (of_nat (nat \<lfloor>real (unat a) + x\<rfloor>) :: u64) = unat a + nat \<lfloor>x\<rfloor>"
    unfolding fl by (simp only: unat_of_nat) simp
qed

lemma floor_item:
  assumes "a \<le> (b :: u64)" and "a \<noteq> 0" and "real lo \<le> x" and "x < real (unat (b - a + 1))"
  shows "unat (of_nat (nat \<lfloor>real (unat a) + x\<rfloor>) :: u64) = unat a + nat \<lfloor>x\<rfloor>"
    and "lo \<le> nat \<lfloor>x\<rfloor>" and "unat a + nat \<lfloor>x\<rfloor> \<le> unat b"
proof -
  have ab: "unat a \<le> unat b" using assms(1) by (simp add: word_le_nat_alt)
  have room: "unat a + unat (b - a + 1) \<le> 2 ^ 64"
    using domain_size [OF assms(1,2)] ab unat_lt64 [of b] by linarith
  have x: "0 \<le> x" using assms(3) by (meson of_nat_0_le_iff order_trans)
  show "unat (of_nat (nat \<lfloor>real (unat a) + x\<rfloor>) :: u64) = unat a + nat \<lfloor>x\<rfloor>"
    by (rule floor_offset(1) [OF x assms(4) room])
  show "lo \<le> nat \<lfloor>x\<rfloor>" using assms(3) by (simp add: le_nat_floor)
  show "unat a + nat \<lfloor>x\<rfloor> \<le> unat b"
    using floor_offset(2) [OF x assms(4) room] domain_size [OF assms(1,2)] ab by linarith
qed

lemma zipf_draw_cases:
  assumes p: "zipf_param_new a b theta = Some p" and a: "a \<noteq> 0" and u: "0 \<le> u" "u < 1"
  shows "if u * zp_zeta p < 1 then zipf_draw p u = a
         else if u * zp_zeta p < zeta 2 theta then zipf_draw p u = a + 1 \<and> a < b
         else unat a + 2 \<le> unat (zipf_draw p u) \<and> unat (zipf_draw p u) \<le> unat b"
proof -
  define n where "n = unat (b - a + 1)"
  have p_def: "p = \<lparr>zp_a = a, zp_b = b, zp_theta = theta, zp_zeta = zeta n theta,
                     zp_zeta2theta = zeta 2 theta\<rparr>"
    and ab: "a \<le> b" and theta: "0 < theta" "theta < 1"
    using p by (auto simp: zipf_param_new_def n_def split: if_splits)
  have n: "n = unat b - unat a + 1" unfolding n_def by (rule domain_size [OF ab a])
  have nz: "1 \<le> zeta n theta" by (rule zeta_pos) (simp add: n)
  have uz: "u * zeta n theta < zeta n theta" using u nz by simp
  consider "u * zeta n theta < 1" | "1 \<le> u * zeta n theta" "u * zeta n theta < zeta 2 theta"
    | "zeta 2 theta \<le> u * zeta n theta" using zeta_pos [of 2 theta] by linarith
  then show ?thesis
  proof cases
    case 2
    then have "n \<noteq> 1" using uz by auto
    then have "a < b" using n ab by (auto simp: word_less_nat_alt word_le_nat_alt)
    then show ?thesis using 2 by (simp add: p_def zipf_draw_def Let_def zeta_2)
  next
    case 3
    then have zn: "zeta 2 theta < zeta n theta" using uz by linarith
    then have "2 < n" using zeta_mono [of n 2 theta] by (meson not_less)
    then have "2 < real n" by simp
    let ?x = "(\<lambda>eta. real n * (eta * u - eta + 1) powr (1 / (1 - theta)))
                (zipf_eta (real n) theta (zeta 2 theta) (zeta n theta))"
    have x: "real 2 \<le> ?x" "?x < real (unat (b - a + 1))"
      using zipf_tail_bounds [OF theta \<open>2 < real n\<close> zn u(2) 3] \<open>2 < real n\<close>
      unfolding n_def [symmetric] by (simp_all add: field_simps)
    have "1 \<le> u * zeta n theta" using 3 zeta_pos [of 2 theta] by linarith
    then show ?thesis
      using 3 floor_item [OF ab a x] by (simp add: p_def zipf_draw_def Let_def zeta_2 n_def [symmetric])
  qed (simp add: p_def zipf_draw_def)
qed



section \<open>\<open>selfsimilar_int_distribution\<close>\<close>

record selfsimilar_param =
  sp_a :: u64
  sp_b :: u64
  sp_skew :: real

definition selfsimilar_param_new :: "u64 \<Rightarrow> u64 \<Rightarrow> real \<Rightarrow> selfsimilar_param option" where
  "selfsimilar_param_new a b skew =
     (if a \<le> b \<and> skew > 0 \<and> skew < 1
      then Some \<lparr>sp_a = a, sp_b = b, sp_skew = skew\<rparr> else None)"

definition selfsimilar_draw :: "selfsimilar_param \<Rightarrow> real \<Rightarrow> u64" where
  "selfsimilar_draw p u =
     (let N = real (unat (sp_b p - sp_a p + 1)) in
      of_nat (nat \<lfloor>real (unat (sp_a p)) + N * u powr (ln (sp_skew p) / ln (1 - sp_skew p))\<rfloor>))"

lemma selfsimilar_exponent:
  assumes "0 < s" "s < (1::real)"
  shows "0 < ln s / ln (1 - s)" and "(1 - s) powr (ln s / ln (1 - s)) = s"
proof -
  have "ln s < 0" "ln (1 - s) < 0" using assms by simp_all
  then show "0 < ln s / ln (1 - s)" by (rule divide_neg_neg)
  have "(1 - s) powr (ln s / ln (1 - s)) = exp (ln s / ln (1 - s) * ln (1 - s))"
    using assms by (simp add: powr_def)
  also have "\<dots> = s" using assms \<open>ln (1 - s) < 0\<close> by simp
  finally show "(1 - s) powr (ln s / ln (1 - s)) = s" .
qed

lemma zipf_draw_in_interval:
  assumes "zipf_param_new a b theta = Some p" "a \<noteq> 0" "0 \<le> u" "u < 1"
  shows "a \<le> zipf_draw p u \<and> zipf_draw p u \<le> b"
proof -
  have "a \<le> b" using assms(1) by (simp add: zipf_param_new_def split: if_splits)
  moreover have "unat (a + 1) = unat a + 1" if "a < b"
    using that unat_lt64 [of b] by (simp add: unat_word_ariths word_less_nat_alt)
  ultimately show ?thesis using zipf_draw_cases [OF assms]
    by (auto simp: word_le_nat_alt word_less_nat_alt split: if_splits)
qed

lemma selfsimilar_rank:
  assumes skew: "0 < skew" "skew < 1" and u: "0 \<le> u" "u < (1::real)" and n: "0 < (n::nat)"
  shows "real 0 \<le> real n * u powr (ln skew / ln (1 - skew))"
    and "real n * u powr (ln skew / ln (1 - skew)) < real n"
proof -
  have "u powr (ln skew / ln (1 - skew)) < 1 powr (ln skew / ln (1 - skew))"
    using u selfsimilar_exponent(1) [OF skew] by (intro powr_less_mono2) auto
  then show "real n * u powr (ln skew / ln (1 - skew)) < real n" using n by simp
qed simp

lemma selfsimilar_draw_in_interval:
  assumes "selfsimilar_param_new a b skew = Some p" "a \<noteq> 0" "0 \<le> u" "u < 1"
  shows "a \<le> selfsimilar_draw p u \<and> selfsimilar_draw p u \<le> b"
proof -
  have p: "p = \<lparr>sp_a = a, sp_b = b, sp_skew = skew\<rparr>" "a \<le> b" "0 < skew" "skew < 1"
    using assms(1) by (auto simp: selfsimilar_param_new_def split: if_splits)
  have n: "0 < unat (b - a + 1)" by (simp add: domain_size [OF p(2) assms(2)])
  show ?thesis
    using floor_item [OF p(2) assms(2) selfsimilar_rank [OF p(3,4) assms(3,4) n]]
    by (simp add: p(1) selfsimilar_draw_def word_le_nat_alt)
qed

text \<open>
  a self-similar draw lies in \<open>[a, b]\<close>, and the documented skew holds: when \<open>skew\<close> of the
  \<open>N\<close> items is a whole number \<open>m\<close>, one of the first \<open>m\<close> items is drawn exactly for the variates
  below \<open>1 - skew\<close>.
\<close>

theorem selfsimilar_draw_range:
  assumes p: "selfsimilar_param_new a b skew = Some p" and a: "a \<noteq> 0" and u: "0 \<le> u" "u < 1"
    and m: "real m = skew * real (unat (b - a + 1))"
  shows "a \<le> selfsimilar_draw p u \<and> selfsimilar_draw p u \<le> b \<and>
         (unat (selfsimilar_draw p u) < unat a + m \<longleftrightarrow> u < 1 - skew)"
proof -
  define n where "n = unat (b - a + 1)"
  have p_def: "p = \<lparr>sp_a = a, sp_b = b, sp_skew = skew\<rparr>" and ab: "a \<le> b"
    and skew: "0 < skew" "skew < 1"
    using p by (auto simp: selfsimilar_param_new_def split: if_splits)
  let ?e = "ln skew / ln (1 - skew)"
  note e = selfsimilar_exponent [OF skew]
  have n: "0 < n" unfolding n_def by (simp add: domain_size [OF ab a])
  have "u powr ?e < 1 powr ?e" using u e(1) by (intro powr_less_mono2) auto
  then have x: "real 0 \<le> real n * u powr ?e" "real n * u powr ?e < real (unat (b - a + 1))"
    using n unfolding n_def [symmetric] by simp_all
  have draw: "selfsimilar_draw p u = of_nat (nat \<lfloor>real (unat a) + real n * u powr ?e\<rfloor>)"
    by (simp add: p_def selfsimilar_draw_def n_def)
  note item = floor_item [OF ab a x]
  have "u < 1 - skew \<longleftrightarrow> u powr ?e < (1 - skew) powr ?e"
    using u skew e(1) powr_less_mono2 [of ?e u "1 - skew"] powr_mono2 [of ?e "1 - skew" u]
    by (metis diff_ge_0_iff_ge less_imp_le not_less)
  also have "\<dots> \<longleftrightarrow> real n * u powr ?e < real m"
    using n by (simp add: e(2) m n_def [symmetric] mult.commute)
  also have "\<dots> \<longleftrightarrow> nat \<lfloor>real n * u powr ?e\<rfloor> < m"
    using x(1) by (simp add: nat_less_iff floor_less_iff)
  finally show ?thesis using item(1,3) by (simp add: draw word_le_nat_alt)
qed

theorem selfsimilar_draw_range_witness:
  "\<exists>p. selfsimilar_param_new 1 10 (1 / 5) = Some p \<and>
     (1 \<le> selfsimilar_draw p (1 / 2) \<and> selfsimilar_draw p (1 / 2) \<le> 10 \<and>
       (unat (selfsimilar_draw p (1 / 2)) < unat (1 :: u64) + 2 \<longleftrightarrow> 1 / 2 < 1 - (1 / 5 :: real)))"
proof -
  obtain p where "selfsimilar_param_new 1 10 (1 / 5) = Some p" by (simp add: selfsimilar_param_new_def)
  then show ?thesis using selfsimilar_draw_range [of 1 10 "1 / 5" p "1 / 2" 2] by auto
qed

section \<open>YCSB generators\<close>

subsection \<open>\<open>CounterGenerator\<close>\<close>

definition Counter_Next :: "u64 \<Rightarrow> u64 \<times> u64" where
  "Counter_Next counter = (counter, counter + 1)"

definition Counter_Last :: "u64 \<Rightarrow> u64" where
  "Counter_Last counter = counter - 1"

subsection \<open>\<open>ZipfianGenerator\<close>\<close>

definition kMaxNumItems :: u64 where "kMaxNumItems = drop_bit 24 (- 1)"

record zipfian_generator =
  zg_items :: u64
  zg_base :: u64
  zg_theta :: real
  zg_zeta_n :: real
  zg_eta :: real
  zg_alpha :: real
  zg_zeta2 :: real
  zg_count_for_zeta :: u64
  zg_last_value :: u64

definition zg_Eta :: "zipfian_generator \<Rightarrow> real" where
  "zg_Eta g = zipf_eta (real (unat (zg_items g))) (zg_theta g) (zg_zeta2 g) (zg_zeta_n g)"

definition zg_Zeta :: "u64 \<Rightarrow> u64 \<Rightarrow> real \<Rightarrow> real \<Rightarrow> real" where
  "zg_Zeta last_num cur_num th last_zeta =
     zeta_loop th (unat last_num + 1) (unat cur_num - unat last_num) last_zeta"

text \<open>\<open>Next(num)\<close> with the uniform variate \<open>u\<close>; \<open>None\<close> is its assertion.\<close>

definition zg_Next :: "u64 \<Rightarrow> real \<Rightarrow> zipfian_generator \<Rightarrow> (u64 \<times> zipfian_generator) option" where
  "zg_Next num u g =
     (if \<not> (2 \<le> num \<and> num < kMaxNumItems) then None
      else
        let g = (if num \<noteq> zg_count_for_zeta g \<and> num > zg_count_for_zeta g
                 then let g = g\<lparr>zg_zeta_n := zg_Zeta (zg_count_for_zeta g) num (zg_theta g) (zg_zeta_n g),
                                zg_count_for_zeta := num\<rparr>
                      in g\<lparr>zg_eta := zg_Eta g\<rparr>
                 else g);
            uz = u * zg_zeta_n g;
            v = (if uz < 1 then zg_base g
                 else if uz < 1 + (1 / 2) powr zg_theta g then zg_base g + 1
                 else of_nat (nat \<lfloor>real (unat (zg_base g))
                        + real (unat num) * (zg_eta g * u - zg_eta g + 1) powr zg_alpha g\<rfloor>))
        in Some (v, g\<lparr>zg_last_value := v\<rparr>))"

definition zg_new :: "u64 \<Rightarrow> u64 \<Rightarrow> real \<Rightarrow> real \<Rightarrow> real \<Rightarrow> zipfian_generator option" where
  "zg_new mn mx zipfian_const zeta_n0 u =
     (let n = mx - mn + 1 in
      if \<not> (2 \<le> n \<and> n < kMaxNumItems) then None
      else
        let g = \<lparr>zg_items = n, zg_base = mn, zg_theta = zipfian_const, zg_zeta_n = zeta_n0, zg_eta = 0,
                 zg_alpha = 1 / (1 - zipfian_const), zg_zeta2 = zg_Zeta 0 2 zipfian_const 0,
                 zg_count_for_zeta = n, zg_last_value = 0\<rparr>
        in map_option snd (zg_Next n u (g\<lparr>zg_eta := zg_Eta g\<rparr>)))"

definition zg_new_range :: "u64 \<Rightarrow> u64 \<Rightarrow> real \<Rightarrow> real \<Rightarrow> zipfian_generator option" where
  "zg_new_range mn mx zipfian_const u =
     zg_new mn mx zipfian_const (zg_Zeta 0 (mx - mn + 1) zipfian_const 0) u"

definition kZipfianConst :: real where "kZipfianConst = 99 / 100"

definition zg_new_items :: "u64 \<Rightarrow> real \<Rightarrow> zipfian_generator option" where
  "zg_new_items num_items u = zg_new_range 0 (num_items - 1) kZipfianConst u"

definition zg_Last :: "zipfian_generator \<Rightarrow> u64" where
  "zg_Last g = zg_last_value g"

definition zg_inv :: "zipfian_generator \<Rightarrow> bool" where
  "zg_inv g \<longleftrightarrow> 0 < zg_theta g \<and> zg_theta g < 1 \<and> 2 \<le> unat (zg_items g) \<and> zg_items g \<le> zg_count_for_zeta g \<and>
     zg_alpha g = 1 / (1 - zg_theta g) \<and> zg_zeta2 g = zeta 2 (zg_theta g) \<and>
     zg_zeta_n g = zeta (unat (zg_count_for_zeta g)) (zg_theta g) \<and> zg_eta g = zg_Eta g"

lemma zg_Zeta_extends:
  assumes "unat m \<le> unat n"
  shows "zg_Zeta m n th (zeta (unat m) th) = zeta (unat n) th"
proof -
  have "{1..unat n} = {1..unat m} \<union> {unat m + 1..<unat m + 1 + (unat n - unat m)}" using assms by auto
  moreover have "{1..unat m} \<inter> {unat m + 1..<unat m + 1 + (unat n - unat m)} = {}" by auto
  ultimately show ?thesis
    by (simp add: zg_Zeta_def zeta_loop_sum zeta_sum sum.union_disjoint)
qed

lemma zg_Zeta_from_0: "zg_Zeta 0 n th 0 = zeta (unat n) th"
  using zg_Zeta_extends [of 0 n th] by (simp add: zeta_sum)

text \<open>The generator with the zeta value brought up to date for \<open>num\<close> zg_items.\<close>

definition zg_refresh :: "u64 \<Rightarrow> zipfian_generator \<Rightarrow> zipfian_generator" where
  "zg_refresh num g =
     (if num > zg_count_for_zeta g
      then g\<lparr>zg_zeta_n := zeta (unat num) (zg_theta g), zg_count_for_zeta := num,
             zg_eta := zipf_eta (real (unat (zg_items g))) (zg_theta g) (zg_zeta2 g) (zeta (unat num) (zg_theta g))\<rparr>
      else g)"

lemma zg_refresh_inv: "zg_inv g \<Longrightarrow> zg_inv (zg_refresh num g)"
  by (auto simp: zg_inv_def zg_refresh_def zg_Eta_def)

lemma zg_refresh_fields [simp]:
  "zg_items (zg_refresh num g) = zg_items g" "zg_base (zg_refresh num g) = zg_base g"
  "zg_count_for_zeta (zg_refresh num g) = max (zg_count_for_zeta g) num"
  by (auto simp: zg_refresh_def max_def)

lemma zg_Next_unfold:
  assumes "zg_inv g" "2 \<le> num" "num < kMaxNumItems"
  shows "zg_Next num u g =
    (let g = zg_refresh num g; uz = u * zg_zeta_n g;
         v = (if uz < 1 then zg_base g
              else if uz < 1 + (1 / 2) powr zg_theta g then zg_base g + 1
              else of_nat (nat \<lfloor>real (unat (zg_base g))
                     + real (unat num) * (zg_eta g * u - zg_eta g + 1) powr zg_alpha g\<rfloor>))
     in Some (v, g\<lparr>zg_last_value := v\<rparr>))"
proof -
  have "zg_Zeta (zg_count_for_zeta g) num (zg_theta g) (zg_zeta_n g) = zeta (unat num) (zg_theta g)"
    if "zg_count_for_zeta g < num"
    using assms(1) that zg_Zeta_extends [of "zg_count_for_zeta g" num "zg_theta g"]
    by (simp add: zg_inv_def word_less_nat_alt)
  then show ?thesis using assms
    by (simp add: zg_Next_def zg_refresh_def zg_Eta_def Let_def)
qed

lemma zg_relative_rank:
  assumes inv: "zg_inv g" and u: "0 \<le> u" "u < 1" and tail: "zeta 2 (zg_theta g) \<le> u * zg_zeta_n g"
    and grow: "3 \<le> unat (zg_items g) \<or> zg_count_for_zeta g = zg_items g"
  shows "0 \<le> (zg_eta g * u - zg_eta g + 1) powr zg_alpha g"
    and "(zg_eta g * u - zg_eta g + 1) powr zg_alpha g < 1"
proof -
  note I = inv [unfolded zg_inv_def]
  have "1 \<le> zg_zeta_n g" using zeta_pos [of "unat (zg_count_for_zeta g)" "zg_theta g"] I
    by (simp add: word_le_nat_alt)
  then have zn: "zeta 2 (zg_theta g) < zg_zeta_n g"
    using tail u mult_strict_right_mono [of u 1 "zg_zeta_n g"] by linarith
  then have "2 < unat (zg_count_for_zeta g)"
    using zeta_mono [of "unat (zg_count_for_zeta g)" 2 "zg_theta g"] I by (metis not_less)
  then have "2 < real (unat (zg_items g))" using grow by auto
  then show "(zg_eta g * u - zg_eta g + 1) powr zg_alpha g < 1"
    using zipf_tail_bounds(2) [of "zg_theta g" "real (unat (zg_items g))", OF _ _ _ zn u(2) tail] I
    by (simp add: zg_Eta_def)
qed simp

lemma zg_Next_correct:
  assumes inv: "zg_inv g" and num: "2 \<le> num" "num < kMaxNumItems" and u: "0 \<le> u" "u < 1"
    and room: "unat (zg_base g) + unat num \<le> 2 ^ 64"
    and grow: "3 \<le> unat (zg_items g) \<or> zg_count_for_zeta g = zg_items g \<and> num = zg_items g"
  shows "\<exists>v g'. zg_Next num u g = Some (v, g') \<and> zg_inv g' \<and> zg_base g \<le> v \<and>
           unat v < unat (zg_base g) + unat num \<and> zg_Last g' = v \<and>
           zg_items g' = zg_items g \<and> zg_base g' = zg_base g \<and>
           zg_count_for_zeta g' = max (zg_count_for_zeta g) num"
proof -
  define r where "r = zg_refresh num g"
  have r: "zg_inv r" unfolding r_def by (rule zg_refresh_inv [OF inv])
  let ?x = "real (unat num) * (zg_eta r * u - zg_eta r + 1) powr zg_alpha r"
  define v where "v = (if u * zg_zeta_n r < 1 then zg_base r
      else if u * zg_zeta_n r < 1 + (1 / 2) powr zg_theta r then zg_base r + 1
      else of_nat (nat \<lfloor>real (unat (zg_base r)) + ?x\<rfloor>))"
  have eq: "zg_Next num u g = Some (v, r\<lparr>zg_last_value := v\<rparr>)"
    unfolding zg_Next_unfold [OF inv num] by (simp add: Let_def v_def r_def)
  have n2: "2 \<le> unat num" using num(1) by (simp add: word_le_nat_alt)
  have b: "zg_base r = zg_base g" by (simp add: r_def)
  have "unat (zg_base g) \<le> unat v \<and> unat v < unat (zg_base g) + unat num"
  proof (cases "u * zg_zeta_n r < 1 + (1 / 2) powr zg_theta r")
    case True
    have "unat (zg_base g + 1) = unat (zg_base g) + 1" using room n2 by (simp add: unat_word_ariths)
    then show ?thesis using True n2 by (simp add: v_def b)
  next
    case False
    then have tail: "zeta 2 (zg_theta r) \<le> u * zg_zeta_n r" by (simp add: zeta_2)
    then have "1 \<le> u * zg_zeta_n r" using zeta_pos [of 2 "zg_theta r"] by linarith
    then have v: "v = of_nat (nat \<lfloor>real (unat (zg_base r)) + ?x\<rfloor>)" using False by (simp add: v_def)
    have "3 \<le> unat (zg_items r) \<or> zg_count_for_zeta r = zg_items r" using grow by (auto simp: r_def)
    note rank = zg_relative_rank [OF r u tail this]
    have "0 \<le> ?x" "?x < real (unat num)" using rank n2 by simp_all
    moreover have "unat (zg_base r) + unat num \<le> 2 ^ 64" using room by (simp only: b)
    ultimately show ?thesis using floor_offset [of ?x "unat num" "zg_base r"] unfolding v b by simp
  qed
  then show ?thesis using r
    by (auto simp: eq zg_Last_def r_def word_le_nat_alt zg_inv_def zg_Eta_def)
qed

lemma zg_new_inv:
  assumes "2 \<le> mx - mn + 1" "mx - mn + 1 < kMaxNumItems" "0 < c" "c < 1" "0 \<le> u" "u < 1"
    and "unat mn + unat (mx - mn + 1) \<le> 2 ^ 64"
  shows "\<exists>g. zg_new_range mn mx c u = Some g \<and> zg_inv g \<and> zg_items g = mx - mn + 1 \<and>
             zg_base g = mn \<and> zg_count_for_zeta g = mx - mn + 1"
proof -
  let ?n = "mx - mn + 1"
  define g0 where "g0 = \<lparr>zg_items = ?n, zg_base = mn, zg_theta = c, zg_zeta_n = zeta (unat ?n) c,
    zg_eta = 0, zg_alpha = 1 / (1 - c), zg_zeta2 = zeta 2 c, zg_count_for_zeta = ?n, zg_last_value = 0\<rparr>"
  define g1 where "g1 = g0\<lparr>zg_eta := zg_Eta g0\<rparr>"
  have inv: "zg_inv g1" using assms by (simp add: zg_inv_def g0_def g1_def zg_Eta_def word_le_nat_alt)
  have new: "zg_new_range mn mx c u = map_option snd (zg_Next ?n u g1)"
    using assms(1,2) by (simp add: zg_new_range_def zg_new_def zg_Zeta_from_0 g0_def g1_def Let_def)
  have f: "zg_items g1 = ?n" "zg_base g1 = mn" "zg_count_for_zeta g1 = ?n" by (simp_all add: g0_def g1_def)
  show ?thesis
    using zg_Next_correct [OF inv assms(1,2,5,6)] assms(7) by (auto simp: new f)
qed

subsection \<open>\<open>SkewedLatestGenerator\<close>\<close>

record skewed_latest =
  sl_zipfian :: zipfian_generator
  sl_last :: u64

text \<open>The counter is a reference held by the owner, so it is an argument here.\<close>

definition sl_Next :: "u64 \<Rightarrow> real \<Rightarrow> skewed_latest \<Rightarrow> (u64 \<times> skewed_latest) option" where
  "sl_Next counter u g =
     (let mx = Counter_Last counter in
      case zg_Next mx u (sl_zipfian g) of
        None \<Rightarrow> None
      | Some (z, zg) \<Rightarrow> let v = mx - z in Some (v, \<lparr>sl_zipfian = zg, sl_last = v\<rparr>))"

definition sl_new :: "u64 \<Rightarrow> real \<Rightarrow> real \<Rightarrow> skewed_latest option" where
  "sl_new counter u0 u1 =
     (case zg_new_items (Counter_Last counter) u0 of
        None \<Rightarrow> None
      | Some zg \<Rightarrow> map_option snd (sl_Next counter u1 \<lparr>sl_zipfian = zg, sl_last = 0\<rparr>))"

definition sl_Last :: "skewed_latest \<Rightarrow> u64" where
  "sl_Last g = sl_last g"

definition sl_inv :: "u64 \<Rightarrow> skewed_latest \<Rightarrow> bool" where
  "sl_inv counter g \<longleftrightarrow> zg_inv (sl_zipfian g) \<and> zg_base (sl_zipfian g) = 0 \<and>
     zg_items (sl_zipfian g) = Counter_Last counter \<and>
     zg_count_for_zeta (sl_zipfian g) = Counter_Last counter"

lemma sl_Next_correct:
  assumes inv: "sl_inv counter g" and n: "2 \<le> Counter_Last counter" "Counter_Last counter < kMaxNumItems"
    and u: "0 \<le> u" "u < 1"
  shows "\<exists>v g'. sl_Next counter u g = Some (v, g') \<and> sl_inv counter g' \<and> 1 \<le> v \<and>
           v \<le> Counter_Last counter \<and> sl_Last g' = v"
proof -
  let ?m = "Counter_Last counter"
  note I = inv [unfolded sl_inv_def]
  obtain z zg where z: "zg_Next ?m u (sl_zipfian g) = Some (z, zg)" "zg_inv zg" "unat z < unat ?m"
      "zg_items zg = ?m" "zg_base zg = 0" "zg_count_for_zeta zg = ?m"
    using zg_Next_correct [of "sl_zipfian g" ?m u] I n u unat_lt64 [of ?m] by auto
  have "unat (?m - z) = unat ?m - unat z" using z(3) by (simp add: unat_sub word_le_nat_alt)
  then have "1 \<le> ?m - z" "?m - z \<le> ?m" using z(3) by (simp_all add: word_le_nat_alt)
  then show ?thesis using z by (simp add: sl_Next_def Let_def sl_inv_def sl_Last_def)
qed

lemma sl_new_inv:
  assumes "2 \<le> Counter_Last counter" "Counter_Last counter < kMaxNumItems"
    and "0 \<le> u0" "u0 < 1" "0 \<le> u1" "u1 < 1"
  shows "\<exists>g. sl_new counter u0 u1 = Some g \<and> sl_inv counter g"
proof -
  let ?m = "Counter_Last counter"
  obtain zg where zg: "zg_new_items ?m u0 = Some zg" "zg_inv zg" "zg_items zg = ?m" "zg_base zg = 0"
      "zg_count_for_zeta zg = ?m"
    using zg_new_inv [of "?m - 1" 0 kZipfianConst u0] assms unat_lt64 [of ?m]
    by (auto simp: zg_new_items_def kZipfianConst_def)
  then have "sl_inv counter \<lparr>sl_zipfian = zg, sl_last = 0\<rparr>" by (simp add: sl_inv_def)
  from sl_Next_correct [OF this assms(1,2,5,6)] show ?thesis by (auto simp: sl_new_def zg)
qed

text \<open>A generator after any number of draws, each with its own variate.\<close>

fun sl_draws :: "u64 \<Rightarrow> real list \<Rightarrow> skewed_latest \<Rightarrow> u64 list option" where
  "sl_draws counter [] g = Some []"
| "sl_draws counter (u # us) g =
     (case sl_Next counter u g of
        None \<Rightarrow> None
      | Some (v, g') \<Rightarrow> map_option (Cons v) (sl_draws counter us g'))"

lemma sl_draws_range:
  assumes "sl_inv counter g" "2 \<le> Counter_Last counter" "Counter_Last counter < kMaxNumItems"
    and "\<forall>u \<in> set us. 0 \<le> u \<and> u < 1"
  shows "\<exists>vs. sl_draws counter us g = Some vs \<and> length vs = length us \<and>
             (\<forall>v \<in> set vs. 1 \<le> v \<and> v \<le> Counter_Last counter)"
  using assms
proof (induction us arbitrary: g)
  case (Cons u us)
  then obtain v g' where "sl_Next counter u g = Some (v, g')" "sl_inv counter g'" "1 \<le> v"
      "v \<le> Counter_Last counter" using sl_Next_correct [of counter g u] by auto
  then show ?case using Cons by fastforce
qed simp

end
