(* ===== verification/Generators.thy ===== *)
theory Generators
  imports Key_Generator Distributions
begin

unbundle bit_operations_syntax

text \<open>
  The workload generators of the benchmark: the operation mix
  (\<^verbatim>\<open>operation_generator.hpp\<close>), the value pool (\<^verbatim>\<open>value_generator.hpp\<close>), the record-number
  sources of the four key generators (\<^verbatim>\<open>key_generator.hpp\<close>), and the remaining YCSB
  generators. What the standard library draws is an argument (\<open>pick\<close> for
  \<open>std::discrete_distribution\<close>, \<open>uniform\<close> for \<open>std::uniform_int_distribution\<close>,
  \<open>canonical\<close> for \<open>std::generate_canonical\<close>), and the predicates below state the ranges the
  standard promises for them.
\<close>

section \<open>Contracts of the standard library's distributions\<close>

definition pick_ok :: "(real list \<Rightarrow> 'g \<Rightarrow> nat \<times> 'g) \<Rightarrow> bool" where
  "pick_ok pick \<longleftrightarrow> (\<forall>ws g. (\<exists>w \<in> set ws. 0 < w) \<longrightarrow>
     fst (pick ws g) < length ws \<and> 0 < ws ! fst (pick ws g))"

definition uniform_ok :: "(nat \<Rightarrow> nat \<Rightarrow> 'g \<Rightarrow> nat \<times> 'g) \<Rightarrow> bool" where
  "uniform_ok uniform \<longleftrightarrow> (\<forall>a b g. a \<le> b \<longrightarrow> a \<le> fst (uniform a b g) \<and> fst (uniform a b g) \<le> b)"

definition canonical_ok :: "('g \<Rightarrow> real \<times> 'g) \<Rightarrow> bool" where
  "canonical_ok canonical \<longleftrightarrow> (\<forall>g. 0 \<le> fst (canonical g) \<and> fst (canonical g) < 1)"

section \<open>\<open>operation_generator_t\<close>\<close>

text \<open>\<open>Unknown\<close> is a value of the underlying type without an enumerator.\<close>

datatype operation_t = READ | INSERT | UPDATE | REMOVE | SCAN | Unknown byte

definition operation_of :: "byte \<Rightarrow> operation_t" where
  "operation_of b =
     (if b = 0 then READ else if b = 1 then INSERT else if b = 2 then UPDATE
      else if b = 3 then REMOVE else if b = 4 then SCAN else Unknown b)"

record operation_generator_t =
  ops :: "operation_t list"

fun fill_ops :: "('g \<Rightarrow> nat \<times> 'g) \<Rightarrow> nat \<Rightarrow> 'g \<Rightarrow> operation_t list" where
  "fill_ops op_weights 0 g = []"
| "fill_ops op_weights (Suc n) g =
     (let (i, g') = op_weights g in operation_of (of_nat i) # fill_ops op_weights n g')"

definition operation_generator_new ::
  "(real list \<Rightarrow> 'g \<Rightarrow> nat \<times> 'g) \<Rightarrow> 'g \<Rightarrow> real \<Rightarrow> real \<Rightarrow> real \<Rightarrow> real \<Rightarrow> real \<Rightarrow> operation_generator_t"
  where
  "operation_generator_new pick gen r ins upd rem scn =
     \<lparr>ops = fill_ops (pick [r, ins, upd, rem, scn]) 256 gen\<rparr>"

text \<open>\<open>next\<close>, given the 32-bit variate the uniform distribution returned.\<close>

definition op_next :: "operation_generator_t \<Rightarrow> u32 \<Rightarrow> operation_t" where
  "op_next og draw = ops og ! unat (draw AND 0xff)"

definition op_set_seed :: "(u32 \<Rightarrow> 'g) \<Rightarrow> u32 \<Rightarrow> u32 \<times> 'g" where
  "op_set_seed engine_seed seed = (seed, engine_seed seed)"

fun ratio_of :: "real \<Rightarrow> real \<Rightarrow> real \<Rightarrow> real \<Rightarrow> real \<Rightarrow> operation_t \<Rightarrow> real" where
  "ratio_of r i u d s READ = r"
| "ratio_of r i u d s INSERT = i"
| "ratio_of r i u d s UPDATE = u"
| "ratio_of r i u d s REMOVE = d"
| "ratio_of r i u d s SCAN = s"
| "ratio_of r i u d s (Unknown _) = 0"

lemma length_fill_ops [simp]: "length (fill_ops f n g) = n"
  by (induction n arbitrary: g) (simp_all add: split_beta Let_def)

lemma unat_and_ff: "unat (w AND 0xff :: u32) < 256"
proof -
  have "(0xff :: u32) = mask 8" by (simp add: mask_eq_exp_minus_1)
  then have "unat (w AND 0xff) = unat w mod 2 ^ 8" by (simp only: unat_and_mask)
  then show ?thesis by simp
qed

lemma ratio_of_index:
  assumes "i < 5"
  shows "ratio_of r ins u d s (operation_of (of_nat i)) = [r, ins, u, d, s] ! i"
proof -
  have "i = 0 \<or> i = 1 \<or> i = 2 \<or> i = 3 \<or> i = 4" using assms by linarith
  then show ?thesis by (elim disjE) (simp_all add: operation_of_def)
qed

lemma fill_ops_ratio:
  assumes "\<And>g. fst (f g) < 5 \<and> 0 < [r, ins, u, d, s] ! fst (f g)" and "op \<in> set (fill_ops f n g)"
  shows "0 < ratio_of r ins u d s op"
  using assms(2)
proof (induction n arbitrary: g)
  case (Suc n)
  then show ?case using assms(1) [of g] by (auto simp: split_beta Let_def ratio_of_index)
qed simp

text \<open>
  every operation the benchmark draws has a positive ratio in the requested mix: \<open>next\<close>
  never indexes outside the 256-entry table, never returns a value without an enumerator, and
  an operation whose ratio is 0 is never generated.
\<close>

theorem op_next_positive_ratio:
  assumes "pick_ok pick" and "\<exists>w \<in> {r, ins, upd, rem, scn}. 0 < w"
  shows "0 < ratio_of r ins upd rem scn
               (op_next (operation_generator_new pick gen r ins upd rem scn) draw)"
proof -
  let ?ws = "[r, ins, upd, rem, scn]"
  let ?ops = "fill_ops (pick ?ws) 256 gen"
  have "fst (pick ?ws g) < 5 \<and> 0 < ?ws ! fst (pick ?ws g)" for g
  proof -
    have "\<exists>w \<in> set ?ws. 0 < w" using assms(2) by simp
    then have "fst (pick ?ws g) < length ?ws \<and> 0 < ?ws ! fst (pick ?ws g)"
      using assms(1) unfolding pick_ok_def by blast
    then show ?thesis by simp
  qed
  moreover have "?ops ! unat (draw AND 0xff) \<in> set ?ops" using unat_and_ff [of draw] by (intro nth_mem) simp
  ultimately show ?thesis
    using fill_ops_ratio [of "pick ?ws"] by (simp add: op_next_def operation_generator_new_def)
qed

section \<open>\<open>value_generator_t\<close>\<close>

definition VALUE_MAX :: nat where "VALUE_MAX = 1024"

definition VALUE_POOL :: string where
  "VALUE_POOL =
     ''NvhE8N7yR26f4bbpMJnUKgHncH6QbsI10HyxlvYHKFiMk5nPNDbueF2xKLzteSd0NazU2APkJWXvBW2oUu8dkZnWMMu37G8TH2qm'' @
     ''S0c8A9z41pxrC6ZU79OnfCZ06DsNXWY3U4dt1JTGQVvylBdZSlHWXC4PokCxsMdjv8xRptFMMQyHZRqMhNDnrsGKA12DEr7Zur0n'' @
     ''tZpsyreMmPwuw7WMRnoN5wAYWtkqDwXyQlYb4RgtSc4xsonpTx2UhIUi15oJTx1CXAhmECacCQfntFnrSZt5qs1L64eeJ9Utus0N'' @
     ''mKgEFV8qYDsNtJ21TkjCyCDhVIATkEugCw1BfNIB9AZDGiqXc0llp4rlJPl4bIG2QC4La3M1oh3yGlZTmdvN5pj1sIGkolpdoYVJ'' @
     ''0NZM9KAo1d5sGFv9yGC7X0CTDOqyRu5c4NPktU70NbKqWNXa1kcaigIfeAuvJBs0Wso2osHzOjrbawgpfBPs1ePaWHgw7vbOcu9v'' @
     ''Cqz1GnmdQw4mGSo4cc6tebQuKqLkQHuXa1MdRmzinBRoGQBQehqrDmmfNhcxfozcU7hOTjFAjryJ4HdSK57gOlrte5sZlvDW9rFd'' @
     ''4OxG6WtFdZomRQPTNc4D9t7smqBR9EYDSjiAAqmIgZUiycHrlv6JQzEiexjqfGUbo8oJV6wiu7l3Jlfb94uByDxoexkMT5AjJzls'' @
     ''er1dc9EfQz88q5Hv00g53Q3H6jcgicoY8YW5K4josd2e53ikesQi2kzqvTI9xxM5wtFexkFm8wFdMs6YmNpvNgTf37Hz204wX1Sf'' @
     ''djFmCYEcP533LYcGB7CslEVMPYRZXHBT98XKtt8RqES7HBW65xSJRSj3qhIDUsgeu2Flo4YqS68QoE69JzyBnwmmYw6uulVLVIAe'' @
     ''iLl49oUhEiEjem8RrHPpEvrUoLDWwMdh14MfxwmEQbtGnUHEpRktUB6b7JTJN8OHBlLrvr71TkRK728ZgRv32rMZJ46O17qHTYc4'' @
     ''AepNCGbpTII0J05OYiush6hiDo6H5pVHVUWy3nm7BBrBzEHVOCBMHNniw4CIzfavGLaUfgjlBg0D4JBmYmkg0A4maCXsE9QTnGbA'' @
     ''fQErGZkdMnRxXJ5EJ627e7zuFuVtazb0L65B3nU5R9tyUl2bTZiDcakK9evrTXoTkbkGjkCOiMSThGFScb6Lsgvl5wNCzlUZCxof'' @
     ''jYQCLusRkXEm0CNVuifTnytctwLfKjwob4hJ0WxlQN9FV9Mm9zT61EQ8zEMrqr6hf7XMqhcQR7DWAaf1fM4oNLIA7ZdKaspUaU6h'' @
     ''oP2w3t3MktVaBp6MgS6Apbkb7EsihETHHqKFkKMCkYBbKfgsq7Jy49T1Wx2UJsD3XX03kVBbqRWmryYoMIqiCTCTqa0jIKzqQEnN'' @ [CHR 0x00]"

record value_generator_t =
  vg_size :: u32
  vg_upper :: nat

definition value_generator_new :: "u32 \<Rightarrow> value_generator_t" where
  "value_generator_new sz = \<lparr>vg_size = sz, vg_upper = unat (of_nat (length VALUE_POOL) - ucast sz :: u64)\<rparr>"

text \<open>\<open>next\<close> returns the position in the pool the pointer stands for.\<close>

definition vg_next :: "(nat \<Rightarrow> nat \<Rightarrow> 'g \<Rightarrow> nat \<times> 'g) \<Rightarrow> value_generator_t \<Rightarrow> 'g \<Rightarrow> nat \<times> 'g" where
  "vg_next uniform vg gen = uniform 0 (vg_upper vg) gen"

definition value_bytes :: "nat \<Rightarrow> nat \<Rightarrow> string" where
  "value_bytes pos sz = take sz (drop pos VALUE_POOL)"

lemma length_VALUE_POOL: "length VALUE_POOL = 1401"
  by (simp add: VALUE_POOL_def)

lemma value_generator_upper:
  assumes "unat sz \<le> VALUE_MAX"
  shows "vg_upper (value_generator_new sz) = 1401 - unat sz"
proof -
  have u: "unat (ucast sz :: u64) = unat sz" by (rule unat_ucast_widen) simp
  have "unat (1401 - ucast sz :: u64) = 1401 - unat sz"
    using assms u by (simp add: unat_sub word_le_nat_alt VALUE_MAX_def)
  then show ?thesis by (simp add: value_generator_new_def length_VALUE_POOL)
qed

lemma value_in_pool:
  assumes "uniform_ok uniform" and "unat sz \<le> VALUE_MAX"
  shows "fst (vg_next uniform (value_generator_new sz) gen) + unat sz \<le> length VALUE_POOL"
    and "length (value_bytes (fst (vg_next uniform (value_generator_new sz) gen)) (unat sz)) = unat sz"
proof -
  have "fst (vg_next uniform (value_generator_new sz) gen) \<le> 1401 - unat sz"
    using assms(1) by (simp add: vg_next_def value_generator_upper [OF assms(2)] uniform_ok_def)
  moreover have "unat sz \<le> 1401" using assms(2) by (simp add: VALUE_MAX_def)
  ultimately show *: "fst (vg_next uniform (value_generator_new sz) gen) + unat sz \<le> length VALUE_POOL"
    by (simp add: length_VALUE_POOL)
  then show "length (value_bytes (fst (vg_next uniform (value_generator_new sz) gen)) (unat sz)) = unat sz"
    by (simp add: value_bytes_def)
qed

text \<open>
  A value handed to the store always lies inside the pool: \<open>next\<close> of a generator for an
  accepted value size points at a position with \<open>size\<close> bytes of the pool behind it, so exactly
  \<open>size\<close> bytes are read.
\<close>

theorem vg_next_in_pool:
  assumes "uniform_ok uniform" and "unat sz \<le> VALUE_MAX"
  shows "fst (vg_next uniform (value_generator_new sz) gen) + unat sz \<le> length VALUE_POOL \<and>
         length (value_bytes (fst (vg_next uniform (value_generator_new sz) gen)) (unat sz)) = unat sz"
  using value_in_pool [OF assms] by blast

theorem vg_next_in_pool_witness:
  "fst (vg_next (\<lambda>a b (g :: nat). (a + g mod (b - a + 1), g + 1)) (value_generator_new 200) 5000) + unat (200 :: u32)
      \<le> length VALUE_POOL \<and>
   length (value_bytes (fst (vg_next (\<lambda>a b (g :: nat). (a + g mod (b - a + 1), g + 1)) (value_generator_new 200) 5000))
      (unat (200 :: u32))) = unat (200 :: u32)"
proof (rule vg_next_in_pool)
  have "a + g mod (b - a + 1) \<le> b" if "a \<le> b" for a b g :: nat
    using mod_less_divisor [of "b - a + 1" g] that by linarith
  then show "uniform_ok (\<lambda>a b (g :: nat). (a + g mod (b - a + 1), g + 1))"
    by (simp add: uniform_ok_def)
qed (simp add: VALUE_MAX_def)

text \<open>A sampler that satisfies \<open>pick_ok\<close>: the first index with a positive weight.\<close>

fun first_positive :: "real list \<Rightarrow> nat" where
  "first_positive [] = 0"
| "first_positive (w # ws) = (if 0 < w then 0 else Suc (first_positive ws))"

lemma first_positive_ok:
  "\<exists>w \<in> set ws. 0 < w \<Longrightarrow> first_positive ws < length ws \<and> 0 < ws ! first_positive ws"
  by (induction ws) auto

theorem op_next_positive_ratio_witness:
  "0 < ratio_of 0 1 0 0 0 (op_next (operation_generator_new (\<lambda>ws (g :: unit). (first_positive ws, g)) ()
        0 1 0 0 0) 77)"
  by (rule op_next_positive_ratio) (simp_all add: pick_ok_def first_positive_ok)

section \<open>Record numbers of the key generators\<close>

text \<open>
  \<open>next_id\<close> of the four subclasses. Three draw from the shared engine; the \<open>latest\<close> generator
  keeps a counter and a \<open>SkewedLatestGenerator\<close> and draws from the YCSB helper's own
  thread-local engine.
\<close>

definition uniform_next_id :: "(nat \<Rightarrow> nat \<Rightarrow> 'g \<Rightarrow> nat \<times> 'g) \<Rightarrow> u64 \<Rightarrow> 'g \<Rightarrow> u64 \<times> 'g" where
  "uniform_next_id uniform N g = apfst of_nat (uniform 1 (unat N) g)"

definition selfsimilar_next_id :: "('g \<Rightarrow> real \<times> 'g) \<Rightarrow> selfsimilar_param \<Rightarrow> 'g \<Rightarrow> u64 \<times> 'g" where
  "selfsimilar_next_id canonical p g = apfst (selfsimilar_draw p) (canonical g)"

definition zipfian_next_id :: "('g \<Rightarrow> real \<times> 'g) \<Rightarrow> zipf_param \<Rightarrow> 'g \<Rightarrow> u64 \<times> 'g" where
  "zipfian_next_id canonical p g = apfst (zipf_draw p) (canonical g)"

record latest_generator_t =
  lg_counter :: u64
  lg_gen :: skewed_latest

text \<open>The initialiser passes \<open>size\<close>, the key size in bytes, to the counter.\<close>

definition latest_generator_new :: "u64 \<Rightarrow> u64 \<Rightarrow> real \<Rightarrow> real \<Rightarrow> latest_generator_t option" where
  "latest_generator_new N sz u0 u1 =
     map_option (\<lambda>g. \<lparr>lg_counter = sz, lg_gen = g\<rparr>) (sl_new sz u0 u1)"

definition latest_next_id :: "real \<Rightarrow> latest_generator_t \<Rightarrow> (u64 \<times> latest_generator_t) option" where
  "latest_next_id u lg =
     (case sl_Next (lg_counter lg) u (lg_gen lg) of
        None \<Rightarrow> None
      | Some (v, g) \<Rightarrow> Some (v, lg\<lparr>lg_gen := g\<rparr>))"

text \<open>
  the uniform, self-similar and Zipfian key generators draw record numbers in
  \<open>[1, N]\<close> only, so a read never asks for a record outside the key space.
\<close>

theorem next_id_in_key_space:
  assumes "uniform_ok uniform" and "canonical_ok canonical" and "N \<noteq> 0"
    and "selfsimilar_param_new 1 N skew1 = Some sp" and "zipf_param_new 1 N skew2 = Some zp"
  shows "1 \<le> fst (uniform_next_id uniform N g) \<and> fst (uniform_next_id uniform N g) \<le> N \<and>
         1 \<le> fst (selfsimilar_next_id canonical sp h) \<and> fst (selfsimilar_next_id canonical sp h) \<le> N \<and>
         1 \<le> fst (zipfian_next_id canonical zp h) \<and> fst (zipfian_next_id canonical zp h) \<le> N"
proof -
  have u: "0 \<le> fst (canonical h)" "fst (canonical h) < 1" using assms(2) by (simp_all add: canonical_ok_def)
  have "0 < unat N" using assms(3) by (simp add: unat_gt_0)
  then have v: "1 \<le> fst (uniform 1 (unat N) g)" "fst (uniform 1 (unat N) g) \<le> unat N"
    using assms(1) unfolding uniform_ok_def by (metis Suc_leI One_nat_def)+
  then have "fst (uniform 1 (unat N) g) < 2 ^ 64" using unat_lt64 [of N] by linarith
  then have "unat (of_nat (fst (uniform 1 (unat N) g)) :: u64) = fst (uniform 1 (unat N) g)"
    by (simp add: unat_of_nat)
  then have "1 \<le> (of_nat (fst (uniform 1 (unat N) g)) :: u64) \<and> of_nat (fst (uniform 1 (unat N) g)) \<le> N"
    using v by (simp add: word_le_nat_alt)
  then show ?thesis
    using zipf_draw_in_interval [OF assms(5) _ u] selfsimilar_draw_in_interval [OF assms(4) _ u]
    by (simp add: uniform_next_id_def selfsimilar_next_id_def zipfian_next_id_def)
qed

text \<open>A minimal sampler and variate source that meet the contracts.\<close>

theorem next_id_in_key_space_witness:
  "\<exists>sp zp. selfsimilar_param_new 1 1000 (1 / 5) = Some sp \<and> zipf_param_new 1 1000 (1 / 2) = Some zp \<and>
     (1 \<le> fst (uniform_next_id (\<lambda>a b (g :: unit). (b, g)) 1000 ()) \<and>
      fst (uniform_next_id (\<lambda>a b (g :: unit). (b, g)) 1000 ()) \<le> 1000 \<and>
      1 \<le> fst (selfsimilar_next_id (Pair (1 / 2)) sp ()) \<and> fst (selfsimilar_next_id (Pair (1 / 2)) sp ()) \<le> 1000 \<and>
      1 \<le> fst (zipfian_next_id (Pair (1 / 2)) zp ()) \<and> fst (zipfian_next_id (Pair (1 / 2)) zp ()) \<le> 1000)"
proof -
  obtain sp zp where p: "selfsimilar_param_new 1 1000 (1 / 5) = Some sp" "zipf_param_new 1 1000 (1 / 2) = Some zp"
    by (simp add: selfsimilar_param_new_def zipf_param_new_def)
  have "uniform_ok (\<lambda>a b (g :: unit). (b, g))" "canonical_ok (Pair (1 / 2) :: unit \<Rightarrow> real \<times> unit)"
    by (simp_all add: uniform_ok_def canonical_ok_def)
  from next_id_in_key_space [OF this _ p] p show ?thesis by (intro exI conjI) auto
qed

text \<open>
  the \<open>latest\<close> generator ignores the size of the key space: whatever \<open>N\<close> is, it only ever
  draws record numbers from \<open>1\<close> to \<open>size - 1\<close>, where \<open>size\<close> is the key size in bytes.
\<close>

theorem latest_ignores_key_space:
  assumes "3 \<le> sz" and "sz - 1 < kMaxNumItems" and "0 \<le> u0" "u0 < 1" "0 \<le> u1" "u1 < 1" "0 \<le> u" "u < 1"
  shows "\<exists>lg v lg'. latest_generator_new N sz u0 u1 = Some lg \<and> latest_next_id u lg = Some (v, lg') \<and>
           1 \<le> v \<and> v \<le> sz - 1"
proof -
  have "unat (sz - 1) = unat sz - 1" using assms(1) by (simp add: unat_sub word_le_nat_alt)
  then have n: "2 \<le> Counter_Last sz" "Counter_Last sz < kMaxNumItems"
    using assms(1,2) by (simp_all add: Counter_Last_def word_le_nat_alt)
  obtain g where g: "sl_new sz u0 u1 = Some g" "sl_inv sz g"
    using sl_new_inv [OF n assms(3-6)] by blast
  obtain v g' where "sl_Next sz u g = Some (v, g')" "1 \<le> v" "v \<le> Counter_Last sz"
    using sl_Next_correct [OF g(2) n assms(7,8)] by blast
  then show ?thesis using g(1) by (simp add: latest_generator_new_def latest_next_id_def Counter_Last_def)
qed

theorem latest_ignores_key_space_witness:
  "\<exists>lg v lg'. latest_generator_new 1000000 8 0 0 = Some lg \<and> latest_next_id (1 / 2) lg = Some (v, lg') \<and>
     1 \<le> v \<and> v \<le> 8 - 1"
  by (rule latest_ignores_key_space) (simp_all add: kMaxNumItems_def mask_eq_exp_minus_1)

section \<open>The remaining YCSB generators\<close>

subsection \<open>\<open>DiscreteGenerator\<close>\<close>

record 'v discrete_generator =
  dg_values :: "('v \<times> real) list"
  dg_sum :: real
  dg_last :: "'v option"

definition dg_new :: "'v discrete_generator" where
  "dg_new = \<lparr>dg_values = [], dg_sum = 0, dg_last = None\<rparr>"

definition AddValue :: "'v \<Rightarrow> real \<Rightarrow> 'v discrete_generator \<Rightarrow> 'v discrete_generator" where
  "AddValue v weight dg =
     (let dg = (if dg_values dg = [] then dg\<lparr>dg_last := Some v\<rparr> else dg) in
      dg\<lparr>dg_values := dg_values dg @ [(v, weight)], dg_sum := dg_sum dg + weight\<rparr>)"

fun dg_choose :: "real \<Rightarrow> ('v \<times> real) list \<Rightarrow> real \<Rightarrow> 'v option" where
  "dg_choose tot [] chooser = None"
| "dg_choose tot (p # ps) chooser =
     (if chooser < snd p / tot then Some (fst p) else dg_choose tot ps (chooser - snd p / tot))"

text \<open>\<open>None\<close> is the assertion after the loop.\<close>

definition dg_Next :: "real \<Rightarrow> 'v discrete_generator \<Rightarrow> ('v \<times> 'v discrete_generator) option" where
  "dg_Next u dg =
     map_option (\<lambda>v. (v, dg\<lparr>dg_last := Some v\<rparr>)) (dg_choose (dg_sum dg) (dg_values dg) u)"

definition dg_inv :: "'v discrete_generator \<Rightarrow> bool" where
  "dg_inv dg \<longleftrightarrow> dg_sum dg = sum_list (List.map snd (dg_values dg)) \<and> (\<forall>(v, w) \<in> set (dg_values dg). 0 \<le> w)"

lemma dg_new_inv: "dg_inv dg_new"
  by (simp add: dg_inv_def dg_new_def)

lemma AddValue_inv: "dg_inv dg \<Longrightarrow> 0 \<le> w \<Longrightarrow> dg_inv (AddValue v w dg)"
  by (auto simp: dg_inv_def AddValue_def Let_def)

lemma dg_choose_hits:
  assumes "0 \<le> c" "c < sum_list (List.map snd ps) / tot" "0 < tot" "\<forall>(v, w) \<in> set ps. 0 \<le> w"
  shows "\<exists>v w. dg_choose tot ps c = Some v \<and> (v, w) \<in> set ps \<and> 0 < w"
  using assms
proof (induction ps arbitrary: c)
  case (Cons p ps)
  obtain v w where p: "p = (v, w)" by (cases p)
  show ?case
  proof (cases "c < w / tot")
    case True
    then have "0 < w / tot" using Cons.prems(1) by linarith
    then have "0 < w" using Cons.prems(3) by (simp add: zero_less_divide_iff)
    then show ?thesis using True by (auto simp: p)
  next
    case False
    have "\<exists>v' w'. dg_choose tot ps (c - w / tot) = Some v' \<and> (v', w') \<in> set ps \<and> 0 < w'"
      by (rule Cons.IH) (use False Cons.prems in \<open>auto simp: p add_divide_distrib\<close>)
    then show ?thesis using False by (auto simp: p)
  qed
qed simp

text \<open>
  \<open>DiscreteGenerator::Next\<close> never reaches its \<open>assert(false)\<close>: with non-negative
  weights of positive total every variate in \<open>[0, 1)\<close> selects a value that was added with a
  positive weight, and that value becomes \<open>Last()\<close>.
\<close>

theorem dg_Next_total:
  assumes "dg_inv dg" "0 < dg_sum dg" "0 \<le> u" "u < 1"
  shows "\<exists>v w dg'. dg_Next u dg = Some (v, dg') \<and> (v, w) \<in> set (dg_values dg) \<and> 0 < w \<and>
           dg_last dg' = Some v \<and> dg_inv dg'"
proof -
  have "\<exists>v w. dg_choose (dg_sum dg) (dg_values dg) u = Some v \<and> (v, w) \<in> set (dg_values dg) \<and> 0 < w"
    using assms by (intro dg_choose_hits) (auto simp: dg_inv_def)
  then show ?thesis using assms(1) by (auto simp: dg_Next_def dg_inv_def)
qed

theorem dg_Next_total_witness:
  "\<exists>v w dg'. dg_Next (1 / 2) (AddValue ''b'' 3 (AddValue ''a'' 0 dg_new)) = Some (v, dg') \<and>
     (v, w) \<in> set (dg_values (AddValue ''b'' 3 (AddValue ''a'' 0 dg_new))) \<and> 0 < w \<and>
     dg_last dg' = Some v \<and> dg_inv dg'"
  by (rule dg_Next_total) (simp_all add: dg_new_inv AddValue_inv AddValue_def dg_new_def dg_inv_def)

subsection \<open>\<open>RandomByteGenerator\<close>\<close>

record random_byte_generator =
  rb_buf :: "byte list"
  rb_off :: nat

definition rb_refill :: "u32 \<Rightarrow> byte list" where
  "rb_refill bytes =
     [ucast ((bytes AND 31) + 32),
      ucast ((signed_drop_bit 5 bytes AND 63) + 32),
      ucast ((signed_drop_bit 10 bytes AND 95) + 32),
      ucast ((signed_drop_bit 15 bytes AND 31) + 32),
      ucast ((signed_drop_bit 20 bytes AND 63) + 32),
      ucast ((signed_drop_bit 25 bytes AND 95) + 32)]"

text \<open>\<open>bytes\<close> is the variate drawn when the buffer is empty.\<close>

definition rb_Next :: "u32 \<Rightarrow> random_byte_generator \<Rightarrow> byte \<times> random_byte_generator" where
  "rb_Next bytes rb =
     (let rb = (if rb_off rb = 6 then \<lparr>rb_buf = rb_refill bytes, rb_off = 0\<rparr> else rb) in
      (rb_buf rb ! rb_off rb, rb\<lparr>rb_off := rb_off rb + 1\<rparr>))"

definition rb_Last :: "random_byte_generator \<Rightarrow> byte" where
  "rb_Last rb = rb_buf rb ! nat ((int (rb_off rb) - 1 + 6) mod 6)"

definition rb_inv :: "random_byte_generator \<Rightarrow> bool" where
  "rb_inv rb \<longleftrightarrow> length (rb_buf rb) = 6 \<and> rb_off rb \<le> 6 \<and>
     (rb_off rb < 6 \<longrightarrow> (\<forall>b \<in> set (rb_buf rb). 32 \<le> b \<and> b < 128))"

lemma masked_byte_range:
  assumes "m \<in> {31, 63, 95 :: u32}"
  shows "32 \<le> (ucast ((x AND m) + 32) :: byte) \<and> (ucast ((x AND m) + 32) :: byte) < 128"
proof -
  have "x AND m \<le> m" by (rule word_and_le1)
  then have le: "unat (x AND m) \<le> 95" using assms by (auto simp: word_le_nat_alt)
  then have "unat ((x AND m) + 32) = unat (x AND m) + 32" by (simp add: unat_word_ariths)
  then have "unat (ucast ((x AND m) + 32) :: byte) = unat (x AND m) + 32"
    using le by (simp add: unsigned_ucast_eq take_bit_nat_eq_self)
  then show ?thesis using le by (simp add: word_le_nat_alt word_less_nat_alt)
qed

lemma rb_refill_range: "b \<in> set (rb_refill bytes) \<Longrightarrow> 32 \<le> b \<and> b < 128"
  unfolding rb_refill_def using masked_byte_range by auto

lemma rb_Next_inv:
  assumes "rb_inv rb"
  shows "rb_inv (snd (rb_Next bytes rb)) \<and> rb_Last (snd (rb_Next bytes rb)) = fst (rb_Next bytes rb)"
proof (cases "rb_off rb = 6")
  case True
  then show ?thesis using rb_refill_range
    by (auto simp: rb_inv_def rb_Next_def rb_Last_def Let_def rb_refill_def)
next
  case False
  then have "rb_off rb < 6" using assms by (simp add: rb_inv_def)
  then show ?thesis using assms by (auto simp: rb_inv_def rb_Next_def rb_Last_def Let_def)
qed

subsection \<open>\<open>ScrambledZipfianGenerator\<close> and \<open>UniformGenerator\<close>\<close>

record scrambled_zipfian =
  sz_base :: u64
  sz_num_items :: u64
  sz_generator :: zipfian_generator

definition kZetan :: real where "kZetan = 26.46902820178302"

definition sz_new :: "u64 \<Rightarrow> u64 \<Rightarrow> real \<Rightarrow> scrambled_zipfian option" where
  "sz_new mn mx u =
     map_option (\<lambda>g. \<lparr>sz_base = mn, sz_num_items = mx - mn + 1, sz_generator = g\<rparr>)
       (zg_new 0 10000000000 kZipfianConst kZetan u)"

definition Scramble :: "scrambled_zipfian \<Rightarrow> u64 \<Rightarrow> u64" where
  "Scramble sz v = sz_base sz + FNVHash64 v mod sz_num_items sz"

definition sz_Next :: "real \<Rightarrow> scrambled_zipfian \<Rightarrow> (u64 \<times> scrambled_zipfian) option" where
  "sz_Next u sz =
     (case zg_Next (zg_items (sz_generator sz)) u (sz_generator sz) of
        None \<Rightarrow> None
      | Some (v, g) \<Rightarrow> Some (Scramble sz v, sz\<lparr>sz_generator := g\<rparr>))"

definition sz_Last :: "scrambled_zipfian \<Rightarrow> u64" where
  "sz_Last sz = Scramble sz (zg_Last (sz_generator sz))"

lemma Scramble_range:
  assumes "sz_num_items sz \<noteq> 0" and "unat (sz_base sz) + unat (sz_num_items sz) \<le> 2 ^ 64"
  shows "unat (sz_base sz) \<le> unat (Scramble sz v) \<and>
         unat (Scramble sz v) < unat (sz_base sz) + unat (sz_num_items sz)"
proof -
  have "unat (FNVHash64 v mod sz_num_items sz) < unat (sz_num_items sz)"
    using assms(1) by (simp add: unat_mod_distrib unat_gt_0)
  then show ?thesis using assms(2) by (simp add: Scramble_def unat_word_ariths)
qed

record 'g uniform_generator =
  ug_engine :: 'g
  ug_min :: u64
  ug_max :: u64
  ug_last :: u64

definition ug_Next :: "(nat \<Rightarrow> nat \<Rightarrow> 'g \<Rightarrow> nat \<times> 'g) \<Rightarrow> 'g uniform_generator \<Rightarrow> u64 \<times> 'g uniform_generator" where
  "ug_Next uniform ug =
     (let (v, g) = uniform (unat (ug_min ug)) (unat (ug_max ug)) (ug_engine ug) in
      (of_nat v, ug\<lparr>ug_engine := g, ug_last := of_nat v\<rparr>))"

definition ug_new :: "(nat \<Rightarrow> nat \<Rightarrow> 'g \<Rightarrow> nat \<times> 'g) \<Rightarrow> 'g \<Rightarrow> u64 \<Rightarrow> u64 \<Rightarrow> 'g uniform_generator" where
  "ug_new uniform g mn mx =
     snd (ug_Next uniform \<lparr>ug_engine = g, ug_min = mn, ug_max = mx, ug_last = 0\<rparr>)"

definition ug_Last :: "'g uniform_generator \<Rightarrow> u64" where
  "ug_Last ug = ug_last ug"

end
