(* ===== verification/Options.thy ===== *)
theory Options
  imports Generators
begin

text \<open>
  The command line of \<^verbatim>\<open>benchmark/main.cpp\<close> and \<^verbatim>\<open>benchmark/recovery_test.cpp\<close>:
  \<open>options_t\<close> and \<open>kvs_options_t\<close> with their defaults, the translation of the parsed arguments,
  the sanity checks in the order the program makes them, and the phases the two programs then
  go through. The parser itself (\<^verbatim>\<open>cxxopts\<close>) is vendored: its result is the record \<open>cli\<close>,
  in which a field is \<open>Some\<close> exactly when \<open>result.count\<close> is positive. A \<open>float\<close> is a real.
\<close>

section \<open>Options\<close>

datatype mode_t = Operation | Time

datatype distribution_t = UNIFORM | SELFSIMILAR | ZIPFIAN | LATEST

record options_t =
  library_file :: string
  num_records :: u64
  num_ops :: u64
  num_threads :: u32
  sampling_ms :: u32
  key_prefix :: string
  key_size :: u32
  value_size :: u32
  read_ratio :: real
  insert_ratio :: real
  update_ratio :: real
  remove_ratio :: real
  scan_ratio :: real
  scan_size :: u32
  key_distribution :: distribution_t
  key_skew :: real
  rnd_seed :: u32
  enable_pcm :: bool
  skip_load :: bool
  latency_sampling :: real
  opt_seconds :: u32
  bm_mode :: mode_t
  write_again :: bool
  dev_name :: string

definition options_default :: options_t where
  "options_default =
     \<lparr>library_file = '''', num_records = 1000000, num_ops = 1000000, num_threads = 1, sampling_ms = 1000,
      key_prefix = '''', key_size = 8, value_size = 8, read_ratio = 1, insert_ratio = 0, update_ratio = 0,
      remove_ratio = 0, scan_ratio = 0, scan_size = 100, key_distribution = UNIFORM, key_skew = 0.99,
      rnd_seed = 1729, enable_pcm = False, skip_load = False, latency_sampling = 0, opt_seconds = 20,
      bm_mode = Operation, write_again = False, dev_name = ''''\<rparr>"

record kvs_options_t =
  kvs_key_size :: nat
  kvs_value_size :: nat
  pool_path :: string
  pool_size :: u64
  kvs_num_threads :: nat
  ssd_path :: string

definition kvs_options_default :: kvs_options_t where
  "kvs_options_default = \<lparr>kvs_key_size = 8, kvs_value_size = 8, pool_path = '''', pool_size = 0,
     kvs_num_threads = 1, ssd_path = ''''\<rparr>"

text \<open>The parsed command line.\<close>

record cli =
  c_help :: bool
  c_pcm :: "bool option"
  c_write_again :: "bool option"
  c_skip_load :: "bool option"
  c_latency_sampling :: "real option"
  c_input :: "string option"
  c_records :: "u64 option"
  c_threads :: "u32 option"
  c_sampling_ms :: "u32 option"
  c_key_prefix :: "string option"
  c_key_size :: "u32 option"
  c_value_size :: "u32 option"
  c_read_ratio :: "real option"
  c_insert_ratio :: "real option"
  c_update_ratio :: "real option"
  c_remove_ratio :: "real option"
  c_scan_ratio :: "real option"
  c_scan_size :: "u32 option"
  c_distribution :: "string option"
  c_skew :: "real option"
  c_seed :: "u32 option"
  c_pool_path :: "string option"
  c_pool_size :: "u64 option"
  c_mode :: "string option"
  c_operations :: "u64 option"
  c_seconds :: "real option"

section \<open>Parsing\<close>

text \<open>How the program ends early: the exit status and which check failed.\<close>

datatype exit_reason =
    Help | Missing_input | Parse_error string | Invalid_distribution string | Invalid_mode
  | Key_too_long nat | Value_too_long nat | Ratios real | Scan_size u32
  | Skew_selfsimilar | Skew_zipfian | Latency_range | No_tree

definition exit_status :: "exit_reason \<Rightarrow> int" where
  "exit_status r = (case r of Help \<Rightarrow> 0 | Missing_input \<Rightarrow> 0 | _ \<Rightarrow> 1)"

definition override :: "'a \<Rightarrow> 'a option \<Rightarrow> 'a" where
  "override dflt given = (case given of None \<Rightarrow> dflt | Some v \<Rightarrow> v)"

definition parse_distribution :: "string \<Rightarrow> exit_reason + distribution_t" where
  "parse_distribution s =
     (let d = List.map tolower s in
      if d = ''uniform'' then Inr UNIFORM
      else if d = ''selfsimilar'' then Inr SELFSIMILAR
      else if d = ''zipfian'' then Inr ZIPFIAN
      else if d = ''latest'' then Inr LATEST
      else Inl (Invalid_distribution d))"

definition parse_mode :: "cli \<Rightarrow> u64 \<Rightarrow> exit_reason + (mode_t \<times> u64)" where
  "parse_mode c ops0 =
     (case c_mode c of
        None \<Rightarrow> Inr (Operation, override ops0 (c_operations c))
      | Some s \<Rightarrow>
          let m = List.map tolower s in
          if m = ''operation'' then Inr (Operation, override ops0 (c_operations c))
          else if m = ''time'' then Inr (Time, 2 ^ 63 - 1)
          else Inl Invalid_mode)"

definition parse_plain :: "cli \<Rightarrow> options_t \<Rightarrow> options_t" where
  "parse_plain c opt =
     opt\<lparr>num_records := override (num_records opt) (c_records c),
         num_threads := override (num_threads opt) (c_threads c),
         sampling_ms := override (sampling_ms opt) (c_sampling_ms c),
         key_prefix := override (key_prefix opt) (c_key_prefix c),
         key_size := override (key_size opt) (c_key_size c),
         value_size := override (value_size opt) (c_value_size c),
         read_ratio := override (read_ratio opt) (c_read_ratio c),
         insert_ratio := override (insert_ratio opt) (c_insert_ratio c),
         update_ratio := override (update_ratio opt) (c_update_ratio c),
         remove_ratio := override (remove_ratio opt) (c_remove_ratio c),
         scan_ratio := override (scan_ratio opt) (c_scan_ratio c),
         scan_size := override (scan_size opt) (c_scan_size c)\<rparr>"

definition parse_options :: "string + cli \<Rightarrow> exit_reason + (options_t \<times> kvs_options_t)" where
  "parse_options result =
     (case result of
        Inl e \<Rightarrow> Inl (Parse_error e)
      | Inr c \<Rightarrow>
          if c_help c then Inl Help
          else
            let opt = options_default;
                opt = opt\<lparr>enable_pcm := override (enable_pcm opt) (c_pcm c),
                          write_again := override (write_again opt) (c_write_again c),
                          skip_load := override (skip_load opt) (c_skip_load c),
                          latency_sampling := override (latency_sampling opt) (c_latency_sampling c)\<rparr>
            in case c_input c of
                 None \<Rightarrow> Inl Missing_input
               | Some file \<Rightarrow>
                   let opt = parse_plain c (opt\<lparr>library_file := file\<rparr>) in
                   case (case c_distribution c of None \<Rightarrow> Inr (key_distribution opt)
                                                | Some s \<Rightarrow> parse_distribution s) of
                     Inl r \<Rightarrow> Inl r
                   | Inr d \<Rightarrow>
                       let opt = opt\<lparr>key_distribution := d,
                                     key_skew := override (key_skew opt) (c_skew c),
                                     rnd_seed := override (rnd_seed opt) (c_seed c)\<rparr>;
                           tree_opt = kvs_options_default
                             \<lparr>pool_path := override (pool_path kvs_options_default) (c_pool_path c),
                              pool_size := override (pool_size kvs_options_default) (c_pool_size c)\<rparr>
                       in case parse_mode c (num_ops opt) of
                            Inl r \<Rightarrow> Inl r
                          | Inr (m, n) \<Rightarrow>
                              Inr (opt\<lparr>bm_mode := m, num_ops := n,
                                       opt_seconds := (case c_seconds c of
                                          None \<Rightarrow> opt_seconds opt | Some s \<Rightarrow> of_int \<lfloor>s\<rfloor>)\<rparr>, tree_opt))"

section \<open>Sanity checks\<close>

definition MAX_SCAN :: nat where "MAX_SCAN = 1000"

definition ratio_sum :: "options_t \<Rightarrow> real" where
  "ratio_sum opt = read_ratio opt + insert_ratio opt + update_ratio opt + remove_ratio opt + scan_ratio opt"

definition sanitize :: "options_t \<Rightarrow> exit_reason + options_t" where
  "sanitize opt =
     (if length (key_prefix opt) + unat (key_size opt) > KEY_MAX
      then Inl (Key_too_long (length (key_prefix opt) + unat (key_size opt)))
      else if unat (value_size opt) > VALUE_MAX then Inl (Value_too_long (unat (value_size opt)))
      else if ratio_sum opt \<noteq> 1 then Inl (Ratios (ratio_sum opt))
      else if unat (scan_size opt) < 1 \<or> unat (scan_size opt) > MAX_SCAN then Inl (Scan_size (scan_size opt))
      else if key_distribution opt = SELFSIMILAR \<and> (key_skew opt < 0 \<or> key_skew opt > 0.5)
      then Inl Skew_selfsimilar
      else if key_distribution opt = ZIPFIAN \<and> (key_skew opt < 0 \<or> key_skew opt > 1)
      then Inl Skew_zipfian
      else if latency_sampling opt < 0 \<or> latency_sampling opt > 1 then Inl Latency_range
      else Inr opt)"

definition tree_options :: "options_t \<Rightarrow> kvs_options_t \<Rightarrow> kvs_options_t" where
  "tree_options opt t =
     t\<lparr>kvs_key_size := length (key_prefix opt) + unat (key_size opt),
       kvs_value_size := unat (value_size opt),
       kvs_num_threads := unat (num_threads opt)\<rparr>"

section \<open>The two programs\<close>

datatype phase = Load | Run | Change_to_insert | Print_stats | Delete_tree | Recreate

text \<open>
  \<open>create\<close> stands for the library's \<open>create_kvs\<close>: whether it returns a tree. The phases are those
  on the (possibly re-created) tree.
\<close>

definition main_phases :: "options_t \<Rightarrow> phase list" where
  "main_phases opt =
     Load # (if num_ops opt \<noteq> 0 then [Run] else []) @
     (if write_again opt then [Change_to_insert, Run, Print_stats] else [])"

definition main :: "string + cli \<Rightarrow> (kvs_options_t \<Rightarrow> bool) \<Rightarrow> exit_reason + (options_t \<times> kvs_options_t \<times> phase list)" where
  "main result create =
     (case parse_options result of
        Inl r \<Rightarrow> Inl r
      | Inr (opt, t) \<Rightarrow>
          (case sanitize opt of
             Inl r \<Rightarrow> Inl r
           | Inr opt \<Rightarrow>
               let t = tree_options opt t in
               if \<not> create t then Inl No_tree else Inr (opt, t, main_phases opt)))"

text \<open>
  \<^verbatim>\<open>recovery_test.cpp\<close> loads, destroys the tree, creates it again and only then checks that
  it exists; the first tree is used unchecked.
\<close>

definition recovery_phases :: "options_t \<Rightarrow> phase list" where
  "recovery_phases opt =
     [Load, Delete_tree, Recreate] @ (if num_ops opt \<noteq> 0 then [Run] else [])"

definition recovery_test ::
  "string + cli \<Rightarrow> (kvs_options_t \<Rightarrow> bool) \<Rightarrow> exit_reason + (options_t \<times> kvs_options_t \<times> phase list)" where
  "recovery_test result recreate =
     (case parse_options result of
        Inl r \<Rightarrow> Inl r
      | Inr (opt, t) \<Rightarrow>
          (case sanitize opt of
             Inl r \<Rightarrow> Inl r
           | Inr opt \<Rightarrow>
               let t = tree_options opt t in
               if \<not> recreate t then Inl No_tree else Inr (opt, t, recovery_phases opt)))"

section \<open>What accepted options guarantee\<close>

definition options_ok :: "options_t \<Rightarrow> bool" where
  "options_ok opt \<longleftrightarrow>
     length (key_prefix opt) + unat (key_size opt) \<le> KEY_MAX \<and> unat (value_size opt) \<le> VALUE_MAX \<and>
     ratio_sum opt = 1 \<and> 1 \<le> unat (scan_size opt) \<and> unat (scan_size opt) \<le> MAX_SCAN \<and>
     (key_distribution opt = SELFSIMILAR \<longrightarrow> 0 \<le> key_skew opt \<and> key_skew opt \<le> 1 / 2) \<and>
     (key_distribution opt = ZIPFIAN \<longrightarrow> 0 \<le> key_skew opt \<and> key_skew opt \<le> 1) \<and>
     0 \<le> latency_sampling opt \<and> latency_sampling opt \<le> 1"

lemma sanitize_iff: "sanitize opt = Inr opt' \<longleftrightarrow> opt' = opt \<and> options_ok opt"
  by (auto simp: sanitize_def options_ok_def)

lemma sanitize_exit_status: "sanitize opt = Inl r \<Longrightarrow> exit_status r = 1"
  by (auto simp: sanitize_def exit_status_def split: if_splits)

lemma main_InrD:
  assumes "main result create = Inr (opt, t, ps)"
  shows "options_ok opt" and "ps = main_phases opt" and "create t"
    and "kvs_key_size t = length (key_prefix opt) + unat (key_size opt)"
    and "kvs_value_size t = unat (value_size opt)"
  using assms by (auto simp: main_def sanitize_iff tree_options_def Let_def split: sum.splits if_splits)


text \<open>A command line that only names the library.\<close>

definition minimal_cli :: cli where
  "minimal_cli = \<lparr>c_help = False, c_pcm = None, c_write_again = None, c_skip_load = None,
     c_latency_sampling = None, c_input = Some ''lib.so'', c_records = None, c_threads = None,
     c_sampling_ms = None, c_key_prefix = None, c_key_size = None, c_value_size = None,
     c_read_ratio = None, c_insert_ratio = None, c_update_ratio = None, c_remove_ratio = None,
     c_scan_ratio = None, c_scan_size = None, c_distribution = None, c_skew = None, c_seed = None,
     c_pool_path = None, c_pool_size = None, c_mode = None, c_operations = None, c_seconds = None\<rparr>"

lemmas parse_defs = main_def parse_options_def parse_plain_def parse_mode_def parse_distribution_def
  override_def minimal_cli_def options_default_def sanitize_def ratio_sum_def KEY_MAX_def VALUE_MAX_def
  MAX_SCAN_def tolower_def Let_def


text \<open>
  the sanity checks let through options the generators reject: a key size of 0 (hashing
  then shifts by the full word width) and the skew factors 0 and 1 that the messages call valid
  (the distributions require a skew strictly between 0 and 1).
\<close>

theorem accepted_options_gaps:
  "(\<exists>opt t ps kg tls'. main (Inr (minimal_cli\<lparr>c_key_size := Some 0\<rparr>)) (\<lambda>_. True) = Inr (opt, t, ps) \<and>
      key_generator_new N (unat (key_size opt)) [] tls = Some (kg, tls') \<and> hash_id be kg rid tls' = None) \<and>
   (\<exists>opt t ps.
      main (Inr (minimal_cli\<lparr>c_distribution := Some ''zipfian'', c_skew := Some 1\<rparr>)) (\<lambda>_. True) = Inr (opt, t, ps) \<and>
      zipf_param_new 1 (num_records opt) (key_skew opt) = None) \<and>
   (\<exists>opt t ps.
      main (Inr (minimal_cli\<lparr>c_distribution := Some ''selfsimilar'', c_skew := Some 0\<rparr>)) (\<lambda>_. True) = Inr (opt, t, ps) \<and>
      selfsimilar_param_new 1 (num_records opt) (key_skew opt) = None)"
proof (intro conjI)
  obtain opt t ps where m: "main (Inr (minimal_cli\<lparr>c_key_size := Some 0\<rparr>)) (\<lambda>_. True) = Inr (opt, t, ps)"
      "key_size opt = 0"
    by (simp add: parse_defs)
  obtain kg tls' where k: "key_generator_new N 0 [] tls = Some (kg, tls')" "kg_sz kg = 0"
    by (simp add: key_generator_new_def buf_write_def)
  have "hash_id be kg rid tls' = None" using k(2) by (simp add: hash_id_def Let_def)
  then show "\<exists>opt t ps kg tls'. main (Inr (minimal_cli\<lparr>c_key_size := Some 0\<rparr>)) (\<lambda>_. True) = Inr (opt, t, ps) \<and>
      key_generator_new N (unat (key_size opt)) [] tls = Some (kg, tls') \<and> hash_id be kg rid tls' = None"
    using m k(1) by auto
qed (simp_all add: parse_defs zipf_param_new_def selfsimilar_param_new_def)

end
