(* ===== verification/Kvs_Api.thy ===== *)
theory Kvs_Api
  imports Prelude
begin

text \<open>
  The interface of \<^verbatim>\<open>include/kvs_api.hpp\<close>: a client is a table of operations on a store
  state, every thread \<open>t\<close> has its own client \<open>api t\<close> of the shared store, and the locales state what the benchmark relies on. \<open>kv_find\<close> is the promise about
  lookups, \<open>kv_upsert\<close> adds that an insert stores the record, replacing an older one, unless the
  store reports a failure; \<open>kv_upsert_room\<close> adds when it does not.
\<close>

record 's client_api =
  api_find :: "byte list \<Rightarrow> 's \<Rightarrow> (bool \<times> byte list) \<times> 's"
  api_insert :: "byte list \<Rightarrow> byte list \<Rightarrow> 's \<Rightarrow> bool \<times> 's"
  api_update :: "byte list \<Rightarrow> byte list \<Rightarrow> 's \<Rightarrow> bool \<times> 's"
  api_remove :: "byte list \<Rightarrow> 's \<Rightarrow> bool \<times> 's"
  api_scan :: "byte list \<Rightarrow> nat \<Rightarrow> 's \<Rightarrow> int \<times> 's"

type_synonym kvmap = "byte list \<rightharpoonup> byte list"

section \<open>Contracts\<close>

locale kv_find =
  fixes api :: "nat \<Rightarrow> 's client_api"
    and contents :: "'s \<Rightarrow> kvmap"
    and inv :: "'s \<Rightarrow> bool"
    and key_ok :: "byte list \<Rightarrow> bool"
    and value_ok :: "byte list \<Rightarrow> bool"
  assumes find_flag: "inv s \<Longrightarrow> key_ok k \<Longrightarrow> fst (fst (api_find (api t) k s)) \<longleftrightarrow> contents s k \<noteq> None"
    and find_value: "inv s \<Longrightarrow> key_ok k \<Longrightarrow> contents s k = Some v \<Longrightarrow> snd (fst (api_find (api t) k s)) = v"
    and find_contents: "inv s \<Longrightarrow> key_ok k \<Longrightarrow> contents (snd (api_find (api t) k s)) = contents s"
    and find_inv: "inv s \<Longrightarrow> key_ok k \<Longrightarrow> inv (snd (api_find (api t) k s))"

text \<open>
  A store may fail (run out of space, exit, print an error): \<open>ok\<close> says that it has not so far.
\<close>

locale kv_upsert = kv_find +
  fixes ok :: "'a \<Rightarrow> bool"
  assumes insert_upsert: "inv s \<Longrightarrow> key_ok k \<Longrightarrow> value_ok v \<Longrightarrow> ok (snd (api_insert (api t) k v s)) \<Longrightarrow>
      fst (api_insert (api t) k v s) \<and> contents (snd (api_insert (api t) k v s)) = (contents s)(k \<mapsto> v)
      \<and> inv (snd (api_insert (api t) k v s))"
    and ok_before: "ok (snd (api_insert (api t) k v s)) \<Longrightarrow> ok s"

text \<open>\<open>room s n\<close>: \<open>n\<close> more writes succeed.\<close>

locale kv_upsert_room = kv_upsert +
  fixes room :: "'a \<Rightarrow> nat \<Rightarrow> bool"
  assumes insert_room: "inv s \<Longrightarrow> ok s \<Longrightarrow> key_ok k \<Longrightarrow> value_ok v \<Longrightarrow> room s (Suc n) \<Longrightarrow>
      ok (snd (api_insert (api t) k v s)) \<and> room (snd (api_insert (api t) k v s)) n"

section \<open>Sequences of inserts\<close>

text \<open>
  Inserting a list of records one after the other, each by the client of its thread, with the
  flags returned: one interleaving of the threads' writes.
\<close>

fun insert_all :: "(nat \<Rightarrow> 's client_api) \<Rightarrow> (nat \<times> byte list \<times> byte list) list \<Rightarrow> 's \<Rightarrow> bool list \<times> 's" where
  "insert_all api [] s = ([], s)"
| "insert_all api ((t, k, v) # ws) s =
     (let (r, s') = api_insert (api t) k v s; (rs, s'') = insert_all api ws s' in (r # rs, s''))"

text \<open>The abstract store after the writes.\<close>

definition map_after :: "(nat \<times> byte list \<times> byte list) list \<Rightarrow> kvmap \<Rightarrow> kvmap" where
  "map_after ws m = fold (\<lambda>(t, k, v) m. m(k \<mapsto> v)) ws m"

lemma map_after_simps [simp]: "map_after [] m = m" "map_after ((t, k, v) # ws) m = map_after ws (m(k \<mapsto> v))"
  by (simp_all add: map_after_def)

context kv_upsert
begin

lemma insert_all_ok: "ok (snd (insert_all api ws s)) \<Longrightarrow> ok s"
proof (induction ws arbitrary: s)
  case (Cons w ws)
  obtain t k v where w: "w = (t, k, v)" by (cases w)
  have "ok (snd (api_insert (api t) k v s))"
    by (rule Cons.IH) (use Cons.prems in \<open>simp add: w Let_def split_beta\<close>)
  then show ?case by (rule ok_before)
qed simp

lemma insert_all_contents:
  assumes "inv s" and "\<forall>(t, k, v) \<in> set ws. key_ok k \<and> value_ok v" and "ok (snd (insert_all api ws s))"
  shows "contents (snd (insert_all api ws s)) = map_after ws (contents s)
     \<and> inv (snd (insert_all api ws s)) \<and> fst (insert_all api ws s) = replicate (length ws) True"
  using assms
proof (induction ws arbitrary: s)
  case (Cons w ws)
  obtain t k v where w: "w = (t, k, v)" by (cases w)
  obtain r s1 where i1: "api_insert (api t) k v s = (r, s1)" by fastforce
  obtain rs s2 where i2: "insert_all api ws s1 = (rs, s2)" by fastforce
  have arg: "key_ok k" "value_ok v" using Cons.prems(2) by (simp_all add: w)
  have ok2: "ok (snd (insert_all api ws s1))" using Cons.prems(3) by (simp add: w i1 i2)
  then have "ok (snd (api_insert (api t) k v s))" using insert_all_ok by (simp add: i1)
  note ins = insert_upsert [OF Cons.prems(1) arg this]
  have "contents s2 = map_after ws (contents s1) \<and> inv s2 \<and> rs = replicate (length ws) True"
    using Cons.IH [of s1] ins ok2 Cons.prems(2) by (simp add: i1 i2)
  then show ?case using ins by (simp add: w i1 i2)
qed simp

text \<open>After the writes a lookup by any client returns what the abstract store holds.\<close>

lemma insert_all_find:
  assumes "inv s" and "\<forall>(t, k, v) \<in> set ws. key_ok k \<and> value_ok v" and "ok (snd (insert_all api ws s))" and "key_ok k"
  shows "case map_after ws (contents s) k of
      None \<Rightarrow> \<not> fst (fst (api_find (api t) k (snd (insert_all api ws s))))
    | Some v \<Rightarrow> fst (api_find (api t) k (snd (insert_all api ws s))) = (True, v)"
proof -
  note ia = insert_all_contents [OF assms(1-3)]
  then have inv': "inv (snd (insert_all api ws s))" by blast
  note f = find_flag [OF inv' assms(4), of t] find_value [OF inv' assms(4), of _ t]
  show ?thesis
    using f ia by (cases "map_after ws (contents s) k") (auto simp: prod_eq_iff)
qed

end

context kv_upsert_room
begin

lemma insert_all_room:
  assumes "inv s" and "ok s" and "\<forall>(t, k, v) \<in> set ws. key_ok k \<and> value_ok v" and "room s (length ws + n)"
  shows "ok (snd (insert_all api ws s))"
  using assms
proof (induction ws arbitrary: s)
  case (Cons w ws)
  obtain t k v where w: "w = (t, k, v)" by (cases w)
  obtain r s1 where i1: "api_insert (api t) k v s = (r, s1)" by fastforce
  have arg: "key_ok k" "value_ok v" "room s (Suc (length ws + n))" using Cons.prems by (simp_all add: w)
  note rm = insert_room [OF Cons.prems(1,2) arg, of t]
  have "inv s1" using insert_upsert [OF Cons.prems(1) arg(1,2), of t] rm by (simp add: i1)
  then show ?case using Cons.IH [of s1] rm Cons.prems(3) by (simp add: w i1 split: prod.splits) auto
qed simp

end

end
