(* ===== verification/Benchmark.thy ===== *)
theory Benchmark
  imports Options Kvs_Api
begin

unbundle bit_operations_syntax

text \<open>
  \<^verbatim>\<open>benchmark/benchmark.cpp\<close>: the per-thread statistics, one operation (\<open>run_op\<close>,
  \<open>execute_op\<close>), the load phase and the run phase. Threads interleave: a step of the run lets
  one thread that has iterations left execute its next operation. One call into the store is
  atomic (the store serialises its clients); clock readings are arguments of a step.
\<close>

section \<open>Statistics\<close>

record stats_t =
  operation_count :: u64
  insert_count :: u64
  success_insert_count :: u64
  read_count :: u64
  success_read_count :: u64
  update_count :: u64
  success_update_count :: u64
  remove_count :: u64
  success_remove_count :: u64
  scan_count :: u64
  success_scan_count :: u64
  read_sector_count :: u64
  write_sector_count :: u64
  times :: "nat list"

definition stats_new :: stats_t where
  "stats_new = \<lparr>operation_count = 0, insert_count = 0, success_insert_count = 0, read_count = 0,
     success_read_count = 0, update_count = 0, success_update_count = 0, remove_count = 0,
     success_remove_count = 0, scan_count = 0, success_scan_count = 0, read_sector_count = 0,
     write_sector_count = 0, times = []\<rparr>"

text \<open>How a thread can fail inside an operation.\<close>

datatype bench_error = Key_buffer_ub | Division_by_zero | Unknown_operation byte

section \<open>A benchmark and its threads\<close>

text \<open>
  \<open>bench\<close> is the part of \<open>benchmark_t\<close> that does not change during a run, with the
  library's samplers; \<open>worker\<close> is what one thread owns: the thread-local statics of the three
  generators, its latency sampler and its entry of \<open>local_stats\<close>.
\<close>

record ('g, 's) bench =
  b_opt :: options_t
  b_be :: bool
  b_kg :: key_generator_t
  b_ops :: operation_generator_t
  b_vg :: value_generator_t
  b_api :: "nat \<Rightarrow> 's client_api"
  b_next_id :: "'g \<Rightarrow> u64 \<times> 'g"
  b_op_draw :: "'g \<Rightarrow> u32 \<times> 'g"
  b_uniform :: "nat \<Rightarrow> nat \<Rightarrow> 'g \<Rightarrow> nat \<times> 'g"
  b_bool :: "'g \<Rightarrow> bool \<times> 'g"

record 'g worker =
  w_tls :: "'g kg_tls"
  w_op :: 'g
  w_val :: 'g
  w_lat :: 'g
  w_stats :: stats_t

definition pool_bytes :: "nat \<Rightarrow> nat \<Rightarrow> byte list" where
  "pool_bytes pos sz = List.map of_char (value_bytes pos sz)"

section \<open>One operation\<close>

definition bump :: "bool \<Rightarrow> u64 \<Rightarrow> u64" where
  "bump r n = (if r then n + 1 else n)"

text \<open>\<open>run_op\<close>, up to and including the final \<open>++stats.operation_count\<close>.\<close>

definition run_op ::
  "('g, 's) bench \<Rightarrow> nat \<Rightarrow> operation_t \<Rightarrow> byte list \<Rightarrow> 'g worker \<times> 's \<Rightarrow> bench_error + ('g worker \<times> 's)" where
  "run_op b tid op key ws =
     (let (w, s) = ws; st = w_stats w; vsz = unat (value_size (b_opt b)) in
      case op of
        READ \<Rightarrow>
          let ((r, _), s') = api_find (b_api b tid) key s in
          Inr (w\<lparr>w_stats := st\<lparr>read_count := read_count st + 1,
                 success_read_count := bump r (success_read_count st),
                 operation_count := operation_count st + 1\<rparr>\<rparr>, s')
      | INSERT \<Rightarrow>
          let (pos, g) = vg_next (b_uniform b) (b_vg b) (w_val w);
              (r, s') = api_insert (b_api b tid) key (pool_bytes pos vsz) s in
          Inr (w\<lparr>w_val := g,
                 w_stats := st\<lparr>insert_count := insert_count st + 1,
                   success_insert_count := bump r (success_insert_count st),
                   operation_count := operation_count st + 1\<rparr>\<rparr>, s')
      | UPDATE \<Rightarrow>
          let (pos, g) = vg_next (b_uniform b) (b_vg b) (w_val w);
              (r, s') = api_update (b_api b tid) key (pool_bytes pos vsz) s in
          Inr (w\<lparr>w_val := g,
                 w_stats := st\<lparr>update_count := update_count st + 1,
                   success_update_count := bump r (success_update_count st),
                   operation_count := operation_count st + 1\<rparr>\<rparr>, s')
      | REMOVE \<Rightarrow>
          let (r, s') = api_remove (b_api b tid) key s in
          Inr (w\<lparr>w_stats := st\<lparr>remove_count := remove_count st + 1,
                 success_remove_count := bump r (success_remove_count st),
                 operation_count := operation_count st + 1\<rparr>\<rparr>, s')
      | SCAN \<Rightarrow>
          let (r, s') = api_scan (b_api b tid) key (unat (scan_size (b_opt b))) s in
          Inr (w\<lparr>w_stats := st\<lparr>scan_count := scan_count st + 1,
                 success_scan_count := bump (r \<noteq> 0) (success_scan_count st),
                 operation_count := operation_count st + 1\<rparr>\<rparr>, s')
      | Unknown c \<Rightarrow> Inl (Unknown_operation c))"

text \<open>
  The rescaling of a drawn record number in \<open>Time\<close> mode: \<open>None\<close> is a division by zero.
\<close>

definition scale_id :: "options_t \<Rightarrow> u64 \<Rightarrow> u64 \<Rightarrow> u64 \<Rightarrow> u64 option" where
  "scale_id opt inserts_per_thread success rid =
     (let m = success * ucast (num_threads opt) + num_records opt in
      if m = 0 then None
      else
        let rid = rid mod m in
        if num_records opt \<le> rid then
          let ins = rid - num_records opt in
          if success = 0 then None
          else Some (num_records opt + inserts_per_thread * (ins div success) + ins mod success)
        else Some rid)"

definition execute_key ::
  "('g, 's) bench \<Rightarrow> u64 \<Rightarrow> operation_t \<Rightarrow> stats_t \<Rightarrow> 'g kg_tls \<Rightarrow> bench_error + 'g kg_tls" where
  "execute_key b inserts_per_thread op st tls =
     (if op = INSERT then
        case kg_next (b_be b) (b_next_id b) (b_kg b) True tls of
          None \<Rightarrow> Inl Key_buffer_ub | Some tls' \<Rightarrow> Inr tls'
      else
        let (rid, g) = b_next_id b (kg_engine tls);
            tls = tls\<lparr>kg_engine := g\<rparr>;
            scaled = (if bm_mode (b_opt b) = Time
                      then scale_id (b_opt b) inserts_per_thread (success_insert_count st) rid
                      else Some rid)
        in case scaled of
             None \<Rightarrow> Inl Division_by_zero
           | Some rid \<Rightarrow>
               (case hash_id (b_be b) (b_kg b) rid tls of
                  None \<Rightarrow> Inl Key_buffer_ub | Some tls' \<Rightarrow> Inr tls'))"

definition push_time :: "bool \<Rightarrow> nat \<Rightarrow> 'g worker \<Rightarrow> 'g worker" where
  "push_time measured t w =
     (if measured then w\<lparr>w_stats := w_stats w\<lparr>times := times (w_stats w) @ [t]\<rparr>\<rparr> else w)"

definition execute_op ::
  "('g, 's) bench \<Rightarrow> nat \<Rightarrow> u64 \<Rightarrow> nat \<Rightarrow> nat \<Rightarrow> 'g worker \<times> 's \<Rightarrow> bench_error + ('g worker \<times> 's)" where
  "execute_op b tid inserts_per_thread t0 t1 ws =
     (let (w, s) = ws;
          (draw, g) = b_op_draw b (w_op w);
          op = op_next (b_ops b) draw
      in case execute_key b inserts_per_thread op (w_stats w) (w_tls w) of
           Inl e \<Rightarrow> Inl e
         | Inr tls \<Rightarrow>
             let (measured, l) = b_bool b (w_lat w);
                 w = push_time measured t0 (w\<lparr>w_op := g, w_tls := tls, w_lat := l\<rparr>)
             in case run_op b tid op (key_bytes (b_kg b) tls) (w, s) of
                  Inl e \<Rightarrow> Inl e
                | Inr (w, s) \<Rightarrow> Inr (push_time measured t1 w, s))"

section \<open>Well-formed statistics\<close>

definition counts_wf :: "stats_t \<Rightarrow> bool" where
  "counts_wf st \<longleftrightarrow>
     unat (operation_count st) = unat (insert_count st) + unat (read_count st) + unat (update_count st)
        + unat (remove_count st) + unat (scan_count st) \<and>
     success_insert_count st \<le> insert_count st \<and> success_read_count st \<le> read_count st \<and>
     success_update_count st \<le> update_count st \<and> success_remove_count st \<le> remove_count st \<and>
     success_scan_count st \<le> scan_count st"

text \<open>Start and end times come in pairs.\<close>

definition stats_wf :: "stats_t \<Rightarrow> bool" where
  "stats_wf st \<longleftrightarrow> counts_wf st \<and> even (length (times st))"

lemma stats_new_wf: "stats_wf stats_new"
  by (simp add: stats_wf_def counts_wf_def stats_new_def)

lemma unat_Suc_below: "unat x < n \<Longrightarrow> n < 2 ^ 64 \<Longrightarrow> unat (x + 1 :: u64) = unat x + 1"
  by (simp add: unat_word_ariths)

lemma bump_le:
  assumes "x \<le> y" and "unat (y + 1) = unat y + 1"
  shows "bump r x \<le> y + 1"
proof -
  have "unat (x + 1) \<le> unat x + 1" by (simp add: unat_word_ariths)
  then show ?thesis using assms by (auto simp: bump_def word_le_nat_alt)
qed

lemma run_op_cases:
  assumes "run_op b tid op key (w, s) = Inr (w', s')"
  shows "operation_count (w_stats w') = operation_count (w_stats w) + 1"
    and "times (w_stats w') = times (w_stats w)" and "w_tls w' = w_tls w" and "w_op w' = w_op w"
    and "w_lat w' = w_lat w"
  using assms by (auto simp: run_op_def Let_def split: operation_t.splits prod.splits)

lemma run_op_counts_wf:
  assumes wf: "counts_wf (w_stats w)" and room: "unat (operation_count (w_stats w)) < 2 ^ 64 - 1"
    and op: "run_op b tid op key (w, s) = Inr (w', s')"
  shows "counts_wf (w_stats w')"
proof -
  define n :: nat where "n = 2 ^ 64 - 1"
  have n: "n < 2 ^ 64" by (simp add: n_def)
  note W = wf [unfolded counts_wf_def]
  have room': "unat (operation_count (w_stats w)) < n" using room by (simp add: n_def)
  then have lt: "unat (insert_count (w_stats w)) < n" "unat (read_count (w_stats w)) < n"
      "unat (update_count (w_stats w)) < n" "unat (remove_count (w_stats w)) < n"
      "unat (scan_count (w_stats w)) < n" using W by linarith+
  note suc = unat_Suc_below [OF room' n] lt [THEN unat_Suc_below, OF n]
  show ?thesis
    using op W suc by (cases op) (auto simp: run_op_def counts_wf_def Let_def bump_le split: prod.splits)
qed

lemma push_time_fields [simp]:
  "w_tls (push_time m t w) = w_tls w" "w_op (push_time m t w) = w_op w" "w_val (push_time m t w) = w_val w"
  "operation_count (w_stats (push_time m t w)) = operation_count (w_stats w)"
  by (simp_all add: push_time_def)

lemma execute_op_effect:
  assumes "execute_op b tid ipt t0 t1 (w, s) = Inr (w', s')"
  obtains op tls m w1 w2 where
    "execute_key b ipt op (w_stats w) (w_tls w) = Inr tls"
    "op = op_next (b_ops b) (fst (b_op_draw b (w_op w)))"
    "w1 = push_time m t0 (w\<lparr>w_op := snd (b_op_draw b (w_op w)), w_tls := tls, w_lat := snd (b_bool b (w_lat w))\<rparr>)"
    "m = fst (b_bool b (w_lat w))"
    "run_op b tid op (key_bytes (b_kg b) tls) (w1, s) = Inr (w2, s')" "w' = push_time m t1 w2"
  using assms by (auto simp: execute_op_def Let_def split: sum.splits prod.splits)

lemma execute_op_wf:
  assumes wf: "stats_wf (w_stats w)" and room: "unat (operation_count (w_stats w)) < 2 ^ 64 - 1"
    and op: "execute_op b tid ipt t0 t1 (w, s) = Inr (w', s')"
  shows "stats_wf (w_stats w')"
    and "unat (operation_count (w_stats w')) = unat (operation_count (w_stats w)) + 1"
proof -
  obtain op tls m w1 w2 where e: "execute_key b ipt op (w_stats w) (w_tls w) = Inr tls"
      "w1 = push_time m t0 (w\<lparr>w_op := snd (b_op_draw b (w_op w)), w_tls := tls, w_lat := snd (b_bool b (w_lat w))\<rparr>)"
      "run_op b tid op (key_bytes (b_kg b) tls) (w1, s) = Inr (w2, s')" "w' = push_time m t1 w2"
    using op by (rule execute_op_effect)
  have w1: "counts_wf (w_stats w1)" "operation_count (w_stats w1) = operation_count (w_stats w)"
    using wf by (auto simp: e(2) push_time_def stats_wf_def counts_wf_def)
  have t: "times (w_stats w2) = times (w_stats w1)"
    and c: "operation_count (w_stats w2) = operation_count (w_stats w1) + 1"
    using run_op_cases [OF e(3)] by simp_all
  have w2: "counts_wf (w_stats w2)" by (rule run_op_counts_wf [OF w1(1) _ e(3)]) (simp only: w1(2) room)
  have "even (length (times (w_stats w')))"
    using wf t by (simp add: e(2,4) push_time_def stats_wf_def)
  then show "stats_wf (w_stats w')" using w2 by (simp add: e(4) push_time_def stats_wf_def counts_wf_def)
  have "unat (operation_count (w_stats w) + 1) = unat (operation_count (w_stats w)) + 1"
    using room by (intro unat_Suc_below [where n = "2 ^ 64 - 1"]) simp_all
  then show "unat (operation_count (w_stats w')) = unat (operation_count (w_stats w)) + 1"
    using c by (simp add: e(2,4) push_time_def)
qed

text \<open>
  Rescaling a record number in \<open>Time\<close> mode never divides by zero on a non-empty benchmark,
  even before the first insert succeeded, and stays below \<open>num_records\<close> until then.
\<close>

theorem scale_id_defined:
  assumes "num_records opt \<noteq> 0"
    and "unat success * unat (num_threads opt) + unat (num_records opt) < 2 ^ 64"
  shows "\<exists>rid'. scale_id opt ipt success rid = Some rid' \<and>
           (unat rid mod (unat success * unat (num_threads opt) + unat (num_records opt)) < unat (num_records opt)
              \<longrightarrow> rid' < num_records opt)"
proof -
  let ?m = "success * ucast (num_threads opt) + num_records opt"
  have t: "unat (ucast (num_threads opt) :: u64) = unat (num_threads opt)" by (rule unat_ucast_widen) simp
  have m: "unat ?m = unat success * unat (num_threads opt) + unat (num_records opt)"
    using assms(2) by (simp add: unat_word_ariths t)
  have "0 < unat (num_records opt)" using assms(1) by (simp add: unat_gt_0)
  then have m0: "?m \<noteq> 0" using m by (metis add_gr_0 not_less_zero unat_0)
  have r: "unat (rid mod ?m) = unat rid mod unat ?m" by (simp add: unat_mod_distrib)
  show ?thesis
  proof (cases "num_records opt \<le> rid mod ?m")
    case True
    have "success \<noteq> 0"
    proof
      assume "success = 0"
      then have "unat (rid mod ?m) < unat (num_records opt)"
        using r m \<open>0 < unat (num_records opt)\<close> by simp
      then show False using True by (simp add: word_le_nat_alt)
    qed
    then show ?thesis using m0 True r m by (auto simp: scale_id_def Let_def word_le_nat_alt)
  next
    case False
    then show ?thesis using m0 by (auto simp: scale_id_def Let_def)
  qed
qed

theorem scale_id_defined_witness:
  "\<exists>rid'. scale_id (options_default\<lparr>num_records := 10, num_threads := 2\<rparr>) 12 0 35 = Some rid' \<and>
     (unat (35 :: u64) mod (unat (0 :: u64) * unat (num_threads (options_default\<lparr>num_records := 10, num_threads := 2\<rparr>))
         + unat (num_records (options_default\<lparr>num_records := 10, num_threads := 2\<rparr>)))
       < unat (num_records (options_default\<lparr>num_records := 10, num_threads := 2\<rparr>))
      \<longrightarrow> rid' < num_records (options_default\<lparr>num_records := 10, num_threads := 2\<rparr>))"
  by (rule scale_id_defined) simp_all

end
