(* ===== verification/Run_Phase.thy ===== *)
theory Run_Phase
  imports Benchmark
begin

text \<open>
  The run phase of \<^verbatim>\<open>benchmark.cpp\<close> in \<open>Operation\<close> mode: the static schedule of the
  parallel loop, the interleaved steps of the worker threads, the totals computed from
  \<open>local_stats\<close> with the program's own consistency check, the sampled differences and the
  latency report.
\<close>

section \<open>Static schedule\<close>

text \<open>
  How \<open>schedule(static)\<close> splits \<open>n\<close> iterations over \<open>T\<close> threads: the first \<open>n mod T\<close> threads get
  one more.
\<close>

definition chunk :: "nat \<Rightarrow> nat \<Rightarrow> nat \<Rightarrow> nat" where
  "chunk n T t = n div T + (if t < n mod T then 1 else 0)"

lemma sum_chunk:
  assumes "0 < T"
  shows "(\<Sum>t<T. chunk n T t) = n"
proof -
  have "{t. t < T \<and> t < n mod T} = {..<n mod T}" using mod_less_divisor [OF assms, of n] by auto
  then have "(\<Sum>t<T. (if t < n mod T then 1 else 0 :: nat)) = n mod T"
    by (simp add: sum.If_cases lessThan_def Int_def)
  then show ?thesis by (simp add: chunk_def sum.distrib mult.commute)
qed

lemma sum_list_chunk: "0 < T \<Longrightarrow> sum_list (List.map (chunk n T) [0..<T]) = n"
  by (simp add: interv_sum_list_conv_sum_set_nat atLeast0LessThan sum_chunk)

section \<open>Interleaved execution\<close>

text \<open>Each thread with the iterations it has left, and the store they share.\<close>

record ('g, 's) par_state =
  par_threads :: "('g worker \<times> nat) list"
  par_store :: 's

definition inserts_per_thread :: "options_t \<Rightarrow> u64" where
  "inserts_per_thread opt =
     of_int \<lfloor>10 + real (unat (num_ops opt)) * insert_ratio opt / real (unat (num_threads opt))\<rfloor>"

text \<open>
  The prologue of a worker: seed, insert id, fresh statistics and a fresh latency sampler.
  \<open>w\<close> holds the thread-local statics the thread has from before.
\<close>

definition start_worker ::
  "(u32 \<Rightarrow> 'g) \<Rightarrow> 'g \<Rightarrow> options_t \<Rightarrow> u64 \<Rightarrow> nat \<Rightarrow> 'g worker \<Rightarrow> 'g worker" where
  "start_worker engine_seed knuth_b opt cur tid w =
     (let tls = set_seed engine_seed (rnd_seed opt * (of_nat tid + 1)) (w_tls w);
          tls = tls\<lparr>current_id := cur + inserts_per_thread opt * of_nat tid\<rparr>
      in w\<lparr>w_tls := tls, w_lat := knuth_b, w_stats := stats_new\<rparr>)"

definition run_init ::
  "('g, 's) bench \<Rightarrow> (u32 \<Rightarrow> 'g) \<Rightarrow> 'g \<Rightarrow> u64 \<Rightarrow> (nat \<Rightarrow> 'g worker) \<Rightarrow> 's \<Rightarrow> ('g, 's) par_state" where
  "run_init b engine_seed knuth_b cur prev s =
     (let T = unat (num_threads (b_opt b)) in
      \<lparr>par_threads = List.map (\<lambda>tid. (start_worker engine_seed knuth_b (b_opt b) cur tid (prev tid),
                                 chunk (unat (num_ops (b_opt b))) T tid)) [0..<T],
       par_store = s\<rparr>)"

inductive run_step :: "('g, 's) bench \<Rightarrow> ('g, 's) par_state \<Rightarrow> ('g, 's) par_state \<Rightarrow> bool"
  for b :: "('g, 's) bench" where
  exec: "i < length (par_threads st) \<Longrightarrow> par_threads st ! i = (w, Suc r) \<Longrightarrow>
    execute_op b i (inserts_per_thread (b_opt b)) t0 t1 (w, par_store st) = Inr (w', s') \<Longrightarrow>
    run_step b st \<lparr>par_threads = (par_threads st)[i := (w', r)], par_store = s'\<rparr>"

inductive_cases run_stepE: "run_step b st st'"

definition finished :: "('g, 's) par_state \<Rightarrow> bool" where
  "finished st \<longleftrightarrow> (\<forall>(w, r) \<in> set (par_threads st). r = 0)"

definition remaining :: "('g, 's) par_state \<Rightarrow> nat" where
  "remaining st = sum_list (List.map snd (par_threads st))"

section \<open>Totals\<close>

definition accumulate :: "(stats_t \<Rightarrow> u64) \<Rightarrow> stats_t list \<Rightarrow> u64" where
  "accumulate f sts = foldl (\<lambda>s st. s + f st) 0 sts"

record totals =
  total_ops :: u64
  total_success_ops :: u64
  total_insert :: u64
  total_success_insert :: u64
  total_read :: u64
  total_success_read :: u64
  total_update :: u64
  total_success_update :: u64
  total_remove :: u64
  total_success_remove :: u64
  total_scan :: u64
  total_success_scan :: u64

definition totals_of :: "stats_t list \<Rightarrow> totals" where
  "totals_of sts =
     \<lparr>total_ops = accumulate operation_count sts,
      total_success_ops = accumulate (\<lambda>st. success_insert_count st + success_read_count st
         + success_update_count st + success_remove_count st + success_scan_count st) sts,
      total_insert = accumulate insert_count sts,
      total_success_insert = accumulate success_insert_count sts,
      total_read = accumulate read_count sts,
      total_success_read = accumulate success_read_count sts,
      total_update = accumulate update_count sts,
      total_success_update = accumulate success_update_count sts,
      total_remove = accumulate remove_count sts,
      total_success_remove = accumulate success_remove_count sts,
      total_scan = accumulate scan_count sts,
      total_success_scan = accumulate success_scan_count sts\<rparr>"

datatype run_result = Fatal_mismatch | Results totals

definition run_report :: "options_t \<Rightarrow> stats_t list \<Rightarrow> run_result" where
  "run_report opt sts =
     (let t = totals_of sts in
      if bm_mode opt = Operation \<and> num_ops opt \<noteq> total_ops t then Fatal_mismatch else Results t)"

definition local_stats :: "('g, 's) par_state \<Rightarrow> stats_t list" where
  "local_stats st = List.map (w_stats \<circ> fst) (par_threads st)"

lemma unat_accumulate:
  assumes "sum_list (List.map (unat \<circ> f) sts) < 2 ^ 64"
  shows "unat (accumulate f sts) = sum_list (List.map (unat \<circ> f) sts)"
proof -
  have "unat a + sum_list (List.map (unat \<circ> f) sts) < 2 ^ 64 \<Longrightarrow>
    unat (foldl (\<lambda>s st. s + f st) a sts) = unat a + sum_list (List.map (unat \<circ> f) sts)" for a
  proof (induction sts arbitrary: a)
    case (Cons st sts)
    then have "unat (a + f st) = unat a + unat (f st)" by (simp add: unat_word_ariths)
    then show ?case using Cons by simp
  qed simp
  from this [of 0] assms show ?thesis by (simp add: accumulate_def)
qed

section \<open>Invariant of a run\<close>

definition work :: "'g worker \<times> nat \<Rightarrow> nat" where
  "work wr = unat (operation_count (w_stats (fst wr))) + snd wr"

definition run_inv :: "nat \<Rightarrow> ('g, 's) par_state \<Rightarrow> bool" where
  "run_inv n st \<longleftrightarrow> (\<forall>(w, r) \<in> set (par_threads st). stats_wf (w_stats w)) \<and>
     sum_list (List.map work (par_threads st)) = n"

lemma map_update_same: "i < length xs \<Longrightarrow> f y = f (xs ! i) \<Longrightarrow> List.map f (xs[i := y]) = List.map f xs"
  by (metis length_map list_update_id map_update nth_map)

lemma elem_le_work: "i < length xs \<Longrightarrow> f (xs ! i) \<le> sum_list (List.map f xs)" for f :: "'a \<Rightarrow> nat"
  by (metis elem_le_sum_list length_map nth_map)

lemma run_step_inv:
  assumes "run_inv n st" and "n < 2 ^ 64" and "run_step b st st'"
  shows "run_inv n st'" and "remaining st = Suc (remaining st')"
    and "length (par_threads st') = length (par_threads st)"
proof -
  from assms(3) obtain i w r t0 t1 w' s' where i: "i < length (par_threads st)"
      "par_threads st ! i = (w, Suc r)"
      "execute_op b i (inserts_per_thread (b_opt b)) t0 t1 (w, par_store st) = Inr (w', s')"
      "st' = \<lparr>par_threads = (par_threads st)[i := (w', r)], par_store = s'\<rparr>"
    by (rule run_stepE) blast
  have wf: "stats_wf (w_stats w)"
    using assms(1) i(1,2) nth_mem [OF i(1)] by (auto simp: run_inv_def)
  have "work (w, Suc r) \<le> n"
    using elem_le_work [OF i(1), of work] assms(1) i(2) by (simp add: run_inv_def)
  then have room: "unat (operation_count (w_stats w)) < 2 ^ 64 - 1" using assms(2) by (simp add: work_def)
  note ex = execute_op_wf [OF wf room i(3)]
  have "work (w', r) = work (par_threads st ! i)" using ex(2) i(2) by (simp add: work_def)
  then have "List.map work (par_threads st') = List.map work (par_threads st)"
    using i(1,4) by (simp add: map_update_same)
  moreover have "\<forall>(w, r) \<in> set (par_threads st'). stats_wf (w_stats w)"
    using assms(1) ex(1) i(4) set_update_subset_insert [of "par_threads st" i "(w', r)"]
    by (auto simp: run_inv_def)
  ultimately show "run_inv n st'" using assms(1) by (simp add: run_inv_def)
  have "List.map snd (par_threads st') = (List.map snd (par_threads st))[i := r]" by (simp add: i(4) map_update)
  then show "remaining st = Suc (remaining st')"
    using i(1,2) sum_list_update [of i "List.map snd (par_threads st)" r]
      elem_le_sum_list [of i "List.map snd (par_threads st)"]
    by (simp add: remaining_def)
  show "length (par_threads st') = length (par_threads st)" by (simp add: i(4))
qed

lemma run_steps_inv:
  assumes "(run_step b ^^ k) st st'" and "run_inv n st" and "n < 2 ^ 64"
  shows "run_inv n st' \<and> remaining st = k + remaining st' \<and>
         length (par_threads st') = length (par_threads st)"
  using assms(1)
proof (induction k arbitrary: st')
  case (Suc k)
  then obtain st1 where "(run_step b ^^ k) st st1" "run_step b st1 st'" by auto
  then show ?case using Suc.IH [of st1] run_step_inv [of n st1 b st'] assms(3) by simp
qed (simp add: assms(2))

lemma run_init_inv:
  assumes "0 < unat (num_threads (b_opt b))"
  shows "run_inv (unat (num_ops (b_opt b))) (run_init b es kb cur prev s)"
    and "remaining (run_init b es kb cur prev s) = unat (num_ops (b_opt b))"
    and "length (par_threads (run_init b es kb cur prev s)) = unat (num_threads (b_opt b))"
proof -
  have *: "List.map work (par_threads (run_init b es kb cur prev s))
      = List.map (chunk (unat (num_ops (b_opt b))) (unat (num_threads (b_opt b)))) [0..<unat (num_threads (b_opt b))]"
    by (simp add: run_init_def Let_def work_def start_worker_def stats_new_def o_def)
  have "\<forall>(w, r) \<in> set (par_threads (run_init b es kb cur prev s)). stats_wf (w_stats w)"
    by (auto simp: run_init_def Let_def start_worker_def stats_new_wf)
  then show "run_inv (unat (num_ops (b_opt b))) (run_init b es kb cur prev s)"
    unfolding run_inv_def * using sum_list_chunk [OF assms, of "unat (num_ops (b_opt b))"] by blast
  show "remaining (run_init b es kb cur prev s) = unat (num_ops (b_opt b))"
    using sum_list_chunk [OF assms, of "unat (num_ops (b_opt b))"]
    by (simp add: remaining_def run_init_def Let_def o_def)
  show "length (par_threads (run_init b es kb cur prev s)) = unat (num_threads (b_opt b))"
    by (simp add: run_init_def Let_def)
qed

lemma finished_remaining: "finished st \<longleftrightarrow> remaining st = 0"
  by (auto simp: finished_def remaining_def)

lemma finished_work:
  assumes "finished st"
  shows "List.map work (par_threads st) = List.map (unat \<circ> operation_count) (local_stats st)"
  using assms by (auto simp: finished_def local_stats_def work_def)

lemma totals_exact:
  assumes "run_inv n st" and "finished st" and "n < 2 ^ 64"
  shows "unat (total_ops (totals_of (local_stats st))) = n"
proof -
  have "sum_list (List.map (unat \<circ> operation_count) (local_stats st)) = n"
    using assms(1) finished_work [OF assms(2)] by (simp add: run_inv_def)
  then show ?thesis using unat_accumulate [of operation_count "local_stats st"] assms(3)
    by (simp add: totals_of_def)
qed

text \<open>The totals of the five kinds add up, and successes never exceed attempts.\<close>

lemma sum_list_map_le:
  "(\<And>x. x \<in> set xs \<Longrightarrow> f x \<le> g x) \<Longrightarrow> sum_list (List.map f xs) \<le> (sum_list (List.map g xs) :: nat)"
  by (induction xs) (simp_all add: add_mono)

lemma kinds_add_up:
  assumes "\<forall>st \<in> set sts. counts_wf st" and "sum_list (List.map (unat \<circ> operation_count) sts) < 2 ^ 64"
  shows "unat (total_ops (totals_of sts)) = unat (total_insert (totals_of sts)) + unat (total_read (totals_of sts))
       + unat (total_update (totals_of sts)) + unat (total_remove (totals_of sts)) + unat (total_scan (totals_of sts))"
proof -
  let ?S = "\<lambda>f. sum_list (List.map (unat \<circ> f) sts)"
  have split5: "?S operation_count = ?S insert_count + ?S read_count + ?S update_count + ?S remove_count + ?S scan_count"
    using assms(1) by (induction sts) (auto simp: counts_wf_def)
  then have "?S insert_count < 2 ^ 64" "?S read_count < 2 ^ 64" "?S update_count < 2 ^ 64"
      "?S remove_count < 2 ^ 64" "?S scan_count < 2 ^ 64" using assms(2) by linarith+
  then show ?thesis using split5 assms(2) by (simp only: totals_of_def totals.simps unat_accumulate)
qed

section \<open>Progress\<close>

text \<open>What the constructor establishes: a full table of named operations and a usable key buffer.\<close>

definition bench_ok :: "('g, 's) bench \<Rightarrow> bool" where
  "bench_ok b \<longleftrightarrow> bm_mode (b_opt b) = Operation \<and> length (ops (b_ops b)) = 256 \<and>
     (\<forall>op \<in> set (ops (b_ops b)). \<forall>c. op \<noteq> Unknown c)"

definition workers_wf :: "('g, 's) bench \<Rightarrow> ('g, 's) par_state \<Rightarrow> bool" where
  "workers_wf b st \<longleftrightarrow> (\<forall>(w, r) \<in> set (par_threads st). kg_wf (b_kg b) (w_tls w))"

lemma kg_wf_hash_id: "kg_wf kg tls \<Longrightarrow> hash_id be kg rid tls = Some tls' \<Longrightarrow> kg_wf kg tls'"
  by (auto simp: hash_id_eq kg_wf_def kg_size_def)

lemma execute_key_ok:
  assumes "bench_ok b" and "kg_wf (b_kg b) tls"
  shows "\<exists>tls'. execute_key b ipt op st tls = Inr tls' \<and> kg_wf (b_kg b) tls'"
proof (cases "op = INSERT")
  case True
  then show ?thesis
    using kg_next_sequence_eq [OF assms(2), of "b_be b" "b_next_id b"] assms(2)
    by (simp add: execute_key_def)
next
  case False
  let ?tls = "tls\<lparr>kg_engine := snd (b_next_id b (kg_engine tls))\<rparr>"
  have wf: "kg_wf (b_kg b) ?tls" using assms(2) by (simp add: kg_wf_def)
  obtain tls' where "hash_id (b_be b) (b_kg b) (fst (b_next_id b (kg_engine tls))) ?tls = Some tls'"
    using hash_id_eq [OF wf] by blast
  then show ?thesis using False assms(1) kg_wf_hash_id [OF wf]
    by (auto simp: execute_key_def bench_ok_def split: prod.splits)
qed

lemma run_op_total: "(\<And>c. op \<noteq> Unknown c) \<Longrightarrow> \<exists>w' s'. run_op b tid op key (w, s) = Inr (w', s')"
  by (cases op) (auto simp: run_op_def Let_def split: prod.splits)

lemma execute_op_ok:
  assumes "bench_ok b" and "kg_wf (b_kg b) (w_tls w)"
  shows "\<exists>w' s'. execute_op b tid ipt t0 t1 (w, s) = Inr (w', s') \<and> kg_wf (b_kg b) (w_tls w')"
proof -
  let ?op = "op_next (b_ops b) (fst (b_op_draw b (w_op w)))"
  obtain tls where tls: "execute_key b ipt ?op (w_stats w) (w_tls w) = Inr tls" "kg_wf (b_kg b) tls"
    using execute_key_ok [OF assms] by blast
  have "?op \<in> set (ops (b_ops b))"
    using assms(1) unat_and_ff [of "fst (b_op_draw b (w_op w))"] by (simp add: op_next_def bench_ok_def)
  then have named: "?op \<noteq> Unknown c" for c using assms(1) by (auto simp: bench_ok_def)
  define w1 where "w1 = push_time (fst (b_bool b (w_lat w))) t0
    (w\<lparr>w_op := snd (b_op_draw b (w_op w)), w_tls := tls, w_lat := snd (b_bool b (w_lat w))\<rparr>)"
  obtain w' s' where r: "run_op b tid ?op (key_bytes (b_kg b) tls) (w1, s) = Inr (w', s')"
    using run_op_total [OF named] by metis
  have "w_tls w' = tls" using run_op_cases(3) [OF r] by (simp add: w1_def)
  moreover have "execute_op b tid ipt t0 t1 (w, s) = Inr (push_time (fst (b_bool b (w_lat w))) t1 w', s')"
    using r by (simp add: execute_op_def split_beta tls(1) w1_def)
  ultimately show ?thesis using tls(2) by simp
qed

lemma unfinished_thread:
  assumes "\<not> finished st"
  obtains i w r where "i < length (par_threads st)" "par_threads st ! i = (w, Suc r)"
proof -
  obtain w r where "(w, r) \<in> set (par_threads st)" "r \<noteq> 0" using assms by (auto simp: finished_def)
  then show thesis using that by (metis in_set_conv_nth not0_implies_Suc)
qed

lemma run_progress:
  assumes "bench_ok b" and "workers_wf b st" and "\<not> finished st"
  shows "\<exists>st'. run_step b st st' \<and> workers_wf b st'"
proof -
  obtain i w r where i: "i < length (par_threads st)" "par_threads st ! i = (w, Suc r)"
    using assms(3) by (rule unfinished_thread)
  have "kg_wf (b_kg b) (w_tls w)" using assms(2) i nth_mem [OF i(1)] by (auto simp: workers_wf_def)
  then obtain w' s' where e: "execute_op b i (inserts_per_thread (b_opt b)) 0 0 (w, par_store st) = Inr (w', s')"
      "kg_wf (b_kg b) (w_tls w')" using execute_op_ok [OF assms(1)] by blast
  have "workers_wf b \<lparr>par_threads = (par_threads st)[i := (w', r)], par_store = s'\<rparr>"
    using assms(2) e(2) set_update_subset_insert [of "par_threads st" i "(w', r)"]
    by (auto simp: workers_wf_def)
  then show ?thesis using run_step.exec [OF i e(1)] by blast
qed

lemma run_step_workers_wf:
  assumes "bench_ok b" and "workers_wf b st" and "run_step b st st'"
  shows "workers_wf b st'"
proof -
  from assms(3) obtain i w r t0 t1 w' s' where i: "i < length (par_threads st)" "par_threads st ! i = (w, Suc r)"
      "execute_op b i (inserts_per_thread (b_opt b)) t0 t1 (w, par_store st) = Inr (w', s')"
      "st' = \<lparr>par_threads = (par_threads st)[i := (w', r)], par_store = s'\<rparr>"
    by (auto elim: run_step.cases)
  have "kg_wf (b_kg b) (w_tls w)" using assms(2) i nth_mem [OF i(1)] by (auto simp: workers_wf_def)
  then have "kg_wf (b_kg b) (w_tls w')"
    using execute_op_ok [OF assms(1), of w i "inserts_per_thread (b_opt b)" t0 t1 "par_store st"] i(3) by auto
  then show ?thesis using assms(2) i set_update_subset_insert [of "par_threads st" i "(w', r)"]
    by (fastforce simp: workers_wf_def)
qed

lemma run_steps_workers_wf:
  assumes "bench_ok b" and "workers_wf b st" and "(run_step b ^^ k) st st'"
  shows "workers_wf b st'"
  using assms(3) by (induction k arbitrary: st') (use assms(1,2) run_step_workers_wf in auto)

lemma run_completes:
  assumes "bench_ok b" and "workers_wf b st" and "run_inv n st" and "n < 2 ^ 64"
  shows "\<exists>st'. (run_step b ^^ remaining st) st st' \<and> finished st'"
  using assms(2,3)
proof (induction "remaining st" arbitrary: st)
  case 0
  then show ?case by (metis finished_remaining relpowp_0_I)
next
  case (Suc m)
  then have "\<not> finished st" by (simp add: finished_remaining)
  then obtain st1 where st1: "run_step b st st1" "workers_wf b st1"
    using run_progress [OF assms(1) Suc.prems(1)] by blast
  note inv1 = run_step_inv [OF Suc.prems(2) assms(4) st1(1)]
  then have m: "m = remaining st1" using Suc.hyps(2) by simp
  obtain st' where "(run_step b ^^ m) st1 st'" "finished st'"
    using Suc.hyps(1) [OF m st1(2) inv1(1)] m by blast
  then show ?case using st1(1) Suc.hyps(2) by (metis relpowp_Suc_I2)
qed

lemma run_init_workers_wf:
  assumes "\<And>tid. kg_wf (b_kg b) (w_tls (prev tid))"
  shows "workers_wf b (run_init b es kb cur prev s)"
  using assms by (auto simp: workers_wf_def run_init_def Let_def start_worker_def set_seed_def kg_wf_def)


text \<open>
  C7: in \<open>Operation\<close> mode every complete run performs exactly \<open>num_ops\<close> operations whatever the
  interleaving, so the program's \<open>Fatal: Total operations specified/performed don't match\<close> exit
  cannot be taken; the reported operations are the sum of the five reported kinds.
\<close>

theorem run_totals_match:
  assumes "0 < unat (num_threads (b_opt b))"
    and "(run_step b)\<^sup>*\<^sup>* (run_init b es kb cur prev s) st" and "finished st"
  shows "\<exists>t. run_report (b_opt b) (local_stats st) = Results t \<and> total_ops t = num_ops (b_opt b) \<and>
     unat (total_ops t) = unat (total_insert t) + unat (total_read t) + unat (total_update t)
       + unat (total_remove t) + unat (total_scan t)"
proof -
  let ?n = "unat (num_ops (b_opt b))"
  have n: "?n < 2 ^ 64" by (rule unat_lt64)
  obtain k where "(run_step b ^^ k) (run_init b es kb cur prev s) st"
    using assms(2) unfolding rtranclp_power by blast
  then have inv: "run_inv ?n st" using run_steps_inv run_init_inv(1) [OF assms(1)] n by blast
  have tot: "unat (total_ops (totals_of (local_stats st))) = ?n" by (rule totals_exact [OF inv assms(3) n])
  then have "total_ops (totals_of (local_stats st)) = num_ops (b_opt b)" using word_unat_eq_iff by blast
  moreover have "\<forall>s \<in> set (local_stats st). counts_wf s"
    using inv by (auto simp: run_inv_def local_stats_def stats_wf_def)
  moreover have "sum_list (List.map (unat \<circ> operation_count) (local_stats st)) < 2 ^ 64"
    using inv finished_work [OF assms(3)] n by (simp add: run_inv_def)
  ultimately show ?thesis using kinds_add_up [of "local_stats st"]
    by (intro exI [of _ "totals_of (local_stats st)"]) (simp only: run_report_def Let_def simp_thms if_False)
qed

text \<open>A small configuration on which the theorems above are instantiated.\<close>

definition demo_client :: "unit client_api" where
  "demo_client = \<lparr>api_find = (\<lambda>k s. ((True, []), s)), api_insert = (\<lambda>k v s. (True, s)),
     api_update = (\<lambda>k v s. (True, s)), api_remove = (\<lambda>k s. (False, s)), api_scan = (\<lambda>k n s. (0, s))\<rparr>"

definition demo_bench :: "(unit, unit) bench" where
  "demo_bench = \<lparr>b_opt = options_default\<lparr>num_ops := 5, num_threads := 2\<rparr>, b_be = False,
     b_kg = \<lparr>kg_N = 100, kg_sz = 8, kg_prefix = []\<rparr>, b_ops = \<lparr>ops = replicate 256 INSERT\<rparr>,
     b_vg = value_generator_new 8, b_api = (\<lambda>_. demo_client), b_next_id = Pair 1, b_op_draw = Pair 0,
     b_uniform = (\<lambda>a b. Pair a), b_bool = Pair True\<rparr>"

definition demo_worker :: "nat \<Rightarrow> unit worker" where
  "demo_worker tid = \<lparr>w_tls = kg_tls_init (), w_op = (), w_val = (), w_lat = (), w_stats = stats_new\<rparr>"

lemma demo_ok: "bench_ok demo_bench" "0 < unat (num_threads (b_opt demo_bench))"
    "kg_wf (b_kg demo_bench) (w_tls (demo_worker tid))"
  by (simp_all add: bench_ok_def demo_bench_def options_default_def kg_wf_def kg_size_def KEY_MAX_def
      kg_tls_init_def demo_worker_def)

abbreviation demo_init :: "(unit, unit) par_state" where
  "demo_init \<equiv> run_init demo_bench (\<lambda>_. ()) () 0 demo_worker ()"


theorem run_totals_match_witness:
  "\<exists>st t. (run_step demo_bench)\<^sup>*\<^sup>* demo_init st \<and> finished st \<and>
     run_report (b_opt demo_bench) (local_stats st) = Results t \<and> total_ops t = num_ops (b_opt demo_bench) \<and>
     unat (total_ops t) = unat (total_insert t) + unat (total_read t) + unat (total_update t)
       + unat (total_remove t) + unat (total_scan t)"
proof -
  obtain st where st: "(run_step demo_bench ^^ remaining demo_init) demo_init st" "finished st"
    using run_completes [OF demo_ok(1) run_init_workers_wf [of demo_bench demo_worker, OF demo_ok(3)]
        run_init_inv(1) [OF demo_ok(2)] unat_lt64] by blast
  then have r: "(run_step demo_bench)\<^sup>*\<^sup>* demo_init st" by (metis relpowp_imp_rtranclp)
  from run_totals_match [OF demo_ok(2) r st(2)] r st(2) show ?thesis by blast
qed

section \<open>Samples\<close>

text \<open>One sample of the monitor thread, without and with the sector counts of a device.\<close>

definition sample_stats :: "(u64 \<times> u64) option \<Rightarrow> stats_t list \<Rightarrow> stats_t" where
  "sample_stats disk sts =
     (let s = stats_new\<lparr>operation_count := accumulate operation_count sts,
                        insert_count := accumulate insert_count sts,
                        read_count := accumulate read_count sts\<rparr>
      in case disk of None \<Rightarrow> s
         | Some (r, w) \<Rightarrow> s\<lparr>read_sector_count := r, write_sector_count := w\<rparr>)"

definition diff_stats :: "stats_t \<Rightarrow> stats_t \<Rightarrow> stats_t" where
  "diff_stats x y =
     stats_new\<lparr>operation_count := operation_count x - operation_count y,
               read_count := read_count x - read_count y,
               insert_count := insert_count x - insert_count y,
               read_sector_count := read_sector_count x - read_sector_count y,
               write_sector_count := write_sector_count x - write_sector_count y\<rparr>"

fun difference_loop :: "('a \<Rightarrow> 'a \<Rightarrow> 'a) \<Rightarrow> 'a \<Rightarrow> 'a list \<Rightarrow> 'a list" where
  "difference_loop f acc [] = []"
| "difference_loop f acc (y # ys) = f y acc # difference_loop f y ys"

fun adjacent_difference :: "('a \<Rightarrow> 'a \<Rightarrow> 'a) \<Rightarrow> 'a list \<Rightarrow> 'a list" where
  "adjacent_difference f [] = []"
| "adjacent_difference f (x # xs) = x # difference_loop f x xs"

definition printed_samples :: "stats_t list \<Rightarrow> stats_t list" where
  "printed_samples global_stats = adjacent_difference diff_stats global_stats"

text \<open>How many samples the monitor thread takes in \<open>Time\<close> mode; \<open>None\<close> is a division by zero.\<close>

definition time_mode_samples :: "options_t \<Rightarrow> nat option" where
  "time_mode_samples opt =
     (if sampling_ms opt = 0 then None
      else Some (max 1 (unat (opt_seconds opt * 1000 div sampling_ms opt))))"

lemma difference_loop_telescopes:
  fixes g :: "'a \<Rightarrow> 'b::ab_group_add"
  assumes "\<And>x y. g (f x y) = g x - g y" and "i \<le> length ys"
  shows "sum_list (List.map g (take i (difference_loop f p ys))) = g ((p # ys) ! i) - g p"
  using assms(2)
proof (induction ys arbitrary: p i)
  case (Cons y ys)
  then show ?case by (cases i) (simp_all add: assms(1))
qed simp

text \<open>
  The printed samples are consistent with the recorded counters: summing the printed
  per-window operation, insert and read counts up to any window gives back the cumulative
  counters sampled at that window.
\<close>

theorem printed_samples_telescope:
  assumes "i < length global_stats" and "f \<in> {operation_count, insert_count, read_count}"
  shows "sum_list (List.map f (take (Suc i) (printed_samples global_stats))) = f (global_stats ! i)"
proof -
  obtain x xs where g: "global_stats = x # xs" using assms(1) by (cases global_stats) auto
  have "f (diff_stats a b) = f a - f b" for a b using assms(2) by (auto simp: diff_stats_def)
  then have "sum_list (List.map f (take i (difference_loop diff_stats x xs))) = f ((x # xs) ! i) - f x"
    using assms(1) by (intro difference_loop_telescopes) (simp_all add: g)
  then show ?thesis by (simp add: printed_samples_def g)
qed

theorem printed_samples_telescope_witness:
  "sum_list (List.map operation_count (take (Suc 1) (printed_samples
      [stats_new\<lparr>operation_count := 4\<rparr>, stats_new\<lparr>operation_count := 9\<rparr>])))
    = operation_count ([stats_new\<lparr>operation_count := 4\<rparr>, stats_new\<lparr>operation_count := 9\<rparr>] ! 1)"
  by (rule printed_samples_telescope) simp_all

section \<open>Latencies\<close>

text \<open>
  The loop over \<open>times\<close> in steps of two; \<open>None\<close> is the read of \<open>times[i + 1]\<close> past the end.
\<close>

fun latency_pairs :: "nat list \<Rightarrow> u64 list option" where
  "latency_pairs [] = Some []"
| "latency_pairs [t] = None"
| "latency_pairs (t0 # t1 # ts) = map_option (Cons (of_nat t1 - of_nat t0)) (latency_pairs ts)"

fun global_latencies :: "stats_t list \<Rightarrow> u64 list option" where
  "global_latencies [] = Some []"
| "global_latencies (st # sts) =
     (case latency_pairs (times st) of
        None \<Rightarrow> None
      | Some ls \<Rightarrow> map_option (append ls) (global_latencies sts))"

definition latency_quantiles :: "real list" where
  "latency_quantiles = [0.5, 0.9, 0.99, 0.999, 0.9999, 0.99999]"

definition percentile :: "u64 list \<Rightarrow> real \<Rightarrow> u64" where
  "percentile ls q = ls ! nat \<lfloor>q * real (length ls)\<rfloor>"

text \<open>
  The report: minimum, the six quantiles, maximum. \<open>None\<close> is a read outside the vector, which
  happens when no request was sampled.
\<close>

definition latency_report :: "stats_t list \<Rightarrow> u64 list option" where
  "latency_report sts =
     (case global_latencies sts of
        None \<Rightarrow> None
      | Some ls \<Rightarrow>
          let ls = sort ls; observed = length ls in
          if observed = 0 then None
          else Some ([ls ! 0] @ List.map (percentile ls) latency_quantiles @ [ls ! (observed - 1)]))"

lemma latency_pairs_even: "even (length ts) \<Longrightarrow> \<exists>ls. latency_pairs ts = Some ls \<and> length ls = length ts div 2"
  by (induction ts rule: latency_pairs.induct) auto

lemma global_latencies_total:
  assumes "\<forall>st \<in> set sts. even (length (times st))"
  shows "\<exists>ls. global_latencies sts = Some ls \<and> length ls = sum_list (List.map (\<lambda>st. length (times st) div 2) sts)"
  using assms
proof (induction sts)
  case (Cons st sts)
  then show ?case using latency_pairs_even [of "times st"] by auto
qed simp

lemma quantile_index:
  assumes "0 \<le> q" "q < 1" "0 < n"
  shows "nat \<lfloor>q * real n\<rfloor> < n"
proof -
  have "q * real n < real n" using assms by simp
  then have "\<lfloor>q * real n\<rfloor> < int n" by (simp add: floor_less_iff)
  then show ?thesis using assms(3) by linarith
qed

lemma quantile_index_mono: "0 \<le> p \<Longrightarrow> p \<le> q \<Longrightarrow> nat \<lfloor>p * real n\<rfloor> \<le> nat \<lfloor>q * real n\<rfloor>"
  by (intro nat_mono floor_mono mult_right_mono) simp_all

lemma percentiles_sorted:
  assumes ls: "sorted ls" "ls \<noteq> []" and qs: "sorted qs" "\<forall>q \<in> set qs. 0 \<le> q \<and> q < 1"
  shows "sorted ([ls ! 0] @ List.map (percentile ls) qs @ [ls ! (length ls - 1)])"
proof -
  have n: "0 < length ls" using ls(2) by simp
  have idx: "nat \<lfloor>q * real (length ls)\<rfloor> < length ls" if "q \<in> set qs" for q
    using qs(2) that n by (intro quantile_index) auto
  have "sorted_wrt (\<lambda>p q. percentile ls p \<le> percentile ls q) qs"
    using qs(1)
  proof (rule sorted_wrt_mono_rel [rotated])
    fix p q assume pq: "p \<in> set qs" "q \<in> set qs" "p \<le> q"
    then have "nat \<lfloor>p * real (length ls)\<rfloor> \<le> nat \<lfloor>q * real (length ls)\<rfloor>"
      using qs(2) by (intro quantile_index_mono) auto
    then show "percentile ls p \<le> percentile ls q"
      unfolding percentile_def using ls(1) idx [OF pq(2)] by (intro sorted_nth_mono)
  qed
  then have "sorted (List.map (percentile ls) qs)" by (simp add: sorted_map)
  moreover have "ls ! 0 \<le> percentile ls q" "percentile ls q \<le> ls ! (length ls - 1)" if "q \<in> set qs" for q
    unfolding percentile_def using idx [OF that] n ls(1) by (auto intro!: sorted_nth_mono)
  moreover have "ls ! 0 \<le> ls ! (length ls - 1)" using n ls(1) by (intro sorted_nth_mono) auto
  ultimately show ?thesis by (auto simp: sorted_append)
qed

text \<open>
  when at least one request was sampled the latency report is defined and its eight numbers
  are in ascending order, from the minimum to the maximum of the observed latencies: every
  quantile index lies inside the vector and no start time lacks its end time.
\<close>

theorem latency_report_sorted:
  assumes "\<forall>st \<in> set sts. stats_wf st" and "\<exists>st \<in> set sts. times st \<noteq> []"
  shows "\<exists>ls r. global_latencies sts = Some ls \<and> latency_report sts = Some r \<and> length r = 8 \<and>
           sorted r \<and> hd r = Min (set ls) \<and> last r = Max (set ls)"
proof -
  obtain ls where ls: "global_latencies sts = Some ls"
      "length ls = sum_list (List.map (\<lambda>st. length (times st) div 2) sts)"
    using global_latencies_total assms(1) by (auto simp: stats_wf_def)
  obtain st where st: "st \<in> set sts" "times st \<noteq> []" using assms(2) by blast
  then have "even (length (times st))" "length (times st) \<noteq> 0" using assms(1) by (auto simp: stats_wf_def)
  then have "0 < length (times st) div 2" by presburger
  also have "\<dots> \<le> length ls" unfolding ls(2) using st(1) by (intro member_le_sum_list) auto
  finally have n: "0 < length ls" .
  let ?s = "sort ls"
  have idx: "?s ! i \<le> ?s ! j" if "i \<le> j" "j < length ls" for i j using that by (intro sorted_nth_mono) auto
  have ne: "?s \<noteq> []" using n by (metis length_0_conv length_sort less_numeral_extra(3))
  have "sorted ([?s ! 0] @ List.map (percentile ?s) latency_quantiles @ [?s ! (length ?s - 1)])"
    by (rule percentiles_sorted [OF _ ne]) (simp_all add: latency_quantiles_def)
  moreover have "?s ! 0 = Min (set ls)"
    using n by (metis (no_types) Min_eqI List.finite_set nth_mem set_sort length_sort in_set_conv_nth idx le0)
  moreover have "?s ! (length ls - 1) = Max (set ls)"
  proof (rule Max_eqI [symmetric])
    fix y assume "y \<in> set ls"
    then obtain i where "i < length ls" "y = ?s ! i" by (metis in_set_conv_nth length_sort set_sort)
    then show "y \<le> ?s ! (length ls - 1)" by (simp add: idx)
  qed (use n in \<open>simp_all add: nth_mem [of _ ?s, simplified]\<close>)
  ultimately show ?thesis using n ne ls(1)
    by (simp add: latency_report_def Let_def latency_quantiles_def)
qed

theorem latency_report_sorted_witness:
  "\<exists>ls r. global_latencies [stats_new\<lparr>times := [3, 10, 20, 22]\<rparr>] = Some ls \<and>
     latency_report [stats_new\<lparr>times := [3, 10, 20, 22]\<rparr>] = Some r \<and> length r = 8 \<and>
     sorted r \<and> hd r = Min (set ls) \<and> last r = Max (set ls)"
  by (rule latency_report_sorted) (simp_all add: stats_wf_def counts_wf_def stats_new_def)

lemma latency_report_unsampled:
  assumes "\<forall>st \<in> set sts. times st = []"
  shows "latency_report sts = None"
proof -
  have "global_latencies sts = Some []" using assms by (induction sts) auto
  then show ?thesis by (simp add: latency_report_def)
qed

end
