(* ===== verification/Load_Phase.thy ===== *)
theory Load_Phase
  imports Run_Phase
begin

text \<open>
  The load phase of \<^verbatim>\<open>benchmark.cpp\<close>: each thread inserts a consecutive range of record
  numbers, starting at \<open>num_records / num_threads * thread\<close>, for as many iterations as the
  static schedule gives it. Shown are which record numbers the threads cover, that over a store
  with the \<open>kv_upsert\<close> contract every record inserted by any interleaving is found afterwards,
  and which id the run phase continues from.
\<close>

section \<open>Record numbers of the threads\<close>

definition load_ids :: "nat \<Rightarrow> nat \<Rightarrow> nat \<Rightarrow> nat list" where
  "load_ids n T t = [n div T * t + 1 ..< n div T * t + 1 + chunk n T t]"

definition all_load_ids :: "nat \<Rightarrow> nat \<Rightarrow> nat list" where
  "all_load_ids n T = concat (List.map (load_ids n T) [0..<T])"

lemma load_ids_exact: "concat (List.map (\<lambda>t. [q * t + 1 ..< q * t + 1 + q]) [0..<T]) = [1..<q * T + 1]"
proof (induction T)
  case (Suc T)
  have "[1..<q * T + 1 + q] = [1..<q * T + 1] @ [q * T + 1..<q * T + 1 + q]" by (rule upt_add_eq_append) simp
  then show ?case using Suc by (simp add: algebra_simps)
qed simp

lemma length_load_ids [simp]: "length (load_ids n T t) = chunk n T t"
  by (simp only: load_ids_def length_upt diff_add_inverse)

lemma mem_all_load_ids:
  "i \<in> set (all_load_ids n T) \<longleftrightarrow>
     (\<exists>t<T. n div T * t + 1 \<le> i \<and> i < n div T * t + 1 + chunk n T t)"
  by (auto simp: all_load_ids_def load_ids_def)

lemma load_ids_all:
  assumes "0 < T" and "T dvd n"
  shows "all_load_ids n T = [1..<n + 1]"
proof -
  have m: "n mod T = 0" using assms by auto
  have "load_ids n T = (\<lambda>t. [n div T * t + 1 ..< n div T * t + 1 + n div T])"
    by (rule ext) (simp add: load_ids_def chunk_def m)
  then have "all_load_ids n T = [1..<n div T * T + 1]"
    unfolding all_load_ids_def by (simp only: load_ids_exact)
  then show ?thesis using assms(2) by (metis dvd_div_mult_self)
qed

text \<open>
  with a number of records that the number of threads divides, the load phase covers each
  record number from \<open>1\<close> to \<open>num_records\<close> exactly once, in thread order.
\<close>

theorem load_ids_divisible:
  assumes "0 < T" and "T dvd n"
  shows "all_load_ids n T = [1..<n + 1]"
  using assms by (rule load_ids_all)

theorem load_ids_divisible_witness: "all_load_ids 12 4 = [1..<12 + 1]"
  by (rule load_ids_divisible) simp_all

text \<open>
  C35: when the number of threads does not divide the number of records, the load phase inserts
  some record number twice and never inserts the last one: the starting points are spaced by the
  rounded-down quotient while the first threads run one iteration more.
\<close>

theorem load_ids_not_divisible:
  assumes "2 \<le> T" and "2 \<le> n" and "\<not> T dvd n"
  shows "length (all_load_ids n T) = n \<and> \<not> distinct (all_load_ids n T) \<and> n \<notin> set (all_load_ids n T)"
proof -
  define q r where "q = n div T" and "r = n mod T"
  have r: "0 < r" "r < T" using assms by (auto simp: r_def dvd_eq_mod_eq_0)
  have n: "n = q * T + r" by (simp add: q_def r_def)
  have len: "length (all_load_ids n T) = n"
    using sum_list_chunk [of T n] assms(1)
    by (simp add: all_load_ids_def length_concat o_def)
  have bound: "i \<le> q * T + 1 \<and> (r = 1 \<longrightarrow> i \<le> q * T \<or> i = q + 1)" if i: "i \<in> set (all_load_ids n T)" for i
  proof -
    obtain t where t: "t < T" "i < q * t + 1 + chunk n T t"
      using i unfolding mem_all_load_ids q_def by blast
    have "q * t + q \<le> q * T" using t(1) by (metis add.commute mult_Suc_right mult_le_mono2 Suc_leI)
    moreover have "q \<le> q * T" using assms(1) by simp
    moreover have "i \<le> q * t + q + (if t < r then 1 else 0)"
      using t(2) by (simp add: chunk_def q_def [symmetric] r_def [symmetric])
    moreover have "r = 1 \<longrightarrow> t < r \<longrightarrow> q * t = 0" by simp
    ultimately show ?thesis by presburger
  qed
  have notin: "n \<notin> set (all_load_ids n T)"
  proof
    assume "n \<in> set (all_load_ids n T)"
    from bound [OF this] n r have "r = 1" "n = q + 1" by auto
    then have "q * T = q" using n by simp
    then show False using assms(1,2) \<open>n = q + 1\<close> by simp
  qed
  have "set (all_load_ids n T) \<subseteq> {1..n} - {n}"
  proof
    fix i assume i: "i \<in> set (all_load_ids n T)"
    then have "1 \<le> i" unfolding mem_all_load_ids by force
    moreover have "i \<le> n" using bound [OF i] n r(1) by linarith
    ultimately show "i \<in> {1..n} - {n}" using i notin by auto
  qed
  then have "card (set (all_load_ids n T)) \<le> card ({1..n} - {n})" by (intro card_mono) auto
  also have "\<dots> < n" using assms(2) by simp
  finally have "\<not> distinct (all_load_ids n T)" using len by (metis distinct_card less_irrefl)
  then show ?thesis using len notin by blast
qed

theorem load_ids_not_divisible_witness:
  "length (all_load_ids 10 4) = 10 \<and> \<not> distinct (all_load_ids 10 4) \<and> 10 \<notin> set (all_load_ids 10 4)"
  by (rule load_ids_not_divisible) simp_all

section \<open>Interleaved loading\<close>

definition load_base :: "options_t \<Rightarrow> nat \<Rightarrow> u64" where
  "load_base opt tid = num_records opt div ucast (num_threads opt) * of_nat tid"

definition load_init :: "('g, 's) bench \<Rightarrow> (nat \<Rightarrow> 'g worker) \<Rightarrow> 's \<Rightarrow> ('g, 's) par_state" where
  "load_init b prev s =
     (let T = unat (num_threads (b_opt b)) in
      \<lparr>par_threads = List.map (\<lambda>tid. ((prev tid)\<lparr>w_tls := w_tls (prev tid)\<lparr>current_id := load_base (b_opt b) tid\<rparr>\<rparr>,
                                 chunk (unat (num_records (b_opt b))) T tid)) [0..<T],
       par_store = s\<rparr>)"

text \<open>
  One iteration of a thread. The result of the insert is only looked at by an assertion, which
  the release build compiles out.
\<close>

definition load_one :: "('g, 's) bench \<Rightarrow> nat \<Rightarrow> 'g worker \<times> 's \<Rightarrow> ('g worker \<times> 's) option" where
  "load_one b tid ws =
     (let (w, s) = ws in
      case kg_next (b_be b) (b_next_id b) (b_kg b) True (w_tls w) of
        None \<Rightarrow> None
      | Some tls \<Rightarrow>
          let (pos, g) = vg_next (b_uniform b) (b_vg b) (w_val w);
              (r, s') = api_insert (b_api b tid) (key_bytes (b_kg b) tls)
                          (pool_bytes pos (unat (value_size (b_opt b)))) s
          in Some (w\<lparr>w_tls := tls, w_val := g\<rparr>, s'))"

inductive load_step :: "('g, 's) bench \<Rightarrow> ('g, 's) par_state \<Rightarrow> ('g, 's) par_state \<Rightarrow> bool"
  for b :: "('g, 's) bench" where
  one: "i < length (par_threads st) \<Longrightarrow> par_threads st ! i = (w, Suc r) \<Longrightarrow>
    load_one b i (w, par_store st) = Some (w', s') \<Longrightarrow>
    load_step b st \<lparr>par_threads = (par_threads st)[i := (w', r)], par_store = s'\<rparr>"

inductive_cases load_stepE: "load_step b st st'"

text \<open>
  \<open>load\<close> as a whole on the calling thread's insert id: skipping the load sets it past the
  records; otherwise the caller is thread 0 of the parallel region and keeps that thread's id.
\<close>

definition id_after_load :: "options_t \<Rightarrow> ('g, 's) par_state \<Rightarrow> u64" where
  "id_after_load opt st =
     (if skip_load opt then num_records opt + 1
      else current_id (w_tls (fst (hd (par_threads st)))))"

section \<open>Loading ends\<close>

lemma load_one_total: "kg_wf (b_kg b) (w_tls w) \<Longrightarrow> \<exists>w' s'. load_one b tid (w, s) = Some (w', s')"
  by (simp add: load_one_def kg_next_sequence_eq Let_def split: prod.splits)

lemma load_one_wf:
  assumes "kg_wf (b_kg b) (w_tls w)" and "load_one b tid (w, s) = Some (w', s')"
  shows "kg_wf (b_kg b) (w_tls w')"
  using assms by (auto simp: load_one_def kg_next_sequence_eq Let_def split: prod.splits)

lemma load_step_remaining:
  assumes "load_step b st st'"
  shows "remaining st = Suc (remaining st')"
  using assms
proof (rule load_stepE)
  fix i w r w' s' assume i: "i < length (par_threads st)" "par_threads st ! i = (w, Suc r)"
    and st': "st' = \<lparr>par_threads = (par_threads st)[i := (w', r)], par_store = s'\<rparr>"
  then show ?thesis using elem_le_sum_list [of i "List.map snd (par_threads st)"]
    by (simp add: remaining_def map_update sum_list_update)
qed

lemma load_progress:
  assumes "workers_wf b st" and "\<not> finished st"
  shows "\<exists>st'. load_step b st st' \<and> workers_wf b st'"
proof -
  obtain i w r where i: "i < length (par_threads st)" "par_threads st ! i = (w, Suc r)"
    using assms(2) by (rule unfinished_thread)
  have wf: "kg_wf (b_kg b) (w_tls w)" using assms(1) i nth_mem [OF i(1)] by (auto simp: workers_wf_def)
  then obtain w' s' where e: "load_one b i (w, par_store st) = Some (w', s')"
    using load_one_total [OF wf, of i "par_store st"] by blast
  have "workers_wf b \<lparr>par_threads = (par_threads st)[i := (w', r)], par_store = s'\<rparr>"
    using assms(1) load_one_wf [OF wf e] set_update_subset_insert [of "par_threads st" i "(w', r)"]
    by (auto simp: workers_wf_def)
  then show ?thesis using load_step.one [OF i e] by blast
qed

lemma load_completes:
  assumes "workers_wf b st"
  shows "\<exists>st'. (load_step b)\<^sup>*\<^sup>* st st' \<and> finished st'"
  using assms
proof (induction "remaining st" arbitrary: st)
  case 0
  then show ?case by (metis finished_remaining rtranclp.rtrancl_refl)
next
  case (Suc m)
  then have "\<not> finished st" by (simp add: finished_remaining)
  then obtain st1 where st1: "load_step b st st1" "workers_wf b st1" using load_progress Suc.prems by blast
  then have "m = remaining st1" using load_step_remaining [OF st1(1)] Suc.hyps(2) by simp
  then show ?case using Suc.hyps(1) [of st1] st1 by (meson converse_rtranclp_into_rtranclp)
qed

lemma load_init_workers_wf:
  assumes "\<And>tid. kg_wf (b_kg b) (w_tls (prev tid))"
  shows "workers_wf b (load_init b prev s)"
  using assms by (auto simp: workers_wf_def load_init_def Let_def kg_wf_def)

section \<open>Where the run phase continues\<close>

lemma hash_id_current_id: "hash_id be kg rid tls = Some tls' \<Longrightarrow> current_id tls' = current_id tls"
  by (auto simp: hash_id_def Let_def split: if_splits option.splits)

lemma load_one_current_id:
  "load_one b tid (w, s) = Some (w', s') \<Longrightarrow> current_id (w_tls w') = current_id (w_tls w) + 1"
  by (auto simp: load_one_def kg_next_def Let_def dest!: hash_id_current_id split: option.splits prod.splits)

text \<open>The id a thread will have reached when it is done never changes.\<close>

definition final_id :: "'g worker \<times> nat \<Rightarrow> u64" where
  "final_id wr = current_id (w_tls (fst wr)) + of_nat (snd wr)"

lemma load_step_final_ids:
  assumes "load_step b st st'"
  shows "List.map final_id (par_threads st') = List.map final_id (par_threads st)"
  using assms
proof (rule load_stepE)
  fix i w r w' s' assume i: "i < length (par_threads st)" "par_threads st ! i = (w, Suc r)"
    "load_one b i (w, par_store st) = Some (w', s')"
    and st': "st' = \<lparr>par_threads = (par_threads st)[i := (w', r)], par_store = s'\<rparr>"
  have "final_id (w', r) = final_id (par_threads st ! i)"
    using load_one_current_id [OF i(3)] i(2) by (simp add: final_id_def algebra_simps)
  then show ?thesis using i(1) by (simp add: st' map_update_same)
qed

lemma load_final_ids:
  "(load_step b)\<^sup>*\<^sup>* st st' \<Longrightarrow> List.map final_id (par_threads st') = List.map final_id (par_threads st)"
  by (induction rule: rtranclp_induct) (simp_all add: load_step_final_ids)

lemma finished_hd:
  assumes "finished st" and "par_threads st \<noteq> []"
  shows "current_id (w_tls (fst (hd (par_threads st)))) = final_id (hd (par_threads st))"
proof -
  have "hd (par_threads st) \<in> set (par_threads st)" using assms(2) by simp
  then have "snd (hd (par_threads st)) = 0"
    using assms(1) unfolding finished_def by (metis (mono_tags, lifting) case_prod_unfold)
  then show ?thesis by (simp add: final_id_def)
qed



section \<open>Every inserted record is found\<close>

definition thread_inv ::
  "('g, 's) bench \<Rightarrow> (byte list \<Rightarrow> bool) \<Rightarrow> 'g worker \<times> nat \<Rightarrow> 'g worker \<times> nat \<Rightarrow> bool" where
  "thread_inv b present wr0 wr \<longleftrightarrow>
     (let tls0 = w_tls (fst wr0); tls = w_tls (fst wr); p = length (kg_prefix (b_kg b)) in
      kg_wf (b_kg b) tls \<and> take p (kg_buf tls) = take p (kg_buf tls0) \<and>
      (\<exists>d. snd wr + d = snd wr0 \<and> current_id tls = current_id tls0 + of_nat d \<and>
        (\<forall>j. 1 \<le> j \<and> j \<le> d \<longrightarrow>
           present (seq_key (b_be b) (b_kg b) (take p (kg_buf tls0)) (current_id tls0 + of_nat j)))))"

lemma thread_inv_mono:
  "thread_inv b present wr0 wr \<Longrightarrow> (\<And>k. present k \<Longrightarrow> present' k) \<Longrightarrow> thread_inv b present' wr0 wr"
  unfolding thread_inv_def Let_def by blast

lemma thread_inv_init: "kg_wf (b_kg b) (w_tls w) \<Longrightarrow> thread_inv b present (w, n) (w, n)"
  by (auto simp: thread_inv_def Let_def)

definition values_ok :: "('g, 's) bench \<Rightarrow> bool" where
  "values_ok b \<longleftrightarrow> uniform_ok (b_uniform b) \<and> unat (value_size (b_opt b)) \<le> VALUE_MAX \<and>
     b_vg b = value_generator_new (value_size (b_opt b))"

lemma pool_bytes_length:
  assumes "values_ok b"
  shows "length (pool_bytes (fst (vg_next (b_uniform b) (b_vg b) g)) (unat (value_size (b_opt b))))
           = unat (value_size (b_opt b))"
  using assms value_in_pool [of "b_uniform b" "value_size (b_opt b)" g]
  by (simp add: values_ok_def pool_bytes_def)

lemma load_one_effect:
  assumes "kg_wf (b_kg b) (w_tls w)" and "load_one b tid (w, s) = Some (w', s')"
  obtains tls pos where
    "kg_next (b_be b) (b_next_id b) (b_kg b) True (w_tls w) = Some tls" "w_tls w' = tls"
    "s' = snd (api_insert (b_api b tid) (key_bytes (b_kg b) tls) (pool_bytes pos (unat (value_size (b_opt b)))) s)"
    "pos = fst (vg_next (b_uniform b) (b_vg b) (w_val w))"
  using assms(2) by (auto simp: load_one_def Let_def split: option.splits prod.splits)

text \<open>The record a thread inserts next is one of those it was given.\<close>

lemma thread_inv_key:
  assumes inv: "thread_inv b present (w0, n) (w, Suc r)"
    and nxt: "kg_next (b_be b) (b_next_id b) (b_kg b) True (w_tls w) = Some tls"
  shows "\<exists>j. 1 \<le> j \<and> j \<le> n \<and> key_bytes (b_kg b) tls =
    seq_key (b_be b) (b_kg b) (take (length (kg_prefix (b_kg b))) (kg_buf (w_tls w0))) (current_id (w_tls w0) + of_nat j)"
proof -
  let ?p = "length (kg_prefix (b_kg b))"
  have wf: "kg_wf (b_kg b) (w_tls w)" and
    buf: "take ?p (kg_buf (w_tls w)) = take ?p (kg_buf (w_tls w0))"
    using inv by (simp_all add: thread_inv_def Let_def)
  obtain d where d: "Suc r + d = n" "current_id (w_tls w) = current_id (w_tls w0) + of_nat d"
    using inv by (auto simp: thread_inv_def Let_def)
  have "key_bytes (b_kg b) tls = seq_key (b_be b) (b_kg b) (take ?p (kg_buf (w_tls w0))) (current_id (w_tls w0) + of_nat (Suc d))"
    by (simp add: kg_next_sequence_props(4) [OF wf nxt] buf d(2) algebra_simps)
  then show ?thesis using d(1) by (intro exI [of _ "Suc d"]) simp
qed

lemma thread_inv_step:
  assumes inv: "thread_inv b present (w0, n) (w, Suc r)"
    and nxt: "kg_next (b_be b) (b_next_id b) (b_kg b) True (w_tls w) = Some tls" "w_tls w' = tls"
    and present: "present (key_bytes (b_kg b) tls)"
  shows "thread_inv b present (w0, n) (w', r)"
proof -
  let ?p = "length (kg_prefix (b_kg b))"
  let ?k = "\<lambda>j. seq_key (b_be b) (b_kg b) (take ?p (kg_buf (w_tls w0))) (current_id (w_tls w0) + of_nat j)"
  have wf: "kg_wf (b_kg b) (w_tls w)" and
    buf: "take ?p (kg_buf (w_tls w)) = take ?p (kg_buf (w_tls w0))"
    using inv by (simp_all add: thread_inv_def Let_def)
  obtain d where d: "Suc r + d = n" "current_id (w_tls w) = current_id (w_tls w0) + of_nat d"
      "\<forall>j. 1 \<le> j \<and> j \<le> d \<longrightarrow> present (?k j)"
    using inv by (auto simp: thread_inv_def Let_def)
  note step = kg_next_sequence_props [OF wf nxt(1)]
  have key: "key_bytes (b_kg b) tls = ?k (Suc d)" by (simp add: step(4) buf d(2) algebra_simps)
  have "present (?k j)" if "1 \<le> j \<and> j \<le> Suc d" for j
    using that d(3) present key by (cases "j = Suc d") (simp_all only: le_Suc_eq, auto)
  moreover have "r + Suc d = n" using d(1) by simp
  moreover have "current_id tls = current_id (w_tls w0) + of_nat (Suc d)"
    by (simp add: step(2) d(2) algebra_simps)
  ultimately show ?thesis
    unfolding thread_inv_def Let_def fst_conv snd_conv nxt(2) using step(1,3) buf by metis
qed

lemma load_base_nat:
  "load_base opt t = of_nat (unat (num_records opt) div unat (num_threads opt) * t)"
proof -
  have "unat (ucast (num_threads opt) :: u64) = unat (num_threads opt)" by (rule unat_ucast_widen) simp
  then have "num_records opt div ucast (num_threads opt) = of_nat (unat (num_records opt) div unat (num_threads opt))"
    by (simp only: word_arith_nat_div)
  then show ?thesis by (simp add: load_base_def)
qed

context kv_upsert
begin

definition load_inv :: "('g, 'a) bench \<Rightarrow> ('g, 'a) par_state \<Rightarrow> ('g, 'a) par_state \<Rightarrow> bool" where
  "load_inv b st0 st \<longleftrightarrow>
     length (par_threads st) = length (par_threads st0) \<and>
     (\<forall>i < length (par_threads st).
        thread_inv b (\<lambda>k. contents (par_store st) k \<noteq> None) (par_threads st0 ! i) (par_threads st ! i)) \<and>
     inv (par_store st)"

lemma load_step_insert:
  assumes api: "b_api b = api" and vals: "values_ok b"
    and keys: "\<And>i j. i < length (par_threads st0) \<Longrightarrow> 1 \<le> j \<Longrightarrow> j \<le> snd (par_threads st0 ! i) \<Longrightarrow>
      key_ok (seq_key (b_be b) (b_kg b) (take (length (kg_prefix (b_kg b))) (kg_buf (w_tls (fst (par_threads st0 ! i)))))
        (current_id (w_tls (fst (par_threads st0 ! i))) + of_nat j))"
    and vok: "\<And>v. length v = unat (value_size (b_opt b)) \<Longrightarrow> value_ok v"
    and inv: "load_inv b st0 st" and step: "load_step b st st'"
  obtains i w r w' k v where "i < length (par_threads st)" "par_threads st ! i = (w, Suc r)"
    "par_threads st' = (par_threads st)[i := (w', r)]" "key_ok k" "value_ok v"
    "par_store st' = snd (api_insert (api i) k v (par_store st))"
    "kg_next (b_be b) (b_next_id b) (b_kg b) True (w_tls w) = Some (w_tls w')" "k = key_bytes (b_kg b) (w_tls w')"
proof -
  from step obtain i w r w' s' where i: "i < length (par_threads st)" "par_threads st ! i = (w, Suc r)"
      "load_one b i (w, par_store st) = Some (w', s')"
      "st' = \<lparr>par_threads = (par_threads st)[i := (w', r)], par_store = s'\<rparr>"
    by (rule load_stepE) blast
  note I = inv [unfolded load_inv_def]
  have ti: "thread_inv b (\<lambda>k. contents (par_store st) k \<noteq> None) (par_threads st0 ! i) (w, Suc r)"
    using I i by (metis)
  then have wf: "kg_wf (b_kg b) (w_tls w)" by (simp add: thread_inv_def Let_def)
  obtain tls pos where e: "kg_next (b_be b) (b_next_id b) (b_kg b) True (w_tls w) = Some tls" "w_tls w' = tls"
      "s' = snd (api_insert (b_api b i) (key_bytes (b_kg b) tls) (pool_bytes pos (unat (value_size (b_opt b)))) (par_store st))"
      "pos = fst (vg_next (b_uniform b) (b_vg b) (w_val w))"
    using load_one_effect [OF wf i(3)] by blast
  let ?k = "key_bytes (b_kg b) tls" and ?v = "pool_bytes pos (unat (value_size (b_opt b)))"
  obtain w0 n where w0: "par_threads st0 ! i = (w0, n)" by fastforce
  have "i < length (par_threads st0)" using I i(1) by simp
  then have "key_ok ?k" using thread_inv_key [OF ti [unfolded w0] e(1)] keys [of i] by (auto simp: w0)
  moreover have "value_ok ?v" using pool_bytes_length [OF vals] by (intro vok) (simp add: e(4))
  moreover have "par_store st' = snd (api_insert (api i) ?k ?v (par_store st))" "par_threads st' = (par_threads st)[i := (w', r)]"
    using i(4) e(3) api by simp_all
  ultimately show thesis using that [of i w r w' ?k ?v] i(1,2) e(1,2) by blast
qed

lemma load_inv_step:
  assumes api: "b_api b = api" and vals: "values_ok b"
    and keys: "\<And>i j. i < length (par_threads st0) \<Longrightarrow> 1 \<le> j \<Longrightarrow> j \<le> snd (par_threads st0 ! i) \<Longrightarrow>
      key_ok (seq_key (b_be b) (b_kg b) (take (length (kg_prefix (b_kg b))) (kg_buf (w_tls (fst (par_threads st0 ! i)))))
        (current_id (w_tls (fst (par_threads st0 ! i))) + of_nat j))"
    and vok: "\<And>v. length v = unat (value_size (b_opt b)) \<Longrightarrow> value_ok v"
    and inv: "load_inv b st0 st" and step: "load_step b st st'" and ok: "ok (par_store st')"
  shows "load_inv b st0 st'"
proof -
  from load_step_insert [OF api vals keys vok inv step] obtain i w r w' k v where
    i: "i < length (par_threads st)" "par_threads st ! i = (w, Suc r)" "par_threads st' = (par_threads st)[i := (w', r)]"
      "key_ok k" "value_ok v" "par_store st' = snd (api_insert (api i) k v (par_store st))"
      "kg_next (b_be b) (b_next_id b) (b_kg b) True (w_tls w) = Some (w_tls w')" "k = key_bytes (b_kg b) (w_tls w')"
    by blast
  let ?s' = "par_store st'"
  note I = inv [unfolded load_inv_def]
  have ti: "thread_inv b (\<lambda>k. contents (par_store st) k \<noteq> None) (par_threads st0 ! i) (w, Suc r)"
    using I i by (metis)
  obtain w0 n where w0: "par_threads st0 ! i = (w0, n)" by fastforce
  have ins: "contents ?s' = (contents (par_store st))(k \<mapsto> v)" "inv ?s'"
    using insert_upsert [of "par_store st" k v i] I i(4-6) ok by auto
  have "thread_inv b (\<lambda>k. contents ?s' k \<noteq> None) (par_threads st0 ! j) (par_threads st' ! j)"
    if j: "j < length (par_threads st')" for j
  proof (cases "j = i")
    case True
    have "thread_inv b (\<lambda>k. contents ?s' k \<noteq> None) (w0, n) (w, Suc r)"
      using ti unfolding w0 by (rule thread_inv_mono) (simp add: ins(1))
    then have "thread_inv b (\<lambda>k. contents ?s' k \<noteq> None) (w0, n) (w', r)"
      by (rule thread_inv_step [OF _ i(7) refl]) (simp add: ins(1) i(8))
    then show ?thesis using True i(1) by (simp add: i(3) w0)
  next
    case False
    then have "thread_inv b (\<lambda>k. contents (par_store st) k \<noteq> None) (par_threads st0 ! j) (par_threads st' ! j)"
      using I j by (simp add: i(3))
    then show ?thesis by (rule thread_inv_mono) (simp add: ins(1))
  qed
  then show ?thesis using I ins by (simp add: load_inv_def i(3))
qed

lemma load_step_ok:
  assumes "b_api b = api" and "load_step b st st'" and "ok (par_store st')"
  shows "ok (par_store st)"
proof -
  from assms(2) obtain i w w' s' where "load_one b i (w, par_store st) = Some (w', s')" "par_store st' = s'"
    by (rule load_stepE) auto
  then obtain k v where "par_store st' = snd (api_insert (api i) k v (par_store st))"
    by (auto simp: load_one_def Let_def assms(1) split: option.splits prod.splits) (metis snd_conv)
  then show ?thesis using assms(3) ok_before by metis
qed

lemma load_inv_reachable:
  assumes "b_api b = api" "values_ok b"
    "\<And>i j. i < length (par_threads st0) \<Longrightarrow> 1 \<le> j \<Longrightarrow> j \<le> snd (par_threads st0 ! i) \<Longrightarrow>
      key_ok (seq_key (b_be b) (b_kg b) (take (length (kg_prefix (b_kg b))) (kg_buf (w_tls (fst (par_threads st0 ! i)))))
        (current_id (w_tls (fst (par_threads st0 ! i))) + of_nat j))"
    "\<And>v. length v = unat (value_size (b_opt b)) \<Longrightarrow> value_ok v"
    and "(load_step b)\<^sup>*\<^sup>* st0 st" and "load_inv b st0 st0" and "ok (par_store st)"
  shows "load_inv b st0 st"
  using assms(5-7)
proof induction
  case (step st st')
  have "load_inv b st0 st" by (rule step.IH [OF step.prems(1) load_step_ok [OF assms(1) step.hyps(2) step.prems(2)]])
  then show ?case using load_inv_step [OF assms(1-4)] step by blast
qed

lemma load_init_inv:
  assumes "inv s" and "\<And>tid. kg_wf (b_kg b) (w_tls (prev tid))"
  shows "load_inv b (load_init b prev s) (load_init b prev s)"
proof -
  have "kg_wf (b_kg b) (w_tls (prev t)\<lparr>current_id := c\<rparr>)" for t c
    using assms(2) [of t] by (simp add: kg_wf_def)
  then show ?thesis using assms(1)
    by (simp add: load_inv_def load_init_def Let_def thread_inv_init)
qed

text \<open>Every record a thread was given is found once all threads are done.\<close>

lemma load_found:
  assumes env: "b_api b = api" "values_ok b"
      "\<And>t j. t < unat (num_threads (b_opt b)) \<Longrightarrow> 1 \<le> j \<Longrightarrow>
         j \<le> chunk (unat (num_records (b_opt b))) (unat (num_threads (b_opt b))) t \<Longrightarrow>
         key_ok (seq_key (b_be b) (b_kg b) (take (length (kg_prefix (b_kg b))) (kg_buf (w_tls (prev t))))
           (load_base (b_opt b) t + of_nat j))"
      "\<And>v. length v = unat (value_size (b_opt b)) \<Longrightarrow> value_ok v"
    and init: "inv s" "\<And>tid. kg_wf (b_kg b) (w_tls (prev tid))"
    and run: "(load_step b)\<^sup>*\<^sup>* (load_init b prev s) st" "finished st" "ok (par_store st)"
    and t: "t < unat (num_threads (b_opt b))"
      "i \<in> set (load_ids (unat (num_records (b_opt b))) (unat (num_threads (b_opt b))) t)"
  shows "fst (fst (api_find (api tid) (seq_key (b_be b) (b_kg b)
           (take (length (kg_prefix (b_kg b))) (kg_buf (w_tls (prev t)))) (of_nat i)) (par_store st)))"
proof -
  let ?n = "unat (num_records (b_opt b))" and ?T = "unat (num_threads (b_opt b))"
  let ?pre = "take (length (kg_prefix (b_kg b))) (kg_buf (w_tls (prev t)))"
  let ?q = "?n div ?T * t"
  let ?present = "\<lambda>k. contents (par_store st) k \<noteq> None"
  have inv: "load_inv b (load_init b prev s) st"
    by (rule load_inv_reachable [OF env(1,2) _ env(4) run(1) load_init_inv [OF init] run(3)])
       (use env(3) in \<open>simp add: load_init_def Let_def\<close>)
  then have st: "inv (par_store st)" "length (par_threads st) = ?T"
    by (simp_all add: load_inv_def load_init_def Let_def)
  have "thread_inv b ?present (par_threads (load_init b prev s) ! t) (par_threads st ! t)"
    using inv t(1) st(2) by (simp add: load_inv_def)
  moreover have "snd (par_threads st ! t) = 0"
  proof -
    have "par_threads st ! t \<in> set (par_threads st)" using t(1) st(2) by simp
    then show ?thesis using run(2) unfolding finished_def by (metis (mono_tags, lifting) case_prod_unfold)
  qed
  ultimately have all: "\<forall>j. 1 \<le> j \<and> j \<le> chunk ?n ?T t \<longrightarrow>
      ?present (seq_key (b_be b) (b_kg b) ?pre (load_base (b_opt b) t + of_nat j))"
    using t(1) by (simp add: thread_inv_def Let_def load_init_def)
  have i: "?q + 1 \<le> i" "i < ?q + 1 + chunk ?n ?T t" using t(2) unfolding load_ids_def set_upt atLeastLessThan_iff by blast+
  have "load_base (b_opt b) t + of_nat (i - ?q) = of_nat i"
    using i(1) unfolding load_base_nat by (simp flip: of_nat_add)
  moreover have r: "1 \<le> i - ?q" "i - ?q \<le> chunk ?n ?T t" using i by linarith+
  then have "?present (seq_key (b_be b) (b_kg b) ?pre (load_base (b_opt b) t + of_nat (i - ?q)))"
    using all by blast
  moreover have "key_ok (seq_key (b_be b) (b_kg b) ?pre (load_base (b_opt b) t + of_nat (i - ?q)))"
    by (rule env(3) [OF t(1) r])
  ultimately show ?thesis using find_flag [OF st(1)] by metis
qed

end

context kv_upsert_room
begin

text \<open>With room for every record, no insert of the load phase fails, whatever the interleaving.\<close>

lemma load_room:
  assumes env: "b_api b = api" "values_ok b"
      "\<And>i j. i < length (par_threads st0) \<Longrightarrow> 1 \<le> j \<Longrightarrow> j \<le> snd (par_threads st0 ! i) \<Longrightarrow>
        key_ok (seq_key (b_be b) (b_kg b) (take (length (kg_prefix (b_kg b))) (kg_buf (w_tls (fst (par_threads st0 ! i)))))
          (current_id (w_tls (fst (par_threads st0 ! i))) + of_nat j))"
      "\<And>v. length v = unat (value_size (b_opt b)) \<Longrightarrow> value_ok v"
    and "(load_step b)\<^sup>*\<^sup>* st0 st" and init: "load_inv b st0 st0" "ok (par_store st0)" "room (par_store st0) (remaining st0)"
  shows "load_inv b st0 st \<and> ok (par_store st) \<and> room (par_store st) (remaining st)"
  using assms(5)
proof induction
  case base
  then show ?case using init by blast
next
  case (step st st')
  then have I: "load_inv b st0 st" "ok (par_store st)" "room (par_store st) (Suc (remaining st'))"
    using load_step_remaining [OF step.hyps(2)] by simp_all
  obtain i k v where "key_ok k" "value_ok v" "par_store st' = snd (api_insert (api i) k v (par_store st))"
    using load_step_insert [OF env I(1) step.hyps(2)] by blast
  then have "ok (par_store st') \<and> room (par_store st') (remaining st')"
    using insert_room [of "par_store st" k v "remaining st'" i] I by (simp add: load_inv_def)
  then show ?case using load_inv_step [OF env I(1) step.hyps(2)] by blast
qed

end

end
