(* ===== verification/Flat_Segment.thy ===== *)
theory Flat_Segment
  imports Complex_Main Prelude
begin

unbundle bit_operations_syntax

text \<open>
  FlatStore's log entries and segments: \<open>KVItem\<close> and \<open>TaggedPointer\<close> of
  \<^verbatim>\<open>include/db_common.h\<close>, \<open>BaseSegment\<close> and \<open>LogSegment\<close> of \<^verbatim>\<open>db/segment.h\<close>, in the
  configuration the build selects (log persistent; \<open>REDUCE_PM_ACCESS\<close>, \<open>GC_SHORTCUT\<close>,
  \<open>LOG_BATCHING\<close>, \<open>BATCH_COMPACTION\<close> and \<open>HOT_COLD_SEPARATE\<close> off). The pool is a flat memory of
  bytes; the 256-byte header in front of every segment, which no log entry overlaps, is kept as
  a record.
\<close>

section \<open>Constants\<close>

definition SEGMENT_SIZE :: nat where "SEGMENT_SIZE = 4194304"
definition HEADERS_SIZE :: nat where "HEADERS_SIZE = 256"
definition SEGMENT_DATA_SIZE :: nat where "SEGMENT_DATA_SIZE = SEGMENT_SIZE - HEADERS_SIZE"
definition sizeof_KVItem :: nat where "sizeof_KVItem = 8"
definition INVALID_VALUE :: nat where "INVALID_VALUE = 0"

section \<open>\<open>KVItem\<close>\<close>

text \<open>
  The image of a log entry: the 15-bit key size with the garbage bit above it, the value size,
  the epoch, then key and value. The sizes are truncated to their fields, and only that many
  bytes are copied.
\<close>

definition kv_image :: "byte list \<Rightarrow> byte list \<Rightarrow> u32 \<Rightarrow> byte list" where
  "kv_image key val epoch =
     (let ks = length key mod 2 ^ 15; vs = length val mod 2 ^ 16 in
      le_bytes 2 (of_nat ks :: u16) @ le_bytes 2 (of_nat vs :: u16) @ le_bytes 4 epoch
      @ take ks key @ take vs val)"

text \<open>The image of the default constructor: a zeroed header.\<close>

definition kv_zero :: "byte list" where "kv_zero = replicate sizeof_KVItem 0"

definition kv_key_size :: "memory \<Rightarrow> nat \<Rightarrow> nat" where
  "kv_key_size m p = unat (le_word (mem_read m p 2) :: u16) mod 2 ^ 15"

definition kv_is_garbage :: "memory \<Rightarrow> nat \<Rightarrow> bool" where
  "kv_is_garbage m p \<longleftrightarrow> bit (le_word (mem_read m p 2) :: u16) 15"

definition kv_val_size :: "memory \<Rightarrow> nat \<Rightarrow> nat" where
  "kv_val_size m p = unat (le_word (mem_read m (p + 2) 2) :: u16)"

definition kv_epoch :: "memory \<Rightarrow> nat \<Rightarrow> u32" where
  "kv_epoch m p = le_word (mem_read m (p + 4) 4)"

definition kv_GetKey :: "memory \<Rightarrow> nat \<Rightarrow> byte list" where
  "kv_GetKey m p = mem_read m (p + sizeof_KVItem) (kv_key_size m p)"

definition kv_GetValue :: "memory \<Rightarrow> nat \<Rightarrow> byte list" where
  "kv_GetValue m p = mem_read m (p + sizeof_KVItem + kv_key_size m p) (kv_val_size m p)"

definition kv_size :: "memory \<Rightarrow> nat \<Rightarrow> nat" where
  "kv_size m p = sizeof_KVItem + kv_key_size m p + kv_val_size m p"

text \<open>A pointer is stored in the index as it is; reading it back keeps the low 48 bits.\<close>

definition tagged_pointer :: "nat \<Rightarrow> nat \<Rightarrow> nat" where
  "tagged_pointer ptr sz = ptr"

definition tp_GetAddr :: "nat \<Rightarrow> nat" where
  "tp_GetAddr v = v mod 2 ^ 48"

subsection \<open>Reading back an entry\<close>

lemma length_kv_image:
  "length key < 2 ^ 15 \<Longrightarrow> length val < 2 ^ 16 \<Longrightarrow>
   length (kv_image key val e) = sizeof_KVItem + length key + length val"
  by (simp add: kv_image_def Let_def sizeof_KVItem_def)

lemma le_word_u16: "n < 2 ^ 16 \<Longrightarrow> unat (le_word (le_bytes 2 (of_nat n :: u16)) :: u16) = n"
  by (simp add: le_word_le_bytes_full unat_of_nat)

lemma kv_image_read:
  assumes "length key < 2 ^ 15" "length val < 2 ^ 16"
    and "mem_read m p (sizeof_KVItem + length key + length val) = kv_image key val e"
  shows "kv_key_size m p = length key" and "kv_val_size m p = length val" and "kv_epoch m p = e"
    and "kv_GetKey m p = key" and "kv_GetValue m p = val" and "\<not> kv_is_garbage m p"
    and "kv_size m p = sizeof_KVItem + length key + length val"
proof -
  have split: "mem_read m p (sizeof_KVItem + length key + length val)
      = mem_read m p 2 @ mem_read m (p + 2) 2 @ mem_read m (p + 4) 4
        @ mem_read m (p + 8) (length key) @ mem_read m (p + 8 + length key) (length val)"
  proof -
    have e: "sizeof_KVItem + length key + length val = 2 + (2 + (4 + (length key + length val)))"
      by (simp add: sizeof_KVItem_def)
    have a: "p + 2 + 2 = p + 4" "p + 4 + 4 = p + 8" by simp_all
    show ?thesis unfolding e mem_read_append a by (rule refl)
  qed
  have img: "kv_image key val e = le_bytes 2 (of_nat (length key) :: u16) @ le_bytes 2 (of_nat (length val) :: u16)
      @ le_bytes 4 e @ key @ val"
    using assms(1,2) by (simp add: kv_image_def Let_def)
  have parts: "mem_read m p 2 = le_bytes 2 (of_nat (length key) :: u16)"
      "mem_read m (p + 2) 2 = le_bytes 2 (of_nat (length val) :: u16)" "mem_read m (p + 4) 4 = le_bytes 4 e"
      "mem_read m (p + 8) (length key) = key" "mem_read m (p + 8 + length key) (length val) = val"
    using assms(3) unfolding split img by simp_all
  show ks: "kv_key_size m p = length key"
    using assms(1) le_word_u16 [of "length key"] by (simp add: kv_key_size_def parts(1))
  show vs: "kv_val_size m p = length val"
    using assms(2) le_word_u16 [of "length val"] unfolding kv_val_size_def parts(2) by simp
  show "kv_epoch m p = e" by (simp add: kv_epoch_def parts(3) le_word_le_bytes_full)
  show "kv_GetKey m p = key" by (simp add: kv_GetKey_def ks sizeof_KVItem_def parts(4))
  show "kv_GetValue m p = val" by (simp add: kv_GetValue_def ks vs sizeof_KVItem_def parts(5))
  show "kv_size m p = sizeof_KVItem + length key + length val" by (simp add: kv_size_def ks vs)
  have "\<not> bit (length key) 15"
    using assms(1) by (simp add: bit_iff_odd)
  then show "\<not> kv_is_garbage m p"
    by (simp add: kv_is_garbage_def parts(1) le_word_le_bytes_full bit_simps)
qed

text \<open>An entry written at the end of a segment is read back as it was.\<close>

lemma kv_image_write_read:
  assumes "length key < 2 ^ 15" "length val < 2 ^ 16"
  shows "mem_read (mem_write m p (kv_image key val e)) p (sizeof_KVItem + length key + length val)
           = kv_image key val e"
  using mem_read_write_same [of m p "kv_image key val e"] length_kv_image [OF assms, of e] by simp

text \<open>What an entry says depends only on the bytes it occupies.\<close>

lemma kv_fields_cong:
  assumes "\<And>a. p \<le> a \<Longrightarrow> a < p + kv_size m p \<Longrightarrow> m' a = m a"
  shows "kv_key_size m' p = kv_key_size m p" "kv_val_size m' p = kv_val_size m p" "kv_epoch m' p = kv_epoch m p"
    "kv_GetKey m' p = kv_GetKey m p" "kv_GetValue m' p = kv_GetValue m p" "kv_size m' p = kv_size m p"
proof -
  have rd: "mem_read m' (p + i) n = mem_read m (p + i) n" if "i + n \<le> kv_size m p" for i n
    using that by (intro mem_read_cong assms) auto
  have sz: "sizeof_KVItem \<le> kv_size m p" by (simp add: kv_size_def)
  have r2: "mem_read m' p 2 = mem_read m p 2" using rd [of 0 2] sz by (simp add: sizeof_KVItem_def)
  have r4: "mem_read m' (p + 2) 2 = mem_read m (p + 2) 2" using rd [of 2 2] sz by (simp add: sizeof_KVItem_def)
  have r8: "mem_read m' (p + 4) 4 = mem_read m (p + 4) 4" using rd [of 4 4] sz by (simp add: sizeof_KVItem_def)
  show ks: "kv_key_size m' p = kv_key_size m p" unfolding kv_key_size_def r2 ..
  show vs: "kv_val_size m' p = kv_val_size m p" unfolding kv_val_size_def r4 ..
  show "kv_epoch m' p = kv_epoch m p" unfolding kv_epoch_def r8 ..
  show "kv_GetKey m' p = kv_GetKey m p" unfolding kv_GetKey_def ks by (rule rd) (simp add: kv_size_def)
  show "kv_GetValue m' p = kv_GetValue m p"
    unfolding kv_GetValue_def ks vs add.assoc by (rule rd) (simp add: kv_size_def)
  show "kv_size m' p = kv_size m p" by (simp add: kv_size_def ks vs)
qed

section \<open>Segments\<close>

datatype SegmentStatus = StatusAvailable | StatusUsing | StatusClosed

record header =
  h_offset :: nat
  h_status :: SegmentStatus
  h_objects_tail_offset :: nat
  h_has_shortcut :: bool

text \<open>The persistent pool: log bytes by address, headers by the address of their segment.\<close>

record pool =
  pm_bytes :: memory
  pm_hdr :: "nat \<Rightarrow> header"

record log_segment =
  segment_start :: nat
  seg_tail :: nat
  cur_cnt :: nat
  has_shortcut :: bool
  close_time :: nat
  garbage_bytes :: nat
  is_hot :: bool

definition data_start :: "log_segment \<Rightarrow> nat" where
  "data_start s = segment_start s + HEADERS_SIZE"

definition seg_end :: "log_segment \<Rightarrow> nat" where
  "seg_end s = segment_start s + SEGMENT_SIZE"

definition HasSpaceFor :: "log_segment \<Rightarrow> nat \<Rightarrow> bool" where
  "HasSpaceFor s sz \<longleftrightarrow> seg_tail s + sz \<le> seg_end s"

definition AllocOne :: "nat \<Rightarrow> log_segment \<Rightarrow> nat option \<times> log_segment" where
  "AllocOne sz s =
     (if seg_tail s + sz \<le> seg_end s
      then (Some (seg_tail s), s\<lparr>seg_tail := seg_tail s + sz, cur_cnt := cur_cnt s + 1\<rparr>)
      else (None, s))"

definition AllocSpace :: "nat \<Rightarrow> log_segment \<Rightarrow> nat option \<times> log_segment" where
  "AllocSpace sz s =
     (if seg_tail s + sz \<le> seg_end s then (Some (seg_tail s), s\<lparr>seg_tail := seg_tail s + sz\<rparr>) else (None, s))"

definition get_offset :: "log_segment \<Rightarrow> nat" where
  "get_offset s = seg_tail s - data_start s"

definition set_header :: "(header \<Rightarrow> header) \<Rightarrow> log_segment \<Rightarrow> pool \<Rightarrow> pool" where
  "set_header f s pm = pm\<lparr>pm_hdr := (pm_hdr pm)(segment_start s := f (pm_hdr pm (segment_start s)))\<rparr>"

text \<open>The constructor, with and without \<open>Init\<close>; the tail is left as \<open>t0\<close> without it.\<close>

definition segment_object :: "nat \<Rightarrow> nat \<Rightarrow> log_segment" where
  "segment_object addr t0 = \<lparr>segment_start = addr, seg_tail = t0, cur_cnt = 0, has_shortcut = False,
     close_time = 0, garbage_bytes = 0, is_hot = False\<rparr>"

definition seg_Init :: "log_segment \<times> pool \<Rightarrow> log_segment \<times> pool" where
  "seg_Init sp =
     (let (s, pm) = sp in
      (s\<lparr>seg_tail := data_start s\<rparr>,
       set_header (\<lambda>h. h\<lparr>h_objects_tail_offset := 0, h_status := StatusAvailable\<rparr>) s pm))"

definition log_segment_new :: "nat \<Rightarrow> bool \<Rightarrow> pool \<Rightarrow> log_segment \<times> pool" where
  "log_segment_new addr init pm =
     (let s = segment_object addr 0 in if init then seg_Init (s, pm) else (s, pm))"

definition StartUsing :: "bool \<Rightarrow> bool \<Rightarrow> log_segment \<times> pool \<Rightarrow> log_segment \<times> pool" where
  "StartUsing hot shortcut sp =
     (let (s, pm) = sp in
      (s\<lparr>is_hot := hot\<rparr>, set_header (\<lambda>h. h\<lparr>h_status := StatusUsing, h_has_shortcut := shortcut\<rparr>) s pm))"

definition seg_Close :: "nat \<Rightarrow> log_segment \<times> pool \<Rightarrow> log_segment \<times> pool" where
  "seg_Close now sp =
     (let (s, pm) = sp;
          (s, pm) = (if HasSpaceFor s sizeof_KVItem
                     then (s\<lparr>seg_tail := seg_tail s + sizeof_KVItem\<rparr>,
                           pm\<lparr>pm_bytes := mem_write (pm_bytes pm) (seg_tail s) kv_zero\<rparr>)
                     else (s, pm));
          s = s\<lparr>close_time := now\<rparr>
      in (s, set_header (\<lambda>h. h\<lparr>h_offset := get_offset s, h_status := StatusClosed,
                               h_objects_tail_offset := get_offset s, h_has_shortcut := has_shortcut s\<rparr>) s pm))"

definition seg_Clear :: "log_segment \<times> pool \<Rightarrow> log_segment \<times> pool" where
  "seg_Clear sp =
     (let (s, pm) = sp in
      (s\<lparr>seg_tail := data_start s, garbage_bytes := 0, is_hot := False, has_shortcut := False, cur_cnt := 0\<rparr>,
       set_header (\<lambda>h. h\<lparr>h_status := StatusAvailable, h_objects_tail_offset := 0, h_has_shortcut := False\<rparr>) s pm))"

definition seg_Append :: "byte list \<Rightarrow> byte list \<Rightarrow> u32 \<Rightarrow> log_segment \<times> pool \<Rightarrow> nat \<times> log_segment \<times> pool" where
  "seg_Append key val epoch sp =
     (let (s, pm) = sp; sz = sizeof_KVItem + length key + length val in
      if \<not> HasSpaceFor s sz then (INVALID_VALUE, s, pm)
      else (tagged_pointer (seg_tail s) sz,
            s\<lparr>seg_tail := seg_tail s + sz, cur_cnt := cur_cnt s + 1\<rparr>,
            pm\<lparr>pm_bytes := mem_write (pm_bytes pm) (seg_tail s) (kv_image key val epoch)\<rparr>))"

definition GetGarbageProportion :: "log_segment \<Rightarrow> real" where
  "GetGarbageProportion s = of_nat (garbage_bytes s) / of_nat (get_offset s)"

text \<open>Without tombstones only the byte count is kept.\<close>

definition seg_MarkGarbage :: "nat \<Rightarrow> nat \<Rightarrow> log_segment \<Rightarrow> log_segment" where
  "seg_MarkGarbage p sz s = s\<lparr>garbage_bytes := garbage_bytes s + sz\<rparr>"

definition IsHot :: "log_segment \<Rightarrow> bool" where
  "IsHot s = is_hot s"

section \<open>Well-formed segments\<close>

definition seg_wf :: "log_segment \<Rightarrow> bool" where
  "seg_wf s \<longleftrightarrow> data_start s \<le> seg_tail s \<and> seg_tail s \<le> seg_end s"

lemma seg_wf_preserved:
  assumes "seg_wf s"
  shows "seg_wf (snd (AllocOne sz s))" "seg_wf (snd (AllocSpace sz s))"
    "seg_wf (fst (seg_Init (s, pm)))" "seg_wf (fst (StartUsing h c (s, pm)))"
    "seg_wf (fst (seg_Close t (s, pm)))" "seg_wf (fst (seg_Clear (s, pm)))"
    "seg_wf (fst (snd (seg_Append k v e (s, pm))))" "seg_wf (seg_MarkGarbage p sz s)"
  using assms
  by (auto simp: seg_wf_def AllocOne_def AllocSpace_def seg_Init_def StartUsing_def seg_Close_def seg_Clear_def
      seg_Append_def seg_MarkGarbage_def HasSpaceFor_def data_start_def seg_end_def Let_def
      SEGMENT_SIZE_def HEADERS_SIZE_def)

text \<open>
  C27: a log entry that fits is appended exactly at the old tail and reads back as the same key,
  value and epoch with the garbage bit clear; no byte below the old tail changes, the segment
  stays within its bounds, and the returned pointer is never the invalid value.
\<close>

theorem seg_Append_roundtrip:
  assumes "seg_wf s" and "length key < 2 ^ 15" and "length val < 2 ^ 16"
    and "HasSpaceFor s (sizeof_KVItem + length key + length val)"
    and "seg_Append key val e (s, pm) = (v, s', pm')"
  shows "v = seg_tail s \<and> v \<noteq> INVALID_VALUE \<and> seg_wf s' \<and> seg_tail s' = v + kv_size (pm_bytes pm') v \<and>
         kv_GetKey (pm_bytes pm') v = key \<and> kv_GetValue (pm_bytes pm') v = val \<and> kv_epoch (pm_bytes pm') v = e \<and>
         \<not> kv_is_garbage (pm_bytes pm') v \<and> (\<forall>a < v. pm_bytes pm' a = pm_bytes pm a) \<and> pm_hdr pm' = pm_hdr pm"
proof -
  let ?sz = "sizeof_KVItem + length key + length val"
  have r: "v = seg_tail s" "s' = s\<lparr>seg_tail := seg_tail s + ?sz, cur_cnt := cur_cnt s + 1\<rparr>"
      "pm' = pm\<lparr>pm_bytes := mem_write (pm_bytes pm) (seg_tail s) (kv_image key val e)\<rparr>"
    using assms(4,5) by (auto simp: seg_Append_def Let_def tagged_pointer_def)
  have "v \<noteq> INVALID_VALUE"
    using assms(1) by (simp add: r(1) seg_wf_def data_start_def HEADERS_SIZE_def INVALID_VALUE_def)
  moreover have "seg_wf s'" using seg_wf_preserved(7) [OF assms(1), of key val e pm] assms(5) by simp
  moreover have "mem_read (pm_bytes pm') v ?sz = kv_image key val e"
    using kv_image_write_read [OF assms(2,3)] by (simp add: r(1,3))
  note fields = kv_image_read [OF assms(2,3) this]
  moreover have "\<forall>a < v. pm_bytes pm' a = pm_bytes pm a" by (simp add: r(1,3) mem_write_def)
  ultimately show ?thesis by (simp add: r)
qed

theorem seg_Append_roundtrip_witness:
  "\<exists>v s' pm'. seg_Append [1, 2, 3, 4, 5, 6, 7, 8] [9, 10] 3
        (segment_object 4194304 4194560, \<lparr>pm_bytes = (\<lambda>_. 0), pm_hdr = (\<lambda>_. \<lparr>h_offset = 0,
          h_status = StatusUsing, h_objects_tail_offset = 0, h_has_shortcut = False\<rparr>)\<rparr>) = (v, s', pm') \<and>
     kv_GetKey (pm_bytes pm') v = [1, 2, 3, 4, 5, 6, 7, 8] \<and> kv_GetValue (pm_bytes pm') v = [9, 10] \<and>
     kv_epoch (pm_bytes pm') v = 3 \<and> v = 4194560"
proof -
  let ?s = "segment_object 4194304 4194560"
  let ?pm = "\<lparr>pm_bytes = (\<lambda>_. 0), pm_hdr = (\<lambda>_. \<lparr>h_offset = 0, h_status = StatusUsing,
    h_objects_tail_offset = 0, h_has_shortcut = False\<rparr>)\<rparr>"
  obtain v s' pm' where a: "seg_Append [1, 2, 3, 4, 5, 6, 7, 8] [9, 10] 3 (?s, ?pm) = (v, s', pm')"
    by (metis prod_cases3)
  have "seg_wf ?s" by (simp add: seg_wf_def segment_object_def data_start_def seg_end_def HEADERS_SIZE_def SEGMENT_SIZE_def)
  moreover have "HasSpaceFor ?s (sizeof_KVItem + length [1 :: byte, 2, 3, 4, 5, 6, 7, 8] + length [9 :: byte, 10])"
    by (simp add: HasSpaceFor_def segment_object_def seg_end_def SEGMENT_SIZE_def sizeof_KVItem_def)
  ultimately show ?thesis using seg_Append_roundtrip [OF _ _ _ _ a] a by (auto simp: segment_object_def)
qed

end
