(* ===== verification/Flat_Log.thy ===== *)
theory Flat_Log
  imports Flat_Segment
begin

text \<open>
  \<open>LogStructured\<close> of FlatStore (\<^verbatim>\<open>db/log_structured.h\<close>, \<^verbatim>\<open>db/log_structured.cpp\<close>): the segments
  of the pool, the free list, handing out and freezing segments, and the adaptive cleaning
  threshold. A \<open>LogSegment\<close> object is named by the number of its segment;
  \<open>registered i\<close> says that \<open>all_segments_[i]\<close> is not null. The part of every \<open>LogCleaner\<close>
  the log itself touches (the closed segments waiting for it and its garbage count) is kept here
  too. Waiting for a cleaner is the value \<open>Waiting\<close>.
\<close>

section \<open>State\<close>

datatype FreeStatus = FS_Sufficient | FS_Trigger | FS_Insufficient

record log =
  num_workers :: nat
  num_cleaners :: nat
  pool_start :: nat
  num_segments :: nat
  segs :: "nat \<Rightarrow> log_segment"
  registered :: "nat \<Rightarrow> bool"
  free_segments :: "nat list"
  num_free_segments :: int
  alloc_counter :: int
  clean_threshold :: int
  free_status :: FreeStatus
  closed_segments :: "nat \<Rightarrow> nat list"
  cleaner_garbage :: "nat \<Rightarrow> nat"
  stop_flag :: bool
  lpool :: pool

definition num_limit_free_segments :: "log \<Rightarrow> int" where
  "num_limit_free_segments l = int (num_workers l) * (10 - int (num_cleaners l))"

definition seg_addr :: "log \<Rightarrow> nat \<Rightarrow> nat" where
  "seg_addr l i = pool_start l + i * SEGMENT_SIZE"

section \<open>Operations\<close>

definition GetSegmentID :: "log \<Rightarrow> nat \<Rightarrow> nat" where
  "GetSegmentID l addr = (addr - pool_start l) div SEGMENT_SIZE"

definition GetSegmentCleanerID :: "log \<Rightarrow> nat \<Rightarrow> nat" where
  "GetSegmentCleanerID l addr = GetSegmentID l addr mod num_cleaners l"

definition GetSegment :: "log \<Rightarrow> nat \<Rightarrow> nat option" where
  "GetSegment l i = (if registered l i then Some i else None)"

text \<open>Running an operation of segment \<open>i\<close> on its object and the pool.\<close>

definition on_seg :: "(log_segment \<times> pool \<Rightarrow> log_segment \<times> pool) \<Rightarrow> nat \<Rightarrow> log \<Rightarrow> log" where
  "on_seg f i l = (let (s, pm) = f (segs l i, lpool l) in l\<lparr>segs := (segs l)(i := s), lpool := pm\<rparr>)"

definition UpdateCleanThreshold :: "log \<Rightarrow> log" where
  "UpdateCleanThreshold l =
     (let cnt = alloc_counter l;
          l = l\<lparr>alloc_counter := alloc_counter l + 1\<rparr>;
          num_free = real_of_int (num_free_segments l);
          step = real (num_segments l) / 200;
          thresh_free = real (num_segments l) * real_of_int (clean_threshold l) / 100;
          limit = real_of_int (num_limit_free_segments l)
      in case free_status l of
           FS_Sufficient \<Rightarrow>
             if num_free < thresh_free then l\<lparr>free_status := FS_Trigger, alloc_counter := 0\<rparr> else l
         | FS_Trigger \<Rightarrow>
             if num_free < thresh_free - real (num_workers l) \<or> num_free < limit then
               let l = l\<lparr>alloc_counter := 0\<rparr>;
                   l = (if num_free > thresh_free - step \<and> clean_threshold l < 10
                        then l\<lparr>clean_threshold := clean_threshold l + 1\<rparr> else l)
               in l\<lparr>free_status := FS_Insufficient\<rparr>
             else if num_free > thresh_free \<and> thresh_free - step > limit \<and> clean_threshold l > 1
                     \<and> cnt > int (num_workers l) * 4
             then l\<lparr>alloc_counter := 0, clean_threshold := clean_threshold l - 1, free_status := FS_Sufficient\<rparr>
             else l
         | FS_Insufficient \<Rightarrow>
             if num_free \<ge> thresh_free then l\<lparr>free_status := FS_Sufficient\<rparr> else l)"

datatype alloc = Got nat | Waiting | No_cleaners

definition NewSegment :: "bool \<Rightarrow> log \<Rightarrow> alloc \<times> log" where
  "NewSegment hot l =
     (if num_free_segments l > 0 then
        case free_segments l of
          [] \<Rightarrow> (Waiting, l)
        | i # rest \<Rightarrow>
            let l = l\<lparr>free_segments := rest, num_free_segments := num_free_segments l - 1\<rparr>;
                l = on_seg (StartUsing hot True) i l
            in (Got i, UpdateCleanThreshold l)
      else if num_cleaners l = 0 then (No_cleaners, l)
      else (Waiting, l))"

definition AddClosedSegment :: "nat \<Rightarrow> log \<Rightarrow> log" where
  "AddClosedSegment i l =
     (let c = GetSegmentCleanerID l (segment_start (segs l i)) in
      l\<lparr>closed_segments := (closed_segments l)(c := closed_segments l c @ [i])\<rparr>)"

definition FreezeSegment :: "nat \<Rightarrow> nat option \<Rightarrow> log \<Rightarrow> log" where
  "FreezeSegment now old l =
     (case old of
        None \<Rightarrow> l
      | Some i \<Rightarrow>
          if num_cleaners l > 0 then AddClosedSegment i (on_seg (seg_Close now) i l) else l)"

definition SyncCleanerGarbageBytes :: "nat list \<Rightarrow> log \<Rightarrow> nat list \<times> log" where
  "SyncCleanerGarbageBytes tmp l =
     (replicate (length tmp) 0,
      l\<lparr>cleaner_garbage := (\<lambda>c. cleaner_garbage l c + (if c < num_cleaners l \<and> c < length tmp then tmp ! c else 0))\<rparr>)"

text \<open>Returning an emptied segment to the free list.\<close>

definition push_free :: "nat \<Rightarrow> log \<Rightarrow> log" where
  "push_free i l = l\<lparr>free_segments := free_segments l @ [i], num_free_segments := num_free_segments l + 1\<rparr>"

subsection \<open>Constructor\<close>

text \<open>
  The constructor on a pool with the given contents: every segment is created with its
  initialiser, the last ones go to the cleaners, which start using them at once.
\<close>

fun init_segments :: "nat \<Rightarrow> nat \<Rightarrow> pool \<Rightarrow> (nat \<Rightarrow> log_segment) \<times> pool" where
  "init_segments start 0 pm = ((\<lambda>i. segment_object 0 0), pm)"
| "init_segments start (Suc n) pm =
     (let (f, pm) = init_segments start n pm;
          (s, pm) = log_segment_new (start + n * SEGMENT_SIZE) True pm
      in (f(n := s), pm))"

definition log_new :: "nat \<Rightarrow> nat \<Rightarrow> nat \<Rightarrow> nat \<Rightarrow> pool \<Rightarrow> log" where
  "log_new workers cleaners start log_size pm =
     (let n = log_size div SEGMENT_SIZE;
          (f, pm) = init_segments start n pm;
          l = \<lparr>num_workers = workers, num_cleaners = cleaners, pool_start = start, num_segments = n,
               segs = f, registered = (\<lambda>i. i < n), free_segments = [0..<n - cleaners],
               num_free_segments = int n - int cleaners, alloc_counter = 0, clean_threshold = 10,
               free_status = FS_Sufficient, closed_segments = (\<lambda>_. []), cleaner_garbage = (\<lambda>_. 0),
               stop_flag = (cleaners = 0), lpool = pm\<rparr>
      in fold (on_seg (StartUsing False False)) [n - cleaners..<n] l)"

section \<open>Cleaning threshold\<close>

text \<open>
  the adaptive cleaning threshold never leaves \<open>[1, 10]\<close> percent, the free-space status
  only moves along the arrows sufficient \<open>\<rightarrow>\<close> trigger \<open>\<rightarrow>\<close> insufficient \<open>\<rightarrow>\<close> sufficient and
  trigger \<open>\<rightarrow>\<close> sufficient, and nothing else of the log changes.
\<close>

theorem UpdateCleanThreshold_bounds:
  assumes "1 \<le> clean_threshold l" and "clean_threshold l \<le> 10"
  shows "1 \<le> clean_threshold (UpdateCleanThreshold l) \<and> clean_threshold (UpdateCleanThreshold l) \<le> 10 \<and>
    (free_status l, free_status (UpdateCleanThreshold l)) \<in>
       {(s, s) | s. True} \<union> {(FS_Sufficient, FS_Trigger), (FS_Trigger, FS_Insufficient),
        (FS_Trigger, FS_Sufficient), (FS_Insufficient, FS_Sufficient)} \<and>
    free_segments (UpdateCleanThreshold l) = free_segments l \<and> lpool (UpdateCleanThreshold l) = lpool l \<and>
    segs (UpdateCleanThreshold l) = segs l"
  using assms by (cases "free_status l") (auto simp: UpdateCleanThreshold_def Let_def)

theorem UpdateCleanThreshold_bounds_witness:
  "clean_threshold (UpdateCleanThreshold (log_new 1 1 SEGMENT_SIZE (4 * SEGMENT_SIZE) \<lparr>pm_bytes = (\<lambda>_. 0), pm_hdr = (\<lambda>_.
     \<lparr>h_offset = 0, h_status = StatusAvailable, h_objects_tail_offset = 0, h_has_shortcut = False\<rparr>)\<rparr>)) \<in> {1..10}"
proof -
  let ?l = "log_new 1 1 SEGMENT_SIZE (4 * SEGMENT_SIZE) \<lparr>pm_bytes = (\<lambda>_. 0), pm_hdr = (\<lambda>_.
     \<lparr>h_offset = 0, h_status = StatusAvailable, h_objects_tail_offset = 0, h_has_shortcut = False\<rparr>)\<rparr>"
  have "clean_threshold ?l = 10"
    by (simp add: log_new_def on_seg_def SEGMENT_SIZE_def split: prod.splits)
  then show ?thesis using UpdateCleanThreshold_bounds [of ?l] by simp
qed

lemma UpdateCleanThreshold_frame [frame_simps]:
  "segs (UpdateCleanThreshold l) = segs l" "free_segments (UpdateCleanThreshold l) = free_segments l"
  "num_free_segments (UpdateCleanThreshold l) = num_free_segments l" "lpool (UpdateCleanThreshold l) = lpool l"
  "pool_start (UpdateCleanThreshold l) = pool_start l" "num_segments (UpdateCleanThreshold l) = num_segments l"
  "num_cleaners (UpdateCleanThreshold l) = num_cleaners l" "registered (UpdateCleanThreshold l) = registered l"
  "closed_segments (UpdateCleanThreshold l) = closed_segments l"
  "cleaner_garbage (UpdateCleanThreshold l) = cleaner_garbage l" "num_workers (UpdateCleanThreshold l) = num_workers l"
  by (cases "free_status l"; simp add: UpdateCleanThreshold_def Let_def)+

section \<open>Addresses\<close>

lemma GetSegmentID_addr:
  assumes "seg_addr l i \<le> a" and "a < seg_addr l i + SEGMENT_SIZE"
  shows "GetSegmentID l a = i"
proof -
  have "SEGMENT_SIZE > 0" by (simp add: SEGMENT_SIZE_def)
  moreover have "a - pool_start l = (a - seg_addr l i) + i * SEGMENT_SIZE" using assms(1) by (simp add: seg_addr_def)
  moreover have "a - seg_addr l i < SEGMENT_SIZE" using assms by simp
  ultimately show ?thesis by (simp add: GetSegmentID_def)
qed

end
