(* ===== verification/Flat_Walk.thy ===== *)
theory Flat_Walk
  imports Flat_Log
begin

text \<open>
  Walking the entries of a segment the way \<open>CompactSegment\<close>, \<open>RecoveryInfo\<close> and
  \<open>RecoveryAll\<close> do, and the invariant of the log: segments lie at their addresses, the free list
  holds empty segments, and every segment can be walked from its first byte to its tail. The
  relation \<open>log_keeps\<close> says that no entry of a segment in use is lost or changed; every operation
  of a worker on the log is an instance of it.
\<close>

section \<open>The walk\<close>

lemma kv_size_ge [simp]: "sizeof_KVItem \<le> kv_size m p" by (simp add: kv_size_def)
lemma kv_size_pos [simp]: "0 < kv_size m p" by (simp add: kv_size_def sizeof_KVItem_def)

text \<open>
  The loop \<open>while (p < tail) { ...; if (sz == sizeof(KVItem)) break; ...; p += sz; }\<close>: the
  addresses it visits, and where it stops.
\<close>

function entries :: "memory \<Rightarrow> nat \<Rightarrow> nat \<Rightarrow> nat list" where
  "entries m p t =
     (if p < t \<and> kv_size m p \<noteq> sizeof_KVItem then p # entries m (p + kv_size m p) t else [])"
  by pat_completeness auto
termination
  by (relation "measure (\<lambda>(m, p, t). t - p)") (auto intro!: diff_less_mono2)

function walk_end :: "memory \<Rightarrow> nat \<Rightarrow> nat \<Rightarrow> nat" where
  "walk_end m p t =
     (if p < t \<and> kv_size m p \<noteq> sizeof_KVItem then walk_end m (p + kv_size m p) t else p)"
  by pat_completeness auto
termination
  by (relation "measure (\<lambda>(m, p, t). t - p)") (auto intro!: diff_less_mono2)

declare entries.simps [simp del] walk_end.simps [simp del]

lemma entries_nil [simp]: "t \<le> p \<Longrightarrow> entries m p t = []" by (subst entries.simps) simp
lemma walk_end_nil [simp]: "t \<le> p \<Longrightarrow> walk_end m p t = p" by (subst walk_end.simps) simp

lemma walk_end_ge: "p \<le> walk_end m p t"
proof (induction m p t rule: walk_end.induct)
  case (1 m p t)
  then show ?case by (subst walk_end.simps) (use kv_size_pos in force)
qed

text \<open>When the walk stays inside, so does every entry it visits.\<close>

lemma entries_inside:
  assumes "walk_end m p t \<le> e" and "a \<in> set (entries m p t)"
  shows "p \<le> a \<and> a < t \<and> a + kv_size m a \<le> e \<and> sizeof_KVItem < kv_size m a"
  using assms
proof (induction m p t rule: entries.induct)
  case (1 m p t)
  show ?case
  proof (cases "p < t \<and> kv_size m p \<noteq> sizeof_KVItem")
    case True
    then have w: "walk_end m (p + kv_size m p) t \<le> e" using "1.prems"(1) by (subst (asm) walk_end.simps) simp
    have "a = p \<or> a \<in> set (entries m (p + kv_size m p) t)"
      using "1.prems"(2) True by (subst (asm) entries.simps) auto
    then show ?thesis
    proof
      assume "a = p"
      then show ?thesis
        using True w walk_end_ge [of "p + kv_size m p" m t] le_neq_implies_less [OF kv_size_ge [of m p]] by force
    qed (use "1.IH" [OF True w] kv_size_pos [of m p] in auto)
  next
    case False
    then show ?thesis using "1.prems"(2) by (subst (asm) entries.simps) auto
  qed
qed

text \<open>The walk depends only on the bytes up to where it ends.\<close>

lemma walk_cong:
  assumes "walk_end m p t \<le> t" and "\<And>a. p \<le> a \<Longrightarrow> a < t \<Longrightarrow> m' a = m a"
    and "walk_end m p t < t \<Longrightarrow> walk_end m p t + sizeof_KVItem \<le> t"
  shows "entries m' p t = entries m p t \<and> walk_end m' p t = walk_end m p t"
  using assms
proof (induction m p t rule: entries.induct)
  case (1 m p t)
  show ?case
  proof (cases "p < t \<and> kv_size m p \<noteq> sizeof_KVItem")
    case True
    then have w: "walk_end m p t = walk_end m (p + kv_size m p) t" by (subst walk_end.simps) simp
    have "p + kv_size m p \<le> t"
      using "1.prems"(1) w walk_end_ge [of "p + kv_size m p" m t] by simp
    then have sz: "kv_size m' p = kv_size m p" by (intro kv_fields_cong(6) "1.prems"(2)) auto
    have "entries m' (p + kv_size m p) t = entries m (p + kv_size m p) t \<and>
          walk_end m' (p + kv_size m p) t = walk_end m (p + kv_size m p) t"
      using "1.prems" w by (intro "1.IH" [OF True]) auto
    then show ?thesis using True w sz by (subst (1 2) entries.simps, subst (1) walk_end.simps) simp
  next
    case stop: False
    show ?thesis
    proof (cases "p < t")
      case True
      then have sz: "kv_size m p = sizeof_KVItem" using stop by simp
      then have "walk_end m p t = p" by (subst walk_end.simps) simp
      then have "p + sizeof_KVItem \<le> t" using "1.prems"(3) True by simp
      then have "kv_size m' p = kv_size m p" using sz by (intro kv_fields_cong(6) "1.prems"(2)) auto
      then show ?thesis using sz by (subst (1 2) entries.simps, subst (1 2) walk_end.simps) simp
    qed simp
  qed
qed

text \<open>Extending the walk: an entry, or the terminator \<open>Close\<close> writes, at the old tail.\<close>

lemma walk_extend:
  assumes "walk_end m p t = t"
    and "t \<le> t'"
  shows "entries m p t' = entries m p t @ entries m t t' \<and> walk_end m p t' = walk_end m t t'"
  using assms
proof (induction m p t rule: entries.induct)
  case (1 m p t)
  show ?case
  proof (cases "p < t")
    case True
    then have sz: "kv_size m p \<noteq> sizeof_KVItem" using "1.prems"(1) by (subst (asm) walk_end.simps) auto
    have w: "walk_end m (p + kv_size m p) t = t" using "1.prems"(1) True sz by (subst (asm) walk_end.simps) simp
    have "entries m (p + kv_size m p) t' = entries m (p + kv_size m p) t @ entries m t t' \<and>
          walk_end m (p + kv_size m p) t' = walk_end m t t'"
      using True sz w "1.prems"(2) by (intro "1.IH") auto
    moreover have "p < t'" using True "1.prems"(2) by simp
    ultimately show ?thesis using True sz
      by (subst (1 2) entries.simps, subst (1) walk_end.simps) simp
  next
    case False
    then have "p = t" using "1.prems"(1) by simp
    then show ?thesis by simp
  qed
qed

section \<open>The log\<close>

definition seg_entries :: "log \<Rightarrow> nat \<Rightarrow> nat list" where
  "seg_entries l i = entries (pm_bytes (lpool l)) (data_start (segs l i)) (seg_tail (segs l i))"

definition seg_walk_end :: "log \<Rightarrow> nat \<Rightarrow> nat" where
  "seg_walk_end l i = walk_end (pm_bytes (lpool l)) (data_start (segs l i)) (seg_tail (segs l i))"

text \<open>
  A segment at its address, within its bounds, whose walk reaches the tail or a terminator
  in front of it; the segments in \<open>H\<close> are the ones a thread still appends to.
\<close>

definition seg_ok :: "log \<Rightarrow> nat \<Rightarrow> bool" where
  "seg_ok l i \<longleftrightarrow> segment_start (segs l i) = seg_addr l i \<and> seg_wf (segs l i) \<and>
     (seg_walk_end l i = seg_tail (segs l i) \<or> seg_walk_end l i + sizeof_KVItem \<le> seg_tail (segs l i))"

definition log_inv :: "nat set \<Rightarrow> log \<Rightarrow> bool" where
  "log_inv H l \<longleftrightarrow>
     0 < pool_start l \<and> seg_addr l (num_segments l) \<le> 2 ^ 48 \<and>
     (\<forall>i < num_segments l. seg_ok l i \<and> registered l i) \<and>
     distinct (free_segments l) \<and> num_free_segments l = int (length (free_segments l)) \<and>
     (\<forall>i \<in> set (free_segments l). i < num_segments l \<and> seg_tail (segs l i) = data_start (segs l i)) \<and>
     (\<forall>i \<in> H. i < num_segments l \<and> i \<notin> set (free_segments l) \<and> seg_walk_end l i = seg_tail (segs l i))"

text \<open>Nothing of a segment in use is lost or changed.\<close>

definition log_keeps :: "log \<Rightarrow> log \<Rightarrow> bool" where
  "log_keeps l l' \<longleftrightarrow>
     num_segments l' = num_segments l \<and> pool_start l' = pool_start l \<and> num_cleaners l' = num_cleaners l \<and>
     (\<forall>i < num_segments l. i \<notin> set (free_segments l) \<longrightarrow> i \<notin> set (free_segments l') \<and>
        (\<forall>a \<in> set (seg_entries l i). a \<in> set (seg_entries l' i) \<and>
           kv_GetKey (pm_bytes (lpool l')) a = kv_GetKey (pm_bytes (lpool l)) a \<and>
           kv_GetValue (pm_bytes (lpool l')) a = kv_GetValue (pm_bytes (lpool l)) a))"

lemma log_keeps_refl [simp]: "log_keeps l l" by (simp add: log_keeps_def)

lemma log_keeps_trans: "log_keeps l l' \<Longrightarrow> log_keeps l' l'' \<Longrightarrow> log_keeps l l''"
  by (auto simp: log_keeps_def)

text \<open>Two segments do not overlap.\<close>

lemma seg_addr_apart: "i < j \<Longrightarrow> seg_addr l i + SEGMENT_SIZE \<le> seg_addr l j"
proof -
  assume "i < j"
  then have "(i + 1) * SEGMENT_SIZE \<le> j * SEGMENT_SIZE" by (intro mult_le_mono1) simp
  then show ?thesis by (simp add: seg_addr_def)
qed

lemma seg_ok_bounds:
  assumes "seg_ok l i"
  shows "seg_addr l i < data_start (segs l i)" "data_start (segs l i) \<le> seg_tail (segs l i)"
    "seg_tail (segs l i) \<le> seg_addr l i + SEGMENT_SIZE" "seg_walk_end l i \<le> seg_tail (segs l i)"
  using assms by (auto simp: seg_ok_def seg_wf_def data_start_def seg_end_def HEADERS_SIZE_def)

text \<open>
  The frame of every operation on the log: bytes below the tails stay, so the walks of the
  segments whose tail does not move stay.
\<close>

lemma seg_frame:
  assumes ok: "seg_ok l i" and same: "segment_start (segs l' i) = segment_start (segs l i)"
      "seg_tail (segs l' i) = seg_tail (segs l i)" "pool_start l' = pool_start l"
    and bytes: "\<And>a. data_start (segs l i) \<le> a \<Longrightarrow> a < seg_tail (segs l i) \<Longrightarrow>
                  pm_bytes (lpool l') a = pm_bytes (lpool l) a"
  shows "seg_ok l' i" and "seg_entries l' i = seg_entries l i" and "seg_walk_end l' i = seg_walk_end l i"
proof -
  have d: "data_start (segs l' i) = data_start (segs l i)" using same(1) by (simp add: data_start_def)
  have "entries (pm_bytes (lpool l')) (data_start (segs l i)) (seg_tail (segs l i)) = seg_entries l i \<and>
        walk_end (pm_bytes (lpool l')) (data_start (segs l i)) (seg_tail (segs l i)) = seg_walk_end l i"
    unfolding seg_entries_def seg_walk_end_def
  proof (rule walk_cong)
    show "walk_end (pm_bytes (lpool l)) (data_start (segs l i)) (seg_tail (segs l i)) \<le> seg_tail (segs l i)"
      using seg_ok_bounds(4) [OF ok] by (simp add: seg_walk_end_def)
  qed (use ok bytes in \<open>auto simp: seg_ok_def seg_walk_end_def\<close>)
  then show e: "seg_entries l' i = seg_entries l i" and w: "seg_walk_end l' i = seg_walk_end l i"
    using d same(2) by (simp_all add: seg_entries_def seg_walk_end_def)
  show "seg_ok l' i"
    using ok same w by (auto simp: seg_ok_def seg_addr_def seg_wf_def data_start_def seg_end_def)
qed

lemma entry_fields_frame:
  assumes "seg_ok l i" and "a \<in> set (seg_entries l i)"
    and "\<And>b. data_start (segs l i) \<le> b \<Longrightarrow> b < seg_tail (segs l i) \<Longrightarrow> m' b = pm_bytes (lpool l) b"
  shows "kv_GetKey m' a = kv_GetKey (pm_bytes (lpool l)) a \<and> kv_GetValue m' a = kv_GetValue (pm_bytes (lpool l)) a
    \<and> kv_size m' a = kv_size (pm_bytes (lpool l)) a"
proof -
  have "data_start (segs l i) \<le> a \<and> a < seg_tail (segs l i) \<and> a + kv_size (pm_bytes (lpool l)) a \<le> seg_tail (segs l i)
      \<and> sizeof_KVItem < kv_size (pm_bytes (lpool l)) a"
    using assms(2) seg_ok_bounds(4) [OF assms(1)]
    by (intro entries_inside) (auto simp: seg_entries_def seg_walk_end_def)
  then have "m' b = pm_bytes (lpool l) b" if "a \<le> b" "b < a + kv_size (pm_bytes (lpool l)) a" for b
    using that assms(3) by auto
  then show ?thesis using kv_fields_cong [of a "pm_bytes (lpool l)" m'] by blast
qed

text \<open>
  One segment in use is touched: its object changes, its tail does not move back, and only bytes
  between its tail and its end are written.
\<close>

definition same_frame :: "log \<Rightarrow> log \<Rightarrow> bool" where
  "same_frame l l' \<longleftrightarrow> num_segments l' = num_segments l \<and> pool_start l' = pool_start l \<and> registered l' = registered l \<and>
     num_cleaners l' = num_cleaners l \<and>
     free_segments l' = free_segments l \<and> num_free_segments l' = num_free_segments l"

definition touches :: "nat \<Rightarrow> log \<Rightarrow> log \<Rightarrow> bool" where
  "touches j l l' \<longleftrightarrow> same_frame l l' \<and>
     (\<forall>i. i \<noteq> j \<longrightarrow> segs l' i = segs l i) \<and> segment_start (segs l' j) = segment_start (segs l j) \<and>
     seg_wf (segs l' j) \<and> seg_tail (segs l j) \<le> seg_tail (segs l' j) \<and>
     (\<forall>a. a < seg_tail (segs l j) \<or> seg_end (segs l j) \<le> a \<longrightarrow> pm_bytes (lpool l') a = pm_bytes (lpool l) a)"

lemma touches_bytes:
  assumes inv: "log_inv H l" and t: "touches j l l'" and "i < num_segments l" "j < num_segments l"
    and "data_start (segs l i) \<le> a" "a < seg_tail (segs l i)"
  shows "pm_bytes (lpool l') a = pm_bytes (lpool l) a"
proof -
  have oki: "seg_ok l i" and okj: "seg_ok l j" using inv assms(3,4) by (auto simp: log_inv_def)
  have "a < seg_tail (segs l j) \<or> seg_end (segs l j) \<le> a"
  proof (cases i j rule: linorder_cases)
    case less
    then show ?thesis
      using seg_addr_apart [of i j l] seg_ok_bounds [OF oki] seg_ok_bounds [OF okj] assms(6) by simp
  next
    case greater
    moreover have "seg_end (segs l j) = seg_addr l j + SEGMENT_SIZE" using okj by (simp add: seg_ok_def seg_end_def)
    ultimately show ?thesis
      using seg_addr_apart [of j i l] seg_ok_bounds [OF oki] assms(5) by simp
  qed (use assms(6) in simp)
  then show ?thesis using t unfolding touches_def by blast
qed

lemma touches_others:
  assumes inv: "log_inv H l" and t: "touches j l l'" and i: "i < num_segments l" and j: "j < num_segments l" and "i \<noteq> j"
  shows "seg_ok l' i" "seg_entries l' i = seg_entries l i" "seg_walk_end l' i = seg_walk_end l i"
proof -
  have ok: "seg_ok l i" using inv i by (auto simp: log_inv_def)
  have same: "segs l' i = segs l i" "pool_start l' = pool_start l" using t assms(5) by (auto simp: touches_def same_frame_def)
  show "seg_ok l' i" "seg_entries l' i = seg_entries l i" "seg_walk_end l' i = seg_walk_end l i"
    using seg_frame [OF ok, of l'] touches_bytes [OF inv t i j] same by simp_all
qed

lemma touches_inv:
  assumes inv: "log_inv H l" and t: "touches j l l'" and j: "j < num_segments l" and nf: "j \<notin> set (free_segments l)"
    and ent: "seg_entries l' j = seg_entries l j @ new"
    and walk: "seg_walk_end l' j = seg_tail (segs l' j) \<or> seg_walk_end l' j + sizeof_KVItem \<le> seg_tail (segs l' j)"
    and H: "H' \<subseteq> insert j H" and op: "j \<in> H' \<Longrightarrow> seg_walk_end l' j = seg_tail (segs l' j)"
  shows "log_inv H' l'" and "log_keeps l l'"
proof -
  have fr: "same_frame l l'" using t by (simp add: touches_def)
  have addr: "seg_addr l' = seg_addr l" using fr by (auto simp: same_frame_def seg_addr_def fun_eq_iff)
  have okj: "seg_ok l' j"
    using inv t j walk addr by (auto simp: touches_def seg_ok_def log_inv_def)
  have ok: "seg_ok l' i" if "i < num_segments l" for i
    using that okj touches_others(1) [OF inv t _ j] by (cases "i = j") auto
  have segs: "i \<noteq> j \<Longrightarrow> segs l' i = segs l i" for i using t by (simp add: touches_def)
  have open_ok: "i < num_segments l \<and> i \<notin> set (free_segments l) \<and> seg_walk_end l' i = seg_tail (segs l' i)"
    if "i \<in> H'" for i
  proof (cases "i = j")
    case False
    then have "i \<in> H" using that H by auto
    then have "i < num_segments l \<and> i \<notin> set (free_segments l) \<and> seg_walk_end l i = seg_tail (segs l i)"
      using inv by (auto simp: log_inv_def)
    then show ?thesis using touches_others(3) [OF inv t _ j False] segs [OF False] by simp
  qed (use that op j nf in simp)
  show "log_inv H' l'"
  proof -
    have free: "seg_tail (segs l' i) = data_start (segs l' i)" if "i \<in> set (free_segments l)" for i
      using that inv nf segs [of i] by (cases "i = j") (auto simp: log_inv_def)
    show ?thesis
      using inv ok open_ok free fr by (simp add: log_inv_def same_frame_def addr)
  qed
  show "log_keeps l l'" unfolding log_keeps_def
  proof (intro conjI allI impI ballI)
    fix i a assume i: "i < num_segments l" "i \<notin> set (free_segments l)" and a: "a \<in> set (seg_entries l i)"
    have oki: "seg_ok l i" using inv i(1) by (auto simp: log_inv_def)
    show "a \<in> set (seg_entries l' i)"
      using a ent touches_others(2) [OF inv t i(1) j] by (cases "i = j") auto
    show "kv_GetKey (pm_bytes (lpool l')) a = kv_GetKey (pm_bytes (lpool l)) a"
        "kv_GetValue (pm_bytes (lpool l')) a = kv_GetValue (pm_bytes (lpool l)) a"
      using entry_fields_frame [OF oki a touches_bytes [OF inv t i(1) j]] by blast+
  qed (use fr in \<open>auto simp: same_frame_def\<close>)
qed

subsection \<open>The operations\<close>

text \<open>Operations that move neither tail nor bytes: marking garbage, changing headers.\<close>

definition quiet :: "log \<Rightarrow> log \<Rightarrow> bool" where
  "quiet l l' \<longleftrightarrow> num_segments l' = num_segments l \<and> pool_start l' = pool_start l \<and> registered l' = registered l \<and>
     num_cleaners l' = num_cleaners l \<and>
     (\<forall>i. segment_start (segs l' i) = segment_start (segs l i) \<and> seg_tail (segs l' i) = seg_tail (segs l i)) \<and>
     pm_bytes (lpool l') = pm_bytes (lpool l)"

lemma quiet_refl [simp]: "quiet l l" by (simp add: quiet_def)

lemma quiet_trans: "quiet l l' \<Longrightarrow> quiet l' l'' \<Longrightarrow> quiet l l''" by (simp add: quiet_def)

lemma quiet_segs:
  assumes "quiet l l'"
  shows "seg_ok l' i = seg_ok l i" "seg_entries l' i = seg_entries l i" "seg_walk_end l' i = seg_walk_end l i"
    "data_start (segs l' i) = data_start (segs l i)" "seg_addr l' i = seg_addr l i"
proof -
  show d: "data_start (segs l' i) = data_start (segs l i)" and a: "seg_addr l' i = seg_addr l i"
    using assms by (simp_all add: quiet_def data_start_def seg_addr_def)
  show "seg_entries l' i = seg_entries l i" and w: "seg_walk_end l' i = seg_walk_end l i"
    using assms d by (simp_all add: seg_entries_def seg_walk_end_def quiet_def)
  show "seg_ok l' i = seg_ok l i"
    using assms d w a by (simp add: seg_ok_def seg_wf_def seg_end_def quiet_def)
qed

lemma quiet_inv:
  assumes q: "quiet l l'" and inv: "log_inv H l" and free: "free_segments l = taken @ free_segments l'"
    and n: "num_free_segments l' = int (length (free_segments l'))"
  shows "log_inv (H \<union> set taken) l'" and "log_keeps l l'"
proof -
  have n': "num_segments l' = num_segments l" "registered l' = registered l" "0 < pool_start l'"
      "seg_addr l' (num_segments l) \<le> 2 ^ 48" "seg_tail (segs l' i) = seg_tail (segs l i)" for i
    using q inv quiet_segs(5) [OF q] by (auto simp: quiet_def log_inv_def)
  have tk: "i < num_segments l \<and> seg_walk_end l i = seg_tail (segs l i)" if "i \<in> set taken" for i
    using that inv free by (auto simp: log_inv_def seg_walk_end_def)
  have dist: "distinct (taken @ free_segments l')" using inv free by (simp add: log_inv_def)
  show "log_inv (H \<union> set taken) l'"
    using inv n n' tk dist by (auto simp: log_inv_def quiet_segs [OF q] free)
  show "log_keeps l l'"
    using q free by (auto simp: log_keeps_def quiet_segs [OF q] quiet_def)
qed

text \<open>\<open>Close\<close> of a segment still open.\<close>

lemma kv_zero_size: "kv_size (mem_write m p kv_zero) p = sizeof_KVItem"
proof -
  have "mem_read (mem_write m p kv_zero) p 2 = [0, 0]" "mem_read (mem_write m p kv_zero) (p + 2) 2 = [0, 0]"
    by (subst mem_read_write_inside; simp add: kv_zero_def sizeof_KVItem_def numeral_eq_Suc)+
  then show ?thesis unfolding kv_size_def kv_key_size_def kv_val_size_def by simp
qed

lemma seg_Close_touches:
  assumes inv: "log_inv H l" and i: "i \<in> H"
  shows "touches i l (on_seg (seg_Close now) i l)"
    and "seg_entries (on_seg (seg_Close now) i l) i = seg_entries l i @ []"
    and "seg_walk_end (on_seg (seg_Close now) i l) i = seg_tail (segs (on_seg (seg_Close now) i l) i) \<or>
      seg_walk_end (on_seg (seg_Close now) i l) i + sizeof_KVItem \<le> seg_tail (segs (on_seg (seg_Close now) i l) i)"
    and "HasSpaceFor (segs l i) sizeof_KVItem \<Longrightarrow>
      seg_walk_end (on_seg (seg_Close now) i l) i + sizeof_KVItem \<le> seg_tail (segs (on_seg (seg_Close now) i l) i)"
proof -
  let ?l = "on_seg (seg_Close now) i l" and ?s = "segs l i" and ?m = "pm_bytes (lpool l)"
  let ?m' = "pm_bytes (lpool ?l)" and ?t = "seg_tail (segs l i)"
  have ok: "seg_ok l i" and op: "seg_walk_end l i = ?t" using inv i by (auto simp: log_inv_def)
  have wf: "seg_wf ?s" using ok by (simp add: seg_ok_def)
  show t: "touches i l ?l"
    using seg_wf_preserved(5) [OF wf, of now "lpool l"]
    by (auto simp: touches_def same_frame_def on_seg_def seg_Close_def Let_def set_header_def HasSpaceFor_def
        mem_write_def kv_zero_def split: prod.splits if_splits)
  have d: "data_start (segs ?l i) = data_start ?s" using t by (simp add: touches_def data_start_def)
  have "entries ?m' (data_start ?s) ?t = seg_entries l i \<and> walk_end ?m' (data_start ?s) ?t = ?t"
    unfolding seg_entries_def
    using walk_cong [of ?m "data_start ?s" ?t ?m'] op t wf
    by (auto simp: seg_walk_end_def touches_def)
  moreover have "seg_tail (segs ?l i) = ?t \<and> \<not> HasSpaceFor ?s sizeof_KVItem \<or>
      seg_tail (segs ?l i) = ?t + sizeof_KVItem \<and> kv_size ?m' ?t = sizeof_KVItem"
    using kv_zero_size [of ?m ?t]
    by (auto simp: on_seg_def seg_Close_def Let_def set_header_def split: prod.splits if_splits)
  moreover have "kv_size ?m' ?t = sizeof_KVItem \<Longrightarrow> entries ?m' ?t e = [] \<and> walk_end ?m' ?t e = ?t" for e
    by (subst entries.simps, subst walk_end.simps) simp
  ultimately show "seg_entries ?l i = seg_entries l i @ []"
      "seg_walk_end ?l i = seg_tail (segs ?l i) \<or> seg_walk_end ?l i + sizeof_KVItem \<le> seg_tail (segs ?l i)"
      "HasSpaceFor ?s sizeof_KVItem \<Longrightarrow> seg_walk_end ?l i + sizeof_KVItem \<le> seg_tail (segs ?l i)"
    using walk_extend [of ?m' "data_start ?s" ?t "?t + sizeof_KVItem"]
    by (auto simp: seg_entries_def seg_walk_end_def d)
qed

text \<open>\<open>Append\<close> to an open segment with room.\<close>

lemma seg_Append_log:
  assumes inv: "log_inv H l" and i: "i \<in> H" and len: "length key < 2 ^ 15" "length val < 2 ^ 16" and ne: "key \<noteq> []"
    and app: "seg_Append key val e (segs l i, lpool l) = (v, s, pm)" and got: "v \<noteq> INVALID_VALUE"
  defines "l' \<equiv> l\<lparr>segs := (segs l)(i := s), lpool := pm\<rparr>"
  shows "log_inv H l'" and "log_keeps l l'" and "v \<in> set (seg_entries l' i)"
    and "kv_GetKey (pm_bytes pm) v = key" and "kv_GetValue (pm_bytes pm) v = val" and "v < 2 ^ 48"
    and "seg_entries l' i = seg_entries l i @ [v]" and "touches i l l'"
proof -
  let ?s = "segs l i" and ?m = "pm_bytes (lpool l)" and ?m' = "pm_bytes pm" and ?t = "seg_tail (segs l i)"
  have ok: "seg_ok l i" and op: "seg_walk_end l i = ?t" and n: "i < num_segments l" and nf: "i \<notin> set (free_segments l)"
    using inv i by (auto simp: log_inv_def)
  have wf: "seg_wf ?s" using ok by (simp add: seg_ok_def)
  have room: "HasSpaceFor ?s (sizeof_KVItem + length key + length val)"
    using app got by (auto simp: seg_Append_def Let_def split: if_splits)
  have r: "v = ?t" "s = ?s\<lparr>seg_tail := ?t + (sizeof_KVItem + length key + length val), cur_cnt := cur_cnt ?s + 1\<rparr>"
      "pm = lpool l\<lparr>pm_bytes := mem_write ?m ?t (kv_image key val e)\<rparr>"
    using app room by (auto simp: seg_Append_def Let_def tagged_pointer_def)
  have rd: "mem_read ?m' ?t (sizeof_KVItem + length key + length val) = kv_image key val e"
    using kv_image_write_read [OF len] by (simp add: r(3))
  note f = kv_image_read [OF len rd]
  show key: "kv_GetKey ?m' v = key" and "kv_GetValue ?m' v = val" using f r(1) by simp_all
  show t: "touches i l l'"
    using seg_wf_preserved(7) [OF wf, of key val e "lpool l"] room length_kv_image [OF len, of e]
    by (auto simp: touches_def same_frame_def l'_def r app mem_write_def HasSpaceFor_def seg_wf_def data_start_def seg_end_def)
  have d: "data_start (segs l' i) = data_start ?s" "seg_tail (segs l' i) = ?t + kv_size ?m' ?t" "lpool l' = pm"
    using f(7) by (simp_all add: l'_def r(2) data_start_def)
  have old: "entries ?m' (data_start ?s) ?t = seg_entries l i \<and> walk_end ?m' (data_start ?s) ?t = ?t"
    unfolding seg_entries_def using walk_cong [of ?m "data_start ?s" ?t ?m'] op t d(3)
    by (auto simp: seg_walk_end_def touches_def)
  have "sizeof_KVItem < kv_size ?m' ?t" using f(7) ne by simp
  then have "entries ?m' ?t (?t + kv_size ?m' ?t) = [?t] \<and> walk_end ?m' ?t (?t + kv_size ?m' ?t) = ?t + kv_size ?m' ?t"
    by (subst entries.simps, subst walk_end.simps) simp
  then have new: "seg_entries l' i = seg_entries l i @ [v]" "seg_walk_end l' i = seg_tail (segs l' i)"
    using walk_extend [of ?m' "data_start ?s" ?t "?t + kv_size ?m' ?t"] old
    by (simp_all add: seg_entries_def seg_walk_end_def d r(1))
  then show "v \<in> set (seg_entries l' i)" "seg_entries l' i = seg_entries l i @ [v]" by simp_all
  show "log_inv H l'" "log_keeps l l'"
    using touches_inv [OF inv t n nf new(1), of H] new(2) i by auto
  have "?t < seg_addr l i + SEGMENT_SIZE"
    using room wf ok by (simp add: HasSpaceFor_def seg_end_def seg_ok_def sizeof_KVItem_def)
  also have "\<dots> \<le> seg_addr l (num_segments l)" using n seg_addr_apart by simp
  also have "\<dots> \<le> 2 ^ 48" using inv by (simp add: log_inv_def)
  finally show "v < 2 ^ 48" by (simp add: r(1))
qed

text \<open>\<open>NewSegment\<close> hands out an empty segment that was free.\<close>

lemma NewSegment_log:
  assumes inv: "log_inv H l" and got: "NewSegment hot l = (Got i, l')"
  shows "log_inv (insert i H) l'" and "log_keeps l l'" and "i \<notin> H" and "seg_entries l' i = []"
    and "free_segments l = i # free_segments l'" and "seg_tail (segs l' i) = data_start (segs l' i)"
proof -
  obtain rest where fr: "free_segments l = i # rest"
    using got by (auto simp: NewSegment_def Let_def split: if_splits list.splits)
  define l1 where "l1 = on_seg (StartUsing hot True) i (l\<lparr>free_segments := rest, num_free_segments := num_free_segments l - 1\<rparr>)"
  have l': "l' = UpdateCleanThreshold l1"
    using got fr by (auto simp: NewSegment_def Let_def l1_def split: if_splits)
  have l1: "num_segments l1 = num_segments l" "pool_start l1 = pool_start l" "registered l1 = registered l"
      "num_cleaners l1 = num_cleaners l" "pm_bytes (lpool l1) = pm_bytes (lpool l)"
      "segment_start (segs l1 j) = segment_start (segs l j)" "seg_tail (segs l1 j) = seg_tail (segs l j)"
      "free_segments l1 = rest" "num_free_segments l1 = num_free_segments l - 1" for j
    by (simp_all add: l1_def on_seg_def StartUsing_def set_header_def)
  have q: "quiet l l'" unfolding l' by (simp add: quiet_def frame_simps l1)
  have f': "free_segments l = [i] @ free_segments l'" by (simp add: l' frame_simps l1 fr)
  have n: "num_free_segments l' = int (length (free_segments l'))"
    using inv by (simp add: l' frame_simps l1 log_inv_def fr)
  show "log_inv (insert i H) l'" "log_keeps l l'" using quiet_inv [OF q inv f' n] by simp_all
  show "i \<notin> H" "seg_entries l' i = []"
    using inv fr unfolding quiet_segs(2) [OF q] by (auto simp: log_inv_def seg_entries_def)
  show "free_segments l = i # free_segments l'" using f' by simp
  show "seg_tail (segs l' i) = data_start (segs l' i)"
    using inv fr q unfolding quiet_segs(4) [OF q] by (simp add: log_inv_def quiet_def)
qed

lemma NewSegment_total:
  assumes "log_inv H l" and "free_segments l \<noteq> []"
  shows "\<exists>i l'. NewSegment hot l = (Got i, l')"
  using assms by (cases "free_segments l") (auto simp: NewSegment_def log_inv_def Let_def)

text \<open>Freezing a segment: it is closed and queued for its cleaner.\<close>

lemma FreezeSegment_log:
  assumes inv: "log_inv H l" and i: "set_option old \<subseteq> H"
  shows "log_inv (H - set_option old) (FreezeSegment now old l)" and "log_keeps l (FreezeSegment now old l)"
    and "free_segments (FreezeSegment now old l) = free_segments l"
    and "set_option old = {} \<Longrightarrow> FreezeSegment now old l = l"
proof -
  have "log_inv (H - set_option old) (FreezeSegment now old l) \<and> log_keeps l (FreezeSegment now old l) \<and>
    free_segments (FreezeSegment now old l) = free_segments l"
  proof (cases "old = None \<or> num_cleaners l = 0")
    case True
    then have "FreezeSegment now old l = l" by (auto simp: FreezeSegment_def split: option.splits)
    then show ?thesis using inv by (auto simp: log_inv_def)
  next
    case False
    then obtain j where old: "old = Some j" by auto
    define l1 where "l1 = on_seg (seg_Close now) j l"
    have jH: "j \<in> H" using i old by simp
    have j: "j < num_segments l" "j \<notin> set (free_segments l)" using inv jH by (auto simp: log_inv_def)
    note c = seg_Close_touches [OF inv jH, of now, folded l1_def]
    have i1: "log_inv (H - {j}) l1" "log_keeps l l1"
      using touches_inv [OF inv c(1) j c(2,3), of "H - {j}"] by auto
    have res: "FreezeSegment now old l = AddClosedSegment j l1"
      using False by (simp add: FreezeSegment_def old l1_def)
    have q: "quiet l1 (AddClosedSegment j l1)" "free_segments (AddClosedSegment j l1) = free_segments l1"
        "num_free_segments (AddClosedSegment j l1) = num_free_segments l1"
      by (simp_all add: quiet_def AddClosedSegment_def Let_def)
    have "free_segments l1 = free_segments l" using c(1) by (simp add: touches_def same_frame_def)
    moreover have "log_inv (H - {j} \<union> set []) (AddClosedSegment j l1)" "log_keeps l1 (AddClosedSegment j l1)"
      using i1(1) q by (intro quiet_inv [where H = "H - {j}" and taken = "[]"]; simp add: log_inv_def)+
    ultimately show ?thesis using q log_keeps_trans [OF i1(2)] by (simp add: res [unfolded old] old)
  qed
  then show "log_inv (H - set_option old) (FreezeSegment now old l)" "log_keeps l (FreezeSegment now old l)"
    "free_segments (FreezeSegment now old l) = free_segments l" by auto
  show "set_option old = {} \<Longrightarrow> FreezeSegment now old l = l" by (cases old) (simp_all add: FreezeSegment_def)
qed

end
