(* ===== verification/Flat_DB.thy ===== *)
theory Flat_DB
  imports Flat_Walk Kvs_Api
begin

text \<open>
  FlatStore's \<open>DB\<close> and \<open>DB::Worker\<close> (\<^verbatim>\<open>include/db.h\<close>, \<^verbatim>\<open>db/db.cpp\<close>) over an arbitrary index.
  The virtual class \<open>Index\<close> is the table \<open>index_ops\<close>; what an index promises is the locale
  \<open>flat_index\<close>, inside which it is shown that \<open>Put\<close> and \<open>Get\<close> implement a map from keys to
  values on top of the log. The client of \<^verbatim>\<open>flatstore_wrapper.h\<close> is at the end.
\<close>

section \<open>The index interface\<close>

text \<open>
  \<open>ix_put k v\<close> is \<open>Put\<close> with a fresh helper (it returns the old value), \<open>ix_gc k old v\<close> is \<open>GCMove\<close>
  with the helper's old value set (it returns the helper's old value afterwards), \<open>ix_scan k n\<close>
  is \<open>Scan\<close>, \<open>None\<close> when the index does not support it.
\<close>

record 'i index_ops =
  ix_get :: "u64 \<Rightarrow> 'i \<Rightarrow> nat"
  ix_put :: "u64 \<Rightarrow> nat \<Rightarrow> 'i \<Rightarrow> nat \<times> 'i"
  ix_gc :: "u64 \<Rightarrow> nat \<Rightarrow> nat \<Rightarrow> 'i \<Rightarrow> nat \<times> 'i"
  ix_scan :: "u64 \<Rightarrow> nat \<Rightarrow> 'i \<Rightarrow> nat list option"

text \<open>
  What a client and the collector rely on: after a put the key has the new value and every other key
  its old one, and the old value is returned; the collector's move replaces the value only if it is
  the one expected. \<open>iok\<close> says that the index has reported no failure so far.
\<close>

text \<open>
  A value a client may bind to a key: not the null pointer, an address of 48 bits, and bound to no
  other key (the FAST and FAIR tree takes neighbouring records with equal values for an insertion in progress).
\<close>

definition new_value :: "'i index_ops \<Rightarrow> (u64 \<Rightarrow> bool) \<Rightarrow> u64 \<Rightarrow> nat \<Rightarrow> 'i \<Rightarrow> bool" where
  "new_value ix ikey_ok k v s \<longleftrightarrow> v \<noteq> INVALID_VALUE \<and> v < 2 ^ 48 \<and> (\<forall>k'. ikey_ok k' \<and> k' \<noteq> k \<longrightarrow> ix_get ix k' s \<noteq> v)"

locale flat_index =
  fixes ix :: "'i index_ops"
    and iinv :: "'i \<Rightarrow> bool"
    and ikey_ok :: "u64 \<Rightarrow> bool"
    and iok :: "'i \<Rightarrow> bool"
  assumes put_get: "iinv s \<Longrightarrow> ikey_ok k \<Longrightarrow> ikey_ok k' \<Longrightarrow> iok (snd (ix_put ix k v s)) \<Longrightarrow> new_value ix ikey_ok k v s \<Longrightarrow>
      ix_get ix k' (snd (ix_put ix k v s)) = (if k' = k then v else ix_get ix k' s)"
    and put_old: "iinv s \<Longrightarrow> ikey_ok k \<Longrightarrow> iok (snd (ix_put ix k v s)) \<Longrightarrow> new_value ix ikey_ok k v s \<Longrightarrow>
      fst (ix_put ix k v s) = ix_get ix k s"
    and put_inv: "iinv s \<Longrightarrow> ikey_ok k \<Longrightarrow> iok (snd (ix_put ix k v s)) \<Longrightarrow> new_value ix ikey_ok k v s \<Longrightarrow>
      iinv (snd (ix_put ix k v s))"
    and put_ok: "iok (snd (ix_put ix k v s)) \<Longrightarrow> iok s"
    and gc_get: "iinv s \<Longrightarrow> ikey_ok k \<Longrightarrow> ikey_ok k' \<Longrightarrow> ix_get ix k s \<noteq> INVALID_VALUE \<Longrightarrow>
      old \<noteq> INVALID_VALUE \<Longrightarrow> new_value ix ikey_ok k v s \<Longrightarrow>
      ix_get ix k' (snd (ix_gc ix k old v s)) = (if k' = k \<and> ix_get ix k s = old then v else ix_get ix k' s)"
    and gc_old: "iinv s \<Longrightarrow> ikey_ok k \<Longrightarrow> ix_get ix k s \<noteq> INVALID_VALUE \<Longrightarrow> old \<noteq> INVALID_VALUE \<Longrightarrow>
      new_value ix ikey_ok k v s \<Longrightarrow> fst (ix_gc ix k old v s) = (if ix_get ix k s = old then old else v)"
    and gc_inv: "iinv s \<Longrightarrow> ikey_ok k \<Longrightarrow> ix_get ix k s \<noteq> INVALID_VALUE \<Longrightarrow> old \<noteq> INVALID_VALUE \<Longrightarrow>
      new_value ix ikey_ok k v s \<Longrightarrow> iinv (snd (ix_gc ix k old v s))"
    and gc_ok_before: "iok (snd (ix_gc ix k old v s)) \<Longrightarrow> iok s"
    and gc_ok: "iinv s \<Longrightarrow> ikey_ok k \<Longrightarrow> ix_get ix k s \<noteq> INVALID_VALUE \<Longrightarrow> new_value ix ikey_ok k v s \<Longrightarrow>
      iok (snd (ix_gc ix k old v s)) \<longleftrightarrow> iok s"

section \<open>State\<close>

definition EPOCH_MAP_SIZE :: nat where "EPOCH_MAP_SIZE = 1024"

record 'i db =
  db_index :: 'i
  db_log :: log
  epoch_map :: "nat \<Rightarrow> u32"
  cur_num_workers :: int

record fs_worker =
  worker_id :: nat
  log_head :: "nat option"
  tmp_garbage :: "nat list"

text \<open>How an operation fails: waiting for a cleaner forever, or the process exits.\<close>

datatype fs_error = Blocked | No_free_segments | Null_segment | Not_implemented | Bad_status | Workers_left | No_segments_recovered

section \<open>Operations of a worker\<close>

text \<open>The index key: the first eight bytes of the key, read as a 64-bit integer.\<close>

definition index_key :: "byte list \<Rightarrow> u64" where
  "index_key key = le_word (take 8 key)"

definition GetKeyEpoch :: "u64 \<Rightarrow> 'i db \<Rightarrow> u32 \<times> 'i db" where
  "GetKeyEpoch i_key db =
     (let idx = unat i_key mod EPOCH_MAP_SIZE in
      (epoch_map db idx, db\<lparr>epoch_map := (epoch_map db)(idx := epoch_map db idx + 1)\<rparr>))"

definition worker_new :: "'i db \<Rightarrow> fs_worker \<times> 'i db" where
  "worker_new db =
     (\<lparr>worker_id = nat (cur_num_workers db), log_head = None,
       tmp_garbage = replicate (num_cleaners (db_log db)) 0\<rparr>,
      db\<lparr>cur_num_workers := cur_num_workers db + 1\<rparr>)"

definition worker_Freeze :: "nat \<Rightarrow> nat option \<Rightarrow> nat list \<Rightarrow> log \<Rightarrow> nat list \<times> log" where
  "worker_Freeze now seg tmp l = SyncCleanerGarbageBytes tmp (FreezeSegment now seg l)"

definition worker_delete :: "nat \<Rightarrow> fs_worker \<Rightarrow> 'i db \<Rightarrow> 'i db" where
  "worker_delete now w db =
     db\<lparr>db_log := snd (worker_Freeze now (log_head w) (tmp_garbage w) (db_log db)),
        cur_num_workers := cur_num_workers db - 1\<rparr>"

definition worker_Get :: "'i index_ops \<Rightarrow> byte list \<Rightarrow> 'i db \<Rightarrow> byte list option" where
  "worker_Get ix key db =
     (let val = ix_get ix (index_key key) (db_index db) in
      if val \<noteq> INVALID_VALUE
      then Some (kv_GetValue (pm_bytes (lpool (db_log db))) (tp_GetAddr val)) else None)"

definition worker_Scan :: "'i index_ops \<Rightarrow> byte list \<Rightarrow> nat \<Rightarrow> 'i db \<Rightarrow> fs_error + nat" where
  "worker_Scan ix key cnt db =
     (case ix_scan ix (index_key key) cnt (db_index db) of None \<Rightarrow> Inl Not_implemented | Some vec \<Rightarrow> Inr (length vec))"

text \<open>Appending to the current segment; \<open>None\<close> when there is none or it is full.\<close>

definition try_append :: "byte list \<Rightarrow> byte list \<Rightarrow> u32 \<Rightarrow> nat option \<Rightarrow> log \<Rightarrow> (nat \<times> log) option" where
  "try_append key val epoch head l =
     (case head of
        None \<Rightarrow> None
      | Some i \<Rightarrow>
          let (v, s, pm) = seg_Append key val epoch (segs l i, lpool l) in
          if v = INVALID_VALUE then None else Some (v, l\<lparr>segs := (segs l)(i := s), lpool := pm\<rparr>))"

lemma free_segments_frame [frame_simps]:
  "free_segments (on_seg f i l) = free_segments l" "free_segments (AddClosedSegment i l) = free_segments l"
  "free_segments (FreezeSegment now old l) = free_segments l"
  "free_segments (snd (SyncCleanerGarbageBytes tmp l)) = free_segments l"
  "free_segments (snd (worker_Freeze now old tmp l)) = free_segments l"
  by (auto simp: on_seg_def AddClosedSegment_def FreezeSegment_def SyncCleanerGarbageBytes_def
      worker_Freeze_def Let_def split: option.splits prod.splits)

lemma NewSegment_free: "NewSegment hot l = (Got i, l') \<Longrightarrow> free_segments l = i # free_segments l'"
  by (auto simp: NewSegment_def Let_def frame_simps split: if_splits list.splits)

lemma replaced_fewer_free:
  "worker_Freeze now old tmp l = (tmp', l1) \<Longrightarrow> NewSegment hot l1 = (Got i, l2) \<Longrightarrow>
   length (free_segments l2) < length (free_segments l)"
  using free_segments_frame(5) [of now old tmp l] NewSegment_free [of hot l1 i l2] by (metis length_Cons lessI snd_conv)

text \<open>The loop of \<open>MakeKVItem\<close>. Every round takes a segment off the free list, so it ends.\<close>

function make_kv_loop ::
  "nat \<Rightarrow> byte list \<Rightarrow> byte list \<Rightarrow> u32 \<Rightarrow> nat option \<Rightarrow> nat list \<Rightarrow> log \<Rightarrow>
   fs_error + (nat \<times> nat option \<times> nat list \<times> log)" where
  "make_kv_loop now key val epoch head tmp l =
     (case try_append key val epoch head l of
        Some (v, l') \<Rightarrow> Inr (v, head, tmp, l')
      | None \<Rightarrow>
          (case worker_Freeze now head tmp l of
             (tmp', l1) \<Rightarrow>
               (case NewSegment True l1 of
                  (Got i, l2) \<Rightarrow> make_kv_loop now key val epoch (Some i) tmp' l2
                | (Waiting, l2) \<Rightarrow> Inl Blocked
                | (No_cleaners, l2) \<Rightarrow> Inl No_free_segments)))"
  by pat_completeness auto
termination
  by (relation "measure (\<lambda>(_, _, _, _, _, _, l). length (free_segments l))") (auto intro: replaced_fewer_free [OF sym sym])

declare make_kv_loop.simps [simp del]

definition MakeKVItem ::
  "nat \<Rightarrow> byte list \<Rightarrow> byte list \<Rightarrow> fs_worker \<Rightarrow> 'i db \<Rightarrow> fs_error + (nat \<times> fs_worker \<times> 'i db)" where
  "MakeKVItem now key val w db =
     (let (epoch, db) = GetKeyEpoch (index_key key) db in
      case make_kv_loop now key val epoch (log_head w) (tmp_garbage w) (db_log db) of
        Inl e \<Rightarrow> Inl e
      | Inr (v, head, tmp, l) \<Rightarrow> Inr (v, w\<lparr>log_head := head, tmp_garbage := tmp\<rparr>, db\<lparr>db_log := l\<rparr>))"

definition worker_MarkGarbage :: "nat \<Rightarrow> fs_worker \<Rightarrow> 'i db \<Rightarrow> fs_error + (fs_worker \<times> 'i db)" where
  "worker_MarkGarbage tagged w db =
     (let l = db_log db; addr = tp_GetAddr tagged; sz = kv_size (pm_bytes (lpool l)) addr in
      case GetSegment l (GetSegmentID l addr) of
        None \<Rightarrow> Inl Null_segment
      | Some i \<Rightarrow>
          let l = l\<lparr>segs := (segs l)(i := seg_MarkGarbage addr sz (segs l i))\<rparr>;
              c = GetSegmentCleanerID l addr;
              tmp = (if num_cleaners l > 0 then (tmp_garbage w)[c := tmp_garbage w ! c + sz] else tmp_garbage w)
          in Inr (w\<lparr>tmp_garbage := tmp\<rparr>, db\<lparr>db_log := l\<rparr>))"

definition UpdateIndex ::
  "'i index_ops \<Rightarrow> byte list \<Rightarrow> nat \<Rightarrow> fs_worker \<Rightarrow> 'i db \<Rightarrow> fs_error + (fs_worker \<times> 'i db)" where
  "UpdateIndex ix key v w db =
     (let (old, idx) = ix_put ix (index_key key) v (db_index db);
          db = db\<lparr>db_index := idx\<rparr>
      in if old \<noteq> INVALID_VALUE then worker_MarkGarbage old w db else Inr (w, db))"

definition worker_Put ::
  "'i index_ops \<Rightarrow> nat \<Rightarrow> byte list \<Rightarrow> byte list \<Rightarrow> fs_worker \<Rightarrow> 'i db \<Rightarrow> fs_error + (fs_worker \<times> 'i db)" where
  "worker_Put ix now key val w db =
     (case MakeKVItem now key val w db of
        Inl e \<Rightarrow> Inl e
      | Inr (v, w, db) \<Rightarrow> UpdateIndex ix key v w db)"

definition worker_Delete :: "byte list \<Rightarrow> fs_error + bool" where
  "worker_Delete key = Inl Not_implemented"

section \<open>The abstract store\<close>

text \<open>Where the entry of a key is, and what the store holds.\<close>

definition live :: "log \<Rightarrow> u64 \<Rightarrow> nat \<Rightarrow> bool" where
  "live l k a \<longleftrightarrow> (\<exists>i < num_segments l. i \<notin> set (free_segments l) \<and> a \<in> set (seg_entries l i)) \<and>
     kv_GetKey (pm_bytes (lpool l)) a = le_bytes 8 k"

definition db_contents :: "'i index_ops \<Rightarrow> 'i db \<Rightarrow> u64 \<Rightarrow> byte list option" where
  "db_contents ix db k =
     (let a = ix_get ix k (db_index db) in
      if a = INVALID_VALUE then None else Some (kv_GetValue (pm_bytes (lpool (db_log db))) a))"

definition db_inv :: "'i index_ops \<Rightarrow> ('i \<Rightarrow> bool) \<Rightarrow> (u64 \<Rightarrow> bool) \<Rightarrow> nat set \<Rightarrow> 'i db \<Rightarrow> bool" where
  "db_inv ix iinv ikey_ok H db \<longleftrightarrow> iinv (db_index db) \<and> log_inv H (db_log db) \<and>
     (\<forall>k. ikey_ok k \<and> ix_get ix k (db_index db) \<noteq> INVALID_VALUE \<longrightarrow>
        live (db_log db) k (ix_get ix k (db_index db)))"

lemma live_address:
  assumes "log_inv H l" and "live l k a"
  shows "a \<noteq> INVALID_VALUE" and "tp_GetAddr a = a" and "\<exists>i < num_segments l. GetSegmentID l a = i"
    and "a < 2 ^ 48"
proof -
  obtain i where i: "i < num_segments l" "a \<in> set (seg_entries l i)" using assms(2) by (auto simp: live_def)
  then have ok: "seg_ok l i" using assms(1) by (simp add: log_inv_def)
  have a: "data_start (segs l i) \<le> a" "a < seg_tail (segs l i)"
    using entries_inside [of "pm_bytes (lpool l)" "data_start (segs l i)" "seg_tail (segs l i)" "seg_tail (segs l i)" a]
      seg_ok_bounds(4) [OF ok] i(2) by (auto simp: seg_entries_def seg_walk_end_def)
  have b: "seg_addr l i < a" "a < seg_addr l i + SEGMENT_SIZE" using a seg_ok_bounds [OF ok] by simp_all
  then show "a \<noteq> INVALID_VALUE" by (simp add: INVALID_VALUE_def)
  show "a < 2 ^ 48" using b(2) seg_addr_apart [OF i(1), of l] assms(1) by (simp add: log_inv_def)
  then show "tp_GetAddr a = a" by (simp add: tp_GetAddr_def)
  show "\<exists>i < num_segments l. GetSegmentID l a = i" using GetSegmentID_addr [of l i a] b i(1) by auto
qed

text \<open>The address of an entry is a new value for its key, because bound addresses are entries of their keys.\<close>

lemma live_new_value:
  assumes log: "log_inv H l" and v: "live l k v"
    and lv: "\<And>k'. ikey_ok k' \<Longrightarrow> ix_get ix k' s \<noteq> INVALID_VALUE \<Longrightarrow> live l k' (ix_get ix k' s)"
  shows "new_value ix ikey_ok k v s"
proof -
  note a = live_address [OF log v]
  have "k' = k" if "ikey_ok k'" "ix_get ix k' s = v" for k'
  proof -
    have "live l k' v" using lv [OF that(1)] a(1) that(2) by simp
    then have "le_bytes 8 k' = le_bytes 8 k" using v by (simp add: live_def)
    then show ?thesis by (simp add: le_bytes_eq_iff take_bit_word_eq_self)
  qed
  then show ?thesis using a by (auto simp: new_value_def)
qed

lemma live_keeps:
  assumes "log_keeps l l'" and "live l k a"
  shows "live l' k a" and "kv_GetValue (pm_bytes (lpool l')) a = kv_GetValue (pm_bytes (lpool l)) a"
  using assms unfolding log_keeps_def live_def by metis+

text \<open>Every eight-byte key is the image of its index key.\<close>

lemma index_key_le_bytes: "length key = 8 \<Longrightarrow> le_bytes 8 (index_key key) = key"
  using le_bytes_le_word [of key, where 'a = 64] by (simp add: index_key_def)

subsection \<open>Appending an entry\<close>

lemma worker_Freeze_log:
  assumes "log_inv H l" and "set_option old \<subseteq> H" and "worker_Freeze now old tmp l = (tmp', l')"
  shows "log_inv (H - set_option old) l'" and "log_keeps l l'" and "free_segments l' = free_segments l"
proof -
  let ?l = "FreezeSegment now old l"
  have l': "l' = snd (SyncCleanerGarbageBytes tmp ?l)" using assms(3) by (simp add: worker_Freeze_def)
  note f = FreezeSegment_log [OF assms(1,2), of now]
  have q: "quiet ?l l'" "free_segments ?l = [] @ free_segments l'" "num_free_segments l' = num_free_segments ?l"
    by (simp_all add: l' SyncCleanerGarbageBytes_def quiet_def)
  have "num_free_segments l' = int (length (free_segments l'))" using f(1) q by (simp add: log_inv_def)
  note r = quiet_inv [OF q(1) f(1) q(2) this]
  show "log_inv (H - set_option old) l'" using r(1) by simp
  show "log_keeps l l'" by (rule log_keeps_trans [OF f(2) r(2)])
  show "free_segments l' = free_segments l" using f(3) q(2) by simp
qed

lemma make_kv_loop_correct:
  assumes "log_inv H l" and "set_option head \<subseteq> H" and "length key < 2 ^ 15" "length val < 2 ^ 16" "key \<noteq> []"
    and "make_kv_loop now key val epoch head tmp l = Inr (v, head', tmp', l')"
  shows "\<exists>i. head' = Some i \<and> i \<notin> H - set_option head \<and> log_inv (insert i (H - set_option head)) l' \<and>
    log_keeps l l' \<and> v \<in> set (seg_entries l' i) \<and> kv_GetKey (pm_bytes (lpool l')) v = key \<and>
    kv_GetValue (pm_bytes (lpool l')) v = val \<and> v < 2 ^ 48"
  using assms
proof (induction now key val epoch head tmp l arbitrary: H rule: make_kv_loop.induct)
  case (1 now key val epoch head tmp l)
  show ?case
  proof (cases "try_append key val epoch head l")
    case (Some p)
    obtain i s pm where h: "head = Some i" and app: "seg_Append key val epoch (segs l i, lpool l) = (fst p, s, pm)"
        and ne: "fst p \<noteq> INVALID_VALUE" and l2: "snd p = l\<lparr>segs := (segs l)(i := s), lpool := pm\<rparr>"
      using Some by (auto simp: try_append_def Let_def split: option.splits prod.splits if_splits)
    have res: "head' = head" "v = fst p" "l' = snd p"
      using "1.prems"(6) Some by (subst (asm) make_kv_loop.simps; simp add: split_beta)+
    have i: "i \<in> H" using "1.prems"(2) h by simp
    note a = seg_Append_log [OF "1.prems"(1) i "1.prems"(3-5) app ne, folded l2, folded res]
    have "insert i (H - set_option head) = H" using i h by auto
    moreover have "lpool l' = pm" using res l2 by simp
    ultimately show ?thesis using a h res by (intro exI [of _ i]) simp
  next
    case None
    obtain tmp1 l1 where fz: "worker_Freeze now head tmp l = (tmp1, l1)" by (cases "worker_Freeze now head tmp l")
    note f = worker_Freeze_log [OF "1.prems"(1,2) fz]
    obtain a l2 where ns: "NewSegment True l1 = (a, l2)" by (cases "NewSegment True l1")
    have "a \<noteq> Waiting \<and> a \<noteq> No_cleaners"
      using "1.prems"(6) None fz ns by (subst (asm) make_kv_loop.simps) auto
    then obtain i where i: "a = Got i" by (cases a) auto
    note n = NewSegment_log [OF f(1) ns [unfolded i]]
    have rec: "make_kv_loop now key val epoch (Some i) tmp1 l2 = Inr (v, head', tmp', l')"
      using "1.prems"(6) None fz ns i by (subst (asm) make_kv_loop.simps) simp
    let ?H = "insert i (H - set_option head)"
    have hd: "set_option (Some i) \<subseteq> ?H" by simp
    obtain j where j: "head' = Some j" "j \<notin> ?H - set_option (Some i)" "log_inv (insert j (?H - set_option (Some i))) l'"
        "log_keeps l2 l'" "v \<in> set (seg_entries l' j)" "kv_GetKey (pm_bytes (lpool l')) v = key"
        "kv_GetValue (pm_bytes (lpool l')) v = val" "v < 2 ^ 48"
      using "1.IH" [OF None fz [symmetric] ns [symmetric] i n(1) hd "1.prems"(3-5) rec] by auto
    have "?H - set_option (Some i) = H - set_option head" using n(3) by auto
    moreover have "log_keeps l l'" by (rule log_keeps_trans [OF f(2) log_keeps_trans [OF n(2) j(4)]])
    ultimately show ?thesis using j by (intro exI [of _ j]) simp
  qed
qed

text \<open>An entry with a 16-bit value size fits into an empty segment, so one free segment is enough.\<close>

lemma try_append_free: "try_append key val epoch head l = Some (v, l') \<Longrightarrow> free_segments l' = free_segments l"
  by (auto simp: try_append_def Let_def split: option.splits prod.splits if_splits)

lemma make_kv_loop_total:
  assumes inv: "log_inv H l" and head: "set_option head \<subseteq> H" and free: "free_segments l \<noteq> []"
    and len: "length key < 2 ^ 15" "length val < 2 ^ 16"
  shows "\<exists>v head' tmp' l'. make_kv_loop now key val epoch head tmp l = Inr (v, head', tmp', l') \<and>
           length (free_segments l) \<le> Suc (length (free_segments l'))"
proof (cases "try_append key val epoch head l")
  case (Some p)
  then show ?thesis using try_append_free [of key val epoch head l "fst p" "snd p"]
    by (subst make_kv_loop.simps) (auto split: prod.splits)
next
  case None
  obtain tmp1 l1 where fz: "worker_Freeze now head tmp l = (tmp1, l1)" by (cases "worker_Freeze now head tmp l")
  note f = worker_Freeze_log [OF inv head fz]
  obtain i l2 where ns: "NewSegment True l1 = (Got i, l2)" using NewSegment_total [OF f(1), of True] f(3) free by auto
  note n = NewSegment_log [OF f(1) ns]
  have "try_append key val epoch (Some i) l2 \<noteq> None"
    using n(6) len by (auto simp: try_append_def seg_Append_def HasSpaceFor_def Let_def tagged_pointer_def INVALID_VALUE_def
        seg_end_def data_start_def SEGMENT_SIZE_def HEADERS_SIZE_def sizeof_KVItem_def split: if_splits)
  then obtain v l3 where ta: "try_append key val epoch (Some i) l2 = Some (v, l3)" by auto
  then have "make_kv_loop now key val epoch (Some i) tmp1 l2 = Inr (v, Some i, tmp1, l3)"
    by (subst make_kv_loop.simps) simp
  then have "make_kv_loop now key val epoch head tmp l = Inr (v, Some i, tmp1, l3)"
    using None fz ns by (subst make_kv_loop.simps) simp
  moreover have "length (free_segments l) = Suc (length (free_segments l3))"
    using n(5) f(3) try_append_free [OF ta] by simp
  ultimately show ?thesis by auto
qed

lemma worker_MarkGarbage_log:
  assumes "log_inv H (db_log db)" and "live (db_log db) k a"
  shows "\<exists>w' db'. worker_MarkGarbage a w db = Inr (w', db') \<and> db_index db' = db_index db \<and> log_head w' = log_head w \<and>
    log_inv H (db_log db') \<and> log_keeps (db_log db) (db_log db') \<and> pm_bytes (lpool (db_log db')) = pm_bytes (lpool (db_log db)) \<and>
    free_segments (db_log db') = free_segments (db_log db)"
proof -
  let ?l = "db_log db"
  obtain i where i: "i < num_segments ?l" "GetSegmentID ?l a = i" using live_address(3) [OF assms] by auto
  have reg: "registered ?l i" using assms(1) i by (simp add: log_inv_def)
  let ?l' = "?l\<lparr>segs := (segs ?l)(i := seg_MarkGarbage a (kv_size (pm_bytes (lpool ?l)) a) (segs ?l i))\<rparr>"
  have q: "quiet ?l ?l'" "free_segments ?l = [] @ free_segments ?l'" by (simp_all add: quiet_def seg_MarkGarbage_def)
  have "num_free_segments ?l' = int (length (free_segments ?l'))" using assms(1) by (simp add: log_inv_def)
  note r = quiet_inv [OF q(1) assms(1) q(2) this]
  have e: "worker_MarkGarbage a w db = Inr (w\<lparr>tmp_garbage := (if num_cleaners ?l > 0
       then (tmp_garbage w)[GetSegmentCleanerID ?l' a := tmp_garbage w ! GetSegmentCleanerID ?l' a
              + kv_size (pm_bytes (lpool ?l)) a] else tmp_garbage w)\<rparr>, db\<lparr>db_log := ?l'\<rparr>)"
    using reg i live_address(2) [OF assms] by (simp add: worker_MarkGarbage_def Let_def GetSegment_def)
  show ?thesis
    by (rule exI, rule exI, intro conjI, rule e) (use r in simp_all)
qed

section \<open>The store is a map\<close>

text \<open>What \<open>Put\<close> needs of a key and a value.\<close>

definition kv_arg_ok :: "byte list \<Rightarrow> byte list \<Rightarrow> bool" where
  "kv_arg_ok key val \<longleftrightarrow> length key = 8 \<and> length val < 2 ^ 16"

lemma GetKeyEpoch_frame [simp]:
  "db_index (snd (GetKeyEpoch k db)) = db_index db" "db_log (snd (GetKeyEpoch k db)) = db_log db"
  by (simp_all add: GetKeyEpoch_def Let_def)

lemma worker_MarkGarbage_index: "worker_MarkGarbage a w db = Inr (w', db') \<Longrightarrow> db_index db' = db_index db"
  by (auto simp: worker_MarkGarbage_def Let_def split: option.splits)

lemma worker_Put_index:
  assumes "MakeKVItem now key val w db = Inr (v, w1, db1)" and "worker_Put ix now key val w db = Inr (w', db')"
  shows "db_index db' = snd (ix_put ix (index_key key) v (db_index db))"
proof -
  have "db_index db1 = db_index db"
    using assms(1) by (auto simp: MakeKVItem_def Let_def split_beta split: sum.splits)
  then show ?thesis using assms
    by (auto simp: worker_Put_def UpdateIndex_def Let_def split_beta split: if_splits dest: worker_MarkGarbage_index)
qed

context flat_index
begin

lemma index_update_correct:
  assumes inv: "iinv (db_index db)" and k: "ikey_ok k" and can: "iok (snd (ix_put ix k v (db_index db)))"
    and lv: "\<And>k'. ikey_ok k' \<Longrightarrow> ix_get ix k' (db_index db) \<noteq> INVALID_VALUE \<Longrightarrow> live (db_log db) k' (ix_get ix k' (db_index db))"
    and log: "log_inv H (db_log db)" and new: "live (db_log db) k v" and key: "index_key key = k"
  shows "\<exists>w' db'. UpdateIndex ix key v w db = Inr (w', db') \<and> db_inv ix iinv ikey_ok H db' \<and> log_head w' = log_head w \<and>
    (\<forall>k'. ikey_ok k' \<longrightarrow> ix_get ix k' (db_index db') = (if k' = k then v else ix_get ix k' (db_index db))) \<and>
    pm_bytes (lpool (db_log db')) = pm_bytes (lpool (db_log db)) \<and> db_index db' = snd (ix_put ix k v (db_index db)) \<and>
    free_segments (db_log db') = free_segments (db_log db)"
proof -
  let ?i = "snd (ix_put ix k v (db_index db))" and ?db = "db\<lparr>db_index := snd (ix_put ix k v (db_index db))\<rparr>"
  have v: "new_value ix ikey_ok k v (db_index db)" by (rule live_new_value [OF log new lv])
  have get: "ix_get ix k' ?i = (if k' = k then v else ix_get ix k' (db_index db))" if "ikey_ok k'" for k'
    by (rule put_get [OF inv k that can v])
  have ii: "iinv ?i" by (rule put_inv [OF inv k can v])
  have lv': "live (db_log db) k' (ix_get ix k' ?i)" if "ikey_ok k'" "ix_get ix k' ?i \<noteq> INVALID_VALUE" for k'
    using that new lv [of k'] get [of k'] by (auto split: if_splits)
  show ?thesis
  proof (cases "fst (ix_put ix k v (db_index db)) = INVALID_VALUE")
    case True
    then have "UpdateIndex ix key v w db = Inr (w, ?db)" by (simp add: UpdateIndex_def key Let_def split_beta)
    moreover have "db_inv ix iinv ikey_ok H ?db" using ii log lv' by (simp add: db_inv_def)
    ultimately show ?thesis using get by (intro exI [of _ w] exI [of _ ?db]) simp
  next
    case False
    have old: "fst (ix_put ix k v (db_index db)) = ix_get ix k (db_index db)" by (rule put_old [OF inv k can v])
    have mg: "UpdateIndex ix key v w db = worker_MarkGarbage (ix_get ix k (db_index db)) w ?db"
      using False by (simp add: UpdateIndex_def key Let_def split_beta old)
    have "live (db_log ?db) k (ix_get ix k (db_index db))" using lv [OF k] False old by simp
    from worker_MarkGarbage_log [OF _ this, of H w] log obtain w' db' where
      m: "worker_MarkGarbage (ix_get ix k (db_index db)) w ?db = Inr (w', db')"
        "db_index db' = ?i" "log_head w' = log_head w" "log_inv H (db_log db')" "log_keeps (db_log db) (db_log db')"
        "pm_bytes (lpool (db_log db')) = pm_bytes (lpool (db_log db))" "free_segments (db_log db') = free_segments (db_log db)"
      by auto
    have "live (db_log db') k' (ix_get ix k' ?i)" if "ikey_ok k'" "ix_get ix k' ?i \<noteq> INVALID_VALUE" for k'
      by (rule live_keeps(1) [OF m(5) lv' [OF that]])
    then have "db_inv ix iinv ikey_ok H db'" using ii m(2,4) by (simp add: db_inv_def)
    then show ?thesis using m get mg by (intro exI [of _ w'] exI [of _ db']) simp
  qed
qed

text \<open>
  \<open>Put\<close> after its entry was appended: the invariant, the new binding, every other binding, and
  the free list.
\<close>

lemma put_after_append:
  assumes inv: "db_inv ix iinv ikey_ok H db" and head: "set_option (log_head w) \<subseteq> H" and arg: "kv_arg_ok key val"
    and k: "ikey_ok (index_key key)" and can: "iok (snd (ix_put ix (index_key key) v (db_index db)))"
    and mk: "MakeKVItem now key val w db = Inr (v, w1, db1)"
  shows "\<exists>w' db' i. worker_Put ix now key val w db = Inr (w', db') \<and> log_head w' = Some i \<and> i \<notin> H - set_option (log_head w) \<and>
           db_inv ix iinv ikey_ok (insert i (H - set_option (log_head w))) db' \<and>
           (\<forall>k'. ikey_ok k' \<longrightarrow> db_contents ix db' k' = (if k' = index_key key then Some val else db_contents ix db k')) \<and>
           db_index db' = snd (ix_put ix (index_key key) v (db_index db)) \<and> new_value ix ikey_ok (index_key key) v (db_index db) \<and>
           free_segments (db_log db') = free_segments (db_log db1)"
proof -
  let ?k = "index_key key"
  obtain epoch head' tmp' l' where loop: "make_kv_loop now key val epoch (log_head w) (tmp_garbage w) (db_log db)
        = Inr (v, head', tmp', l')" and w1: "log_head w1 = head'" and d1: "db_index db1 = db_index db" "db_log db1 = l'"
    using mk GetKeyEpoch_frame [of ?k db]
    by (auto simp: MakeKVItem_def Let_def split_beta split: sum.splits simp del: GetKeyEpoch_frame)
  have li: "log_inv H (db_log db)" and ii: "iinv (db_index db)"
    and lv: "\<And>k'. ikey_ok k' \<Longrightarrow> ix_get ix k' (db_index db) \<noteq> INVALID_VALUE \<Longrightarrow> live (db_log db) k' (ix_get ix k' (db_index db))"
    using inv by (auto simp: db_inv_def)
  have len: "length key < 2 ^ 15" "length val < 2 ^ 16" "key \<noteq> []" using arg by (auto simp: kv_arg_ok_def)
  let ?H = "\<lambda>i. insert i (H - set_option (log_head w))"
  from make_kv_loop_correct [OF li head len loop] obtain i where
    i: "head' = Some i" "i \<notin> H - set_option (log_head w)" "log_inv (?H i) l'" "log_keeps (db_log db) l'"
      "v \<in> set (seg_entries l' i)" "kv_GetKey (pm_bytes (lpool l')) v = key" "kv_GetValue (pm_bytes (lpool l')) v = val"
    by blast
  have new: "live l' ?k v"
    using i arg index_key_le_bytes [of key] by (auto simp: live_def log_inv_def kv_arg_ok_def)
  have vi: "v \<noteq> INVALID_VALUE" by (rule live_address(1) [OF i(3) new])
  have kept: "live l' k' (ix_get ix k' (db_index db))" "kv_GetValue (pm_bytes (lpool l')) (ix_get ix k' (db_index db))
      = kv_GetValue (pm_bytes (lpool (db_log db))) (ix_get ix k' (db_index db))"
    if "ikey_ok k'" "ix_get ix k' (db_index db) \<noteq> INVALID_VALUE" for k'
    using live_keeps [OF i(4) lv [OF that]] by auto
  have nv: "new_value ix ikey_ok ?k v (db_index db)" by (rule live_new_value [OF i(3) new kept(1)])
  from index_update_correct [of db1 ?k v "?H i" key w1, unfolded d1, OF ii k can kept(1) i(3) new refl] obtain w' db' where
    u: "UpdateIndex ix key v w1 db1 = Inr (w', db')" "db_inv ix iinv ikey_ok (?H i) db'" "log_head w' = log_head w1"
      "\<And>k'. ikey_ok k' \<Longrightarrow> ix_get ix k' (db_index db') = (if k' = ?k then v else ix_get ix k' (db_index db))"
      "pm_bytes (lpool (db_log db')) = pm_bytes (lpool l')" "db_index db' = snd (ix_put ix ?k v (db_index db))"
      "free_segments (db_log db') = free_segments l'" by auto
  have "db_contents ix db' k' = (if k' = ?k then Some val else db_contents ix db k')" if "ikey_ok k'" for k'
  proof (cases "k' = ?k")
    case True
    then have "ix_get ix k' (db_index db') = v" using u(4) [OF that] by simp
    then show ?thesis using True vi i(7) u(5) by (simp add: db_contents_def Let_def)
  next
    case False
    then have "ix_get ix k' (db_index db') = ix_get ix k' (db_index db)" using u(4) [OF that] by simp
    then show ?thesis using False kept(2) [OF that] u(5) by (simp add: db_contents_def Let_def)
  qed
  moreover have "worker_Put ix now key val w db = Inr (w', db')" using mk u(1) by (simp add: worker_Put_def)
  ultimately show ?thesis using u(2,3,6,7) w1 i(1,2) d1(2) nv by (intro exI [of _ w'] exI [of _ db'] exI [of _ i]) simp
qed

lemma put_correct:
  assumes "db_inv ix iinv ikey_ok H db" and "set_option (log_head w) \<subseteq> H" and arg: "kv_arg_ok key val"
    and "ikey_ok (index_key key)" and ok: "iok (db_index db')"
    and put: "worker_Put ix now key val w db = Inr (w', db')"
  shows "\<exists>i. log_head w' = Some i \<and> i \<notin> H - set_option (log_head w) \<and>
           db_inv ix iinv ikey_ok (insert i (H - set_option (log_head w))) db' \<and>
           (\<forall>k'. ikey_ok k' \<longrightarrow> db_contents ix db' k' = (if k' = index_key key then Some val else db_contents ix db k'))"
proof -
  obtain v w1 db1 where mk: "MakeKVItem now key val w db = Inr (v, w1, db1)"
    using put by (auto simp: worker_Put_def split: sum.splits prod.splits)
  have "db_index db' = snd (ix_put ix (index_key key) v (db_index db))"
    using worker_Put_index [OF mk put] .
  then show ?thesis using put_after_append [OF assms(1-4) _ mk] ok put by auto
qed

lemma put_total:
  assumes inv: "db_inv ix iinv ikey_ok H db" and head: "set_option (log_head w) \<subseteq> H" and arg: "kv_arg_ok key val"
    and k: "ikey_ok (index_key key)"
    and can: "\<And>v. new_value ix ikey_ok (index_key key) v (db_index db) \<Longrightarrow> iok (snd (ix_put ix (index_key key) v (db_index db)))"
    and free: "free_segments (db_log db) \<noteq> []"
  shows "\<exists>w' db' i v. worker_Put ix now key val w db = Inr (w', db') \<and> log_head w' = Some i \<and> i \<notin> H - set_option (log_head w) \<and>
           db_inv ix iinv ikey_ok (insert i (H - set_option (log_head w))) db' \<and>
           (\<forall>k'. ikey_ok k' \<longrightarrow> db_contents ix db' k' = (if k' = index_key key then Some val else db_contents ix db k')) \<and>
           db_index db' = snd (ix_put ix (index_key key) v (db_index db)) \<and> new_value ix ikey_ok (index_key key) v (db_index db) \<and>
           length (free_segments (db_log db)) \<le> Suc (length (free_segments (db_log db')))"
proof -
  have li: "log_inv H (db_log db)" using inv by (simp add: db_inv_def)
  have len: "length key < 2 ^ 15" "length val < 2 ^ 16" using arg by (auto simp: kv_arg_ok_def)
  let ?e = "fst (GetKeyEpoch (index_key key) db)"
  from make_kv_loop_total [OF li head free len, of now ?e "tmp_garbage w"] obtain v head' tmp' l' where
    loop: "make_kv_loop now key val ?e (log_head w) (tmp_garbage w) (db_log db) = Inr (v, head', tmp', l')"
      "length (free_segments (db_log db)) \<le> Suc (length (free_segments l'))" by auto
  define db1 where "db1 = (snd (GetKeyEpoch (index_key key) db))\<lparr>db_log := l'\<rparr>"
  have mk: "MakeKVItem now key val w db = Inr (v, w\<lparr>log_head := head', tmp_garbage := tmp'\<rparr>, db1)"
    using loop(1) by (simp add: MakeKVItem_def Let_def split_beta db1_def)
  have "key \<noteq> []" using arg by (auto simp: kv_arg_ok_def)
  from make_kv_loop_correct [OF li head len this loop(1)] obtain i where
    i: "log_inv (insert i (H - set_option (log_head w))) l'" "live l' (index_key key) v" "log_keeps (db_log db) l'"
    using arg index_key_le_bytes [of key] by (auto simp: live_def log_inv_def kv_arg_ok_def)
  have "new_value ix ikey_ok (index_key key) v (db_index db)"
    using inv live_keeps(1) [OF i(3)] by (intro live_new_value [OF i(1,2)]) (auto simp: db_inv_def)
  then show ?thesis using put_after_append [OF inv head arg k can mk] loop(2)
    unfolding db1_def by (metis db.select_convs(2) db.surjective db.update_convs(2))
qed

lemma get_correct:
  assumes "db_inv ix iinv ikey_ok H db" and "ikey_ok (index_key key)"
  shows "worker_Get ix key db = db_contents ix db (index_key key)"
  using assms live_address(2) [of H "db_log db" "index_key key" "ix_get ix (index_key key) (db_index db)"]
  by (auto simp: worker_Get_def db_contents_def db_inv_def Let_def)

end

section \<open>The client\<close>

text \<open>
  \<open>flatstore_client\<close> of \<^verbatim>\<open>flatstore_wrapper.h\<close>, in the variant \<open>use_string_for_find\<close>
  selects: the store shared by all threads with the worker of every thread. A call that does not
  return leaves the error in place of the store; \<open>now\<close> is the clock.
\<close>

record 'i fs_store =
  fs_db :: "'i db"
  fs_workers :: "nat \<Rightarrow> fs_worker"

type_synonym 'i fs_state = "fs_error + 'i fs_store"

definition fs_find :: "'i index_ops \<Rightarrow> byte list \<Rightarrow> 'i fs_state \<Rightarrow> (bool \<times> byte list) \<times> 'i fs_state" where
  "fs_find ix key s =
     (case s of
        Inl e \<Rightarrow> ((False, []), s)
      | Inr st \<Rightarrow> (case worker_Get ix key (fs_db st) of None \<Rightarrow> ((False, []), s) | Some v \<Rightarrow> ((True, v), s)))"

definition fs_insert ::
  "'i index_ops \<Rightarrow> ('i fs_store \<Rightarrow> nat) \<Rightarrow> nat \<Rightarrow> byte list \<Rightarrow> byte list \<Rightarrow> 'i fs_state \<Rightarrow> bool \<times> 'i fs_state" where
  "fs_insert ix now t key val s =
     (case s of
        Inl e \<Rightarrow> (False, s)
      | Inr st \<Rightarrow>
          (case worker_Put ix (now st) key val (fs_workers st t) (fs_db st) of
             Inl e \<Rightarrow> (False, Inl e)
           | Inr (w, db) \<Rightarrow> (True, Inr (st\<lparr>fs_db := db, fs_workers := (fs_workers st)(t := w)\<rparr>))))"

definition fs_remove :: "byte list \<Rightarrow> 'i fs_state \<Rightarrow> bool \<times> 'i fs_state" where
  "fs_remove key s =
     (case s of Inl e \<Rightarrow> (False, s)
              | Inr st \<Rightarrow> (case worker_Delete key of Inl e \<Rightarrow> (False, Inl e) | Inr r \<Rightarrow> (r, s)))"

definition fs_scan :: "'i index_ops \<Rightarrow> byte list \<Rightarrow> nat \<Rightarrow> 'i fs_state \<Rightarrow> int \<times> 'i fs_state" where
  "fs_scan ix key cnt s =
     (case s of Inl e \<Rightarrow> (0, s)
              | Inr st \<Rightarrow> (case worker_Scan ix key cnt (fs_db st) of Inl e \<Rightarrow> (0, Inl e) | Inr n \<Rightarrow> (int n, s)))"

definition fs_api :: "'i index_ops \<Rightarrow> ('i fs_store \<Rightarrow> nat) \<Rightarrow> nat \<Rightarrow> 'i fs_state client_api" where
  "fs_api ix now t =
     \<lparr>api_find = fs_find ix, api_insert = fs_insert ix now t, api_update = fs_insert ix now t,
      api_remove = fs_remove, api_scan = fs_scan ix\<rparr>"

subsection \<open>It is an upsert store\<close>

definition fs_heads :: "'i fs_store \<Rightarrow> nat set" where
  "fs_heads st = {i. \<exists>t. log_head (fs_workers st t) = Some i}"

definition fs_inv :: "'i index_ops \<Rightarrow> ('i \<Rightarrow> bool) \<Rightarrow> (u64 \<Rightarrow> bool) \<Rightarrow> 'i fs_state \<Rightarrow> bool" where
  "fs_inv ix iinv ikey_ok s =
     (case s of Inl e \<Rightarrow> False
              | Inr st \<Rightarrow> db_inv ix iinv ikey_ok (fs_heads st) (fs_db st) \<and>
                  (\<forall>t t' i. log_head (fs_workers st t) = Some i \<and> log_head (fs_workers st t') = Some i \<longrightarrow> t = t'))"

definition fs_key_ok :: "(u64 \<Rightarrow> bool) \<Rightarrow> byte list \<Rightarrow> bool" where
  "fs_key_ok ikey_ok key \<longleftrightarrow> length key = 8 \<and> ikey_ok (index_key key)"

definition fs_value_ok :: "byte list \<Rightarrow> bool" where
  "fs_value_ok val \<longleftrightarrow> length val < 2 ^ 16"

definition fs_contents :: "'i index_ops \<Rightarrow> (u64 \<Rightarrow> bool) \<Rightarrow> 'i fs_state \<Rightarrow> kvmap" where
  "fs_contents ix ikey_ok s key =
     (case s of Inl e \<Rightarrow> None
              | Inr st \<Rightarrow> if fs_key_ok ikey_ok key then db_contents ix (fs_db st) (index_key key) else None)"

text \<open>Room for \<open>n\<close> writes: that many free segments, and room in the index.\<close>

definition fs_room :: "('i \<Rightarrow> nat \<Rightarrow> bool) \<Rightarrow> 'i fs_state \<Rightarrow> nat \<Rightarrow> bool" where
  "fs_room iroom s n =
     (case s of Inl e \<Rightarrow> False
              | Inr st \<Rightarrow> n \<le> length (free_segments (db_log (fs_db st))) \<and> iroom (db_index (fs_db st)) n)"

definition fs_ok :: "('i \<Rightarrow> bool) \<Rightarrow> 'i fs_state \<Rightarrow> bool" where
  "fs_ok iok s = (case s of Inl e \<Rightarrow> False | Inr st \<Rightarrow> iok (db_index (fs_db st)))"

locale flat_index_room = flat_index +
  fixes iroom :: "'a \<Rightarrow> nat \<Rightarrow> bool" and now :: "'a fs_store \<Rightarrow> nat"
  assumes iroom_ok: "iinv s \<Longrightarrow> iok s \<Longrightarrow> iroom s (Suc n) \<Longrightarrow> ikey_ok k \<Longrightarrow> new_value ix ikey_ok k v s \<Longrightarrow>
      iok (snd (ix_put ix k v s)) \<and> iroom (snd (ix_put ix k v s)) n"
begin

lemma index_key_inject: "fs_key_ok ikey_ok k \<Longrightarrow> fs_key_ok ikey_ok k' \<Longrightarrow> index_key k = index_key k' \<Longrightarrow> k = k'"
  using index_key_le_bytes by (metis fs_key_ok_def)

lemma fs_after_put:
  assumes inv: "fs_inv ix iinv ikey_ok (Inr st)" and key: "fs_key_ok ikey_ok key"
    and p: "log_head w' = Some i" "i \<notin> fs_heads st - set_option (log_head (fs_workers st t))"
      "db_inv ix iinv ikey_ok (insert i (fs_heads st - set_option (log_head (fs_workers st t)))) db'"
      "\<And>k'. ikey_ok k' \<Longrightarrow> db_contents ix db' k' = (if k' = index_key key then Some val else db_contents ix (fs_db st) k')"
  defines "st' \<equiv> st\<lparr>fs_db := db', fs_workers := (fs_workers st)(t := w')\<rparr>"
  shows "fs_inv ix iinv ikey_ok (Inr st')"
    and "fs_contents ix ikey_ok (Inr st') = (fs_contents ix ikey_ok (Inr st))(key \<mapsto> val)"
proof -
  let ?w = "fs_workers st t"
  have inj: "\<And>t t' i. log_head (fs_workers st t) = Some i \<Longrightarrow> log_head (fs_workers st t') = Some i \<Longrightarrow> t = t'"
    using inv by (auto simp: fs_inv_def)
  have others: "fs_heads st - set_option (log_head ?w) = {j. \<exists>t'. t' \<noteq> t \<and> log_head (fs_workers st t') = Some j}"
    using inj by (auto simp: fs_heads_def) (metis option.set_intros)
  have heads: "fs_heads st' = insert i (fs_heads st - set_option (log_head ?w))"
    using p(1) others by (auto simp: fs_heads_def st'_def)
  have "t1 = t2" if "log_head (fs_workers st' t1) = Some j" "log_head (fs_workers st' t2) = Some j" for t1 t2 j
    using that p(1,2) inj [of t1 j t2] unfolding others by (auto simp: st'_def split: if_splits)
  then show "fs_inv ix iinv ikey_ok (Inr st')" using p(3) heads by (simp add: fs_inv_def) (simp add: st'_def)
  show "fs_contents ix ikey_ok (Inr st') = (fs_contents ix ikey_ok (Inr st))(key \<mapsto> val)"
  proof
    fix k'
    show "fs_contents ix ikey_ok (Inr st') k' = ((fs_contents ix ikey_ok (Inr st))(key \<mapsto> val)) k'"
    proof (cases "fs_key_ok ikey_ok k'")
      case True
      have c: "fs_contents ix ikey_ok (Inr st') k' = db_contents ix db' (index_key k')"
          "fs_contents ix ikey_ok (Inr st) k' = db_contents ix (fs_db st) (index_key k')"
        using True by (simp_all add: fs_contents_def) (simp add: st'_def)
      have "ikey_ok (index_key k')" using True by (simp add: fs_key_ok_def)
      note p4 = p(4) [OF this]
      show ?thesis
      proof (cases "k' = key")
        case False
        then have "index_key k' \<noteq> index_key key" using index_key_inject [OF True key] by blast
        then show ?thesis using p4 c False by (simp only: if_False fun_upd_apply)
      qed (use p4 c in \<open>simp only: if_True fun_upd_apply refl\<close>)
    next
      case False
      then show ?thesis using key by (auto simp: fs_contents_def)
    qed
  qed
qed

lemma fs_insert_correct:
  assumes inv: "fs_inv ix iinv ikey_ok s" and key: "fs_key_ok ikey_ok key" and val: "fs_value_ok val"
    and ok: "fs_ok iok (snd (fs_insert ix now t key val s))"
  shows "fst (fs_insert ix now t key val s) \<and>
     fs_contents ix ikey_ok (snd (fs_insert ix now t key val s)) = (fs_contents ix ikey_ok s)(key \<mapsto> val) \<and>
     fs_inv ix iinv ikey_ok (snd (fs_insert ix now t key val s))"
proof -
  obtain st where s: "s = Inr st" using inv by (cases s) (auto simp: fs_inv_def)
  let ?w = "fs_workers st t" and ?db = "fs_db st"
  obtain w' db' where p: "worker_Put ix (now st) key val ?w ?db = Inr (w', db')"
    using ok by (auto simp: fs_ok_def fs_insert_def s split: sum.splits prod.splits)
  have di: "db_inv ix iinv ikey_ok (fs_heads st) ?db" using inv by (simp add: fs_inv_def s)
  have hd: "set_option (log_head ?w) \<subseteq> fs_heads st" by (auto simp: fs_heads_def)
  have arg: "kv_arg_ok key val" and ik: "ikey_ok (index_key key)"
    using key val by (auto simp: kv_arg_ok_def fs_key_ok_def fs_value_ok_def)
  have io: "iok (db_index db')" using ok by (simp add: fs_ok_def fs_insert_def s p)
  from put_correct [OF di hd arg ik io p] obtain i where
    i: "log_head w' = Some i" "i \<notin> fs_heads st - set_option (log_head ?w)"
      "db_inv ix iinv ikey_ok (insert i (fs_heads st - set_option (log_head ?w))) db'"
      "\<And>k'. ikey_ok k' \<Longrightarrow> db_contents ix db' k' = (if k' = index_key key then Some val else db_contents ix ?db k')"
    by blast
  show ?thesis using fs_after_put [OF inv [unfolded s] key i] by (simp add: fs_insert_def s p)
qed

lemma fs_ok_before: "fs_ok iok (snd (fs_insert ix now t key val s)) \<Longrightarrow> fs_ok iok s"
proof (cases s)
  case (Inr st)
  assume ok: "fs_ok iok (snd (fs_insert ix now t key val s))"
  then obtain w' db' where p: "worker_Put ix (now st) key val (fs_workers st t) (fs_db st) = Inr (w', db')"
    by (auto simp: fs_ok_def fs_insert_def Inr split: sum.splits prod.splits)
  then obtain v w1 db1 where "MakeKVItem (now st) key val (fs_workers st t) (fs_db st) = Inr (v, w1, db1)"
    by (auto simp: worker_Put_def split: sum.splits)
  from worker_Put_index [OF this p] ok show ?thesis
    using put_ok by (simp add: fs_ok_def fs_insert_def Inr p)
qed (simp add: fs_ok_def fs_insert_def)

lemma fs_insert_room:
  assumes inv: "fs_inv ix iinv ikey_ok s" and ok: "fs_ok iok s" and key: "fs_key_ok ikey_ok key" and val: "fs_value_ok val"
    and room: "fs_room iroom s (Suc n)"
  shows "fs_ok iok (snd (fs_insert ix now t key val s)) \<and> fs_room iroom (snd (fs_insert ix now t key val s)) n"
proof -
  obtain st where s: "s = Inr st" using inv by (cases s) (auto simp: fs_inv_def)
  let ?w = "fs_workers st t" and ?db = "fs_db st"
  have di: "db_inv ix iinv ikey_ok (fs_heads st) ?db" using inv by (simp add: fs_inv_def s)
  have hd: "set_option (log_head ?w) \<subseteq> fs_heads st" by (auto simp: fs_heads_def)
  have arg: "kv_arg_ok key val" and ik: "ikey_ok (index_key key)"
    using key val by (auto simp: kv_arg_ok_def fs_key_ok_def fs_value_ok_def)
  have ii: "iinv (db_index ?db)" "iok (db_index ?db)" using di ok by (simp_all add: db_inv_def fs_ok_def s)
  have rm: "Suc n \<le> length (free_segments (db_log ?db))" "iroom (db_index ?db) (Suc n)" using room by (auto simp: fs_room_def s)
  then have fr: "free_segments (db_log ?db) \<noteq> []" by auto
  note io = iroom_ok [OF ii rm(2) ik]
  obtain w' db' v where p: "worker_Put ix (now st) key val ?w ?db = Inr (w', db')"
      "db_index db' = snd (ix_put ix (index_key key) v (db_index ?db))" "new_value ix ikey_ok (index_key key) v (db_index ?db)"
      "length (free_segments (db_log ?db)) \<le> Suc (length (free_segments (db_log db')))"
    using put_total [OF di hd arg ik _ fr, of "now st"] io by auto
  show ?thesis using p rm io [OF p(3)] by (simp add: fs_ok_def fs_room_def fs_insert_def s)
qed

end

sublocale flat_index_room \<subseteq> fs: kv_upsert_room "fs_api ix now" "fs_contents ix ikey_ok" "fs_inv ix iinv ikey_ok"
  "fs_key_ok ikey_ok" fs_value_ok "fs_ok iok" "fs_room iroom"
proof unfold_locales
  fix s k t v n
  show "fs_ok iok s" if "fs_ok iok (snd (api_insert (fs_api ix now t) k v s))"
    using that fs_ok_before by (simp add: fs_api_def)
  assume inv: "fs_inv ix iinv ikey_ok s" and k: "fs_key_ok ikey_ok k"
  obtain st where s: "s = Inr st" using inv by (cases s) (auto simp: fs_inv_def)
  have g: "worker_Get ix k (fs_db st) = db_contents ix (fs_db st) (index_key k)"
    using inv k by (intro get_correct [where H = "fs_heads st"]) (auto simp: fs_inv_def s fs_key_ok_def)
  show "fst (fst (api_find (fs_api ix now t) k s)) = (fs_contents ix ikey_ok s k \<noteq> None)"
    using k g by (auto simp: fs_api_def fs_find_def s fs_contents_def split: option.splits)
  show "fs_contents ix ikey_ok s k = Some v \<Longrightarrow> snd (fst (api_find (fs_api ix now t) k s)) = v"
    using k g by (auto simp: fs_api_def fs_find_def s fs_contents_def split: option.splits)
  have same: "snd (api_find (fs_api ix now t) k s) = s"
    by (auto simp: fs_api_def fs_find_def s split: option.splits)
  show "fs_contents ix ikey_ok (snd (api_find (fs_api ix now t) k s)) = fs_contents ix ikey_ok s"
    "fs_inv ix iinv ikey_ok (snd (api_find (fs_api ix now t) k s))" using same inv by simp_all
  assume v: "fs_value_ok v"
  show "fst (api_insert (fs_api ix now t) k v s) \<and>
       fs_contents ix ikey_ok (snd (api_insert (fs_api ix now t) k v s)) = (fs_contents ix ikey_ok s)(k \<mapsto> v) \<and>
       fs_inv ix iinv ikey_ok (snd (api_insert (fs_api ix now t) k v s))"
    if "fs_ok iok (snd (api_insert (fs_api ix now t) k v s))"
    using fs_insert_correct [OF inv k v, of t] that by (simp add: fs_api_def)
  show "fs_ok iok (snd (api_insert (fs_api ix now t) k v s)) \<and> fs_room iroom (snd (api_insert (fs_api ix now t) k v s)) n"
    if "fs_ok iok s" "fs_room iroom s (Suc n)"
    using fs_insert_room [OF inv that(1) k v that(2), of t] by (simp add: fs_api_def)
qed

end
