(* ===== verification/Flat_Frame.thy ===== *)
theory Flat_Frame
  imports Flat_DB
begin

text \<open>
  What the operations of a worker leave alone, for a collector that runs beside them: the segments
  a client does not write to stand still, and the log gains no entry but the ones appended.
\<close>

section \<open>Segments that stand still\<close>

definition still :: "nat \<Rightarrow> log \<Rightarrow> log \<Rightarrow> bool" where
  "still i l l' \<longleftrightarrow> segment_start (segs l' i) = segment_start (segs l i) \<and> seg_tail (segs l' i) = seg_tail (segs l i) \<and>
     seg_entries l' i = seg_entries l i \<and> seg_walk_end l' i = seg_walk_end l i \<and>
     (\<forall>a. data_start (segs l i) \<le> a \<and> a < seg_tail (segs l i) \<longrightarrow> pm_bytes (lpool l') a = pm_bytes (lpool l) a)"

text \<open>The segments in \<open>J\<close> stand still and every new entry is in \<open>V\<close>.\<close>

definition log_step :: "nat set \<Rightarrow> nat set \<Rightarrow> log \<Rightarrow> log \<Rightarrow> bool" where
  "log_step V J l l' \<longleftrightarrow> num_segments l' = num_segments l \<and> pool_start l' = pool_start l \<and>
     (\<forall>i < num_segments l. set (seg_entries l' i) \<subseteq> set (seg_entries l i) \<union> V) \<and>
     (\<forall>i \<in> J. i < num_segments l \<longrightarrow> still i l l')"

lemma still_refl [simp]: "still i l l" by (simp add: still_def)

lemma still_trans: "still i l l' \<Longrightarrow> still i l' l'' \<Longrightarrow> still i l l''"
  by (simp add: still_def data_start_def)

lemma log_step_refl [simp]: "log_step V J l l" by (simp add: log_step_def)

lemma log_step_trans: "log_step V J l l' \<Longrightarrow> log_step V J l' l'' \<Longrightarrow> log_step V J l l''"
  unfolding log_step_def by (auto intro: still_trans) blast

lemma log_step_mono: "log_step V J l l' \<Longrightarrow> V \<subseteq> V' \<Longrightarrow> J' \<subseteq> J \<Longrightarrow> log_step V' J' l l'"
  unfolding log_step_def by blast

lemma touches_step:
  assumes inv: "log_inv H l" and t: "touches j l l'" and j: "j < num_segments l"
    and new: "seg_entries l' j = seg_entries l j @ new" "set new \<subseteq> V" and J: "j \<notin> J"
  shows "log_step V J l l'"
proof -
  have fr: "num_segments l' = num_segments l" "pool_start l' = pool_start l" using t by (simp_all add: touches_def same_frame_def)
  have st: "still i l l'" if "i < num_segments l" "i \<noteq> j" for i
    using touches_others [OF inv t that(1) j that(2)] touches_bytes [OF inv t that(1) j] t that(2)
    by (auto simp: still_def touches_def)
  then have "set (seg_entries l' i) \<subseteq> set (seg_entries l i) \<union> V" if "i < num_segments l" for i
    using that new by (cases "i = j") (auto simp: still_def)
  then show ?thesis using st fr J by (auto simp: log_step_def)
qed

lemma quiet_step: "quiet l l' \<Longrightarrow> log_step V J l l'"
  unfolding log_step_def still_def using quiet_segs(2,3) [of l l'] by (auto simp: quiet_def)

section \<open>The log\<close>

lemma FreezeSegment_step:
  assumes inv: "log_inv H l" and old: "set_option old \<subseteq> H" and J: "J \<inter> set_option old = {}"
  shows "log_step V J l (FreezeSegment now old l)"
proof (cases "old = None \<or> num_cleaners l = 0")
  case True
  then show ?thesis by (auto simp: FreezeSegment_def split: option.splits)
next
  case False
  then obtain j where j: "old = Some j" by auto
  let ?l1 = "on_seg (seg_Close now) j l"
  have jH: "j \<in> H" "j < num_segments l" using old j inv by (auto simp: log_inv_def)
  note c = seg_Close_touches [OF inv jH(1), of now]
  have "log_step V J l ?l1" by (rule touches_step [OF inv c(1) jH(2) c(2)]) (use J j in auto)
  moreover have "quiet ?l1 (AddClosedSegment j ?l1)" by (simp add: quiet_def AddClosedSegment_def Let_def)
  ultimately show ?thesis using log_step_trans quiet_step False by (simp add: FreezeSegment_def j)
qed

lemma SyncCleanerGarbageBytes_quiet: "quiet l (snd (SyncCleanerGarbageBytes tmp l))"
  by (simp add: SyncCleanerGarbageBytes_def quiet_def)

lemma worker_Freeze_step:
  assumes "log_inv H l" and "set_option old \<subseteq> H" and "J \<inter> set_option old = {}" and "worker_Freeze now old tmp l = (tmp', l')"
  shows "log_step V J l l'"
  using FreezeSegment_step [OF assms(1-3)] quiet_step [OF SyncCleanerGarbageBytes_quiet] assms(4) log_step_trans
  by (simp add: worker_Freeze_def) (metis snd_conv)

lemma NewSegment_step: "NewSegment hot l = (Got i, l') \<Longrightarrow> log_step V J l l'"
proof -
  assume got: "NewSegment hot l = (Got i, l')"
  then obtain rest where "l' = UpdateCleanThreshold (on_seg (StartUsing hot True) i
      (l\<lparr>free_segments := rest, num_free_segments := num_free_segments l - 1\<rparr>))"
    by (auto simp: NewSegment_def Let_def split: if_splits list.splits)
  then show "log_step V J l l'"
    by (intro quiet_step) (simp add: quiet_def frame_simps on_seg_def StartUsing_def set_header_def)
qed

lemma seg_Append_step:
  assumes inv: "log_inv H l" and i: "i \<in> H" and len: "length key < 2 ^ 15" "length val < 2 ^ 16" and ne: "key \<noteq> []"
    and app: "seg_Append key val e (segs l i, lpool l) = (v, s, pm)" and got: "v \<noteq> INVALID_VALUE" and J: "i \<notin> J"
  shows "log_step {v} J l (l\<lparr>segs := (segs l)(i := s), lpool := pm\<rparr>)"
proof -
  note a = seg_Append_log [OF inv i len ne app got]
  have "i < num_segments l" using inv i by (auto simp: log_inv_def)
  then show ?thesis by (rule touches_step [OF inv a(8) _ a(7)]) (use J in auto)
qed

section \<open>A worker\<close>

lemma make_kv_loop_step:
  assumes "log_inv H l" and "set_option head \<subseteq> H" and "length key < 2 ^ 15" "length val < 2 ^ 16" "key \<noteq> []"
    and "make_kv_loop now key val epoch head tmp l = Inr (v, head', tmp', l')"
    and "J \<inter> set_option head = {}" and "J \<inter> set (free_segments l) = {}"
  shows "log_step {v} J l l' \<and> J \<inter> set_option head' = {} \<and> set (free_segments l') \<subseteq> set (free_segments l)"
  using assms
proof (induction now key val epoch head tmp l arbitrary: H rule: make_kv_loop.induct)
  case (1 now key val epoch head tmp l)
  show ?case
  proof (cases "try_append key val epoch head l")
    case (Some p)
    obtain i s pm where h: "head = Some i" and app: "seg_Append key val epoch (segs l i, lpool l) = (fst p, s, pm)"
        and ne: "fst p \<noteq> INVALID_VALUE" and l2: "snd p = l\<lparr>segs := (segs l)(i := s), lpool := pm\<rparr>"
      using Some by (auto simp: try_append_def Let_def split: option.splits prod.splits if_splits)
    have res: "head' = head" "v = fst p" "l' = snd p"
      using "1.prems"(6) Some by (subst (asm) make_kv_loop.simps; simp add: split_beta)+
    have i: "i \<in> H" "i \<notin> J" using "1.prems"(2,7) h by auto
    note a = seg_Append_step [OF "1.prems"(1) i(1) "1.prems"(3-5) app ne i(2), folded l2, folded res]
    then show ?thesis using "1.prems"(7) by (simp add: res l2)
  next
    case None
    obtain tmp1 l1 where fz: "worker_Freeze now head tmp l = (tmp1, l1)" by (cases "worker_Freeze now head tmp l")
    note f = worker_Freeze_log [OF "1.prems"(1,2) fz]
    obtain a l2 where ns: "NewSegment True l1 = (a, l2)" by (cases "NewSegment True l1")
    have "a \<noteq> Waiting \<and> a \<noteq> No_cleaners"
      using "1.prems"(6) None fz ns by (subst (asm) make_kv_loop.simps) auto
    then obtain i where i: "a = Got i" by (cases a) auto
    note n = NewSegment_log [OF f(1) ns [unfolded i]]
    have rec: "make_kv_loop now key val epoch (Some i) tmp1 l2 = Inr (v, head', tmp', l')"
      using "1.prems"(6) None fz ns i by (subst (asm) make_kv_loop.simps) simp
    let ?H = "insert i (H - set_option head)"
    have hd: "set_option (Some i) \<subseteq> ?H" by simp
    have J: "J \<inter> set_option (Some i) = {}" "J \<inter> set (free_segments l2) = {}" using "1.prems"(8) n(5) f(3) by auto
    have "log_step {v} J l l2"
      using log_step_trans [OF worker_Freeze_step [OF "1.prems"(1,2,7) fz] NewSegment_step [OF ns [unfolded i]]] .
    then show ?thesis
      using "1.IH" [OF None fz [symmetric] ns [symmetric] i n(1) hd "1.prems"(3-5) rec J] log_step_trans n(5) f(3)
      by (metis set_subset_Cons subset_trans)
  qed
qed

lemma worker_MarkGarbage_quiet:
  "worker_MarkGarbage a w db = Inr (w', db') \<Longrightarrow>
   quiet (db_log db) (db_log db') \<and> free_segments (db_log db') = free_segments (db_log db) \<and> log_head w' = log_head w"
  by (auto simp: worker_MarkGarbage_def Let_def quiet_def seg_MarkGarbage_def split: option.splits)

text \<open>The segments queued for the cleaner: closed, in use, and apart from the open ones and from \<open>X\<close>.\<close>

definition queue_ok :: "nat set \<Rightarrow> nat set \<Rightarrow> log \<Rightarrow> bool" where
  "queue_ok X H l \<longleftrightarrow> num_cleaners l = 1 \<and> distinct (closed_segments l 0) \<and>
     (\<forall>i \<in> set (closed_segments l 0). i < num_segments l \<and> i \<notin> set (free_segments l) \<and> i \<notin> H \<and> i \<notin> X)"

lemma FreezeSegment_queue:
  assumes inv: "log_inv H l" and q: "queue_ok X H l" and old: "set_option old \<subseteq> H" and X: "X \<inter> H = {}"
  shows "queue_ok X (H - set_option old) (FreezeSegment now old l)"
proof (cases old)
  case None
  then show ?thesis using q by (simp add: FreezeSegment_def)
next
  case (Some j)
  have "j < num_segments l" "j \<notin> set (free_segments l)" "j \<notin> X" using old inv X by (auto simp: Some log_inv_def)
  then show ?thesis using q old unfolding Some
    by (auto simp: FreezeSegment_def queue_ok_def AddClosedSegment_def GetSegmentCleanerID_def on_seg_def Let_def split: prod.splits)
qed

lemma worker_Freeze_queue:
  assumes "log_inv H l" and "queue_ok X H l" and "set_option old \<subseteq> H" and "X \<inter> H = {}" and "worker_Freeze now old tmp l = (tmp', l')"
  shows "queue_ok X (H - set_option old) l'"
proof -
  have "l' = snd (SyncCleanerGarbageBytes tmp (FreezeSegment now old l))" using assms(5) by (simp add: worker_Freeze_def)
  then show ?thesis using FreezeSegment_queue [OF assms(1-4), of now] by (simp add: queue_ok_def SyncCleanerGarbageBytes_def)
qed

lemma NewSegment_queue:
  assumes "queue_ok X H l" and "NewSegment hot l = (Got i, l')"
  shows "queue_ok X (insert i H) l'"
proof -
  have "free_segments l = i # free_segments l'" by (rule NewSegment_free [OF assms(2)])
  moreover have "closed_segments l' = closed_segments l" "num_segments l' = num_segments l" "num_cleaners l' = num_cleaners l"
    using assms(2) by (auto simp: NewSegment_def Let_def frame_simps on_seg_def split: if_splits list.splits prod.splits)
  ultimately show ?thesis using assms(1) by (auto simp: queue_ok_def)
qed

lemma make_kv_loop_queue:
  assumes "log_inv H l" and "set_option head \<subseteq> H" and "make_kv_loop now key val epoch head tmp l = Inr (v, head', tmp', l')"
    and "queue_ok X H l" and "X \<inter> H = {}" and "X \<inter> set (free_segments l) = {}"
  shows "queue_ok X (set_option head' \<union> (H - set_option head)) l'"
  using assms
proof (induction now key val epoch head tmp l arbitrary: H rule: make_kv_loop.induct)
  case (1 now key val epoch head tmp l)
  show ?case
  proof (cases "try_append key val epoch head l")
    case (Some p)
    have res: "head' = head" "l' = snd p" using "1.prems"(3) Some by (subst (asm) make_kv_loop.simps; simp add: split_beta)+
    have "queue_ok X H l'" using Some "1.prems"(4) res
      by (auto simp: try_append_def queue_ok_def Let_def split: option.splits prod.splits if_splits)
    then show ?thesis using "1.prems"(2) by (auto simp: res queue_ok_def)
  next
    case None
    obtain tmp1 l1 where fz: "worker_Freeze now head tmp l = (tmp1, l1)" by (cases "worker_Freeze now head tmp l")
    note f = worker_Freeze_log [OF "1.prems"(1,2) fz] and fq = worker_Freeze_queue [OF "1.prems"(1,4,2,5) fz]
    obtain a l2 where ns: "NewSegment True l1 = (a, l2)" by (cases "NewSegment True l1")
    have "a \<noteq> Waiting \<and> a \<noteq> No_cleaners"
      using "1.prems"(3) None fz ns by (subst (asm) make_kv_loop.simps) auto
    then obtain i where i: "a = Got i" by (cases a) auto
    note n = NewSegment_log [OF f(1) ns [unfolded i]] and nq = NewSegment_queue [OF fq ns [unfolded i]]
    have rec: "make_kv_loop now key val epoch (Some i) tmp1 l2 = Inr (v, head', tmp', l')"
      using "1.prems"(3) None fz ns i by (subst (asm) make_kv_loop.simps) simp
    let ?H = "insert i (H - set_option head)"
    have "X \<inter> ?H = {}" "X \<inter> set (free_segments l2) = {}" using "1.prems"(5,6) n(5) f(3) by auto
    from "1.IH" [OF None fz [symmetric] ns [symmetric] i n(1) _ rec nq this]
    have "queue_ok X (set_option head' \<union> (?H - set_option (Some i))) l'" by simp
    moreover have "?H - set_option (Some i) = H - set_option head" using n(3) by auto
    ultimately show ?thesis by (simp only:)
  qed
qed

lemma worker_MarkGarbage_queue:
  "worker_MarkGarbage a w db = Inr (w', db') \<Longrightarrow> queue_ok X H (db_log db') = queue_ok X H (db_log db) \<and>
     num_free_segments (db_log db') = num_free_segments (db_log db)"
  by (auto simp: worker_MarkGarbage_def Let_def queue_ok_def split: option.splits)

text \<open>All that a put does to the log, besides what \<open>put_correct\<close> says of the contents.\<close>

lemma worker_Put_step:
  assumes inv: "log_inv H (db_log db)" and head: "set_option (log_head w) \<subseteq> H" and arg: "kv_arg_ok key val"
    and put: "worker_Put ix now key val w db = Inr (w', db')"
    and J: "J \<inter> set_option (log_head w) = {}" "J \<inter> set (free_segments (db_log db)) = {}"
    and Q: "queue_ok X H (db_log db)" "X \<inter> H = {}" "X \<inter> set (free_segments (db_log db)) = {}"
  shows "\<exists>v i. log_head w' = Some i \<and> log_step {v} J (db_log db) (db_log db') \<and> log_keeps (db_log db) (db_log db') \<and>
    kv_GetKey (pm_bytes (lpool (db_log db'))) v = key \<and> v \<in> set (seg_entries (db_log db') i) \<and> i \<notin> J \<and>
    set (free_segments (db_log db')) \<subseteq> set (free_segments (db_log db)) \<and>
    db_index db' = snd (ix_put ix (index_key key) v (db_index db)) \<and> queue_ok X (insert i (H - set_option (log_head w))) (db_log db')"
proof -
  obtain v w1 db1 where mk: "MakeKVItem now key val w db = Inr (v, w1, db1)"
    using put by (auto simp: worker_Put_def split: sum.splits prod.splits)
  obtain epoch head' tmp' l' where loop: "make_kv_loop now key val epoch (log_head w) (tmp_garbage w) (db_log db)
        = Inr (v, head', tmp', l')" and w1: "log_head w1 = head'" and d1: "db_log db1 = l'"
    using mk GetKeyEpoch_frame [of "index_key key" db]
    by (auto simp: MakeKVItem_def Let_def split_beta split: sum.splits simp del: GetKeyEpoch_frame)
  have len: "length key < 2 ^ 15" "length val < 2 ^ 16" "key \<noteq> []" using arg by (auto simp: kv_arg_ok_def)
  note s = make_kv_loop_step [OF inv head len loop J] and q = make_kv_loop_queue [OF inv head loop Q]
  obtain i where i: "head' = Some i" "log_inv (insert i (H - set_option (log_head w))) l'" "log_keeps (db_log db) l'"
      "v \<in> set (seg_entries l' i)" "kv_GetKey (pm_bytes (lpool l')) v = key"
    using make_kv_loop_correct [OF inv head len loop] by blast
  have u: "UpdateIndex ix key v w1 db1 = Inr (w', db')" using put mk by (simp add: worker_Put_def)
  have e: "quiet l' (db_log db') \<and> free_segments (db_log db') = free_segments l' \<and> log_head w' = log_head w1 \<and>
      num_free_segments (db_log db') = num_free_segments l' \<and> (\<forall>X H. queue_ok X H (db_log db') = queue_ok X H l')"
  proof (cases "fst (ix_put ix (index_key key) v (db_index db1)) = INVALID_VALUE")
    case True
    then have "w' = w1" "db_log db' = l'" using u d1 by (auto simp: UpdateIndex_def Let_def split_beta)
    then show ?thesis by simp
  next
    case False
    then have "worker_MarkGarbage (fst (ix_put ix (index_key key) v (db_index db1))) w1
        (db1\<lparr>db_index := snd (ix_put ix (index_key key) v (db_index db1))\<rparr>) = Inr (w', db')"
      using u by (simp add: UpdateIndex_def Let_def split_beta)
    from worker_MarkGarbage_quiet [OF this] worker_MarkGarbage_queue [OF this] show ?thesis using d1 by simp
  qed
  have qt: "quiet l' (db_log db')" using e by blast
  have "log_step {v} J (db_log db) (db_log db')" using log_step_trans [OF _ quiet_step [OF qt]] s by blast
  moreover have "num_free_segments (db_log db') = int (length (free_segments (db_log db')))" "free_segments l' = [] @ free_segments (db_log db')"
    using e i(2) by (simp_all add: log_inv_def)
  then have "log_keeps (db_log db) (db_log db')" using log_keeps_trans [OF i(3) quiet_inv(2) [OF qt i(2)]] by blast
  moreover have "log_head w' = Some i" "i \<notin> J" "set (free_segments (db_log db')) \<subseteq> set (free_segments (db_log db))"
    using e w1 i(1) s by auto
  moreover have "kv_GetKey (pm_bytes (lpool (db_log db'))) v = key" using qt i(5) by (simp add: quiet_def)
  moreover have "v \<in> set (seg_entries (db_log db') i)" using i(4) quiet_segs(2) [OF qt] by simp
  moreover have "queue_ok X (insert i (H - set_option (log_head w))) (db_log db')" using q e i(1) by simp
  ultimately show ?thesis using worker_Put_index [OF mk put] by blast
qed

end
