(* ===== verification/Flat_Cleaner.thy ===== *)
theory Flat_Cleaner
  imports Flat_Frame
begin

text \<open>
  The log cleaner (\<^verbatim>\<open>db/log_cleaner.cpp\<close>): when it runs, which segment it picks, and the copying of
  the live entries of a segment into the reserved one, in the build without tombstones, shortcuts
  and batching. The cleaner owns a reserved segment it appends to and, after its first
  compaction, a backup segment.
\<close>

section \<open>State\<close>

record cleaner =
  cleaner_id :: nat
  reserved_segment :: "nat option"
  backup_segment :: "nat option"
  cl_tmp :: "nat list"
  to_compact :: "nat list"
  clean_seg_count :: nat

definition cleaner_new :: "nat \<Rightarrow> nat \<Rightarrow> nat \<Rightarrow> cleaner" where
  "cleaner_new cid cleaners r =
     \<lparr>cleaner_id = cid, reserved_segment = Some r, backup_segment = None, cl_tmp = replicate cleaners 0,
      to_compact = [], clean_seg_count = 0\<rparr>"

section \<open>When to clean\<close>

text \<open>
  The products are of unsigned 64-bit integers far below the wrap-around. With no segment of its own
  the quotient of the doubles is infinite or not a number, and the comparison fails.
\<close>

definition NeedCleaning :: "cleaner \<Rightarrow> log \<Rightarrow> bool" where
  "NeedCleaning cl l =
     (let total_segments = int (num_segments l) - int (num_cleaners l);
          local_segments = total_segments div int (num_cleaners l);
          Free = nat (num_free_segments l) * SEGMENT_DATA_SIZE div num_cleaners l;
          Available = Free + cleaner_garbage l (cleaner_id cl);
          Total = nat local_segments * SEGMENT_DATA_SIZE;
          threshold = min (real_of_int (clean_threshold l) / 100) (real Available / real Total / 2)
      in Total \<noteq> 0 \<and> real Free / real Total < threshold)"

section \<open>Compaction\<close>

definition IsGarbage :: "'i index_ops \<Rightarrow> nat \<Rightarrow> 'i db \<Rightarrow> bool" where
  "IsGarbage ix p db =
     (tp_GetAddr (ix_get ix (index_key (kv_GetKey (pm_bytes (lpool (db_log db))) p)) (db_index db)) \<noteq> p)"

text \<open>A missing backup segment is dereferenced: the assertion is compiled out.\<close>

definition FreezeReservedAndGetNew :: "nat \<Rightarrow> cleaner \<Rightarrow> log \<Rightarrow> fs_error + (cleaner \<times> log)" where
  "FreezeReservedAndGetNew now cl l =
     (let (tmp, l) = (case reserved_segment cl of
                        None \<Rightarrow> (cl_tmp cl, l)
                      | Some r \<Rightarrow> SyncCleanerGarbageBytes (cl_tmp cl) (FreezeSegment now (Some r) l))
      in case backup_segment cl of
           None \<Rightarrow> Inl Null_segment
         | Some b \<Rightarrow> Inr (cl\<lparr>reserved_segment := Some b, backup_segment := None, cl_tmp := tmp\<rparr>,
                          on_seg (StartUsing False False) b l))"

definition cl_MarkGarbage :: "nat \<Rightarrow> cleaner \<Rightarrow> log \<Rightarrow> fs_error + (cleaner \<times> log)" where
  "cl_MarkGarbage tagged cl l =
     (let addr = tp_GetAddr tagged; sz = kv_size (pm_bytes (lpool l)) addr in
      case GetSegment l (GetSegmentID l addr) of
        None \<Rightarrow> Inl Null_segment
      | Some i \<Rightarrow>
          let l = l\<lparr>segs := (segs l)(i := seg_MarkGarbage addr sz (segs l i))\<rparr>;
              c = GetSegmentCleanerID l addr;
              tmp = (if num_cleaners l > 0 then (cl_tmp cl)[c := cl_tmp cl ! c + sz] else cl_tmp cl)
          in Inr (cl\<lparr>cl_tmp := tmp\<rparr>, l))"

text \<open>The steps of the loop body: room in the reserved segment, the copy, the index update.\<close>

definition reserve_space :: "nat \<Rightarrow> nat \<Rightarrow> cleaner \<Rightarrow> log \<Rightarrow> fs_error + (cleaner \<times> log)" where
  "reserve_space now sz cl l =
     (case reserved_segment cl of
        None \<Rightarrow> Inl Null_segment
      | Some r \<Rightarrow> if HasSpaceFor (segs l r) sz then Inr (cl, l) else FreezeReservedAndGetNew now cl l)"

definition gc_append :: "nat \<Rightarrow> cleaner \<Rightarrow> log \<Rightarrow> fs_error + (nat \<times> log)" where
  "gc_append p cl l =
     (case reserved_segment cl of
        None \<Rightarrow> Inl Null_segment
      | Some r \<Rightarrow>
          let m = pm_bytes (lpool l);
              (v, s, pm) = seg_Append (kv_GetKey m p) (kv_GetValue m p) (kv_epoch m p) (segs l r, lpool l)
          in Inr (v, l\<lparr>segs := (segs l)(r := s), lpool := pm\<rparr>))"

definition gc_move :: "'i index_ops \<Rightarrow> nat \<Rightarrow> nat \<Rightarrow> cleaner \<Rightarrow> 'i db \<Rightarrow> fs_error + (cleaner \<times> 'i db)" where
  "gc_move ix p v cl db =
     (let m = pm_bytes (lpool (db_log db));
          (old, idx) = ix_gc ix (index_key (kv_GetKey m p)) (tagged_pointer p (kv_size m p)) v (db_index db);
          db = db\<lparr>db_index := idx\<rparr>
      in if old = v then
           (case cl_MarkGarbage v cl (db_log db) of Inl e \<Rightarrow> Inl e | Inr (cl, l) \<Rightarrow> Inr (cl, db\<lparr>db_log := l\<rparr>))
         else Inr (cl, db))"

definition compact_entry :: "'i index_ops \<Rightarrow> nat \<Rightarrow> nat \<Rightarrow> cleaner \<Rightarrow> 'i db \<Rightarrow> fs_error + (cleaner \<times> 'i db)" where
  "compact_entry ix now p cl db =
     (case reserve_space now (kv_size (pm_bytes (lpool (db_log db))) p) cl (db_log db) of
        Inl e \<Rightarrow> Inl e
      | Inr (cl, l) \<Rightarrow>
          let db = db\<lparr>db_log := l\<rparr> in
          if IsGarbage ix p db then Inr (cl, db)
          else (case gc_append p cl l of
                  Inl e \<Rightarrow> Inl e
                | Inr (v, l) \<Rightarrow> gc_move ix p v cl (db\<lparr>db_log := l\<rparr>)))"

function compact_loop :: "'i index_ops \<Rightarrow> nat \<Rightarrow> nat \<Rightarrow> nat \<Rightarrow> cleaner \<Rightarrow> 'i db \<Rightarrow> fs_error + (cleaner \<times> 'i db)" where
  "compact_loop ix now p tail cl db =
     (let sz = kv_size (pm_bytes (lpool (db_log db))) p in
      if p < tail \<and> sz \<noteq> sizeof_KVItem then
        (case compact_entry ix now p cl db of
           Inl e \<Rightarrow> Inl e
         | Inr (cl, db) \<Rightarrow> compact_loop ix now (p + sz) tail cl db)
      else Inr (cl, db))"
  by pat_completeness auto
termination
  by (relation "measure (\<lambda>(_, _, p, tail, _, _). tail - p)") (auto intro!: diff_less_mono2)

declare compact_loop.simps [simp del]

text \<open>After the grace period: the segment is cleared and becomes the backup or a free segment.\<close>

definition finish_compaction :: "nat \<Rightarrow> cleaner \<Rightarrow> log \<Rightarrow> cleaner \<times> log" where
  "finish_compaction seg cl l =
     (let cl = cl\<lparr>clean_seg_count := clean_seg_count cl + 1\<rparr>;
          l = on_seg seg_Clear seg l
      in if backup_segment cl = None then (cl\<lparr>backup_segment := Some seg\<rparr>, l)
         else (cl, push_free seg l))"

definition CompactSegment :: "'i index_ops \<Rightarrow> nat \<Rightarrow> nat \<Rightarrow> cleaner \<Rightarrow> 'i db \<Rightarrow> fs_error + (cleaner \<times> 'i db)" where
  "CompactSegment ix now seg cl db =
     (let s = segs (db_log db) seg in
      case compact_loop ix now (data_start s) (seg_tail s) cl db of
        Inl e \<Rightarrow> Inl e
      | Inr (cl, db) \<Rightarrow>
          let (cl, l) = finish_compaction seg cl (db_log db) in Inr (cl, db\<lparr>db_log := l\<rparr>))"

section \<open>Picking a segment\<close>

text \<open>
  A score is a \<open>double\<close>: a segment that is all garbage scores infinity (or no number when it was closed
  this very microsecond).
\<close>

datatype score = Finite real | Infinite | NotANumber

fun score_gt :: "score \<Rightarrow> score \<Rightarrow> bool" where
  "score_gt (Finite a) (Finite b) \<longleftrightarrow> a > b"
| "score_gt Infinite (Finite b) \<longleftrightarrow> True"
| "score_gt _ _ \<longleftrightarrow> False"

definition elapsed :: "nat \<Rightarrow> nat \<Rightarrow> nat" where
  "elapsed cur close = nat ((int cur - int close) mod 2 ^ 64)"

definition compaction_score :: "nat \<Rightarrow> log_segment \<Rightarrow> score" where
  "compaction_score cur s =
     (let g = GetGarbageProportion s; t = elapsed cur (close_time s) in
      if g = 1 then (if t = 0 then NotANumber else Infinite)
      else Finite (1000 * g / (1 - g) * real t))"

text \<open>The scan for the first segment of the greatest positive score.\<close>

fun pick_scan :: "nat \<Rightarrow> (nat \<Rightarrow> log_segment) \<Rightarrow> nat list \<Rightarrow> score \<Rightarrow> nat option \<Rightarrow> nat option" where
  "pick_scan cur sg [] max_score it = it"
| "pick_scan cur sg (i # is) max_score it =
     (if score_gt (compaction_score cur (sg i)) max_score
      then pick_scan cur sg is (compaction_score cur (sg i)) (Some i)
      else pick_scan cur sg is max_score it)"

definition DoMemoryClean :: "'i index_ops \<Rightarrow> nat \<Rightarrow> cleaner \<Rightarrow> 'i db \<Rightarrow> fs_error + (cleaner \<times> 'i db)" where
  "DoMemoryClean ix now cl db =
     (let l = db_log db; c = cleaner_id cl;
          cl = cl\<lparr>to_compact := to_compact cl @ closed_segments l c\<rparr>;
          l = l\<lparr>closed_segments := (closed_segments l)(c := [])\<rparr>;
          db = db\<lparr>db_log := l\<rparr>
      in case pick_scan now (segs l) (to_compact cl) (Finite 0) None of
           None \<Rightarrow> Inr (cl, db)
         | Some seg \<Rightarrow> CompactSegment ix now seg (cl\<lparr>to_compact := remove1 seg (to_compact cl)\<rparr>) db)"

text \<open>One round of \<open>CleanerEntry\<close>.\<close>

definition cleaner_round :: "'i index_ops \<Rightarrow> nat \<Rightarrow> cleaner \<Rightarrow> 'i db \<Rightarrow> fs_error + (cleaner \<times> 'i db)" where
  "cleaner_round ix now cl db =
     (if NeedCleaning cl (db_log db) then DoMemoryClean ix now cl db else Inr (cl, db))"

end
