(* ===== verification/Flat_Recovery.thy ===== *)
theory Flat_Recovery
  imports Flat_Cleaner
begin

text \<open>
  Recovery of the log (\<^verbatim>\<open>db/recovery.cpp\<close> and the last part of \<^verbatim>\<open>db/log_structured.cpp\<close>): the cleaner
  objects are deleted, every segment object is rebuilt from its persistent header, and either the
  index is filled again by replaying the entries of the closed segments, or (when the index is
  persistent) only the garbage counts are rebuilt. The recovery threads of several cleaners are
  run one after the other; the wrapper opens the database with one.
\<close>

section \<open>Operations\<close>

text \<open>\<open>~LogCleaner\<close>: the reserved segment is frozen, the backup segment becomes free.\<close>

definition cleaner_delete :: "nat \<Rightarrow> cleaner \<Rightarrow> log \<Rightarrow> log" where
  "cleaner_delete now cl l =
     (let l = FreezeSegment now (reserved_segment cl) l in
      case backup_segment cl of None \<Rightarrow> l | Some b \<Rightarrow> push_free b l)"

text \<open>The cleaner a recovery starts with: no reserved segment.\<close>

definition recovery_cleaner :: "nat \<Rightarrow> nat \<Rightarrow> cleaner" where
  "recovery_cleaner cleaners cid =
     \<lparr>cleaner_id = cid, reserved_segment = None, backup_segment = None, cl_tmp = replicate cleaners 0,
      to_compact = [], clean_seg_count = 0\<rparr>"

text \<open>The segments of one cleaner: \<open>for (i = cleaner_id_; i < num_segments_; i += num_cleaners)\<close>.\<close>

definition segment_numbers :: "nat \<Rightarrow> log \<Rightarrow> nat list" where
  "segment_numbers cid l = filter (\<lambda>i. (i - cid) mod num_cleaners l = 0) [cid..<num_segments l]"

definition seg_header :: "log \<Rightarrow> nat \<Rightarrow> header" where
  "seg_header l i = pm_hdr (lpool l) (seg_addr l i)"

definition push_closed :: "nat \<Rightarrow> nat \<Rightarrow> log \<Rightarrow> log" where
  "push_closed cid i l =
     (if is_hot (segs l i) then l\<lparr>closed_segments := (closed_segments l)(cid := closed_segments l cid @ [i])\<rparr> else l)"

text \<open>Replaying the entries of a segment: every one is put into the index, the one it replaces is garbage.\<close>

definition replay_entry :: "'i index_ops \<Rightarrow> nat \<Rightarrow> nat \<Rightarrow> cleaner \<Rightarrow> 'i db \<Rightarrow> fs_error + (cleaner \<times> 'i db)" where
  "replay_entry ix i p cl db =
     (let m = pm_bytes (lpool (db_log db));
          (old, idx) = ix_put ix (index_key (kv_GetKey m p)) (tagged_pointer p (kv_size m p)) (db_index db);
          r = (if old \<noteq> INVALID_VALUE then cl_MarkGarbage old cl (db_log db) else Inr (cl, db_log db))
      in case r of
           Inl e \<Rightarrow> Inl e
         | Inr (cl, l) \<Rightarrow>
             let l = l\<lparr>segs := (segs l)(i := (segs l i)\<lparr>cur_cnt := cur_cnt (segs l i) + 1\<rparr>)\<rparr>
             in Inr (cl, db\<lparr>db_index := idx, db_log := l\<rparr>))"

function replay_loop ::
  "'i index_ops \<Rightarrow> nat \<Rightarrow> nat \<Rightarrow> nat \<Rightarrow> cleaner \<Rightarrow> 'i db \<Rightarrow> fs_error + (nat \<times> cleaner \<times> 'i db)" where
  "replay_loop ix i p e cl db =
     (let sz = kv_size (pm_bytes (lpool (db_log db))) p in
      if p < e \<and> sz \<noteq> sizeof_KVItem then
        (case replay_entry ix i p cl db of
           Inl err \<Rightarrow> Inl err
         | Inr (cl, db) \<Rightarrow> replay_loop ix i (p + sz) e cl db)
      else Inr (p, cl, db))"
  by pat_completeness auto
termination
  by (relation "measure (\<lambda>(_, _, p, e, _, _). e - p)") (auto intro!: diff_less_mono2)

declare replay_loop.simps [simp del]

text \<open>
  One segment of \<open>LogCleaner::RecoveryAll\<close>; the queue of free segments found is threaded through. The
  tail of a new object is indeterminate (\<open>junk\<close>): it is set for closed segments only, and only
  those are entered in \<open>all_segments_\<close>.
\<close>

definition recover_segment ::
  "'i index_ops \<Rightarrow> (nat \<Rightarrow> nat) \<Rightarrow> nat \<Rightarrow> nat \<Rightarrow> nat list \<times> cleaner \<times> 'i db \<Rightarrow> fs_error + (nat list \<times> cleaner \<times> 'i db)" where
  "recover_segment ix junk now i st =
     (let (free, cl, db) = st; l = db_log db;
          s = segment_object (seg_addr l i) (junk i);
          l = l\<lparr>segs := (segs l)(i := s)\<rparr>
      in if h_status (seg_header l i) = StatusAvailable then Inr (free @ [i], cl, db\<lparr>db_log := l\<rparr>)
         else if h_status (seg_header l i) \<noteq> StatusClosed then Inl Bad_status
         else
           let l = l\<lparr>segs := (segs l)(i := s\<lparr>seg_tail := seg_end s\<rparr>), registered := (registered l)(i := True)\<rparr> in
           case replay_loop ix i (data_start s) (seg_end s) cl (db\<lparr>db_log := l\<rparr>) of
             Inl e \<Rightarrow> Inl e
           | Inr (p, cl, db) \<Rightarrow>
               let l = db_log db;
                   l = l\<lparr>segs := (segs l)(i := (segs l i)\<lparr>seg_tail := p\<rparr>)\<rparr>;
                   l = push_closed (cleaner_id cl) i (on_seg (seg_Close now) i l)
               in Inr (free, cl, db\<lparr>db_log := l\<rparr>))"

text \<open>A loop whose body may fail.\<close>

fun foldM :: "('a \<Rightarrow> 's \<Rightarrow> 'e + 's) \<Rightarrow> 'a list \<Rightarrow> 's \<Rightarrow> 'e + 's" where
  "foldM f [] s = Inr s"
| "foldM f (x # xs) s = (case f x s of Inl e \<Rightarrow> Inl e | Inr s \<Rightarrow> foldM f xs s)"

definition publish_free :: "nat list \<Rightarrow> log \<Rightarrow> log" where
  "publish_free free l = fold push_free free l"

definition cleaner_RecoveryAll ::
  "'i index_ops \<Rightarrow> (nat \<Rightarrow> nat) \<Rightarrow> nat \<Rightarrow> cleaner \<Rightarrow> 'i db \<Rightarrow> fs_error + (cleaner \<times> 'i db)" where
  "cleaner_RecoveryAll ix junk now cl db =
     (case foldM (recover_segment ix junk now) (segment_numbers (cleaner_id cl) (db_log db)) ([], cl, db) of
        Inl e \<Rightarrow> Inl e
      | Inr (free, cl, db) \<Rightarrow> Inr (cl, db\<lparr>db_log := publish_free free (db_log db)\<rparr>))"

text \<open>\<open>LogCleaner::RecoverySegments\<close>: the objects only, with the tail the header gives.\<close>

definition reopen_segment :: "nat \<Rightarrow> nat \<Rightarrow> nat list \<times> log \<Rightarrow> fs_error + (nat list \<times> log)" where
  "reopen_segment cid i st =
     (let (free, l) = st;
          s = segment_object (seg_addr l i) (seg_addr l i + HEADERS_SIZE + h_offset (seg_header l i));
          reg = (\<lambda>l. l\<lparr>segs := (segs l)(i := s), registered := (registered l)(i := True)\<rparr>)
      in if h_status (seg_header l i) = StatusAvailable then Inr (free @ [i], reg l)
         else if h_status (seg_header l i) \<noteq> StatusClosed then Inl Bad_status
         else Inr (free, push_closed cid i (reg l)))"

definition cleaner_RecoverySegments :: "cleaner \<Rightarrow> log \<Rightarrow> fs_error + log" where
  "cleaner_RecoverySegments cl l =
     (case foldM (reopen_segment (cleaner_id cl)) (segment_numbers (cleaner_id cl) l) ([], l) of
        Inl e \<Rightarrow> Inl e
      | Inr (free, l) \<Rightarrow> Inr (publish_free free l))"

text \<open>\<open>LogCleaner::RecoveryInfo\<close>: every entry the index does not point at is garbage.\<close>

function info_loop :: "'i index_ops \<Rightarrow> 'i \<Rightarrow> nat \<Rightarrow> nat \<Rightarrow> nat \<Rightarrow> cleaner \<Rightarrow> log \<Rightarrow> cleaner \<times> log" where
  "info_loop ix idx i p t cl l =
     (let m = pm_bytes (lpool l); sz = kv_size m p in
      if p < t \<and> sz \<noteq> sizeof_KVItem then
        let garbage = (tagged_pointer p sz \<noteq> ix_get ix (index_key (kv_GetKey m p)) idx);
            l = (if garbage then l\<lparr>segs := (segs l)(i := seg_MarkGarbage p sz (segs l i))\<rparr> else l);
            c = cleaner_id cl;
            cl = (if garbage \<and> num_cleaners l > 0 then cl\<lparr>cl_tmp := (cl_tmp cl)[c := cl_tmp cl ! c + sz]\<rparr> else cl)
        in info_loop ix idx i (p + sz) t cl l
      else (cl, l))"
  by pat_completeness auto
termination
  by (relation "measure (\<lambda>(_, _, _, p, t, _, _). t - p)") (auto intro!: diff_less_mono2)

declare info_loop.simps [simp del]

definition info_segment :: "'i index_ops \<Rightarrow> 'i \<Rightarrow> nat \<Rightarrow> cleaner \<times> log \<Rightarrow> fs_error + (cleaner \<times> log)" where
  "info_segment ix idx i st =
     (let (cl, l) = st in
      case GetSegment l i of
        None \<Rightarrow> Inl Null_segment
      | Some i \<Rightarrow>
          if h_status (seg_header l i) \<noteq> StatusAvailable
          then Inr (info_loop ix idx i (data_start (segs l i)) (seg_tail (segs l i)) cl l)
          else Inr (cl, l))"

definition cleaner_RecoveryInfo :: "'i index_ops \<Rightarrow> cleaner \<Rightarrow> 'i db \<Rightarrow> fs_error + (cleaner \<times> 'i db)" where
  "cleaner_RecoveryInfo ix cl db =
     (case foldM (info_segment ix (db_index db)) (segment_numbers (cleaner_id cl) (db_log db)) (cl, db_log db) of
        Inl e \<Rightarrow> Inl e
      | Inr (cl, l) \<Rightarrow> Inr (cl, db\<lparr>db_log := l\<rparr>))"

section \<open>Recovery of the whole log\<close>

text \<open>
  What \<open>LogStructured::RecoveryAll\<close> and \<open>RecoverySegments\<close> do before the threads start: the cleaners
  stop and are deleted, the free list and the segment objects go.
\<close>

definition forget_log :: "nat \<Rightarrow> cleaner list \<Rightarrow> log \<Rightarrow> log" where
  "forget_log now cls l =
     (let l = fold (cleaner_delete now) cls (l\<lparr>stop_flag := True\<rparr>) in
      l\<lparr>free_segments := [], num_free_segments := 0, registered := (\<lambda>_. False),
        closed_segments := (\<lambda>_. []), cleaner_garbage := (\<lambda>_. 0)\<rparr>)"

definition recover_with ::
  "(cleaner \<Rightarrow> 'd \<Rightarrow> fs_error + (cleaner \<times> 'd)) \<Rightarrow> cleaner list \<Rightarrow> 'd \<Rightarrow> fs_error + (cleaner list \<times> 'd)" where
  "recover_with f cls db =
     foldM (\<lambda>cl (done, db). case f cl db of Inl e \<Rightarrow> Inl e | Inr (cl, db) \<Rightarrow> Inr (done @ [cl], db)) cls ([], db)"

definition log_RecoveryAll ::
  "'i index_ops \<Rightarrow> 'i \<Rightarrow> (nat \<Rightarrow> nat) \<Rightarrow> nat \<Rightarrow> cleaner list \<Rightarrow> 'i db \<Rightarrow> fs_error + (cleaner list \<times> 'i db)" where
  "log_RecoveryAll ix fresh junk now cls db =
     (let db = db\<lparr>db_log := forget_log now cls (db_log db), db_index := fresh\<rparr>;
          n = num_cleaners (db_log db)
      in recover_with (cleaner_RecoveryAll ix junk now) (map (recovery_cleaner n) [0..<n]) db)"

definition log_RecoverySegments :: "nat \<Rightarrow> cleaner list \<Rightarrow> log \<Rightarrow> fs_error + (cleaner list \<times> log)" where
  "log_RecoverySegments now cls l =
     (let l = forget_log now cls l; n = num_cleaners l in
      recover_with (\<lambda>cl l. case cleaner_RecoverySegments cl l of Inl e \<Rightarrow> Inl e | Inr l \<Rightarrow> Inr (cl, l))
        (map (recovery_cleaner n) [0..<n]) l)"

text \<open>\<open>recovered\<close>: the counter says that the segments were recovered.\<close>

definition log_RecoveryInfo :: "'i index_ops \<Rightarrow> bool \<Rightarrow> cleaner list \<Rightarrow> 'i db \<Rightarrow> fs_error + (cleaner list \<times> 'i db)" where
  "log_RecoveryInfo ix recovered cls db =
     (if \<not> recovered then Inl No_segments_recovered else recover_with (cleaner_RecoveryInfo ix) cls db)"

text \<open>\<open>DB::RecoveryAll\<close>, \<open>DB::RecoverySegments\<close> and \<open>DB::RecoveryInfo\<close> refuse while a worker is left.\<close>

definition DB_RecoveryAll ::
  "'i index_ops \<Rightarrow> 'i \<Rightarrow> (nat \<Rightarrow> nat) \<Rightarrow> nat \<Rightarrow> cleaner list \<Rightarrow> 'i db \<Rightarrow> fs_error + (cleaner list \<times> 'i db)" where
  "DB_RecoveryAll ix fresh junk now cls db =
     (if cur_num_workers db \<noteq> 0 then Inl Workers_left else log_RecoveryAll ix fresh junk now cls db)"

definition DB_RecoverySegments :: "nat \<Rightarrow> cleaner list \<Rightarrow> 'i db \<Rightarrow> fs_error + (cleaner list \<times> 'i db)" where
  "DB_RecoverySegments now cls db =
     (if cur_num_workers db \<noteq> 0 then Inl Workers_left
      else case log_RecoverySegments now cls (db_log db) of
             Inl e \<Rightarrow> Inl e
           | Inr (cls, l) \<Rightarrow> Inr (cls, db\<lparr>db_log := l\<rparr>))"

definition DB_RecoveryInfo :: "'i index_ops \<Rightarrow> bool \<Rightarrow> cleaner list \<Rightarrow> 'i db \<Rightarrow> fs_error + (cleaner list \<times> 'i db)" where
  "DB_RecoveryInfo ix recovered cls db =
     (if cur_num_workers db \<noteq> 0 then Inl Workers_left else log_RecoveryInfo ix recovered cls db)"

end
