(* ===== verification/Flat_Replay.thy ===== *)
theory Flat_Replay
  imports Flat_Recovery
begin

text \<open>
  What recovery rebuilds: replaying the closed segments in the order of their numbers leaves the index
  pointing, for every key, at the last entry with that key in the order of addresses.
\<close>

section \<open>The entries of the pool\<close>

definition closed_entries :: "log \<Rightarrow> nat \<Rightarrow> nat list" where
  "closed_entries l i =
     (if h_status (seg_header l i) = StatusClosed
      then entries (pm_bytes (lpool l)) (seg_addr l i + HEADERS_SIZE) (seg_addr l i + SEGMENT_SIZE) else [])"

definition log_entries :: "log \<Rightarrow> nat \<Rightarrow> nat list" where
  "log_entries l j = concat (map (closed_entries l) [0..<j])"

text \<open>
  A pool that can be recovered: every header says available or closed, and the walk over a closed
  segment ends at its end or at a terminator inside it.
\<close>

definition recoverable :: "(u64 \<Rightarrow> bool) \<Rightarrow> log \<Rightarrow> bool" where
  "recoverable ikey_ok l \<longleftrightarrow> 0 < pool_start l \<and> seg_addr l (num_segments l) \<le> 2 ^ 48 \<and>
     (\<forall>i < num_segments l. h_status (seg_header l i) = StatusAvailable \<or>
        h_status (seg_header l i) = StatusClosed \<and>
        (let w = walk_end (pm_bytes (lpool l)) (seg_addr l i + HEADERS_SIZE) (seg_addr l i + SEGMENT_SIZE) in
         w = seg_addr l i + SEGMENT_SIZE \<or> w + sizeof_KVItem \<le> seg_addr l i + SEGMENT_SIZE)) \<and>
     (\<forall>q \<in> set (log_entries l (num_segments l)). ikey_ok (index_key (kv_GetKey (pm_bytes (lpool l)) q)))"

definition newest :: "memory \<Rightarrow> nat list \<Rightarrow> u64 \<Rightarrow> nat" where
  "newest m ps k = (case find (\<lambda>p. index_key (kv_GetKey m p) = k) (rev ps) of None \<Rightarrow> INVALID_VALUE | Some p \<Rightarrow> p)"

lemma newest_nil [simp]: "newest m [] k = INVALID_VALUE" by (simp add: newest_def)

lemma newest_snoc [simp]: "newest m (ps @ [p]) k = (if index_key (kv_GetKey m p) = k then p else newest m ps k)"
  by (simp add: newest_def)

lemma newest_in: "newest m ps k \<noteq> INVALID_VALUE \<Longrightarrow> newest m ps k \<in> set ps \<and> index_key (kv_GetKey m (newest m ps k)) = k"
  by (induction ps rule: rev_induct) auto

lemma log_entries_Suc: "log_entries l (Suc j) = log_entries l j @ closed_entries l j"
  by (simp add: log_entries_def)

lemma log_entries_iff: "q \<in> set (log_entries l j) \<longleftrightarrow> (\<exists>i < j. q \<in> set (closed_entries l i))"
  by (auto simp: log_entries_def)

lemma foldM_append: "foldM f (xs @ ys) s = (case foldM f xs s of Inl e \<Rightarrow> Inl e | Inr s \<Rightarrow> foldM f ys s)"
  by (induction xs arbitrary: s) (auto split: sum.splits)

lemma closed_entry:
  assumes r: "recoverable ikey_ok l" and i: "i < num_segments l" and q: "q \<in> set (closed_entries l i)"
  shows "seg_addr l i + HEADERS_SIZE \<le> q" and "q + kv_size (pm_bytes (lpool l)) q \<le> seg_addr l i + SEGMENT_SIZE"
    and "q \<noteq> INVALID_VALUE" and "q < 2 ^ 48" and "GetSegmentID l q = i"
    and "ikey_ok (index_key (kv_GetKey (pm_bytes (lpool l)) q))"
proof -
  let ?m = "pm_bytes (lpool l)" and ?d = "seg_addr l i + HEADERS_SIZE" and ?e = "seg_addr l i + SEGMENT_SIZE"
  have c: "h_status (seg_header l i) = StatusClosed" "q \<in> set (entries ?m ?d ?e)"
    using q by (auto simp: closed_entries_def split: if_splits)
  then have "walk_end ?m ?d ?e \<le> ?e" using r i by (auto simp: recoverable_def Let_def)
  from entries_inside [OF this c(2)] show b: "?d \<le> q" "q + kv_size ?m q \<le> ?e" by simp_all
  then have "q < ?e" using kv_size_pos [of ?m q] by linarith
  moreover have "?e \<le> 2 ^ 48" using r seg_addr_apart [OF i, of l] by (simp add: recoverable_def)
  ultimately show "q < 2 ^ 48" "GetSegmentID l q = i" using b(1) GetSegmentID_addr [of l i q] by simp_all
  show "q \<noteq> INVALID_VALUE" using b(1) by (simp add: INVALID_VALUE_def HEADERS_SIZE_def)
  show "ikey_ok (index_key (kv_GetKey ?m q))"
    using r i q log_entries_iff [of q l "num_segments l"] by (auto simp: recoverable_def)
qed

text \<open>The entries of the pool are read in the order of addresses.\<close>

lemma entries_sorted: "sorted_wrt (<) (entries m p t) \<and> (\<forall>q \<in> set (entries m p t). p \<le> q)"
proof (induction m p t rule: entries.induct)
  case (1 m p t)
  show ?case
  proof (cases "p < t \<and> kv_size m p \<noteq> sizeof_KVItem")
    case True
    have "p < q" if "q \<in> set (entries m (p + kv_size m p) t)" for q
    proof -
      have "p + kv_size m p \<le> q" using "1.IH" [OF True] that by blast
      then show ?thesis using kv_size_pos [of m p] by linarith
    qed
    then show ?thesis using "1.IH" [OF True] True by (auto simp: entries.simps [of m p t])
  qed (auto simp: entries.simps [of m p t])
qed

lemma log_entries_sorted:
  assumes r: "recoverable ikey_ok l" and "j \<le> num_segments l"
  shows "sorted_wrt (<) (log_entries l j)"
  using assms(2)
proof (induction j)
  case (Suc j)
  have "p < q" if "p \<in> set (log_entries l j)" "q \<in> set (closed_entries l j)" for p q
  proof -
    from that(1) obtain i where i: "i < j" "p \<in> set (closed_entries l i)" unfolding log_entries_iff by blast
    have "p + kv_size (pm_bytes (lpool l)) p \<le> seg_addr l i + SEGMENT_SIZE" using closed_entry(2) [OF r _ i(2)] i(1) Suc.prems by simp
    moreover have "seg_addr l j + HEADERS_SIZE \<le> q" using closed_entry(1) [OF r _ that(2)] Suc.prems by simp
    ultimately show ?thesis using seg_addr_apart [OF i(1), of l] kv_size_pos [of "pm_bytes (lpool l)" p] by linarith
  qed
  then show ?case using Suc by (simp add: log_entries_Suc sorted_wrt_append closed_entries_def entries_sorted)
qed (simp add: log_entries_def)

lemma newest_greatest:
  "sorted_wrt (<) ps \<Longrightarrow> p \<in> set ps \<Longrightarrow> index_key (kv_GetKey m p) = k \<Longrightarrow>
   (\<forall>q \<in> set ps. index_key (kv_GetKey m q) = k \<longrightarrow> q \<le> p) \<Longrightarrow> newest m ps k = p"
  by (induction ps rule: rev_induct) (auto simp: sorted_wrt_append)

lemma newest_is_greatest:
  "sorted_wrt (<) ps \<Longrightarrow> q \<in> set ps \<Longrightarrow> index_key (kv_GetKey m q) = k \<Longrightarrow> q \<le> newest m ps k"
  by (induction ps rule: rev_induct) (auto simp: sorted_wrt_append intro: less_imp_le)

section \<open>Replaying into an index\<close>

definition replay_index :: "'i index_ops \<Rightarrow> memory \<Rightarrow> nat list \<Rightarrow> 'i \<Rightarrow> 'i" where
  "replay_index ix m ps idx = fold (\<lambda>p i. snd (ix_put ix (index_key (kv_GetKey m p)) p i)) ps idx"

lemma replay_index_simps [simp]:
  "replay_index ix m [] idx = idx"
  "replay_index ix m (p # ps) idx = replay_index ix m ps (snd (ix_put ix (index_key (kv_GetKey m p)) p idx))"
  "replay_index ix m (ps @ qs) idx = replay_index ix m qs (replay_index ix m ps idx)"
  by (simp_all add: replay_index_def)

lemma replay_index_cong:
  "(\<And>p. p \<in> set ps \<Longrightarrow> kv_GetKey m' p = kv_GetKey m p) \<Longrightarrow> replay_index ix m' ps idx = replay_index ix m ps idx"
  by (induction ps arbitrary: idx) simp_all

text \<open>The objects of the segments change in the counters only.\<close>

definition counts_only :: "log \<Rightarrow> log \<Rightarrow> bool" where
  "counts_only l l' \<longleftrightarrow> l' = l\<lparr>segs := segs l'\<rparr> \<and> (\<forall>j. segment_start (segs l' j) = segment_start (segs l j) \<and>
     seg_tail (segs l' j) = seg_tail (segs l j) \<and> is_hot (segs l' j) = is_hot (segs l j))"

lemma counts_only_refl [simp]: "counts_only l l" by (simp add: counts_only_def)

lemma counts_only_segs:
  "(\<And>j. segment_start (f j) = segment_start (segs l j) \<and> seg_tail (f j) = seg_tail (segs l j) \<and> is_hot (f j) = is_hot (segs l j)) \<Longrightarrow>
   counts_only l (l\<lparr>segs := f\<rparr>)"
  by (simp add: counts_only_def)

lemma counts_only_eq:
  assumes "counts_only l l'"
  shows "lpool l' = lpool l" "registered l' = registered l" "pool_start l' = pool_start l" "num_segments l' = num_segments l"
    "num_cleaners l' = num_cleaners l" "free_segments l' = free_segments l" "num_free_segments l' = num_free_segments l"
    "closed_segments l' = closed_segments l" "cleaner_garbage l' = cleaner_garbage l"
proof -
  obtain f where l': "l' = l\<lparr>segs := f\<rparr>" using assms by (auto simp: counts_only_def)
  show "lpool l' = lpool l" "registered l' = registered l" "pool_start l' = pool_start l" "num_segments l' = num_segments l"
    "num_cleaners l' = num_cleaners l" "free_segments l' = free_segments l" "num_free_segments l' = num_free_segments l"
    "closed_segments l' = closed_segments l" "cleaner_garbage l' = cleaner_garbage l" by (simp_all add: l')
qed

lemma counts_only_trans:
  assumes "counts_only l l'" and "counts_only l' l''" shows "counts_only l l''"
proof -
  obtain f where f: "l' = l\<lparr>segs := f\<rparr>" using assms(1) by (auto simp: counts_only_def)
  obtain g where g: "l'' = l'\<lparr>segs := g\<rparr>" using assms(2) unfolding counts_only_def by blast
  have e: "l'' = l\<lparr>segs := g\<rparr>" by (simp add: f g)
  then show ?thesis using assms by (simp add: counts_only_def f)
qed

lemma cl_MarkGarbage_counts:
  assumes "a < 2 ^ 48" and "registered l (GetSegmentID l a)"
  shows "\<exists>cl' l'. cl_MarkGarbage a cl l = Inr (cl', l') \<and> counts_only l l' \<and> cleaner_id cl' = cleaner_id cl"
proof -
  have "counts_only l (l\<lparr>segs := (segs l)(j := seg_MarkGarbage a sz (segs l j))\<rparr>)" for j sz
    by (rule counts_only_segs) (simp add: seg_MarkGarbage_def)
  then show ?thesis using assms by (simp add: cl_MarkGarbage_def Let_def GetSegment_def tp_GetAddr_def)
qed

text \<open>After the segments below \<open>j\<close>, starting from the log \<open>l0\<close>.\<close>

fun recovered_upto :: "'i index_ops \<Rightarrow> 'i \<Rightarrow> log \<Rightarrow> nat \<Rightarrow> nat list \<times> cleaner \<times> 'i db \<Rightarrow> bool" where
  "recovered_upto ix fresh l0 j (free, cl, db) \<longleftrightarrow>
     free = filter (\<lambda>i. h_status (seg_header l0 i) = StatusAvailable) [0..<j] \<and>
     db_index db = replay_index ix (pm_bytes (lpool l0)) (log_entries l0 j) fresh \<and>
     num_segments (db_log db) = num_segments l0 \<and> pool_start (db_log db) = pool_start l0 \<and> num_cleaners (db_log db) = num_cleaners l0 \<and>
     free_segments (db_log db) = free_segments l0 \<and> num_free_segments (db_log db) = num_free_segments l0 \<and>
     (\<forall>i. registered (db_log db) i \<longleftrightarrow> i < j \<and> h_status (seg_header l0 i) = StatusClosed) \<and>
     (\<forall>i < num_segments l0. h_status (seg_header (db_log db) i) = h_status (seg_header l0 i)) \<and>
     (\<forall>a \<ge> seg_addr l0 j. pm_bytes (lpool (db_log db)) a = pm_bytes (lpool l0) a) \<and>
     (\<forall>q \<in> set (log_entries l0 j). \<forall>a. q \<le> a \<and> a < q + kv_size (pm_bytes (lpool l0)) q \<longrightarrow> pm_bytes (lpool (db_log db)) a = pm_bytes (lpool l0) a)"

declare recovered_upto.simps [simp del]

lemma on_seg_Close:
  fixes now j :: nat and l :: log
  defines "l' \<equiv> on_seg (seg_Close now) j l"
  shows "num_segments l' = num_segments l" "pool_start l' = pool_start l" "num_cleaners l' = num_cleaners l"
    "free_segments l' = free_segments l" "num_free_segments l' = num_free_segments l" "registered l' = registered l"
    "closed_segments l' = closed_segments l" "is_hot (segs l' i) = is_hot (segs l i)"
    "h_status (pm_hdr (lpool l') x) = (if x = segment_start (segs l j) then StatusClosed else h_status (pm_hdr (lpool l) x))"
    "a < seg_tail (segs l j) \<or> seg_end (segs l j) \<le> a \<Longrightarrow> pm_bytes (lpool l') a = pm_bytes (lpool l) a"
  by (auto simp: l'_def on_seg_def seg_Close_def Let_def set_header_def mem_write_def HasSpaceFor_def kv_zero_def sizeof_KVItem_def)

lemma log_entries_split: "i \<le> j \<Longrightarrow> log_entries l j = log_entries l i @ concat (map (closed_entries l) [i..<j])"
  unfolding log_entries_def using upt_add_eq_append [of 0 i "j - i"] by simp

lemma publish_free_eq:
  "publish_free free l = l\<lparr>free_segments := free_segments l @ free, num_free_segments := num_free_segments l + int (length free)\<rparr>"
  unfolding publish_free_def by (induction free arbitrary: l) (simp_all add: push_free_def)

lemma segment_numbers_one: "num_cleaners l = 1 \<Longrightarrow> segment_numbers 0 l = [0..<num_segments l]"
  by (simp add: segment_numbers_def)

text \<open>What a lookup finds in a pool: the value of the last entry with the key.\<close>

definition lookup_pool :: "log \<Rightarrow> byte list \<Rightarrow> byte list option" where
  "lookup_pool l key =
     (let p = newest (pm_bytes (lpool l)) (log_entries l (num_segments l)) (index_key key) in
      if p = INVALID_VALUE then None else Some (kv_GetValue (pm_bytes (lpool l)) p))"

text \<open>The index binds each key to an entry of that key, so an entry is a new value for its own key.\<close>

definition keyed :: "'i index_ops \<Rightarrow> (u64 \<Rightarrow> bool) \<Rightarrow> memory \<Rightarrow> 'i \<Rightarrow> bool" where
  "keyed ix ikey_ok m s \<longleftrightarrow>
     (\<forall>k. ikey_ok k \<and> ix_get ix k s \<noteq> INVALID_VALUE \<longrightarrow> index_key (kv_GetKey m (ix_get ix k s)) = k)"

lemma keyed_new_value:
  assumes "keyed ix ikey_ok m s" and "p \<noteq> INVALID_VALUE" and "p < 2 ^ 48"
  shows "new_value ix ikey_ok (index_key (kv_GetKey m p)) p s"
  using assms by (auto simp: keyed_def new_value_def)

lemma keyed_fresh: "(\<And>k. ikey_ok k \<Longrightarrow> ix_get ix k s = INVALID_VALUE) \<Longrightarrow> keyed ix ikey_ok m s"
  by (auto simp: keyed_def)

context flat_index
begin

lemma replay_index_ok: "iok (replay_index ix m ps idx) \<Longrightarrow> iok idx"
  by (induction ps arbitrary: idx) (auto dest: put_ok)

lemma replay_index_get:
  assumes "iinv idx" and "\<forall>p \<in> set ps. ikey_ok (index_key (kv_GetKey m p)) \<and> p \<noteq> INVALID_VALUE \<and> p < 2 ^ 48"
    and "iok (replay_index ix m ps idx)" and "keyed ix ikey_ok m idx"
  shows "iinv (replay_index ix m ps idx) \<and> keyed ix ikey_ok m (replay_index ix m ps idx) \<and>
    (\<forall>k. ikey_ok k \<longrightarrow> ix_get ix k (replay_index ix m ps idx) =
       (if newest m ps k = INVALID_VALUE then ix_get ix k idx else newest m ps k))"
  using assms
proof (induction ps rule: rev_induct)
  case (snoc p ps)
  let ?i = "replay_index ix m ps idx" and ?k = "index_key (kv_GetKey m p)"
  have ok: "iok (snd (ix_put ix ?k p ?i))" using snoc.prems(3) by simp
  have ih: "iinv ?i" "keyed ix ikey_ok m ?i" "ikey_ok k \<Longrightarrow> ix_get ix k ?i = (if newest m ps k = INVALID_VALUE then ix_get ix k idx else newest m ps k)" for k
    using snoc.IH [OF snoc.prems(1)] snoc.prems(2,4) put_ok [OF ok] by auto
  have p: "ikey_ok ?k" "p \<noteq> INVALID_VALUE" "p < 2 ^ 48" using snoc.prems(2) by auto
  note nv = keyed_new_value [OF ih(2) p(2,3)]
  note get = put_get [OF ih(1) p(1) _ ok nv]
  have "keyed ix ikey_ok m (snd (ix_put ix ?k p ?i))" using ih(2) get unfolding keyed_def by auto
  then show ?case using put_inv [OF ih(1) p(1) ok nv] get ih(3) p by simp
qed simp

lemma replay_entry_ok:
  assumes "iinv (db_index db)" and "ikey_ok (index_key (kv_GetKey (pm_bytes (lpool (db_log db))) p))" 
    and "new_value ix ikey_ok (index_key (kv_GetKey (pm_bytes (lpool (db_log db))) p)) p (db_index db)"
    and "iok (snd (ix_put ix (index_key (kv_GetKey (pm_bytes (lpool (db_log db))) p)) p (db_index db)))"
    and "\<And>k. ikey_ok k \<Longrightarrow> ix_get ix k (db_index db) \<noteq> INVALID_VALUE \<Longrightarrow>
      ix_get ix k (db_index db) < 2 ^ 48 \<and> registered (db_log db) (GetSegmentID (db_log db) (ix_get ix k (db_index db)))"
  shows "\<exists>cl' l'. replay_entry ix i p cl db = Inr (cl', db\<lparr>db_index :=
      snd (ix_put ix (index_key (kv_GetKey (pm_bytes (lpool (db_log db))) p)) p (db_index db)), db_log := l'\<rparr>) \<and>
    counts_only (db_log db) l' \<and> cleaner_id cl' = cleaner_id cl"
proof -
  let ?l = "db_log db" and ?k = "index_key (kv_GetKey (pm_bytes (lpool (db_log db))) p)"
  let ?old = "fst (ix_put ix ?k p (db_index db))"
  have old: "?old = ix_get ix ?k (db_index db)" by (rule put_old [OF assms(1,2,4,3)])
  have "\<exists>cl' l1. (if ?old \<noteq> INVALID_VALUE then cl_MarkGarbage ?old cl ?l else Inr (cl, ?l)) = Inr (cl', l1) \<and>
      counts_only ?l l1 \<and> cleaner_id cl' = cleaner_id cl"
  proof (cases "?old = INVALID_VALUE")
    case False
    then have "?old < 2 ^ 48" "registered ?l (GetSegmentID ?l ?old)" using assms(5) [OF assms(2)] by (simp_all add: old)
    then show ?thesis using False cl_MarkGarbage_counts [of ?old ?l cl] by simp
  qed simp
  then obtain cl' l1 where m: "(if ?old \<noteq> INVALID_VALUE then cl_MarkGarbage ?old cl ?l else Inr (cl, ?l)) = Inr (cl', l1)"
    "counts_only ?l l1" "cleaner_id cl' = cleaner_id cl" by blast
  let ?l2 = "l1\<lparr>segs := (segs l1)(i := (segs l1 i)\<lparr>cur_cnt := cur_cnt (segs l1 i) + 1\<rparr>)\<rparr>"
  have "counts_only l1 ?l2" by (rule counts_only_segs) simp
  then have "counts_only ?l ?l2" using m(2) counts_only_trans by blast
  then show ?thesis using m(1,3) by (auto simp: replay_entry_def Let_def split_beta tagged_pointer_def)
qed

lemma replay_loop_ok:
  assumes "m = pm_bytes (lpool (db_log db))" and "iinv (db_index db)" and "iok (replay_index ix m (entries m p e) (db_index db))"
    and "\<forall>q \<in> set (entries m p e). ikey_ok (index_key (kv_GetKey m q)) \<and> q \<noteq> INVALID_VALUE \<and> q < 2 ^ 48 \<and>
      registered (db_log db) (GetSegmentID (db_log db) q)"
    and "\<forall>k. ikey_ok k \<and> ix_get ix k (db_index db) \<noteq> INVALID_VALUE \<longrightarrow>
      ix_get ix k (db_index db) < 2 ^ 48 \<and> registered (db_log db) (GetSegmentID (db_log db) (ix_get ix k (db_index db)))"
    and "keyed ix ikey_ok m (db_index db)"
  shows "\<exists>cl' l'. replay_loop ix i p e cl db =
      Inr (walk_end m p e, cl', db\<lparr>db_index := replay_index ix m (entries m p e) (db_index db), db_log := l'\<rparr>) \<and>
    counts_only (db_log db) l' \<and> cleaner_id cl' = cleaner_id cl"
  using assms(3-5) unfolding assms(1) using assms(2) assms(6) [unfolded assms(1)]
proof (induction "e - p" arbitrary: p cl db rule: less_induct)
  case less
  let ?m = "pm_bytes (lpool (db_log db))" and ?i = "db_index db"
  show ?case
  proof (cases "p < e \<and> kv_size ?m p \<noteq> sizeof_KVItem")
    case False
    have "entries ?m p e = []" "walk_end ?m p e = p" using False by (auto simp: entries.simps [of ?m p e] walk_end.simps [of ?m p e])
    moreover have "replay_loop ix i p e cl db = Inr (p, cl, db)" using False by (subst replay_loop.simps) (auto simp: Let_def)
    ultimately show ?thesis by (intro exI [of _ cl] exI [of _ "db_log db"]) simp
  next
    case True
    let ?k = "index_key (kv_GetKey ?m p)" and ?p = "p + kv_size ?m p"
    have e: "entries ?m p e = p # entries ?m ?p e" "walk_end ?m p e = walk_end ?m ?p e"
      using True by (subst entries.simps walk_end.simps, simp)+
    let ?i' = "snd (ix_put ix ?k p ?i)"
    have ok: "iok ?i'" using less.prems(1) replay_index_ok by (simp add: e(1))
    have p: "ikey_ok ?k" "p \<noteq> INVALID_VALUE" "p < 2 ^ 48" "registered (db_log db) (GetSegmentID (db_log db) p)"
      using less.prems(2) by (simp_all add: e(1))
    note nv = keyed_new_value [OF less.prems(5) p(2,3)]
    obtain cl1 l1 where r: "replay_entry ix i p cl db = Inr (cl1, db\<lparr>db_index := ?i', db_log := l1\<rparr>)"
        "counts_only (db_log db) l1" "cleaner_id cl1 = cleaner_id cl"
      using replay_entry_ok [OF less.prems(4) p(1) nv ok] less.prems(3) by blast
    note c = counts_only_eq [OF r(2)]
    have sid: "GetSegmentID l1 = GetSegmentID (db_log db)" by (simp add: GetSegmentID_def c fun_eq_iff)
    let ?db = "db\<lparr>db_index := ?i', db_log := l1\<rparr>"
    have g: "ix_get ix k ?i' = (if k = ?k then p else ix_get ix k ?i)" if "ikey_ok k" for k
      using put_get [OF less.prems(4) p(1) that ok nv] by simp
    have "\<exists>cl' l'. replay_loop ix i ?p e cl1 ?db =
        Inr (walk_end (pm_bytes (lpool (db_log ?db))) ?p e, cl', ?db\<lparr>db_index :=
          replay_index ix (pm_bytes (lpool (db_log ?db))) (entries (pm_bytes (lpool (db_log ?db))) ?p e) (db_index ?db), db_log := l'\<rparr>) \<and>
        counts_only (db_log ?db) l' \<and> cleaner_id cl' = cleaner_id cl1"
    proof (rule less.hyps)
      show "e - ?p < e - p" using True by (intro diff_less_mono2) auto
      show "iinv (db_index ?db)" using put_inv [OF less.prems(4) p(1) ok nv] by simp
      show "keyed ix ikey_ok (pm_bytes (lpool (db_log ?db))) (db_index ?db)" using less.prems(5) g by (auto simp: keyed_def c)
    qed (use less.prems(1-3) p g in \<open>auto simp: c sid e(1) split: if_splits\<close>)
    then obtain cl' l' where "replay_loop ix i ?p e cl1 ?db = Inr (walk_end ?m ?p e, cl',
        db\<lparr>db_index := replay_index ix ?m (entries ?m p e) ?i, db_log := l'\<rparr>)"
        "counts_only l1 l'" "cleaner_id cl' = cleaner_id cl" using r(3) by (auto simp: c e(1))
    then show ?thesis using True r(1) counts_only_trans [OF r(2)]
      by (subst replay_loop.simps) (auto simp: Let_def e)
  qed
qed

text \<open>One segment more.\<close>

lemma recover_segment_ok:
  assumes r: "recoverable ikey_ok l0" and j: "j < num_segments l0" and f: "iinv fresh" "\<And>k. ikey_ok k \<Longrightarrow> ix_get ix k fresh = INVALID_VALUE"
    and ok: "iok (replay_index ix (pm_bytes (lpool l0)) (log_entries l0 (Suc j)) fresh)"
    and st: "recovered_upto ix fresh l0 j (free, cl, db)"
  shows "\<exists>st'. recover_segment ix junk now j (free, cl, db) = Inr st' \<and> recovered_upto ix fresh l0 (Suc j) st'"
proof (cases "h_status (seg_header l0 j) = StatusAvailable")
  case True
  let ?l = "db_log db"
  have "h_status (pm_hdr (lpool ?l) (seg_addr ?l j)) = StatusAvailable" using st j True by (simp add: recovered_upto.simps seg_header_def)
  moreover have "log_entries l0 (Suc j) = log_entries l0 j" using True by (simp add: log_entries_Suc closed_entries_def)
  moreover have "seg_addr l0 j \<le> seg_addr l0 (Suc j)" by (simp add: seg_addr_def)
  ultimately show ?thesis using st True
    by (auto simp: recover_segment_def recovered_upto.simps Let_def seg_header_def seg_addr_def less_Suc_eq)
next
  case False
  let ?l = "db_log db" and ?n = "pm_bytes (lpool l0)" and ?m = "pm_bytes (lpool (db_log db))" and ?a = "seg_addr l0 j"
  let ?d = "?a + HEADERS_SIZE" and ?e = "?a + SEGMENT_SIZE" and ?E = "closed_entries l0 j" and ?idx = "db_index db"
  let ?s = "segment_object ?a (junk j)"
  let ?l1 = "?l\<lparr>segs := (segs ?l)(j := ?s\<lparr>seg_tail := seg_end ?s\<rparr>), registered := (registered ?l)(j := True)\<rparr>"
  have cl0: "h_status (seg_header l0 j) = StatusClosed" and w: "walk_end ?n ?d ?e \<le> ?e"
      "walk_end ?n ?d ?e < ?e \<Longrightarrow> walk_end ?n ?d ?e + sizeof_KVItem \<le> ?e"
    using False r j by (auto simp: recoverable_def Let_def)
  have E: "?E = entries ?n ?d ?e" by (simp add: closed_entries_def cl0)
  have above: "?m a = ?n a" if "?a \<le> a" for a using st that by (simp add: recovered_upto.simps)
  have fr: "num_segments ?l = num_segments l0" "pool_start ?l = pool_start l0" using st by (auto simp: recovered_upto.simps)
  have sa: "seg_addr ?l = seg_addr l0" by (simp add: seg_addr_def fr fun_eq_iff)
  have hd: "h_status (pm_hdr (lpool ?l) ?a) = StatusClosed" using st j cl0 by (simp add: recovered_upto.simps seg_header_def sa)
  have walk: "entries ?m ?d ?e = ?E" "walk_end ?m ?d ?e = walk_end ?n ?d ?e"
    using walk_cong [of ?n ?d ?e ?m] w above by (simp_all add: E)
  note q = closed_entry [OF r j]
  have key: "kv_GetKey ?m p = kv_GetKey ?n p" if "p \<in> set ?E" for p
    by (rule kv_fields_cong(4)) (use q(1) [OF that] above in simp)
  have idx: "?idx = replay_index ix ?n (log_entries l0 j) fresh" using st by (simp add: recovered_upto.simps)
  have idx': "replay_index ix ?m (entries ?m ?d ?e) ?idx = replay_index ix ?n (log_entries l0 (Suc j)) fresh"
    unfolding walk(1) idx log_entries_Suc replay_index_simps(3) by (rule replay_index_cong) (rule key)
  have old: "\<forall>p \<in> set (log_entries l0 j). ikey_ok (index_key (kv_GetKey ?n p)) \<and> p \<noteq> INVALID_VALUE \<and> p < 2 ^ 48 \<and> registered ?l (GetSegmentID ?l p)"
  proof
    fix p assume "p \<in> set (log_entries l0 j)"
    then obtain i where i: "i < j" "p \<in> set (closed_entries l0 i)" by (auto simp: log_entries_iff)
    then have "h_status (seg_header l0 i) = StatusClosed" by (auto simp: closed_entries_def split: if_splits)
    then show "ikey_ok (index_key (kv_GetKey ?n p)) \<and> p \<noteq> INVALID_VALUE \<and> p < 2 ^ 48 \<and> registered ?l (GetSegmentID ?l p)"
      using closed_entry(3-6) [OF r _ i(2)] i(1) j st fr(2) by (simp add: recovered_upto.simps GetSegmentID_def)
  qed
  have okj: "iok (replay_index ix ?n (log_entries l0 j) fresh)" using ok replay_index_ok by (simp add: log_entries_Suc)
  have g: "iinv ?idx" "keyed ix ikey_ok ?n ?idx" "ikey_ok k \<Longrightarrow> ix_get ix k ?idx = newest ?n (log_entries l0 j) k" for k
    using replay_index_get [OF f(1) _ okj keyed_fresh [OF f(2)]] old f(2) by (auto simp: idx)
  have "\<exists>cl' l'. replay_loop ix j ?d ?e cl (db\<lparr>db_log := ?l1\<rparr>) = Inr (walk_end ?m ?d ?e, cl',
      db\<lparr>db_log := ?l1, db_index := replay_index ix ?m (entries ?m ?d ?e) ?idx, db_log := l'\<rparr>) \<and>
      counts_only ?l1 l' \<and> cleaner_id cl' = cleaner_id cl"
  proof -
    have sid: "GetSegmentID ?l1 = GetSegmentID l0" "GetSegmentID ?l = GetSegmentID l0" by (simp_all add: GetSegmentID_def fr fun_eq_iff)
    have "ix_get ix k ?idx < 2 ^ 48 \<and> registered ?l1 (GetSegmentID ?l1 (ix_get ix k ?idx))"
      if "ikey_ok k" "ix_get ix k ?idx \<noteq> INVALID_VALUE" for k
      using newest_in [of ?n "log_entries l0 j" k] old that by (simp add: g(3) sid)
    moreover have "\<forall>q \<in> set (entries ?m ?d ?e). ikey_ok (index_key (kv_GetKey ?m q)) \<and> q \<noteq> INVALID_VALUE \<and> q < 2 ^ 48 \<and>
        registered ?l1 (GetSegmentID ?l1 q)"
      unfolding walk(1) using q(3-6) key by (simp add: sid)
    moreover have "iok (replay_index ix ?m (entries ?m ?d ?e) ?idx)" unfolding idx' by (rule ok)
    moreover have "keyed ix ikey_ok ?m ?idx"
    proof -
      have "kv_GetKey ?m p = kv_GetKey ?n p" if "p \<in> set (log_entries l0 j)" for p
        by (rule kv_fields_cong(4)) (use st that in \<open>simp add: recovered_upto.simps\<close>)
      then show ?thesis using newest_in [of ?n "log_entries l0 j"] by (auto simp: keyed_def g(3))
    qed
    ultimately show ?thesis using replay_loop_ok [of ?m "db\<lparr>db_log := ?l1\<rparr>" ?d ?e j cl] g(1) by simp
  qed
  then obtain cl' l2 where lp: "replay_loop ix j ?d ?e cl (db\<lparr>db_log := ?l1\<rparr>) = Inr (walk_end ?n ?d ?e, cl',
      db\<lparr>db_index := replay_index ix ?n (log_entries l0 (Suc j)) fresh, db_log := l2\<rparr>)"
      "counts_only ?l1 l2" "cleaner_id cl' = cleaner_id cl" unfolding idx' walk(2) by auto
  let ?w = "walk_end ?n ?d ?e"
  let ?l3 = "l2\<lparr>segs := (segs l2)(j := (segs l2 j)\<lparr>seg_tail := ?w\<rparr>)\<rparr>" and ?l4 = "on_seg (seg_Close now) j
    (l2\<lparr>segs := (segs l2)(j := (segs l2 j)\<lparr>seg_tail := walk_end ?n ?d ?e\<rparr>)\<rparr>)"
  note c = counts_only_eq [OF lp(2)]
  have sj: "segment_start (segs l2 j) = ?a" "\<not> is_hot (segs l2 j)"
    using lp(2) by (simp_all add: counts_only_def segment_object_def)
  note cf = on_seg_Close [where now = now and j = j and l = ?l3]
  have pc: "push_closed (cleaner_id cl') j ?l4 = ?l4" using cf(8) [of j] sj(2) by (simp add: push_closed_def)
  have eq: "recover_segment ix junk now j (free, cl, db) =
      Inr (free, cl', db\<lparr>db_index := replay_index ix ?n (log_entries l0 (Suc j)) fresh, db_log := ?l4\<rparr>)"
  proof -
    have "seg_addr (?l\<lparr>segs := x\<rparr>) = seg_addr l0" for x by (simp add: seg_addr_def fr fun_eq_iff)
    moreover have "data_start ?s = ?d" "seg_end ?s = ?e" by (simp_all add: data_start_def seg_end_def segment_object_def)
    ultimately show ?thesis using lp(1) hd pc by (simp add: recover_segment_def Let_def seg_header_def sa)
  qed
  have next_addr: "seg_addr l0 (Suc j) = ?e" by (simp add: seg_addr_def)
  have bytes: "pm_bytes (lpool ?l4) a = ?m a" if "a < ?w \<or> ?e \<le> a" for a
    using cf(10) [of a] that sj(1) c(1) by (simp add: seg_end_def)
  have wd: "?d \<le> ?w" by (rule walk_end_ge)
  have qs: "pm_bytes (lpool ?l4) a = ?n a" if "p \<in> set (log_entries l0 (Suc j))" "p \<le> a" "a < p + kv_size ?n p" for p a
  proof (cases "p \<in> set ?E")
    case True
    then have "p + kv_size ?n p \<le> ?w" using entries_inside [of ?n ?d ?e ?w p] by (simp add: E)
    then show ?thesis using bytes [of a] above [of a] q(1) [OF True] that(2,3) by simp
  next
    case False
    then have "p \<in> set (log_entries l0 j)" using that(1) by (simp add: log_entries_Suc)
    then obtain i where i: "i < j" "p \<in> set (closed_entries l0 i)" "p \<in> set (log_entries l0 j)"
      by (auto simp: log_entries_Suc log_entries_iff)
    have "p + kv_size ?n p \<le> ?a" using closed_entry(2) [OF r _ i(2)] i(1) j seg_addr_apart [OF i(1), of l0] by simp
    moreover have "?m a = ?n a" using st i(3) that(2,3) by (simp add: recovered_upto.simps)
    ultimately show ?thesis using bytes [of a] that(3) wd by simp
  qed
  have hs: "h_status (seg_header ?l4 i) = h_status (seg_header l0 i)" if "i < num_segments l0" for i
  proof -
    have "h_status (seg_header ?l i) = h_status (seg_header l0 i)" using st that by (simp add: recovered_upto.simps)
    moreover have "pool_start ?l4 = pool_start l0" by (simp add: cf(2) c(3) fr)
    then have "seg_addr ?l4 = seg_addr l0" by (simp add: seg_addr_def [abs_def])
    moreover have "i = j" if "seg_addr l0 i = ?a" using that by (simp add: seg_addr_def SEGMENT_SIZE_def)
    ultimately show ?thesis using cl0 sj(1) by (auto simp: seg_header_def cf(9) c(1) sa)
  qed
  have "recovered_upto ix fresh l0 (Suc j) (free, cl', db\<lparr>db_index := replay_index ix ?n (log_entries l0 (Suc j)) fresh, db_log := ?l4\<rparr>)"
    using st qs hs False cl0 bytes above by (auto simp: recovered_upto.simps cf c next_addr less_Suc_eq)
  then show ?thesis using eq by blast
qed

lemma recover_segments_ok:
  assumes r: "recoverable ikey_ok l0" and f: "iinv fresh" "\<And>k. ikey_ok k \<Longrightarrow> ix_get ix k fresh = INVALID_VALUE"
    and ok: "iok (replay_index ix (pm_bytes (lpool l0)) (log_entries l0 (num_segments l0)) fresh)"
    and st: "recovered_upto ix fresh l0 0 st" and j: "j \<le> num_segments l0"
  shows "\<exists>st'. foldM (recover_segment ix junk now) [0..<j] st = Inr st' \<and> recovered_upto ix fresh l0 j st'"
  using j
proof (induction j)
  case 0
  then show ?case using st by simp
next
  case (Suc j)
  then obtain free cl db where ih: "foldM (recover_segment ix junk now) [0..<j] st = Inr (free, cl, db)"
      "recovered_upto ix fresh l0 j (free, cl, db)" by (metis Suc_leD prod_cases3)
  have "iok (replay_index ix (pm_bytes (lpool l0)) (log_entries l0 (Suc j)) fresh)"
    using ok log_entries_split [OF Suc.prems] replay_index_ok by (metis replay_index_simps(3))
  from recover_segment_ok [OF r _ f this ih(2), of junk now] Suc.prems ih(1) show ?case by (auto simp: foldM_append)
qed

lemma cleaner_RecoveryAll_ok:
  assumes r: "recoverable ikey_ok (db_log db)" and f: "iinv (db_index db)" "\<And>k. ikey_ok k \<Longrightarrow> ix_get ix k (db_index db) = INVALID_VALUE"
    and ok: "iok (replay_index ix (pm_bytes (lpool (db_log db))) (log_entries (db_log db) (num_segments (db_log db))) (db_index db))"
    and l: "num_cleaners (db_log db) = 1" "\<And>i. \<not> registered (db_log db) i" and c: "cleaner_id cl = 0"
  shows "\<exists>cl' db'. cleaner_RecoveryAll ix junk now cl db = Inr (cl', db') \<and>
    free_segments (db_log db') = free_segments (db_log db) @
      filter (\<lambda>i. h_status (seg_header (db_log db) i) = StatusAvailable) [0..<num_segments (db_log db)] \<and>
    (\<forall>i. registered (db_log db') i \<longleftrightarrow> i < num_segments (db_log db) \<and> h_status (seg_header (db_log db) i) = StatusClosed) \<and>
    (\<forall>key. ikey_ok (index_key key) \<longrightarrow> worker_Get ix key db' = lookup_pool (db_log db) key)"
proof -
  let ?l = "db_log db" and ?n = "num_segments (db_log db)" and ?m = "pm_bytes (lpool (db_log db))"
  have "recovered_upto ix (db_index db) ?l 0 ([], cl, db)" using l(2) by (simp add: recovered_upto.simps log_entries_def)
  from recover_segments_ok [OF r f ok this, of ?n junk now]
  obtain free cl' db' where st: "foldM (recover_segment ix junk now) [0..<?n] ([], cl, db) = Inr (free, cl', db')"
    "recovered_upto ix (db_index db) ?l ?n (free, cl', db')" by auto
  let ?db = "db'\<lparr>db_log := publish_free free (db_log db')\<rparr>"
  have eq: "cleaner_RecoveryAll ix junk now cl db = Inr (cl', ?db)"
    using st(1) by (simp add: cleaner_RecoveryAll_def c segment_numbers_one [OF l(1)])
  have "worker_Get ix key ?db = lookup_pool ?l key" if k: "ikey_ok (index_key key)" for key
  proof -
    let ?p = "newest ?m (log_entries ?l ?n) (index_key key)"
    have "\<forall>p \<in> set (log_entries ?l ?n). ikey_ok (index_key (kv_GetKey ?m p)) \<and> p \<noteq> INVALID_VALUE \<and> p < 2 ^ 48"
      using closed_entry(3,4,6) [OF r] log_entries_iff [of _ ?l ?n] by blast
    from replay_index_get [OF f(1) this ok keyed_fresh [OF f(2)]] have g: "ix_get ix (index_key key) (db_index ?db) = ?p"
      using st(2) f(2) k by (simp add: recovered_upto.simps)
    have v: "kv_GetValue (pm_bytes (lpool (db_log db'))) ?p = kv_GetValue ?m ?p \<and> tp_GetAddr ?p = ?p" if "?p \<noteq> INVALID_VALUE"
    proof -
      have p: "?p \<in> set (log_entries ?l ?n)" using newest_in [OF that] by simp
      then obtain i where "i < ?n" "?p \<in> set (closed_entries ?l i)" by (auto simp: log_entries_iff)
      then have "tp_GetAddr ?p = ?p" using closed_entry(4) [OF r] by (simp add: tp_GetAddr_def)
      moreover have "kv_GetValue (pm_bytes (lpool (db_log db'))) ?p = kv_GetValue ?m ?p"
        by (rule kv_fields_cong(5)) (use st(2) p in \<open>simp add: recovered_upto.simps\<close>)
      ultimately show ?thesis by simp
    qed
    then show ?thesis using g by (simp add: worker_Get_def lookup_pool_def Let_def publish_free_eq)
  qed
  then show ?thesis using st(2) by (auto simp: eq recovered_upto.simps publish_free_eq)
qed

end

end
