(* ===== verification/Flat_Order.thy ===== *)
theory Flat_Order
  imports Flat_Replay
begin

text \<open>
  The log of a store that one client fills while no segment is cleaned: the entries lie in the pool in
  the order they were written, and replaying the pool repeats the updates of the index.
\<close>

section \<open>A log written in order\<close>

text \<open>
  Segments are handed out in the order of their numbers, so that the entries of the pool, read in the
  order of addresses, are in the order they were written. \<open>f\<close> counts the segments handed out and
  \<open>H\<close> are the ones still open; the last one is the cleaner's and stays empty.
\<close>

definition all_entries :: "log \<Rightarrow> nat list" where
  "all_entries l = concat (map (seg_entries l) [0..<num_segments l])"

lemma all_entries_cong:
  "num_segments l' = num_segments l \<Longrightarrow> (\<And>j. j < num_segments l \<Longrightarrow> seg_entries l' j = seg_entries l j) \<Longrightarrow> all_entries l' = all_entries l"
  by (auto simp: all_entries_def intro!: arg_cong [of _ _ concat])

definition ended :: "log \<Rightarrow> nat \<Rightarrow> bool" where
  "ended l i \<longleftrightarrow> seg_walk_end l i + sizeof_KVItem \<le> seg_tail (segs l i) \<or> seg_tail (segs l i) = seg_end (segs l i)"

definition in_order :: "nat set \<Rightarrow> nat \<Rightarrow> log \<Rightarrow> bool" where
  "in_order H f l \<longleftrightarrow> log_inv H l \<and> num_cleaners l = 1 \<and> f < num_segments l \<and> free_segments l = [f..<num_segments l - 1] \<and>
     seg_entries l (num_segments l - 1) = [] \<and>
     (\<forall>i < num_segments l. 8 dvd seg_tail (segs l i) - data_start (segs l i)) \<and>
     (\<forall>i < num_segments l. h_status (seg_header l i) =
        (if i \<in> H then StatusUsing else if i \<in> set (free_segments l) then StatusAvailable else StatusClosed)) \<and>
     (\<forall>i < num_segments l. i \<notin> H \<and> i \<notin> set (free_segments l) \<longrightarrow> ended l i)"

lemma in_order_empty:
  assumes "in_order H f l" and "f \<le> i" and "i < num_segments l"
  shows "seg_entries l i = []"
proof (cases "i = num_segments l - 1")
  case False
  then have "i \<in> set (free_segments l)" using assms by (auto simp: in_order_def)
  then show ?thesis using assms(1) by (auto simp: in_order_def log_inv_def seg_entries_def)
qed (use assms(1) in \<open>simp add: in_order_def\<close>)

lemma seg_addr_inj: "seg_addr l i = seg_addr l j \<longleftrightarrow> i = j" by (simp add: seg_addr_def SEGMENT_SIZE_def)

text \<open>Changes of the counters keep the order.\<close>

lemma in_order_quiet:
  assumes o: "in_order H f l" and q: "quiet l l'" and h: "pm_hdr (lpool l') = pm_hdr (lpool l)"
    and fr: "free_segments l' = free_segments l" "num_free_segments l' = num_free_segments l"
  shows "in_order H f l'" and "all_entries l' = all_entries l"
proof -
  have n: "num_segments l' = num_segments l" "num_cleaners l' = num_cleaners l" "\<And>i. seg_tail (segs l' i) = seg_tail (segs l i)"
    "\<And>i. segment_start (segs l' i) = segment_start (segs l i)"
    using q by (auto simp: quiet_def)
  have "log_inv (H \<union> set []) l'" by (rule quiet_inv [OF q]) (use o fr in \<open>auto simp: in_order_def log_inv_def\<close>)
  moreover have "seg_header l' i = seg_header l i" for i by (simp add: seg_header_def h quiet_segs(5) [OF q])
  moreover have "ended l' i = ended l i" for i by (simp add: ended_def quiet_segs(3) [OF q] n seg_end_def)
  ultimately show "in_order H f l'" using o by (simp add: in_order_def n fr quiet_segs [OF q])
  show "all_entries l' = all_entries l" by (rule all_entries_cong) (simp_all add: n quiet_segs(2) [OF q])
qed

text \<open>One open segment is written to.\<close>

lemma in_order_touches:
  assumes o: "in_order H f l" and t: "touches i l l'" and i: "i \<in> H" and inv: "log_inv H' l'"
    and h: "\<And>j. j < num_segments l \<Longrightarrow> h_status (seg_header l' j) = (if j = i then (if i \<in> H' then StatusUsing else StatusClosed)
      else h_status (seg_header l j))"
    and H: "H' = H \<or> H' = H - {i}" and e: "8 dvd seg_tail (segs l' i) - data_start (segs l' i)" "i \<notin> H' \<Longrightarrow> ended l' i"
    and last: "seg_entries l' (num_segments l - 1) = []"
  shows "in_order H' f l'"
proof -
  have li: "log_inv H l" and iH: "i < num_segments l" "i \<notin> set (free_segments l)" using o i by (auto simp: in_order_def log_inv_def)
  have fr: "num_segments l' = num_segments l" "num_cleaners l' = num_cleaners l" "free_segments l' = free_segments l"
    using t by (simp_all add: touches_def same_frame_def)
  have others: "segs l' j = segs l j" "ended l' j = ended l j" if "j < num_segments l" "j \<noteq> i" for j
    using t touches_others(3) [OF li t that(1) iH(1) that(2)] that(2) by (simp_all add: touches_def ended_def)
  show ?thesis unfolding in_order_def fr
  proof (intro conjI allI impI)
    fix j assume j: "j < num_segments l"
    show "8 dvd seg_tail (segs l' j) - data_start (segs l' j)"
      using others(1) [OF j] e(1) o j by (cases "j = i") (simp_all add: in_order_def)
    show "h_status (seg_header l' j) = (if j \<in> H' then StatusUsing else if j \<in> set (free_segments l) then StatusAvailable else StatusClosed)"
      using h [OF j] o j H iH i by (auto simp: in_order_def)
    show "ended l' j" if "j \<notin> H' \<and> j \<notin> set (free_segments l)"
      using others(2) [OF j] that o j e(2) H by (cases "j = i") (auto simp: in_order_def)
  qed (use o inv last in \<open>simp_all add: in_order_def\<close>)
qed

lemma dvd8_grow: "8 dvd t - d \<Longrightarrow> d \<le> t \<Longrightarrow> 8 dvd x \<Longrightarrow> 8 dvd t + x - (d :: nat)"
  using dvd_add [of 8 "t - d" x] by simp

lemma touches_addr: "touches i l l' \<Longrightarrow> seg_addr l' = seg_addr l"
  by (simp add: touches_def same_frame_def seg_addr_def fun_eq_iff)

lemma in_order_close:
  assumes o: "in_order H f l" and i: "i \<in> H"
  shows "in_order (H - {i}) f (FreezeSegment now (Some i) l)" and "all_entries (FreezeSegment now (Some i) l) = all_entries l"
proof -
  let ?l = "on_seg (seg_Close now) i l"
  have li: "log_inv H l" and n: "num_cleaners l = 1" and iH: "i < num_segments l" "i \<notin> set (free_segments l)"
    and op: "seg_walk_end l i = seg_tail (segs l i)" and ok: "seg_ok l i"
    using o i by (auto simp: in_order_def log_inv_def)
  note c = seg_Close_touches [OF li i, of now]
  have ent: "seg_entries ?l j = seg_entries l j" if "j < num_segments l" for j
    using c(2) touches_others(2) [OF li c(1) that iH(1)] by (cases "j = i") auto
  have start: "segment_start (segs l i) = seg_addr l i" using ok by (simp add: seg_ok_def)
  have inv: "log_inv (H - {i}) ?l" using touches_inv [OF li c(1) iH c(2,3), of "H - {i}"] by auto
  have d8: "8 dvd seg_tail (segs l i) - data_start (segs l i)" using o iH by (simp add: in_order_def)
  have b: "data_start (segs l i) \<le> seg_tail (segs l i)" "seg_tail (segs l i) \<le> seg_end (segs l i)"
    using ok by (simp_all add: seg_ok_def seg_wf_def)
  have tail: "seg_tail (segs ?l i) = (if HasSpaceFor (segs l i) sizeof_KVItem then seg_tail (segs l i) + sizeof_KVItem else seg_tail (segs l i))"
    "segment_start (segs ?l i) = segment_start (segs l i)"
    by (simp_all add: on_seg_def seg_Close_def Let_def set_header_def split: prod.splits)
  have ds: "data_start (segs ?l i) = data_start (segs l i)" by (simp add: data_start_def tail)
  have dvd: "8 dvd seg_tail (segs ?l i) - data_start (segs ?l i)"
    using d8 dvd8_grow [OF d8 b(1), of 8] by (simp add: ds tail(1) sizeof_KVItem_def)
  have e: "ended ?l i"
  proof (cases "HasSpaceFor (segs l i) sizeof_KVItem")
    case False
    have "8 dvd seg_end (segs l i) - data_start (segs l i)" by (simp add: seg_end_def data_start_def SEGMENT_SIZE_def HEADERS_SIZE_def)
    then have "seg_tail (segs l i) = seg_end (segs l i)"
      using d8 b False unfolding HasSpaceFor_def sizeof_KVItem_def by presburger
    then show ?thesis using False by (simp add: ended_def tail seg_end_def)
  qed (simp add: ended_def c(4))
  have hdr: "h_status (seg_header ?l j) = (if j = i then StatusClosed else h_status (seg_header l j))" for j
    unfolding seg_header_def touches_addr [OF c(1)] on_seg_Close(9) start by (simp add: seg_addr_inj)
  have last: "num_segments l - 1 < num_segments l" "seg_entries l (num_segments l - 1) = []" using o by (auto simp: in_order_def)
  have "in_order (H - {i}) f ?l"
  proof (rule in_order_touches [OF o c(1) i inv])
    show "seg_entries ?l (num_segments l - 1) = []" using ent [OF last(1)] last(2) by simp
  qed (use hdr dvd e in simp_all)
  moreover have "quiet ?l (AddClosedSegment i ?l)" "pm_hdr (lpool (AddClosedSegment i ?l)) = pm_hdr (lpool ?l)"
    "free_segments (AddClosedSegment i ?l) = free_segments ?l" "num_free_segments (AddClosedSegment i ?l) = num_free_segments ?l"
    by (simp_all add: quiet_def AddClosedSegment_def Let_def)
  note q = in_order_quiet [OF calculation this]
  show "in_order (H - {i}) f (FreezeSegment now (Some i) l)" using q(1) n by (simp add: FreezeSegment_def)
  have "all_entries ?l = all_entries l" by (rule all_entries_cong) (simp_all add: ent on_seg_Close)
  then show "all_entries (FreezeSegment now (Some i) l) = all_entries l" using q(2) n by (simp add: FreezeSegment_def)
qed

text \<open>The next segment is the lowest free one.\<close>

lemma in_order_new:
  assumes o: "in_order H f l" and got: "NewSegment hot l = (Got i, l')"
  shows "i = f" and "in_order (insert f H) (Suc f) l'" and "all_entries l' = all_entries l" and "num_segments l' = num_segments l"
proof -
  have li: "log_inv H l" and fs: "free_segments l = [f..<num_segments l - 1]" using o by (auto simp: in_order_def)
  note n = NewSegment_log [OF li got]
  have lt: "f < num_segments l - 1" using n(5) fs by (cases "f < num_segments l - 1") auto
  then show i: "i = f" using n(5) fs by (simp add: upt_conv_Cons)
  have fs': "free_segments l' = [Suc f..<num_segments l - 1]" using n(5) fs lt by (auto simp: upt_conv_Cons)
  define rest where "rest = free_segments l'"
  have "free_segments l = f # rest" using n(5) i by (simp add: rest_def)
  then have l': "l' = UpdateCleanThreshold (on_seg (StartUsing hot True) f (l\<lparr>free_segments := rest, num_free_segments := num_free_segments l - 1\<rparr>))"
    using got by (auto simp: NewSegment_def Let_def split: if_splits)
  have q: "quiet l l'" by (simp add: l' quiet_def frame_simps on_seg_def StartUsing_def set_header_def)
  have start: "segment_start (segs l f) = seg_addr l f" using li lt by (simp add: log_inv_def seg_ok_def)
  have hdr: "h_status (seg_header l' j) = (if j = f then StatusUsing else h_status (seg_header l j))" for j
    unfolding seg_header_def quiet_segs(5) [OF q]
    by (simp add: l' frame_simps on_seg_def StartUsing_def set_header_def start seg_addr_inj)
  have nn: "num_segments l' = num_segments l" "num_cleaners l' = num_cleaners l" "\<And>i. seg_tail (segs l' i) = seg_tail (segs l i)"
    "\<And>i. segment_start (segs l' i) = segment_start (segs l i)"
    using q by (auto simp: quiet_def)
  have e: "ended l' j = ended l j" for j by (simp add: ended_def quiet_segs(3) [OF q] nn seg_end_def)
  show "in_order (insert f H) (Suc f) l'"
    using o n(1) lt by (auto simp: in_order_def nn fs' e hdr quiet_segs [OF q] i)
  show "all_entries l' = all_entries l" by (rule all_entries_cong) (simp_all add: nn quiet_segs(2) [OF q])
  show "num_segments l' = num_segments l" by (rule nn(1))
qed

text \<open>Appending to the segment handed out last.\<close>

lemma all_entries_append:
  assumes o: "in_order H f l" and i: "Suc i = f" and n: "num_segments l' = num_segments l"
    and new: "seg_entries l' i = seg_entries l i @ [v]" "\<And>j. j < num_segments l \<Longrightarrow> j \<noteq> i \<Longrightarrow> seg_entries l' j = seg_entries l j"
  shows "all_entries l' = all_entries l @ [v]"
proof -
  have lt: "f < num_segments l" using o by (simp add: in_order_def)
  have split: "[0..<num_segments l] = [0..<i] @ i # [f..<num_segments l]"
    using lt i upt_add_eq_append [of 0 i "num_segments l - i"] upt_conv_Cons [of i "num_segments l"] by simp
  have rest: "concat (map (seg_entries l) [f..<num_segments l]) = []" using in_order_empty [OF o] by simp
  have "map (seg_entries l') [0..<i] = map (seg_entries l) [0..<i]" "map (seg_entries l') [f..<num_segments l] = map (seg_entries l) [f..<num_segments l]"
    using new(2) lt i by auto
  then show ?thesis unfolding all_entries_def n split map_append concat_append list.map concat.simps new(1) rest by (simp only: rest append_Nil2 append_assoc)
qed

lemma in_order_append:
  assumes o: "in_order H f l" and i: "Suc i = f" "i \<in> H" and len: "length key = 8" "length val < 2 ^ 16" "8 dvd length val"
    and ta: "try_append key val epoch (Some i) l = Some (v, l')"
  shows "in_order H f l'" and "all_entries l' = all_entries l @ [v]"
proof -
  obtain s pm where app: "seg_Append key val epoch (segs l i, lpool l) = (v, s, pm)" "v \<noteq> INVALID_VALUE"
      and l': "l' = l\<lparr>segs := (segs l)(i := s), lpool := pm\<rparr>"
    using ta by (auto simp: try_append_def Let_def split: prod.splits if_splits)
  have li: "log_inv H l" and iH: "i < num_segments l" "seg_wf (segs l i)" and d8: "8 dvd seg_tail (segs l i) - data_start (segs l i)"
    using o i by (auto simp: in_order_def log_inv_def seg_ok_def)
  have "length key < 2 ^ 15" "key \<noteq> []" using len(1) by auto
  note a = seg_Append_log [OF li i(2) this(1) len(2) this(2) app, folded l']
  have r: "s = (segs l i)\<lparr>seg_tail := seg_tail (segs l i) + (sizeof_KVItem + length key + length val), cur_cnt := cur_cnt (segs l i) + 1\<rparr>"
      "pm_hdr pm = pm_hdr (lpool l)"
    using app by (auto simp: seg_Append_def Let_def tagged_pointer_def split: if_splits)
  have "8 dvd seg_tail (segs l' i) - data_start (segs l' i)"
    using dvd8_grow [OF d8, of "sizeof_KVItem + length key + length val"] iH(2) len
    by (simp add: l' r data_start_def seg_wf_def sizeof_KVItem_def)
  moreover have "seg_header l' j = seg_header l j" for j by (simp add: seg_header_def l' r seg_addr_def)
  moreover have ent: "seg_entries l' j = seg_entries l j" if "j < num_segments l" "j \<noteq> i" for j
    by (rule touches_others(2) [OF li a(8) that(1) iH(1) that(2)])
  moreover have "num_segments l - 1 \<noteq> i" using o i(1) by (auto simp: in_order_def)
  ultimately show "in_order H f l'"
    by (intro in_order_touches [OF o a(8) i(2) a(1)]) (use o i in \<open>auto simp: in_order_def\<close>)
  show "all_entries l' = all_entries l @ [v]" by (rule all_entries_append [OF o i(1) _ a(7) ent]) (simp_all add: l')
qed

section \<open>One client\<close>

text \<open>The client holds the segment handed out last.\<close>

definition solo_log :: "nat option \<Rightarrow> log \<Rightarrow> bool" where
  "solo_log head l \<longleftrightarrow> (\<exists>f. in_order (insert (num_segments l - 1) (set_option head)) f l \<and> head = (if f = 0 then None else Some (f - 1)))"

lemma worker_Freeze_order:
  assumes o: "in_order (insert (num_segments l - 1) (set_option head)) f l" and h: "head = (if f = 0 then None else Some (f - 1))"
    and fz: "worker_Freeze now head tmp l = (tmp', l')"
  shows "in_order {num_segments l - 1} f l'" and "all_entries l' = all_entries l" and "num_segments l' = num_segments l"
proof -
  let ?l = "FreezeSegment now head l"
  have f: "in_order {num_segments l - 1} f ?l \<and> all_entries ?l = all_entries l \<and> num_segments ?l = num_segments l"
  proof (cases head)
    case None
    then show ?thesis using o by (simp add: FreezeSegment_def)
  next
    case (Some i)
    have "f < num_segments l" using o by (simp add: in_order_def)
    then have "insert (num_segments l - 1) (set_option head) - {i} = {num_segments l - 1}" using h Some by (auto split: if_splits)
    then show ?thesis using in_order_close [OF o, of i now] Some
      by (simp add: FreezeSegment_def AddClosedSegment_def Let_def on_seg_Close)
  qed
  have l': "l' = snd (SyncCleanerGarbageBytes tmp ?l)" using fz by (simp add: worker_Freeze_def)
  have "quiet ?l l'" "pm_hdr (lpool l') = pm_hdr (lpool ?l)" "free_segments l' = free_segments ?l" "num_free_segments l' = num_free_segments ?l"
    "num_segments l' = num_segments ?l"
    by (simp_all add: l' SyncCleanerGarbageBytes_def quiet_def)
  then show "in_order {num_segments l - 1} f l'" "all_entries l' = all_entries l" "num_segments l' = num_segments l"
    using f in_order_quiet [of _ f ?l l'] by auto
qed

lemma make_kv_loop_order:
  assumes "solo_log head l" and "length key = 8" and "length val < 2 ^ 16" and "8 dvd length val"
    and "make_kv_loop now key val epoch head tmp l = Inr (v, head', tmp', l')"
  shows "solo_log head' l' \<and> all_entries l' = all_entries l @ [v]"
  using assms
proof (induction now key val epoch head tmp l rule: make_kv_loop.induct)
  case (1 now key val epoch head tmp l)
  obtain f where o: "in_order (insert (num_segments l - 1) (set_option head)) f l" and h: "head = (if f = 0 then None else Some (f - 1))"
    using "1.prems"(1) by (auto simp: solo_log_def)
  show ?case
  proof (cases "try_append key val epoch head l")
    case (Some r)
    have res: "head' = head" "v = fst r" "l' = snd r"
      using "1.prems"(5) Some by (subst (asm) make_kv_loop.simps; simp add: split_beta)+
    obtain i where i: "head = Some i" "Suc i = f" using Some h by (cases "f = 0") (auto simp: try_append_def)
    have ta: "try_append key val epoch (Some i) l = Some (v, l')" using Some res i(1) by simp
    have iH: "i \<in> insert (num_segments l - 1) (set_option head)" using i(1) by simp
    note a = in_order_append [OF o i(2) iH "1.prems"(2-4) ta]
    have seg: "num_segments l' = num_segments l" using ta by (auto simp: try_append_def Let_def split: prod.splits if_splits)
    show ?thesis unfolding solo_log_def seg res(1) using a h by blast
  next
    case None
    obtain tmp1 l1 where fz: "worker_Freeze now head tmp l = (tmp1, l1)" by (cases "worker_Freeze now head tmp l")
    note w = worker_Freeze_order [OF o h fz]
    obtain a l2 where ns: "NewSegment True l1 = (a, l2)" by (cases "NewSegment True l1")
    have "a \<noteq> Waiting \<and> a \<noteq> No_cleaners"
      using "1.prems"(5) None fz ns by (subst (asm) make_kv_loop.simps) auto
    then obtain j where j: "a = Got j" by (cases a) auto
    note n = in_order_new [OF w(1) ns [unfolded j]]
    have seg: "num_segments l2 = num_segments l" using n(4) w(3) by simp
    have solo: "solo_log (Some j) l2" unfolding solo_log_def seg using n(1,2) by (intro exI [of _ "Suc f"]) (simp add: insert_commute)
    have rec: "make_kv_loop now key val epoch (Some j) tmp1 l2 = Inr (v, head', tmp', l')"
      using "1.prems"(5) None fz ns j by (subst (asm) make_kv_loop.simps) simp
    from "1.IH" [OF None fz [symmetric] ns [symmetric] j solo "1.prems"(2-4) rec] show ?thesis using n(3) w(2) by simp
  qed
qed

text \<open>The index is what a replay of the pool gives.\<close>

definition replayed :: "'i index_ops \<Rightarrow> (u64 \<Rightarrow> bool) \<Rightarrow> 'i \<Rightarrow> 'i db \<Rightarrow> bool" where
  "replayed ix ikey_ok fresh db \<longleftrightarrow>
     db_index db = replay_index ix (pm_bytes (lpool (db_log db))) (all_entries (db_log db)) fresh \<and>
     (\<forall>p \<in> set (all_entries (db_log db)). ikey_ok (index_key (kv_GetKey (pm_bytes (lpool (db_log db))) p)))"

lemma entries_keep:
  assumes "log_inv H l" and "log_keeps l l'" and "p \<in> set (all_entries l)"
  shows "kv_GetKey (pm_bytes (lpool l')) p = kv_GetKey (pm_bytes (lpool l)) p \<and>
    kv_GetValue (pm_bytes (lpool l')) p = kv_GetValue (pm_bytes (lpool l)) p"
proof -
  obtain j where j: "j < num_segments l" "p \<in> set (seg_entries l j)" using assms(3) by (auto simp: all_entries_def)
  then have "j \<notin> set (free_segments l)" using assms(1) by (auto simp: log_inv_def seg_entries_def)
  then show ?thesis using assms(2) j unfolding log_keeps_def by blast
qed

lemma worker_MarkGarbage_fields:
  assumes "worker_MarkGarbage a w db = Inr (w', db')"
  shows "log_head w' = log_head w" and "db_index db' = db_index db" and "quiet (db_log db) (db_log db')"
    and "lpool (db_log db') = lpool (db_log db)" and "free_segments (db_log db') = free_segments (db_log db)"
    and "num_free_segments (db_log db') = num_free_segments (db_log db)" and "cur_num_workers db' = cur_num_workers db"
  using assms by (auto simp: worker_MarkGarbage_def Let_def quiet_def seg_MarkGarbage_def split: option.splits)

lemma solo_log_quiet:
  assumes "solo_log head l" and "quiet l l'" and "lpool l' = lpool l"
    and "free_segments l' = free_segments l" and "num_free_segments l' = num_free_segments l"
  shows "solo_log head l'" and "all_entries l' = all_entries l"
proof -
  obtain f where f: "in_order (insert (num_segments l - 1) (set_option head)) f l" "head = (if f = 0 then None else Some (f - 1))"
    using assms(1) by (auto simp: solo_log_def)
  have "pm_hdr (lpool l') = pm_hdr (lpool l)" using assms(3) by simp
  note q = in_order_quiet [OF f(1) assms(2) this assms(4,5)]
  have n: "num_segments l' = num_segments l" using assms(2) by (simp add: quiet_def)
  show "solo_log head l'" unfolding solo_log_def n using q(1) f(2) by blast
  show "all_entries l' = all_entries l" by (rule q(2))
qed

lemma worker_Put_order:
  assumes solo: "solo_log (log_head w) (db_log db)" and rep: "replayed ix ikey_ok fresh db"
    and arg: "kv_arg_ok key val" "8 dvd length val" "ikey_ok (index_key key)"
    and put: "worker_Put ix now key val w db = Inr (w', db')"
  shows "solo_log (log_head w') (db_log db')" and "replayed ix ikey_ok fresh db'" and "cur_num_workers db' = cur_num_workers db"
    and "num_segments (db_log db') = num_segments (db_log db)"
proof -
  let ?l = "db_log db"
  obtain epoch db0 where ep: "GetKeyEpoch (index_key key) db = (epoch, db0)" by fastforce
  have db0: "db_log db0 = ?l" "db_index db0 = db_index db" "cur_num_workers db0 = cur_num_workers db"
    using ep by (auto simp: GetKeyEpoch_def Let_def)
  obtain v head tmp l1 where loop: "make_kv_loop now key val epoch (log_head w) (tmp_garbage w) ?l = Inr (v, head, tmp, l1)"
    using put ep db0(1) by (auto simp: worker_Put_def MakeKVItem_def split: sum.splits prod.splits)
  let ?w = "w\<lparr>log_head := head, tmp_garbage := tmp\<rparr>" and ?db = "db0\<lparr>db_log := l1\<rparr>"
  have upd: "UpdateIndex ix key v ?w ?db = Inr (w', db')"
    using put ep db0(1) loop by (simp add: worker_Put_def MakeKVItem_def)
  have len: "length key = 8" "length val < 2 ^ 16" "length key < 2 ^ 15" "key \<noteq> []" using arg(1) by (auto simp: kv_arg_ok_def)
  have o: "solo_log head l1" "all_entries l1 = all_entries ?l @ [v]"
    using make_kv_loop_order [OF solo len(1,2) arg(2) loop] by simp_all
  obtain H where H: "log_inv H ?l" "set_option (log_head w) \<subseteq> H" using solo by (auto simp: solo_log_def in_order_def)
  have kp: "log_keeps ?l l1" "kv_GetKey (pm_bytes (lpool l1)) v = key"
    using make_kv_loop_correct [OF H len(3,2,4) loop] by blast+
  have ns: "num_segments l1 = num_segments ?l" using kp(1) by (simp add: log_keeps_def)
  let ?m = "pm_bytes (lpool l1)" and ?idx = "snd (ix_put ix (index_key key) v (db_index db))"
  have keys: "kv_GetKey ?m p = kv_GetKey (pm_bytes (lpool ?l)) p" if "p \<in> set (all_entries ?l)" for p
    using entries_keep [OF H(1) kp(1) that] by simp
  have idx: "?idx = replay_index ix ?m (all_entries l1) fresh"
    using rep replay_index_cong [of "all_entries ?l" ?m "pm_bytes (lpool ?l)" ix fresh] keys by (simp add: replayed_def o(2) kp(2))
  have ok: "\<forall>p \<in> set (all_entries l1). ikey_ok (index_key (kv_GetKey ?m p))"
    using rep keys arg(3) by (simp add: replayed_def o(2) kp(2))
  let ?db1 = "?db\<lparr>db_index := ?idx\<rparr>"
  have "solo_log (log_head w') (db_log db') \<and> replayed ix ikey_ok fresh db' \<and> cur_num_workers db' = cur_num_workers db \<and>
      num_segments (db_log db') = num_segments ?l"
  proof (cases "fst (ix_put ix (index_key key) v (db_index db)) = INVALID_VALUE")
    case True
    then have "w' = ?w" "db' = ?db1" using upd db0(2) by (auto simp: UpdateIndex_def split_beta)
    then show ?thesis using o idx ok db0(3) ns by (simp add: replayed_def)
  next
    case False
    then have g: "worker_MarkGarbage (fst (ix_put ix (index_key key) v (db_index db))) ?w ?db1 = Inr (w', db')"
      using upd db0(2) by (auto simp: UpdateIndex_def split_beta)
    note q = worker_MarkGarbage_fields [OF g]
    have "solo_log head (db_log ?db1)" using o(1) by simp
    note s = solo_log_quiet [OF this q(3-6)]
    have "num_segments (db_log db') = num_segments l1" using q(3) by (simp add: quiet_def)
    then show ?thesis using s q idx ok db0(3) ns by (simp add: replayed_def)
  qed
  then show "solo_log (log_head w') (db_log db')" "replayed ix ikey_ok fresh db'" "cur_num_workers db' = cur_num_workers db"
    "num_segments (db_log db') = num_segments (db_log db)" by auto
qed

section \<open>Recovery of such a log\<close>

text \<open>A walk that stops before its bound stops there for every greater bound.\<close>

lemma walk_stop:
  assumes "walk_end m p t < t" and "t \<le> t'"
  shows "entries m p t' = entries m p t \<and> walk_end m p t' = walk_end m p t"
  using assms
proof (induction m p t rule: entries.induct)
  case (1 m p t)
  have step: "walk_end m p t = walk_end m (p + kv_size m p) t" if "p < t" "kv_size m p \<noteq> sizeof_KVItem"
    using that by (subst walk_end.simps) simp
  show ?case
  proof (cases "p < t \<and> kv_size m p \<noteq> sizeof_KVItem")
    case True
    have "entries m (p + kv_size m p) t' = entries m (p + kv_size m p) t \<and> walk_end m (p + kv_size m p) t' = walk_end m (p + kv_size m p) t"
      using "1.IH" [OF True] "1.prems" step True by simp
    then show ?thesis using True "1.prems"(2)
      by (simp add: entries.simps [of m p t] entries.simps [of m p t'] walk_end.simps [of m p t] walk_end.simps [of m p t'])
  next
    case False
    have "p < t" using "1.prems"(1) False by (cases "p < t") (auto simp: walk_end.simps [of m p t])
    then show ?thesis using False
      by (simp add: entries.simps [of m p t] entries.simps [of m p t'] walk_end.simps [of m p t] walk_end.simps [of m p t'])
  qed
qed

lemma closed_entries_order:
  assumes o: "in_order {} f l" and i: "i < num_segments l"
  shows "closed_entries l i = seg_entries l i"
    and "i \<notin> set (free_segments l) \<Longrightarrow> (let w = walk_end (pm_bytes (lpool l)) (seg_addr l i + HEADERS_SIZE) (seg_addr l i + SEGMENT_SIZE) in
      w = seg_addr l i + SEGMENT_SIZE \<or> w + sizeof_KVItem \<le> seg_addr l i + SEGMENT_SIZE)"
proof -
  let ?d = "seg_addr l i + HEADERS_SIZE" and ?e = "seg_addr l i + SEGMENT_SIZE" and ?m = "pm_bytes (lpool l)" and ?t = "seg_tail (segs l i)"
  have ok: "seg_ok l i" using o i by (simp add: in_order_def log_inv_def)
  have d: "data_start (segs l i) = ?d" "seg_end (segs l i) = ?e" using ok by (simp_all add: seg_ok_def data_start_def seg_end_def)
  have le: "?t \<le> ?e" using seg_ok_bounds(3) [OF ok] .
  have st: "h_status (seg_header l i) = (if i \<in> set (free_segments l) then StatusAvailable else StatusClosed)"
    using o i unfolding in_order_def by auto
  have closed: "entries ?m ?d ?e = seg_entries l i \<and> (walk_end ?m ?d ?e = ?e \<or> walk_end ?m ?d ?e + sizeof_KVItem \<le> ?e)"
    if "i \<notin> set (free_segments l)"
  proof (cases "seg_walk_end l i + sizeof_KVItem \<le> ?t")
    case True
    then have "walk_end ?m ?d ?t < ?t" by (simp add: seg_walk_end_def d sizeof_KVItem_def)
    from walk_stop [OF this le] show ?thesis using True le by (simp add: seg_entries_def seg_walk_end_def d)
  next
    case False
    then have "?t = ?e" "seg_walk_end l i = ?t" using o i that ok by (auto simp: in_order_def ended_def d seg_ok_def)
    then show ?thesis by (simp add: seg_entries_def seg_walk_end_def d)
  qed
  then show "i \<notin> set (free_segments l) \<Longrightarrow> (let w = walk_end ?m ?d ?e in w = ?e \<or> w + sizeof_KVItem \<le> ?e)" by (simp add: Let_def)
  show "closed_entries l i = seg_entries l i"
  proof (cases "i \<in> set (free_segments l)")
    case True
    then have "seg_entries l i = []" using o by (auto simp: in_order_def log_inv_def seg_entries_def)
    then show ?thesis using True st by (simp add: closed_entries_def)
  qed (use closed st in \<open>simp add: closed_entries_def\<close>)
qed

lemma in_order_recoverable:
  assumes o: "in_order {} f l" and keys: "\<forall>p \<in> set (all_entries l). ikey_ok (index_key (kv_GetKey (pm_bytes (lpool l)) p))"
  shows "recoverable ikey_ok l" and "log_entries l (num_segments l) = all_entries l"
proof -
  show e: "log_entries l (num_segments l) = all_entries l"
    unfolding log_entries_def all_entries_def using closed_entries_order(1) [OF o] by (auto intro!: arg_cong [of _ _ concat])
  show "recoverable ikey_ok l"
    using o closed_entries_order(2) [OF o] keys unfolding recoverable_def e by (simp add: in_order_def log_inv_def)
qed

text \<open>What recovery reads of a log.\<close>

lemma recovery_cong:
  assumes "lpool l' = lpool l" and "pool_start l' = pool_start l" and "num_segments l' = num_segments l"
  shows "recoverable ikey_ok l' = recoverable ikey_ok l" and "log_entries l' = log_entries l" and "lookup_pool l' = lookup_pool l"
proof -
  have a: "seg_addr l' = seg_addr l" using assms(2) by (simp add: seg_addr_def fun_eq_iff)
  have h: "seg_header l' = seg_header l" by (simp add: seg_header_def fun_eq_iff assms(1) a)
  have c: "closed_entries l' = closed_entries l" by (simp add: closed_entries_def fun_eq_iff assms(1) a h)
  show e: "log_entries l' = log_entries l" by (simp add: log_entries_def fun_eq_iff c)
  show "recoverable ikey_ok l' = recoverable ikey_ok l" by (simp add: recoverable_def assms a h e)
  show "lookup_pool l' = lookup_pool l" by (simp add: lookup_pool_def fun_eq_iff assms e Let_def)
qed

lemma newest_cong: "(\<And>p. p \<in> set ps \<Longrightarrow> kv_GetKey m' p = kv_GetKey m p) \<Longrightarrow> newest m' ps k = newest m ps k"
  by (induction ps rule: rev_induct) auto

lemma forget_log_one:
  assumes "reserved_segment cl = Some r" and "backup_segment cl = None"
  shows "lpool (forget_log now [cl] l) = lpool (FreezeSegment now (Some r) l)" and "pool_start (forget_log now [cl] l) = pool_start l"
    and "num_segments (forget_log now [cl] l) = num_segments l" and "num_cleaners (forget_log now [cl] l) = num_cleaners l"
    and "registered (forget_log now [cl] l) = (\<lambda>_. False)"
  using assms by (auto simp: forget_log_def cleaner_delete_def FreezeSegment_def AddClosedSegment_def Let_def on_seg_def seg_Close_def
      set_header_def split: prod.splits)

lemma all_entries_address:
  assumes "log_inv H l" and "p \<in> set (all_entries l)"
  shows "p \<noteq> INVALID_VALUE \<and> p < 2 ^ 48"
proof -
  obtain i where i: "i < num_segments l" "p \<in> set (seg_entries l i)" using assms(2) by (auto simp: all_entries_def)
  have ok: "seg_ok l i" using assms(1) i(1) by (simp add: log_inv_def)
  have "data_start (segs l i) \<le> p \<and> p < seg_tail (segs l i)"
    using entries_inside [of "pm_bytes (lpool l)" "data_start (segs l i)" "seg_tail (segs l i)" "seg_tail (segs l i)" p]
      seg_ok_bounds(4) [OF ok] i(2) by (simp add: seg_entries_def seg_walk_end_def)
  moreover have "seg_addr l i + SEGMENT_SIZE \<le> 2 ^ 48" using seg_addr_apart [OF i(1), of l] assms(1) by (simp add: log_inv_def)
  ultimately show ?thesis using seg_ok_bounds [OF ok] by (simp add: INVALID_VALUE_def)
qed

text \<open>The pool as recovery finds it: the cleaner has closed its segment.\<close>

lemma order_forgotten:
  fixes now :: nat
  assumes o: "in_order {num_segments l - 1} fr l" and keys: "\<forall>p \<in> set (all_entries l). ikey_ok (index_key (kv_GetKey (pm_bytes (lpool l)) p))"
    and cl: "reserved_segment cl = Some (num_segments l - 1)" "backup_segment cl = None"
  defines "l0 \<equiv> forget_log now [cl] l"
  shows "recoverable ikey_ok l0" and "log_entries l0 (num_segments l0) = all_entries l" and "num_cleaners l0 = 1" and "registered l0 = (\<lambda>_. False)"
    and "p \<in> set (all_entries l) \<Longrightarrow> kv_GetKey (pm_bytes (lpool l0)) p = kv_GetKey (pm_bytes (lpool l)) p \<and>
      kv_GetValue (pm_bytes (lpool l0)) p = kv_GetValue (pm_bytes (lpool l)) p"
proof -
  let ?r = "num_segments l - 1"
  have inv: "log_inv {?r} l" using o by (simp add: in_order_def)
  define l2 where "l2 = FreezeSegment now (Some ?r) l"
  have o2: "in_order {} fr l2" "all_entries l2 = all_entries l" using in_order_close [OF o, of ?r now] by (simp_all add: l2_def)
  have kp: "log_keeps l l2" unfolding l2_def by (rule FreezeSegment_log(2) [OF inv]) simp
  have n2: "num_segments l2 = num_segments l" "pool_start l2 = pool_start l"
    by (simp_all add: l2_def FreezeSegment_def AddClosedSegment_def Let_def on_seg_Close)
  note fl = forget_log_one [OF cl, of now l, folded l0_def l2_def]
  note rc = recovery_cong [OF fl(1) fl(2) [folded n2(2)] fl(3) [folded n2(1)]]
  have keys2: "\<forall>p \<in> set (all_entries l2). ikey_ok (index_key (kv_GetKey (pm_bytes (lpool l2)) p))"
    using keys entries_keep [OF inv kp] by (simp add: o2(2))
  note rec = in_order_recoverable [where ikey_ok = ikey_ok, OF o2(1) keys2]
  show "recoverable ikey_ok l0" using rec(1) by (simp add: rc(1))
  show "log_entries l0 (num_segments l0) = all_entries l" using rec(2) o2(2) by (simp add: rc(2) fl(3) n2)
  show "num_cleaners l0 = 1" "registered l0 = (\<lambda>_. False)" using o fl(4,5) by (simp_all add: in_order_def)
  show "kv_GetKey (pm_bytes (lpool l0)) p = kv_GetKey (pm_bytes (lpool l)) p \<and>
      kv_GetValue (pm_bytes (lpool l0)) p = kv_GetValue (pm_bytes (lpool l)) p" if "p \<in> set (all_entries l)"
    using entries_keep [OF inv kp that] by (simp add: fl(1))
qed

text \<open>The client is gone: its segment is closed.\<close>

lemma solo_deleted:
  assumes solo: "solo_log (log_head w) (db_log db)" and rep: "replayed ix ikey_ok fresh db" and workers: "cur_num_workers db = 1"
  shows "\<exists>fr. in_order {num_segments (db_log (worker_delete now w db)) - 1} fr (db_log (worker_delete now w db))"
    and "replayed ix ikey_ok fresh (worker_delete now w db)" and "cur_num_workers (worker_delete now w db) = 0"
    and "num_segments (db_log (worker_delete now w db)) = num_segments (db_log db)" and "db_index (worker_delete now w db) = db_index db"
    and "all_entries (db_log (worker_delete now w db)) = all_entries (db_log db)"
    and "p \<in> set (all_entries (db_log db)) \<Longrightarrow>
      kv_GetKey (pm_bytes (lpool (db_log (worker_delete now w db)))) p = kv_GetKey (pm_bytes (lpool (db_log db))) p \<and>
      kv_GetValue (pm_bytes (lpool (db_log (worker_delete now w db)))) p = kv_GetValue (pm_bytes (lpool (db_log db))) p"
proof -
  let ?l = "db_log db" and ?d = "worker_delete now w db"
  obtain tmp l1 where fz: "worker_Freeze now (log_head w) (tmp_garbage w) ?l = (tmp, l1)" by fastforce
  have d: "db_log ?d = l1" "db_index ?d = db_index db" "cur_num_workers ?d = 0" using workers by (simp_all add: worker_delete_def fz)
  obtain fr where o: "in_order (insert (num_segments ?l - 1) (set_option (log_head w))) fr ?l" and h: "log_head w = (if fr = 0 then None else Some (fr - 1))"
    using solo unfolding solo_log_def by blast
  have inv: "log_inv (insert (num_segments ?l - 1) (set_option (log_head w))) ?l" using o by (simp add: in_order_def)
  note w = worker_Freeze_order [OF o h fz]
  have kp: "log_keeps ?l l1" by (rule worker_Freeze_log(2) [OF inv _ fz]) auto
  note same = entries_keep [OF inv kp]
  show "replayed ix ikey_ok fresh ?d"
    using rep same replay_index_cong [of "all_entries ?l" "pm_bytes (lpool l1)" "pm_bytes (lpool ?l)" ix fresh]
    by (simp add: replayed_def d w(2))
  show "\<exists>fr. in_order {num_segments (db_log ?d) - 1} fr (db_log ?d)" using w(1,3) by (auto simp: d)
  show "cur_num_workers ?d = 0" "num_segments (db_log ?d) = num_segments ?l" "db_index ?d = db_index db" "all_entries (db_log ?d) = all_entries ?l"
    using d w(2,3) by simp_all
  show "kv_GetKey (pm_bytes (lpool (db_log ?d))) p = kv_GetKey (pm_bytes (lpool ?l)) p \<and>
      kv_GetValue (pm_bytes (lpool (db_log ?d))) p = kv_GetValue (pm_bytes (lpool ?l)) p" if "p \<in> set (all_entries ?l)"
    using same [OF that] by (simp add: d(1))
qed

context flat_index
begin

lemma replayed_get:
  assumes "log_inv H (db_log db)" and "replayed ix ikey_ok fresh db" and "iinv fresh" "\<And>k. ikey_ok k \<Longrightarrow> ix_get ix k fresh = INVALID_VALUE"
    and "iok (db_index db)" and "ikey_ok (index_key key)"
  shows "worker_Get ix key db =
    (let p = newest (pm_bytes (lpool (db_log db))) (all_entries (db_log db)) (index_key key) in
     if p = INVALID_VALUE then None else Some (kv_GetValue (pm_bytes (lpool (db_log db))) p))"
proof -
  let ?E = "all_entries (db_log db)" and ?m = "pm_bytes (lpool (db_log db))"
  note a = all_entries_address [OF assms(1)]
  have "ix_get ix (index_key key) (db_index db) = newest ?m ?E (index_key key)"
    using replay_index_get [OF assms(3) _ _ keyed_fresh [OF assms(4)], of ?E ?m] assms(2,4-6) a by (simp add: replayed_def)
  then show ?thesis using newest_in [of ?m ?E "index_key key"] a by (auto simp: worker_Get_def Let_def tp_GetAddr_def)
qed

lemma order_recovery:
  assumes o: "in_order {num_segments (db_log db) - 1} fr (db_log db)" and rep: "replayed ix ikey_ok fresh db" and workers: "cur_num_workers db = 0"
    and f: "iinv fresh" "\<And>k. ikey_ok k \<Longrightarrow> ix_get ix k fresh = INVALID_VALUE" and ok: "iok (db_index db)"
    and cl: "reserved_segment cl = Some (num_segments (db_log db) - 1)" "backup_segment cl = None"
  shows "\<exists>cls' db'. DB_RecoveryAll ix fresh junk now [cl] db = Inr (cls', db') \<and>
    (\<forall>key. ikey_ok (index_key key) \<longrightarrow> worker_Get ix key db' = worker_Get ix key db)"
proof -
  let ?l = "db_log db" and ?m = "pm_bytes (lpool (db_log db))" and ?E = "all_entries (db_log db)"
  have inv: "log_inv {num_segments ?l - 1} ?l" using o by (simp add: in_order_def)
  have keys: "\<forall>p \<in> set ?E. ikey_ok (index_key (kv_GetKey ?m p))" using rep by (simp add: replayed_def)
  define l0 where "l0 = forget_log now [cl] ?l"
  note fg = order_forgotten [OF o keys cl, where now = now, folded l0_def]
  let ?n = "pm_bytes (lpool l0)"
  have idx: "replay_index ix ?n ?E fresh = db_index db"
    using rep replay_index_cong [of ?E ?n ?m ix fresh] fg(5) by (simp add: replayed_def)
  let ?db = "db\<lparr>db_log := l0, db_index := fresh\<rparr>" and ?cl = "recovery_cleaner 1 0"
  have i0: "iok (replay_index ix (pm_bytes (lpool (db_log ?db))) (log_entries (db_log ?db) (num_segments (db_log ?db))) (db_index ?db))"
    using ok by (simp add: fg(2) idx)
  have "\<exists>cl' db'. cleaner_RecoveryAll ix junk now ?cl ?db = Inr (cl', db') \<and>
      (\<forall>key. ikey_ok (index_key key) \<longrightarrow> worker_Get ix key db' = lookup_pool (db_log ?db) key)"
    using cleaner_RecoveryAll_ok [OF _ _ _ i0, of ?cl junk now] fg(1,3,4) f by (simp add: recovery_cleaner_def) blast
  then obtain cl' db' where r: "cleaner_RecoveryAll ix junk now ?cl ?db = Inr (cl', db')"
    "\<And>key. ikey_ok (index_key key) \<Longrightarrow> worker_Get ix key db' = lookup_pool l0 key" by auto
  have eq: "DB_RecoveryAll ix fresh junk now [cl] db = Inr ([cl'], db')"
    using r(1) workers fg(3) by (simp add: DB_RecoveryAll_def log_RecoveryAll_def recover_with_def l0_def Let_def)
  have "lookup_pool l0 key = worker_Get ix key db" if k: "ikey_ok (index_key key)" for key
  proof -
    have nw: "newest ?n ?E (index_key key) = newest ?m ?E (index_key key)" by (rule newest_cong) (use fg(5) in simp)
    show ?thesis using newest_in [of ?m ?E "index_key key"] fg(5) replayed_get [OF inv rep f ok k]
      by (auto simp: lookup_pool_def Let_def fg(2) nw)
  qed
  then show ?thesis using eq r(2) by auto
qed

text \<open>The client goes, and the log is recovered.\<close>

lemma solo_recovery:
  assumes solo: "solo_log (log_head w) (db_log db)" "replayed ix ikey_ok fresh db" "cur_num_workers db = 1"
    and f: "iinv fresh" "\<And>k. ikey_ok k \<Longrightarrow> ix_get ix k fresh = INVALID_VALUE" and ok: "iok (db_index db)"
    and cl: "reserved_segment cl = Some (num_segments (db_log db) - 1)" "backup_segment cl = None"
  shows "\<exists>cls' db'. DB_RecoveryAll ix fresh junk now' [cl] (worker_delete now w db) = Inr (cls', db') \<and>
    (\<forall>key. ikey_ok (index_key key) \<longrightarrow> worker_Get ix key db' = worker_Get ix key db)"
proof -
  let ?l = "db_log db" and ?d = "worker_delete now w db" and ?E = "all_entries (db_log db)"
  note d = solo_deleted [OF solo, where now = now]
  obtain fr where o1: "in_order {num_segments (db_log ?d) - 1} fr (db_log ?d)" using d(1) by blast
  have inv: "log_inv (insert (num_segments ?l - 1) (set_option (log_head w))) ?l" using solo(1) by (auto simp: solo_log_def in_order_def)
  have i1: "log_inv {num_segments (db_log ?d) - 1} (db_log ?d)" using o1 by (simp add: in_order_def)
  have ok1: "iok (db_index ?d)" using ok by (simp add: d(5))
  have "\<exists>cls' db'. DB_RecoveryAll ix fresh junk now' [cl] ?d = Inr (cls', db') \<and>
    (\<forall>key. ikey_ok (index_key key) \<longrightarrow> worker_Get ix key db' = worker_Get ix key ?d)"
    by (rule order_recovery [OF o1 d(2,3) f ok1]) (use cl in \<open>simp_all add: d(4)\<close>)
  moreover have "worker_Get ix key ?d = worker_Get ix key db" if "ikey_ok (index_key key)" for key
  proof -
    have nw: "newest (pm_bytes (lpool (db_log ?d))) ?E (index_key key) = newest (pm_bytes (lpool ?l)) ?E (index_key key)"
      by (rule newest_cong) (use d(7) in simp)
    show ?thesis using newest_in [of "pm_bytes (lpool ?l)" ?E "index_key key"] d(7)
      replayed_get [OF inv solo(2) f ok that] replayed_get [OF i1 d(2) f ok1 that] by (auto simp: Let_def d(6) nw)
  qed
  ultimately show ?thesis by auto
qed

end

end
