(* ===== verification/Flat_Hash.thy ===== *)
theory Flat_Hash
  imports Prelude
begin

text \<open>
  The hash functions of the store (\<open>util/hash.h\<close>) on a buffer given as its bytes, and the
  fact the hash index rests on: the function it uses maps different 64-bit keys to different
  hashes. \<open>standard\<close> calls \<open>std::_Hash_bytes\<close>, the 64-bit Murmur hash of the C++ library.
\<close>

section \<open>\<open>standard\<close>\<close>

definition shift_mix :: "u64 \<Rightarrow> u64" where
  "shift_mix v = v XOR drop_bit 47 v"

definition hash_mul :: u64 where
  "hash_mul = push_bit 32 0xc6a4a793 + 0x5bd1e995"

function Hash_bytes_loop :: "byte list \<Rightarrow> u64 \<Rightarrow> byte list \<times> u64" where
  "Hash_bytes_loop bs hash =
     (if 8 \<le> length bs
      then Hash_bytes_loop (drop 8 bs) ((hash XOR (shift_mix (le_word (take 8 bs) * hash_mul) * hash_mul)) * hash_mul)
      else (bs, hash))"
  by pat_completeness auto
termination by (relation "measure (\<lambda>(bs, _). length bs)") auto

declare Hash_bytes_loop.simps [simp del]

definition standard :: "byte list \<Rightarrow> u64 \<Rightarrow> u64" where
  "standard bs seed =
     (let (rest, hash) = Hash_bytes_loop bs (seed XOR (of_nat (length bs) * hash_mul));
          hash = (if rest \<noteq> [] then (hash XOR le_word rest) * hash_mul else hash)
      in shift_mix (shift_mix hash * hash_mul))"

section \<open>\<open>jenkins\<close> and \<open>murmur2\<close>\<close>

text \<open>A byte of the key is a signed \<open>char\<close>: it is sign-extended before the addition.\<close>

definition jenkins_step :: "byte \<Rightarrow> u64 \<Rightarrow> u64" where
  "jenkins_step c hash =
     (let hash = hash + scast c; hash = hash + push_bit 10 hash in hash XOR drop_bit 6 hash)"

definition jenkins :: "byte list \<Rightarrow> u64 \<Rightarrow> u64" where
  "jenkins bs seed =
     (let hash = fold jenkins_step bs 0;
          hash = hash + push_bit 3 hash;
          hash = hash XOR drop_bit 11 hash
      in hash + push_bit 15 hash)"

definition murmur_m :: u32 where "murmur_m = 0x5bd1e995"

function murmur2_loop :: "byte list \<Rightarrow> u32 \<Rightarrow> byte list \<times> u32" where
  "murmur2_loop bs h =
     (if 4 \<le> length bs then
        let k = le_word (take 4 bs);
            k = k * murmur_m; k = k XOR drop_bit 24 k; k = k * murmur_m;
            h = h * murmur_m; h = h XOR k
        in murmur2_loop (drop 4 bs) h
      else (bs, h))"
  by pat_completeness auto
termination by (relation "measure (\<lambda>(bs, _). length bs)") auto

declare murmur2_loop.simps [simp del]

text \<open>The fall-through \<open>switch\<close> on the last bytes.\<close>

definition murmur2_tail :: "byte list \<Rightarrow> u32 \<Rightarrow> u32" where
  "murmur2_tail bs h =
     (let h = (if length bs = 3 then h XOR push_bit 16 (ucast (bs ! 2)) else h);
          h = (if length bs \<in> {2, 3} then h XOR push_bit 8 (ucast (bs ! 1)) else h)
      in if length bs \<in> {1, 2, 3} then (h XOR ucast (bs ! 0)) * murmur_m else h)"

definition murmur2 :: "byte list \<Rightarrow> u64 \<Rightarrow> u64" where
  "murmur2 bs seed =
     (let (rest, h) = murmur2_loop bs (ucast (seed XOR of_nat (length bs)));
          h = murmur2_tail rest h;
          h = h XOR drop_bit 13 h;
          h = h * murmur_m;
          h = h XOR drop_bit 15 h
      in ucast h)"

section \<open>\<open>xxhash\<close>\<close>

definition NUMBER64_1 :: u64 where "NUMBER64_1 = 11400714785074694791"
definition NUMBER64_2 :: u64 where "NUMBER64_2 = 14029467366897019727"
definition NUMBER64_3 :: u64 where "NUMBER64_3 = 1609587929392839161"
definition NUMBER64_4 :: u64 where "NUMBER64_4 = 9650029242287828579"
definition NUMBER64_5 :: u64 where "NUMBER64_5 = 2870177450012600261"

definition shifting_hash :: "u64 \<Rightarrow> nat \<Rightarrow> u64" where
  "shifting_hash x r = push_bit r x OR drop_bit (64 - r) x"

text \<open>One accumulator: \<open>v += bits * NUMBER64_2; v = shifting_hash(v, 31); v *= NUMBER64_1\<close>.\<close>

definition xx_round :: "u64 \<Rightarrow> u64 \<Rightarrow> u64" where
  "xx_round v bits = shifting_hash (v + bits * NUMBER64_2) 31 * NUMBER64_1"

definition xx_merge :: "u64 \<Rightarrow> u64 \<Rightarrow> u64" where
  "xx_merge hash v = (hash XOR (shifting_hash (v * NUMBER64_2) 31 * NUMBER64_1)) * NUMBER64_1 + NUMBER64_4"

definition get64 :: "byte list \<Rightarrow> nat \<Rightarrow> u64" where
  "get64 bs i = le_word (take 8 (drop i bs))"

text \<open>The \<open>do ... while (p <= limitation)\<close> loop over blocks of 32 bytes.\<close>

function xx_blocks :: "byte list \<Rightarrow> u64 \<times> u64 \<times> u64 \<times> u64 \<Rightarrow> byte list \<times> u64 \<times> u64 \<times> u64 \<times> u64" where
  "xx_blocks bs v =
     (if 32 \<le> length bs then
        case v of (v1, v2, v3, v4) \<Rightarrow>
          xx_blocks (drop 32 bs)
            (xx_round v1 (get64 bs 0), xx_round v2 (get64 bs 8), xx_round v3 (get64 bs 16), xx_round v4 (get64 bs 24))
      else (bs, v))"
  by pat_completeness auto
termination by (relation "measure (\<lambda>(bs, _). length bs)") auto

function xx_tail8 :: "byte list \<Rightarrow> u64 \<Rightarrow> byte list \<times> u64" where
  "xx_tail8 bs hash =
     (if 8 \<le> length bs then
        let k1 = shifting_hash (get64 bs 0 * NUMBER64_2) 31 * NUMBER64_1;
            hash = hash XOR k1
        in xx_tail8 (drop 8 bs) (shifting_hash hash 27 * NUMBER64_1 + NUMBER64_4)
      else (bs, hash))"
  by pat_completeness auto
termination by (relation "measure (\<lambda>(bs, _). length bs)") auto

declare xx_blocks.simps [simp del] xx_tail8.simps [simp del]

definition xx_tail4 :: "byte list \<times> u64 \<Rightarrow> byte list \<times> u64" where
  "xx_tail4 p =
     (let (bs, hash) = p in
      if 4 \<le> length bs then
        (drop 4 bs, shifting_hash (hash XOR (ucast (le_word (take 4 bs) :: u32) * NUMBER64_1)) 23 * NUMBER64_2 + NUMBER64_3)
      else (bs, hash))"

definition xx_tail1 :: "byte \<Rightarrow> u64 \<Rightarrow> u64" where
  "xx_tail1 b hash = shifting_hash (hash XOR (ucast b * NUMBER64_5)) 11 * NUMBER64_1"

definition xx_final :: "u64 \<Rightarrow> u64" where
  "xx_final hash =
     (let hash = hash XOR drop_bit 33 hash;
          hash = hash * NUMBER64_2;
          hash = hash XOR drop_bit 29 hash;
          hash = hash * NUMBER64_3
      in hash XOR drop_bit 32 hash)"

definition hash_compute :: "byte list \<Rightarrow> u64 \<Rightarrow> u64" where
  "hash_compute input seed =
     (let (bs, hash) =
        (if 32 \<le> length input then
           let (bs, v1, v2, v3, v4) =
                 xx_blocks input (seed + NUMBER64_1 + NUMBER64_2, seed + NUMBER64_2, seed + 0, seed - NUMBER64_1);
               hash = shifting_hash v1 1 + shifting_hash v2 7 + shifting_hash v3 12 + shifting_hash v4 18;
               hash = xx_merge (xx_merge (xx_merge (xx_merge hash v1) v2) v3) v4
           in (bs, hash)
         else (input, seed + NUMBER64_5));
          hash = hash + of_nat (length input);
          (bs, hash) = xx_tail4 (xx_tail8 bs hash)
      in xx_final (fold xx_tail1 bs hash))"

text \<open>Both alignments read the same eight bytes, so the test of the address has no effect.\<close>

definition xxhash :: "byte list \<Rightarrow> u64 \<Rightarrow> u64" where
  "xxhash bs seed = hash_compute bs seed"

section \<open>The table of hash functions\<close>

definition hash_funcs :: "(byte list \<Rightarrow> u64 \<Rightarrow> u64) list" where
  "hash_funcs = [standard, murmur2, jenkins, xxhash]"

definition f_seed :: u64 where "f_seed = 0xc70697"

text \<open>The hash of a 64-bit key, read from memory on a little-endian machine.\<close>

definition key_hash :: "u64 \<Rightarrow> u64" where
  "key_hash key = (hash_funcs ! 0) (le_bytes 8 key) f_seed"

section \<open>Invertible steps\<close>

lemma xorshift_inject:
  fixes v w :: u64
  assumes "0 < n" and eq: "v XOR drop_bit n v = w XOR drop_bit n w"
  shows "v = w"
proof (rule bit_word_eqI)
  have step: "(bit v i \<noteq> bit v (n + i)) = (bit w i \<noteq> bit w (n + i))" for i
    using arg_cong [OF eq, of "\<lambda>x. bit x i"] by (simp add: bit_xor_iff bit_drop_bit_eq)
  have "bit v i = bit w i" if "64 - i = k" for i k
    using that
  proof (induction k arbitrary: i rule: less_induct)
    case (less k)
    show ?case
    proof (cases "i < 64")
      case True
      then have "64 - (n + i) < k" using less.prems assms(1) by simp
      then have "bit v (n + i) = bit w (n + i)" using less.IH by blast
      then show ?thesis using step by blast
    next
      case False
      then show ?thesis by (auto dest: bit_imp_le_length)
    qed
  qed
  then show "bit v i = bit w i" for i by blast
qed

text \<open>The rotation written with two shifts is the rotation of the word library.\<close>

lemma shifting_hash_rotl:
  assumes "r < 64" shows "shifting_hash x r = word_rotl r x"
proof (rule bit_word_eqI)
  fix n assume "n < LENGTH(64)"
  then have n: "n < 64" by simp
  have "(n + 64 - r) mod 64 = (if r \<le> n then n - r else n + 64 - r)"
    using n assms by (auto simp: mod_if)
  moreover have "\<not> bit x (64 - r + n)" if "r \<le> n" using that assms by (auto dest: bit_imp_le_length)
  ultimately show "bit (shifting_hash x r) n = bit (word_rotl r x) n"
    using n assms by (auto simp: shifting_hash_def bit_or_iff bit_push_bit_iff bit_drop_bit_eq bit_word_rotl_iff add.commute [of n 64])
qed

lemma shifting_hash_inject: "r < 64 \<Longrightarrow> shifting_hash x r = shifting_hash y r \<Longrightarrow> x = y"
  by (metis shifting_hash_rotl word_rot_lr)

text \<open>The multipliers are odd, so multiplication by them is cancelled by an inverse.\<close>

lemma mul_inverses:
  "hash_mul * 6879827495036328381 = 1"
  "NUMBER64_1 * 614540362697595703 = 1" "NUMBER64_2 * 839798700976720815 = 1" "NUMBER64_3 * 16855272203555305545 = 1"
  by (simp_all add: hash_mul_def NUMBER64_1_def NUMBER64_2_def NUMBER64_3_def)

lemmas mul_inject = mul_inverses [THEN odd_mult_cancel]

lemma shift_mix_inject: "shift_mix v = shift_mix w \<Longrightarrow> v = w"
  unfolding shift_mix_def by (rule xorshift_inject [where n = 47]) simp_all

lemma hash_mul_inject: "v * hash_mul = w * hash_mul \<Longrightarrow> v = w"
  using mul_inject(1) by (simp add: mult.commute)

lemma xor_inject:
  fixes a v w :: u64
  assumes "a XOR v = a XOR w" shows "v = w"
proof (rule bit_word_eqI)
  show "bit v n = bit w n" for n using arg_cong [OF assms, of "\<lambda>x. bit x n"] by (auto simp: bit_xor_iff)
qed

section \<open>Hashing a 64-bit key\<close>

lemma standard_key:
  "standard (le_bytes 8 key) seed =
     shift_mix (shift_mix (((seed XOR (8 * hash_mul)) XOR (shift_mix (key * hash_mul) * hash_mul)) * hash_mul) * hash_mul)"
  by (simp add: standard_def Hash_bytes_loop.simps le_word_le_bytes_full)

lemma standard_key_inject: "standard (le_bytes 8 k) seed = standard (le_bytes 8 k') seed \<Longrightarrow> k = k'" for k k' :: u64
  unfolding standard_key by (meson shift_mix_inject hash_mul_inject xor_inject)

lemma xxhash_key:
  "xxhash (le_bytes 8 key) seed =
     xx_final (shifting_hash ((seed + NUMBER64_5 + 8) XOR (shifting_hash (key * NUMBER64_2) 31 * NUMBER64_1)) 27 * NUMBER64_1 + NUMBER64_4)"
  by (simp add: xxhash_def hash_compute_def xx_tail8.simps xx_tail4_def get64_def Let_def le_word_le_bytes_full)

lemma number_inject:
  "v * NUMBER64_1 = w * NUMBER64_1 \<Longrightarrow> v = w" "v * NUMBER64_2 = w * NUMBER64_2 \<Longrightarrow> v = w"
  "v * NUMBER64_3 = w * NUMBER64_3 \<Longrightarrow> v = w"
  by (metis mul_inject(2) mult.commute, metis mul_inject(3) mult.commute, metis mul_inject(4) mult.commute)

lemma xx_final_inject: "xx_final v = xx_final w \<Longrightarrow> v = w"
  unfolding xx_final_def Let_def
  by (drule xorshift_inject [rotated], simp, drule number_inject, drule xorshift_inject [rotated], simp,
      drule number_inject, drule xorshift_inject [rotated], simp, assumption)

lemma xxhash_key_inject: "xxhash (le_bytes 8 k) seed = xxhash (le_bytes 8 k') seed \<Longrightarrow> k = k'" for k k' :: u64
  unfolding xxhash_key
  by (drule xx_final_inject, drule add_right_imp_eq, drule number_inject, drule shifting_hash_inject [rotated], simp,
      drule xor_inject, drule number_inject, drule shifting_hash_inject [rotated], simp, drule number_inject, assumption)

lemma key_hash_one_to_one: "inj key_hash"
  by (auto simp: inj_def key_hash_def hash_funcs_def dest: standard_key_inject)

text \<open>
  C13: the hash index never sees two keys with the same hash: \<open>hash_funcs[0]\<close> with the index's seed
  is one-to-one on 64-bit keys, whatever the seed, and so is the unused \<open>xxhash\<close>.
\<close>

theorem key_hash_inj:
  "inj key_hash \<and> inj (\<lambda>k :: u64. standard (le_bytes 8 k) seed) \<and> inj (\<lambda>k :: u64. xxhash (le_bytes 8 k) seed)"
  using key_hash_one_to_one by (auto simp: inj_def dest: standard_key_inject xxhash_key_inject)

end
