(* ===== verification/CCEH.thy ===== *)
theory CCEH
  imports Flat_DB Flat_Hash
begin

unbundle bit_operations_syntax

text \<open>
  The extendible hash table of \<^verbatim>\<open>db/index/CCEH/CCEH.h\<close> and \<^verbatim>\<open>CCEH_MSB.cpp\<close> (in-place split),
  and the index of \<^verbatim>\<open>db/index_cceh.h\<close> built on it. The hash function \<open>h\<close> is the standard
  library's \<open>_Hash_bytes\<close> and stays a parameter. Segments are objects on a heap because several
  directory entries point to the same one. Calls are atomic here, so every lock is granted at once.
\<close>

section \<open>State\<close>

definition SENTINEL :: u64 where "SENTINEL = - 2"
definition INVALID_KEY :: u64 where "INVALID_KEY = - 1"
definition NONE_VALUE :: nat where "NONE_VALUE = 0"

definition kMask :: u64 where "kMask = 255"
definition kNumPairPerCacheLine :: nat where "kNumPairPerCacheLine = 4"
definition kNumCacheLine :: nat where "kNumCacheLine = 8"
definition kNumSlot :: nat where "kNumSlot = 1024"

record cceh_seg =
  sg_slots :: "nat \<Rightarrow> u64 \<times> nat"
  local_depth :: nat

text \<open>\<open>cerr\<close> are the keys whose copy in a split failed, which the code only reports on the error stream.\<close>

record cceh =
  dir_depth :: nat
  dir_ptr :: "nat \<Rightarrow> nat"
  sg_heap :: "nat \<Rightarrow> cceh_seg"
  next_seg :: nat
  cerr :: "u64 list"
  undefined_behaviour :: bool

definition seg_new :: "nat \<Rightarrow> cceh_seg" where
  "seg_new depth = \<lparr>sg_slots = (\<lambda>_. (INVALID_KEY, 0)), local_depth = depth\<rparr>"

text \<open>\<open>CCEH(initCap)\<close> with \<open>depth = log2(initCap)\<close>: one segment per directory entry.\<close>

definition cceh_new :: "nat \<Rightarrow> cceh" where
  "cceh_new depth = \<lparr>dir_depth = depth, dir_ptr = (\<lambda>i. i), sg_heap = (\<lambda>_. seg_new depth), next_seg = 2 ^ depth,
     cerr = [], undefined_behaviour = False\<rparr>"

section \<open>Operations\<close>

definition f_idx :: "(u64 \<Rightarrow> u64) \<Rightarrow> u64 \<Rightarrow> nat" where
  "f_idx h key = unat (h key AND kMask) * kNumPairPerCacheLine"

text \<open>The slots probed for a key, in order; the first one with a given property.\<close>

definition window :: "nat \<Rightarrow> nat list" where
  "window loc = List.map (\<lambda>i. (loc + i) mod kNumSlot) [0..<kNumPairPerCacheLine * kNumCacheLine]"

definition probe :: "(nat \<Rightarrow> bool) \<Rightarrow> nat \<Rightarrow> nat option" where
  "probe P loc = List.find P (window loc)"

definition dir_index :: "(u64 \<Rightarrow> u64) \<Rightarrow> u64 \<Rightarrow> cceh \<Rightarrow> nat" where
  "dir_index h key t = unat (drop_bit (64 - dir_depth t) (h key))"

definition target :: "(u64 \<Rightarrow> u64) \<Rightarrow> u64 \<Rightarrow> cceh \<Rightarrow> nat" where
  "target h key t = dir_ptr t (dir_index h key t)"

definition cceh_Get :: "(u64 \<Rightarrow> u64) \<Rightarrow> u64 \<Rightarrow> cceh \<Rightarrow> nat" where
  "cceh_Get h key t =
     (let sg = sg_heap t (target h key t) in
      case probe (\<lambda>i. fst (sg_slots sg i) = key) (f_idx h key) of
        None \<Rightarrow> NONE_VALUE | Some i \<Rightarrow> snd (sg_slots sg i))"

definition set_slot :: "nat \<Rightarrow> u64 \<times> nat \<Rightarrow> cceh_seg \<Rightarrow> cceh_seg" where
  "set_slot i kv sg = sg\<lparr>sg_slots := (sg_slots sg)(i := kv)\<rparr>"

definition Insert4split :: "u64 \<Rightarrow> nat \<Rightarrow> nat \<Rightarrow> cceh_seg \<Rightarrow> cceh_seg option" where
  "Insert4split key val loc sg =
     (case probe (\<lambda>i. fst (sg_slots sg i) = INVALID_KEY) loc of
        None \<Rightarrow> None | Some i \<Rightarrow> Some (set_slot i (key, val) sg))"

text \<open>
  \<open>Split\<close>: the entries whose next hash bit is set are copied to a new segment. A failed copy is
  only logged; the keys that failed are the second result.
\<close>

definition split_step :: "(u64 \<Rightarrow> u64) \<Rightarrow> u64 \<Rightarrow> cceh_seg \<Rightarrow> nat \<Rightarrow> cceh_seg \<times> u64 list \<Rightarrow> cceh_seg \<times> u64 list" where
  "split_step h pattern old i acc =
     (let (new, lost) = acc; (key, val) = sg_slots old i in
      if h key AND pattern \<noteq> 0 then
        case Insert4split key val (f_idx h key) new of
          None \<Rightarrow> (new, lost @ [key]) | Some new' \<Rightarrow> (new', lost)
      else (new, lost))"

definition Split :: "(u64 \<Rightarrow> u64) \<Rightarrow> cceh_seg \<Rightarrow> cceh_seg \<times> u64 list" where
  "Split h old =
     fold (split_step h (push_bit (64 - local_depth old - 1) 1) old) [0..<kNumSlot] (seg_new (local_depth old + 1), [])"

text \<open>The directory after a split of segment \<open>tg\<close> of local depth \<open>ld\<close>; \<open>sg1\<close> is the new segment.\<close>

definition dir_split :: "(u64 \<Rightarrow> u64) \<Rightarrow> u64 \<Rightarrow> nat \<Rightarrow> nat \<Rightarrow> nat \<Rightarrow> cceh \<Rightarrow> cceh" where
  "dir_split h key tg sg1 ld t =
     (let x = dir_index h key t; d = dir_ptr t in
      if ld = dir_depth t then
        t\<lparr>dir_depth := dir_depth t + 1,
          dir_ptr := (\<lambda>j. if j div 2 = x then (if even j then tg else sg1) else d (j div 2))\<rparr>
      else if dir_depth t = ld + 1 then
        (if even x then t\<lparr>dir_ptr := d(x + 1 := sg1)\<rparr> else t\<lparr>dir_ptr := d(x := sg1)\<rparr>)
      else
        let stride = 2 ^ (dir_depth t - ld); loc = x - x mod stride in
        t\<lparr>dir_ptr := (\<lambda>j. if loc + stride div 2 \<le> j \<and> j < loc + stride div 2 + stride div 2 then sg1 else d j)\<rparr>)"

text \<open>
  \<open>Insert\<close>: update the entry of the key, else take the first free slot (empty, or left over
  from an earlier split), else split and try again. \<open>old0\<close> is the helper's old value on entry
  (\<open>INVALID_VALUE\<close> for a client), the result its old value on return.
  \<open>None\<close>: splitting at local depth 64 shifts by a negative amount, or the fuel ran out.
\<close>

definition slot_free :: "(u64 \<Rightarrow> u64) \<Rightarrow> u64 \<Rightarrow> cceh_seg \<Rightarrow> nat \<Rightarrow> bool" where
  "slot_free h key sg i \<longleftrightarrow>
     (drop_bit (64 - local_depth sg) (h (fst (sg_slots sg i))) \<noteq> drop_bit (64 - local_depth sg) (h key)
      \<or> fst (sg_slots sg i) = INVALID_KEY) \<and> fst (sg_slots sg i) \<noteq> SENTINEL"

definition on_target :: "nat \<Rightarrow> cceh_seg \<Rightarrow> cceh \<Rightarrow> cceh" where
  "on_target tg sg t = t\<lparr>sg_heap := (sg_heap t)(tg := sg)\<rparr>"

definition split_target :: "(u64 \<Rightarrow> u64) \<Rightarrow> u64 \<Rightarrow> cceh \<Rightarrow> cceh" where
  "split_target h key t =
     (let tg = target h key t; sg = sg_heap t tg; (new, lost) = Split h sg; sg1 = next_seg t;
          t = on_target sg1 new (t\<lparr>next_seg := sg1 + 1, cerr := cerr t @ lost\<rparr>);
          t = dir_split h key tg sg1 (local_depth sg) t
      in on_target tg (sg\<lparr>local_depth := local_depth sg + 1\<rparr>) t)"

fun cceh_Insert :: "nat \<Rightarrow> (u64 \<Rightarrow> u64) \<Rightarrow> u64 \<Rightarrow> nat \<Rightarrow> nat \<Rightarrow> cceh \<Rightarrow> (nat \<times> cceh) option" where
  "cceh_Insert 0 h key val old0 t = None"
| "cceh_Insert (Suc n) h key val old0 t =
     (let tg = target h key t; sg = sg_heap t tg in
      case probe (\<lambda>i. fst (sg_slots sg i) = key) (f_idx h key) of
        Some i \<Rightarrow>
          let cur = snd (sg_slots sg i) in
          if old0 \<noteq> INVALID_VALUE then
            (if cur = old0 then Some (old0, on_target tg (set_slot i (key, val) sg) t) else Some (val, t))
          else Some (cur, on_target tg (set_slot i (key, val) sg) t)
      | None \<Rightarrow>
          (case probe (slot_free h key sg) (f_idx h key) of
             Some i \<Rightarrow> Some (old0, on_target tg (set_slot i (key, val) sg) t)
           | None \<Rightarrow>
               if local_depth sg \<ge> 64 then None
               else cceh_Insert n h key val old0 (split_target h key t)))"

text \<open>Each round that does not return splits, which raises the local depth of the key's segment.\<close>

definition insert_rounds :: nat where "insert_rounds = 66"

text \<open>The virtual table of \<open>CCEHIndex\<close> (\<open>GCMove\<close> without shortcuts); \<open>Scan\<close> is not supported.\<close>

definition cceh_ops :: "(u64 \<Rightarrow> u64) \<Rightarrow> cceh index_ops" where
  "cceh_ops h =
     (let ins = (\<lambda>k old v t. case cceh_Insert insert_rounds h k v old t of
                               None \<Rightarrow> (INVALID_VALUE, t\<lparr>undefined_behaviour := True\<rparr>) | Some r \<Rightarrow> r)
      in \<lparr>ix_get = cceh_Get h, ix_put = (\<lambda>k. ins k INVALID_VALUE), ix_gc = ins, ix_scan = (\<lambda>_ _ _. None)\<rparr>)"

section \<open>Segments\<close>

lemma window_set: "set (window loc) = (\<lambda>i. (loc + i) mod kNumSlot) ` {..<32}"
  by (auto simp: window_def kNumPairPerCacheLine_def kNumCacheLine_def)

lemma window_card: "card (set (window loc)) = 32"
proof -
  have "inj_on (\<lambda>i. (loc + i) mod kNumSlot) {..<32}"
  proof (rule inj_onI)
    fix i j :: nat
    assume ij: "i \<in> {..<32}" "j \<in> {..<32}" and "(loc + i) mod kNumSlot = (loc + j) mod kNumSlot"
    then have "i mod kNumSlot = j mod kNumSlot" by (simp add: mod_add_cong nat_mod_eq_iff)
    then show "i = j" using ij by (simp add: kNumSlot_def)
  qed
  then show ?thesis by (simp add: window_set card_image)
qed

lemma probe_None: "probe P loc = None \<longleftrightarrow> (\<forall>i \<in> set (window loc). \<not> P i)"
  by (auto simp: probe_def find_None_iff)

lemma probe_Some: "probe P loc = Some i \<Longrightarrow> P i \<and> i \<in> set (window loc)"
  by (auto simp: probe_def find_Some_iff)

lemma window_lt: "i \<in> set (window loc) \<Longrightarrow> i < kNumSlot"
  by (auto simp: window_set kNumSlot_def)

definition key_valid :: "u64 \<Rightarrow> bool" where
  "key_valid k \<longleftrightarrow> k \<noteq> INVALID_KEY \<and> k \<noteq> SENTINEL"

lemma sentinel_not_invalid: "SENTINEL \<noteq> INVALID_KEY" by (simp add: SENTINEL_def INVALID_KEY_def)

text \<open>Every key of a segment is in its window and occurs once; no slot is left in transit.\<close>

definition seg_inv :: "(u64 \<Rightarrow> u64) \<Rightarrow> cceh_seg \<Rightarrow> bool" where
  "seg_inv h sg \<longleftrightarrow>
     (\<forall>i < kNumSlot. fst (sg_slots sg i) \<noteq> INVALID_KEY \<longrightarrow>
        fst (sg_slots sg i) \<noteq> SENTINEL \<and> i \<in> set (window (f_idx h (fst (sg_slots sg i)))) \<and>
        (\<forall>j < kNumSlot. fst (sg_slots sg j) = fst (sg_slots sg i) \<longrightarrow> j = i))"

definition seg_get :: "(u64 \<Rightarrow> u64) \<Rightarrow> u64 \<Rightarrow> cceh_seg \<Rightarrow> nat" where
  "seg_get h key sg =
     (case probe (\<lambda>i. fst (sg_slots sg i) = key) (f_idx h key) of
        None \<Rightarrow> NONE_VALUE | Some i \<Rightarrow> snd (sg_slots sg i))"

lemma cceh_Get_seg: "cceh_Get h key t = seg_get h key (sg_heap t (target h key t))"
  by (simp add: cceh_Get_def seg_get_def Let_def)

text \<open>The search finds the slot of the key wherever it is in the segment.\<close>

lemma seg_probe:
  assumes "seg_inv h sg" and "key_valid key"
  shows "probe (\<lambda>i. fst (sg_slots sg i) = key) (f_idx h key) = Some i \<longleftrightarrow> i < kNumSlot \<and> fst (sg_slots sg i) = key"
proof
  assume i: "i < kNumSlot \<and> fst (sg_slots sg i) = key"
  then have w: "i \<in> set (window (f_idx h key))"
    and u: "\<And>j. j < kNumSlot \<Longrightarrow> fst (sg_slots sg j) = key \<Longrightarrow> j = i"
    using assms by (auto simp: seg_inv_def key_valid_def)
  then obtain j where j: "probe (\<lambda>i. fst (sg_slots sg i) = key) (f_idx h key) = Some j"
    using i probe_None [of "\<lambda>i. fst (sg_slots sg i) = key" "f_idx h key"] by auto
  then have "j = i" using u probe_Some [OF j] window_lt by blast
  then show "probe (\<lambda>i. fst (sg_slots sg i) = key) (f_idx h key) = Some i" using j by simp
qed (use probe_Some window_lt in blast)

lemma seg_get_slot:
  assumes "seg_inv h sg" and "key_valid key" and "i < kNumSlot" and "fst (sg_slots sg i) = key"
  shows "seg_get h key sg = snd (sg_slots sg i)"
  using seg_probe [OF assms(1,2), of i] assms(3,4) by (simp add: seg_get_def)

lemma seg_get_none:
  assumes "\<And>i. i < kNumSlot \<Longrightarrow> fst (sg_slots sg i) \<noteq> key"
  shows "seg_get h key sg = NONE_VALUE"
  using assms window_lt by (auto simp: seg_get_def probe_None dest!: probe_Some split: option.splits)

text \<open>Writing a slot that is free or already the key's own.\<close>

lemma set_slot_inv:
  assumes inv: "seg_inv h sg" and k: "key_valid key" and w: "i \<in> set (window (f_idx h key))"
    and no: "\<forall>j < kNumSlot. fst (sg_slots sg j) = key \<longrightarrow> j = i"
  shows "seg_inv h (set_slot i (key, val) sg)"
    and "key_valid key' \<Longrightarrow> key' \<noteq> fst (sg_slots sg i) \<or> key' = key \<Longrightarrow>
      seg_get h key' (set_slot i (key, val) sg) = (if key' = key then val else seg_get h key' sg)"
proof -
  let ?sg = "set_slot i (key, val) sg"
  have i: "i < kNumSlot" by (rule window_lt [OF w])
  show inv': "seg_inv h ?sg"
    unfolding seg_inv_def
  proof (intro allI impI)
    fix j assume j: "j < kNumSlot" and v: "fst (sg_slots ?sg j) \<noteq> INVALID_KEY"
    show "fst (sg_slots ?sg j) \<noteq> SENTINEL \<and> j \<in> set (window (f_idx h (fst (sg_slots ?sg j)))) \<and>
      (\<forall>l < kNumSlot. fst (sg_slots ?sg l) = fst (sg_slots ?sg j) \<longrightarrow> l = j)"
    proof (cases "j = i")
      case True
      then show ?thesis using k w no by (auto simp: set_slot_def key_valid_def)
    next
      case False
      then have s: "fst (sg_slots ?sg j) = fst (sg_slots sg j)" by (simp add: set_slot_def)
      moreover have "fst (sg_slots ?sg i) = key" by (simp add: set_slot_def)
      moreover have "fst (sg_slots sg j) \<noteq> key" using no j False by auto
      moreover have "fst (sg_slots ?sg l) = fst (sg_slots sg l)" if "l \<noteq> i" for l using that by (simp add: set_slot_def)
      moreover have "fst (sg_slots sg j) \<noteq> SENTINEL \<and> j \<in> set (window (f_idx h (fst (sg_slots sg j)))) \<and>
        (\<forall>l < kNumSlot. fst (sg_slots sg l) = fst (sg_slots sg j) \<longrightarrow> l = j)"
        using inv j v s unfolding seg_inv_def by metis
      ultimately show ?thesis by metis
    qed
  qed
  assume k': "key_valid key'" "key' \<noteq> fst (sg_slots sg i) \<or> key' = key"
  show "seg_get h key' ?sg = (if key' = key then val else seg_get h key' sg)"
  proof (cases "key' = key")
    case True
    then show ?thesis using seg_get_slot [OF inv' k i] by (simp add: set_slot_def)
  next
    case False
    show ?thesis
    proof (cases "\<exists>j < kNumSlot. fst (sg_slots sg j) = key'")
      case True
      then obtain j where j: "j < kNumSlot" "fst (sg_slots sg j) = key'" by auto
      then have "j \<noteq> i" using k'(2) False by auto
      then show ?thesis
        using seg_get_slot [OF inv' k'(1) j(1)] seg_get_slot [OF inv k'(1) j] j False by (simp add: set_slot_def)
    next
      case none: False
      then show ?thesis using seg_get_none [of sg key' h] seg_get_none [of ?sg key' h] False
        by (auto simp: set_slot_def)
    qed
  qed
qed

text \<open>An empty slot stays empty when an empty entry is copied into it.\<close>

lemma set_slot_empty:
  assumes inv: "seg_inv h sg" and e: "fst (sg_slots sg i) = INVALID_KEY"
  shows "seg_inv h (set_slot i (INVALID_KEY, val) sg)"
    and "key_valid key \<Longrightarrow> seg_get h key (set_slot i (INVALID_KEY, val) sg) = seg_get h key sg"
proof -
  let ?sg = "set_slot i (INVALID_KEY, val) sg"
  have f: "fst (sg_slots ?sg j) = fst (sg_slots sg j)" for j using e by (simp add: set_slot_def)
  show "seg_inv h ?sg" using inv by (simp add: seg_inv_def f)
  assume k: "key_valid key"
  have "sg_slots ?sg j = sg_slots sg j" if "fst (sg_slots sg j) = key" for j
    using that e k by (auto simp: set_slot_def key_valid_def)
  then show "seg_get h key ?sg = seg_get h key sg"
    by (auto simp: seg_get_def f split: option.splits dest!: probe_Some)
qed

section \<open>Split\<close>

text \<open>What the copying loop has done after the slots below \<open>n\<close>.\<close>

definition split_inv :: "(u64 \<Rightarrow> u64) \<Rightarrow> u64 \<Rightarrow> cceh_seg \<Rightarrow> nat \<Rightarrow> cceh_seg \<times> u64 list \<Rightarrow> bool" where
  "split_inv h pattern old n acc \<longleftrightarrow>
     (let (new, lost) = acc in
      seg_inv h new \<and> local_depth new = local_depth old + 1 \<and>
      (\<forall>key j. key_valid key \<and> j < kNumSlot \<and> fst (sg_slots new j) = key \<longrightarrow> (\<exists>i < n. fst (sg_slots old i) = key)) \<and>
      (\<forall>i < n. key_valid (fst (sg_slots old i)) \<and> h (fst (sg_slots old i)) AND pattern \<noteq> 0 \<and>
          fst (sg_slots old i) \<notin> set lost \<longrightarrow> seg_get h (fst (sg_slots old i)) new = snd (sg_slots old i)))"

lemma seg_new_inv [simp]: "seg_inv h (seg_new d)" by (simp add: seg_inv_def seg_new_def)

lemma split_step_inv:
  assumes old: "seg_inv h old" and n: "n < kNumSlot" and acc: "split_inv h pattern old n acc"
  shows "split_inv h pattern old (Suc n) (split_step h pattern old n acc)"
proof -
  obtain new lost where a: "acc = (new, lost)" by (cases acc)
  obtain key val where kv: "sg_slots old n = (key, val)" by (cases "sg_slots old n")
  have inv: "seg_inv h new" "local_depth new = local_depth old + 1"
    and src: "\<And>k j. key_valid k \<Longrightarrow> j < kNumSlot \<Longrightarrow> fst (sg_slots new j) = k \<Longrightarrow> \<exists>i < n. fst (sg_slots old i) = k"
    and got: "\<And>i. i < n \<Longrightarrow> key_valid (fst (sg_slots old i)) \<Longrightarrow> h (fst (sg_slots old i)) AND pattern \<noteq> 0 \<Longrightarrow>
          fst (sg_slots old i) \<notin> set lost \<Longrightarrow> seg_get h (fst (sg_slots old i)) new = snd (sg_slots old i)"
    using acc by (auto simp: split_inv_def a)
  show ?thesis
  proof (cases "h key AND pattern \<noteq> 0 \<and> Insert4split key val (f_idx h key) new \<noteq> None")
    case False
    then have "split_step h pattern old n acc = (new, if h key AND pattern \<noteq> 0 then lost @ [key] else lost)"
      by (auto simp: split_step_def a kv)
    then show ?thesis using inv src got kv False
      by (simp add: split_inv_def) (metis less_SucE less_SucI fst_conv)
  next
    case True
    then obtain i where i: "probe (\<lambda>i. fst (sg_slots new i) = INVALID_KEY) (f_idx h key) = Some i"
      by (auto simp: Insert4split_def split: option.splits)
    define new' where "new' = set_slot i (key, val) new"
    have e: "fst (sg_slots new i) = INVALID_KEY" "i \<in> set (window (f_idx h key))" using probe_Some [OF i] by auto
    have res: "split_step h pattern old n acc = (new', lost)"
      using True i by (simp add: split_step_def a kv Insert4split_def new'_def)
    have ld: "local_depth new' = local_depth old + 1" using inv(2) by (simp add: new'_def set_slot_def)
    have src': "\<exists>i < Suc n. fst (sg_slots old i) = k"
      if "key_valid k" "j < kNumSlot" "fst (sg_slots new' j) = k" for k j
    proof (cases "j = i")
      case True
      then have "k = key" using that(3) by (simp add: new'_def set_slot_def)
      then show ?thesis using kv by (intro exI [of _ n]) simp
    next
      case False
      then have "fst (sg_slots new j) = k" using that(3) by (simp add: new'_def set_slot_def)
      then show ?thesis using src [OF that(1,2)] less_SucI by blast
    qed
    have "seg_inv h new' \<and> (key_valid key \<longrightarrow> seg_get h key new' = val) \<and>
        (\<forall>k. key_valid k \<and> k \<noteq> key \<longrightarrow> seg_get h k new' = seg_get h k new)"
    proof (cases "key = INVALID_KEY")
      case True
      then show ?thesis using set_slot_empty [OF inv(1) e(1)] by (simp add: new'_def key_valid_def)
    next
      case False
      then have kv_ok: "key_valid key" and uniq: "\<And>j. j < kNumSlot \<Longrightarrow> fst (sg_slots old j) = key \<Longrightarrow> j = n"
        using old n kv unfolding seg_inv_def key_valid_def by (metis fst_conv)+
      have no: "\<forall>j < kNumSlot. fst (sg_slots new j) = key \<longrightarrow> j = i"
      proof (intro allI impI)
        fix j assume "j < kNumSlot" "fst (sg_slots new j) = key"
        then obtain i' where "i' < n" "fst (sg_slots old i') = key" using src [OF kv_ok] by blast
        then show "j = i" using uniq [of i'] n by auto
      qed
      note si = set_slot_inv [where val = val, OF inv(1) kv_ok e(2) no, folded new'_def]
      have "seg_get h k new' = seg_get h k new" if "key_valid k" "k \<noteq> key" for k
        using si(2) [OF that(1)] that e(1) by (simp add: key_valid_def)
      then show ?thesis using si(1) si(2) [OF kv_ok] by simp
    qed
    then have "seg_get h (fst (sg_slots old j)) new' = snd (sg_slots old j)"
      if "j < Suc n" "key_valid (fst (sg_slots old j))" "h (fst (sg_slots old j)) AND pattern \<noteq> 0"
        "fst (sg_slots old j) \<notin> set lost" for j
    proof (cases "j = n")
      case False
      then have j: "j < n" using that(1) by simp
      moreover have "fst (sg_slots old j) \<noteq> key"
      proof
        assume "fst (sg_slots old j) = key"
        then have "fst (sg_slots old n) = fst (sg_slots old j)" using kv by simp
        then show False using old that(2) j n unfolding seg_inv_def key_valid_def by (metis less_trans nat_neq_iff)
      qed
      ultimately show ?thesis using got [OF j that(2-4)] that(2) \<open>seg_inv h new' \<and> _\<close> by simp
    qed (use kv that(2) \<open>seg_inv h new' \<and> _\<close> in simp)
    then show ?thesis using ld src' \<open>seg_inv h new' \<and> _\<close> by (auto simp: split_inv_def res)
  qed
qed

lemma Split_correct:
  assumes old: "seg_inv h old" and res: "Split h old = (new, lost)"
  shows "seg_inv h new" and "local_depth new = local_depth old + 1"
    and "key_valid key \<Longrightarrow> h key AND push_bit (64 - local_depth old - 1) 1 \<noteq> 0 \<Longrightarrow> key \<notin> set lost \<Longrightarrow>
      seg_get h key new = seg_get h key old"
proof -
  let ?p = "push_bit (64 - local_depth old - 1) 1 :: u64"
  have "split_inv h ?p old n (fold (split_step h ?p old) [0..<n] (seg_new (local_depth old + 1), []))" if "n \<le> kNumSlot" for n
    using that
  proof (induction n)
    case 0
    then show ?case by (auto simp: split_inv_def seg_new_def seg_inv_def key_valid_def)
  next
    case (Suc n)
    then show ?case using split_step_inv [OF old] by simp
  qed
  from this [of kNumSlot] have inv: "split_inv h ?p old kNumSlot (new, lost)" using res by (simp add: Split_def)
  then show "seg_inv h new" "local_depth new = local_depth old + 1" by (auto simp: split_inv_def)
  assume k: "key_valid key" "h key AND ?p \<noteq> 0" "key \<notin> set lost"
  show "seg_get h key new = seg_get h key old"
  proof (cases "\<exists>i < kNumSlot. fst (sg_slots old i) = key")
    case True
    then obtain i where i: "i < kNumSlot" "fst (sg_slots old i) = key" by auto
    then show ?thesis using inv k seg_get_slot [OF old k(1) i] by (auto simp: split_inv_def)
  next
    case False
    then have "fst (sg_slots new j) \<noteq> key" if "j < kNumSlot" for j using inv k(1) that by (auto simp: split_inv_def)
    then show ?thesis using False seg_get_none [of new key h] seg_get_none [of old key h] by auto
  qed
qed

text \<open>Only keys of the segment can fail to be copied.\<close>

lemma Split_lost: "k \<in> set (snd (Split h old)) \<Longrightarrow> \<exists>i < kNumSlot. fst (sg_slots old i) = k"
proof -
  let ?step = "split_step h (push_bit (64 - local_depth old - 1) 1) old"
  have "set (snd (fold ?step [0..<n] (seg_new (local_depth old + 1), []))) \<subseteq> (\<lambda>i. fst (sg_slots old i)) ` {..<n}" for n
  proof (induction n)
    case (Suc n)
    then show ?case by (auto simp: split_step_def Let_def lessThan_Suc split: prod.splits option.splits if_splits)
  qed simp
  then show "k \<in> set (snd (Split h old)) \<Longrightarrow> \<exists>i < kNumSlot. fst (sg_slots old i) = k" by (auto simp: Split_def)
qed

section \<open>The directory\<close>

text \<open>The leading bits of a hash value.\<close>

definition hbits :: "(u64 \<Rightarrow> u64) \<Rightarrow> u64 \<Rightarrow> nat \<Rightarrow> nat" where
  "hbits h key n = unat (h key) div 2 ^ (64 - n)"

lemma div_pow2_twice: "(a :: nat) div 2 ^ m div 2 ^ n = a div 2 ^ (m + n)"
  by (simp add: div_mult2_eq [symmetric] power_add)

lemma hbits_less: "n \<le> 64 \<Longrightarrow> hbits h key n < 2 ^ n"
proof -
  assume n: "n \<le> 64"
  have "unat (h key) < 2 ^ n * 2 ^ (64 - n)" using unat_lt64 [of "h key"] n by (simp flip: power_add)
  then show ?thesis by (simp add: hbits_def less_mult_imp_div_less)
qed

lemma hbits_prefix: "m \<le> n \<Longrightarrow> n \<le> 64 \<Longrightarrow> hbits h key n div 2 ^ (n - m) = hbits h key m"
  by (simp add: hbits_def div_pow2_twice)

lemma unat_drop_bit_div: "unat (drop_bit n (w :: u64)) = unat w div 2 ^ n"
  unfolding unat_drop_bit_eq by (simp only: drop_bit_eq_div)

lemma dir_index_hbits: "dir_index h key t = hbits h key (dir_depth t)"
  by (simp only: dir_index_def hbits_def unat_drop_bit_div)

lemma drop_bit_hbits: "drop_bit (64 - n) (h k) = drop_bit (64 - n) (h k') \<longleftrightarrow> hbits h k n = hbits h k' n"
  by (simp only: hbits_def word_unat_eq_iff unat_drop_bit_div)

lemma pattern_hbits:
  assumes "ld < 64"
  shows "h key AND push_bit (64 - ld - 1) 1 \<noteq> 0 \<longleftrightarrow> odd (hbits h key (ld + 1))"
proof -
  have "64 - ld - 1 < LENGTH(64)" using assms by simp
  then have "h key AND push_bit (64 - ld - 1) 1 \<noteq> 0 \<longleftrightarrow> bit (h key) (64 - ld - 1)"
    unfolding bit_eq_iff by (auto simp: bit_simps)
  also have "\<dots> \<longleftrightarrow> bit (unat (h key)) (64 - ld - 1)" by (simp add: bit_unsigned_iff)
  finally show ?thesis by (simp add: bit_iff_odd hbits_def)
qed

text \<open>
  Two directory entries share a segment iff their indices agree in its local depth, and
  every segment is well formed.
\<close>

definition dir_ok :: "cceh \<Rightarrow> bool" where
  "dir_ok t \<longleftrightarrow> dir_depth t \<le> 64 \<and>
     (\<forall>x < 2 ^ dir_depth t. dir_ptr t x < next_seg t \<and> local_depth (sg_heap t (dir_ptr t x)) \<le> dir_depth t) \<and>
     (\<forall>x < 2 ^ dir_depth t. \<forall>y < 2 ^ dir_depth t. dir_ptr t x = dir_ptr t y \<longleftrightarrow>
        x div 2 ^ (dir_depth t - local_depth (sg_heap t (dir_ptr t x))) =
        y div 2 ^ (dir_depth t - local_depth (sg_heap t (dir_ptr t x))))"

definition cceh_inv :: "(u64 \<Rightarrow> u64) \<Rightarrow> cceh \<Rightarrow> bool" where
  "cceh_inv h t \<longleftrightarrow> dir_ok t \<and> (\<forall>x < 2 ^ dir_depth t. seg_inv h (sg_heap t (dir_ptr t x)))"

lemma cceh_new_inv: "d \<le> 64 \<Longrightarrow> cceh_inv h (cceh_new d)"
  by (auto simp: cceh_inv_def dir_ok_def cceh_new_def seg_new_def seg_inv_def)

lemma target_facts:
  assumes "dir_ok t"
  shows "dir_index h k t < 2 ^ dir_depth t" and "local_depth (sg_heap t (target h k t)) \<le> dir_depth t"
    and "target h k t < next_seg t" and "dir_depth t \<le> 64"
    and "target h k t = target h k' t \<longleftrightarrow>
      hbits h k (local_depth (sg_heap t (target h k t))) = hbits h k' (local_depth (sg_heap t (target h k t)))"
proof -
  let ?d = "dir_depth t"
  show d: "?d \<le> 64" using assms by (simp add: dir_ok_def)
  have lt: "dir_index h k t < 2 ^ ?d" for k using hbits_less [OF d] by (simp add: dir_index_hbits)
  show "dir_index h k t < 2 ^ ?d" by (rule lt)
  show ld: "local_depth (sg_heap t (target h k t)) \<le> ?d" and "target h k t < next_seg t"
    using assms lt [of k] by (auto simp: dir_ok_def target_def)
  have "target h k t = target h k' t \<longleftrightarrow>
      dir_index h k t div 2 ^ (?d - local_depth (sg_heap t (target h k t))) =
      dir_index h k' t div 2 ^ (?d - local_depth (sg_heap t (target h k t)))"
    using assms lt [of k] lt [of k'] unfolding dir_ok_def target_def by blast
  then show "target h k t = target h k' t \<longleftrightarrow>
      hbits h k (local_depth (sg_heap t (target h k t))) = hbits h k' (local_depth (sg_heap t (target h k t)))"
    using hbits_prefix [OF ld d] by (simp add: dir_index_hbits)
qed

lemma target_seg_inv: "cceh_inv h t \<Longrightarrow> seg_inv h (sg_heap t (target h k t))"
  using target_facts(1) [of t h k] by (simp add: cceh_inv_def target_def)

subsection \<open>The directory after a split\<close>

lemma odd_half: "(a :: nat) = 2 * q + 1 \<longleftrightarrow> a div 2 = q \<and> odd a"
  by presburger

lemma half_pair: "(y :: nat) div 2 = x div 2 \<and> odd y \<longleftrightarrow> y = (if even x then x + 1 else x)"
  by (cases "even x"; simp; presburger)

lemma half_stride:
  fixes x y s :: nat
  assumes "0 < s"
  shows "x - x mod (2 * s) + s \<le> y \<and> y < x - x mod (2 * s) + s + s \<longleftrightarrow> y div (2 * s) = x div (2 * s) \<and> odd (y div s)"
proof -
  define q where "q = x div (2 * s)"
  have loc: "x - x mod (2 * s) = 2 * q * s" by (simp add: q_def minus_mod_eq_mult_div mult.commute mult.left_commute)
  have "2 * q * s + s \<le> y \<and> y < 2 * q * s + s + s \<longleftrightarrow> (2 * q + 1) * s \<le> y \<and> y < (2 * q + 2) * s"
    by (simp add: algebra_simps)
  also have "\<dots> \<longleftrightarrow> 2 * q + 1 \<le> y div s \<and> y div s < 2 * q + 2"
    using assms by (simp only: less_eq_div_iff_mult_less_eq div_less_iff_less_mult)
  also have "\<dots> \<longleftrightarrow> y div s = 2 * q + 1" by linarith
  also have "\<dots> \<longleftrightarrow> y div s div 2 = q \<and> odd (y div s)" by (rule odd_half)
  finally show ?thesis unfolding loc q_def by (simp add: div_mult2_eq [symmetric] mult.commute)
qed

text \<open>
  All three ways of updating the directory give the entries of the split segment whose next index
  bit is set to the new segment, after doubling the directory where it was too small.
\<close>

lemma dir_split_ptr:
  fixes sg1 :: nat
  assumes ok: "dir_ok t" and tg: "tg = target h key t" and ld: "ld = local_depth (sg_heap t tg)"
  defines "t' \<equiv> dir_split h key tg sg1 ld t"
  shows "dir_depth t' = max (dir_depth t) (ld + 1)"
    and "y < 2 ^ dir_depth t' \<Longrightarrow> dir_ptr t' y =
      (if dir_ptr t (y div 2 ^ (dir_depth t' - dir_depth t)) = tg \<and> odd (y div 2 ^ (dir_depth t' - (ld + 1)))
       then sg1 else dir_ptr t (y div 2 ^ (dir_depth t' - dir_depth t)))"
    and "sg_heap t' = sg_heap t" and "next_seg t' = next_seg t"
proof -
  let ?d = "dir_depth t" and ?x = "dir_index h key t"
  have x: "?x < 2 ^ ?d" and ldd: "ld \<le> ?d" using target_facts(1,2) [OF ok] by (auto simp: ld tg)
  have share: "dir_ptr t y = tg \<longleftrightarrow> y div 2 ^ (?d - ld) = ?x div 2 ^ (?d - ld)" if "y < 2 ^ ?d" for y
    using ok x that unfolding dir_ok_def tg target_def ld by metis
  show dd: "dir_depth t' = max ?d (ld + 1)" and "sg_heap t' = sg_heap t" "next_seg t' = next_seg t"
    using ldd by (auto simp: t'_def dir_split_def Let_def)
  assume y: "y < 2 ^ dir_depth t'"
  consider "ld = ?d" | "?d = ld + 1" | "ld + 1 < ?d" using ldd by linarith
  then show "dir_ptr t' y =
      (if dir_ptr t (y div 2 ^ (dir_depth t' - ?d)) = tg \<and> odd (y div 2 ^ (dir_depth t' - (ld + 1)))
       then sg1 else dir_ptr t (y div 2 ^ (dir_depth t' - ?d)))"
  proof cases
    case 1
    then have "y div 2 < 2 ^ ?d" using y dd by (auto simp: less_mult_imp_div_less)
    then show ?thesis using share [of "y div 2"] 1 dd by (auto simp: t'_def dir_split_def Let_def)
  next
    case 2
    then have "y < 2 ^ ?d" using y dd by simp
    then have "dir_ptr t y = tg \<longleftrightarrow> y div 2 = ?x div 2" using share [of y] 2 by simp
    moreover have "y div 2 = ?x div 2 \<and> odd y \<longleftrightarrow> y = (if even ?x then ?x + 1 else ?x)" by (rule half_pair)
    ultimately show ?thesis using 2 dd by (auto simp: t'_def dir_split_def Let_def)
  next
    case 3
    define s where "s = (2 :: nat) ^ (?d - (ld + 1))"
    have two: "2 ^ (?d - ld) = 2 * s" using 3 by (simp add: s_def Suc_diff_Suc flip: power_Suc)
    have "y < 2 ^ ?d" "dir_depth t' = ?d" using y dd 3 by simp_all
    then have "dir_ptr t y = tg \<longleftrightarrow> y div (2 * s) = ?x div (2 * s)" using share [of y] by (simp add: two)
    moreover have "dir_ptr t' y = (if ?x - ?x mod (2 * s) + s \<le> y \<and> y < ?x - ?x mod (2 * s) + s + s then sg1 else dir_ptr t y)"
      using 3 by (auto simp: t'_def dir_split_def Let_def two)
    moreover have "0 < s" by (simp add: s_def)
    ultimately show ?thesis using half_stride [of s ?x y] \<open>dir_depth t' = ?d\<close> by (simp add: s_def)
  qed
qed

lemma div2_parity: "(a :: nat) = b \<longleftrightarrow> a div 2 = b div 2 \<and> (odd a \<longleftrightarrow> odd b)"
  by presburger

lemma split_dir_ok:
  assumes ok: "dir_ok t" and tg: "tg = target h key t" and ld: "ld = local_depth (sg_heap t tg)" and lt: "ld < 64"
    and sg1: "sg1 = next_seg t"
    and t1: "t1 = dir_split h key tg sg1 ld t"
    and depth: "local_depth (sg_heap t2 tg) = ld + 1" "local_depth (sg_heap t2 sg1) = ld + 1"
      "\<And>s. s \<noteq> tg \<Longrightarrow> s \<noteq> sg1 \<Longrightarrow> local_depth (sg_heap t2 s) = local_depth (sg_heap t s)"
    and t2: "dir_depth t2 = dir_depth t1" "dir_ptr t2 = dir_ptr t1" "next_seg t2 = sg1 + 1"
  shows "dir_ok t2"
    and "target h k t2 = (if target h k t = tg \<and> odd (hbits h k (ld + 1)) then sg1 else target h k t)"
proof -
  let ?d = "dir_depth t" and ?d' = "dir_depth t2" and ?D = "dir_ptr t"
  note ptr = dir_split_ptr [OF ok tg ld, where ?sg1.0 = sg1, folded t1]
  have ldd: "ld \<le> ?d" "?d \<le> 64" using target_facts(2,4) [OF ok] by (auto simp: ld tg)
  have d': "?d' = max ?d (ld + 1)" using ptr(1) t2(1) by simp
  define e where "e = ?d' - ?d"
  define f where "f = ?d' - (ld + 1)"
  have ptr2: "dir_ptr t2 y = (if ?D (y div 2 ^ e) = tg \<and> odd (y div 2 ^ f) then sg1 else ?D (y div 2 ^ e))"
    if "y < 2 ^ ?d'" for y using ptr(2) [where y = y] that t2 by (simp add: e_def f_def)
  have shrink: "y div 2 ^ e < 2 ^ ?d" if "y < 2 ^ ?d'" for y :: nat
    using that d' by (intro less_mult_imp_div_less) (simp add: e_def flip: power_add)
  have old: "?D x < sg1" "local_depth (sg_heap t (?D x)) \<le> ?d" if "x < 2 ^ ?d" for x
    using ok that by (auto simp: dir_ok_def sg1)
  have eq: "?D x = ?D y \<longleftrightarrow> x div 2 ^ (?d - local_depth (sg_heap t (?D x))) = y div 2 ^ (?d - local_depth (sg_heap t (?D x)))"
    if "x < 2 ^ ?d" "y < 2 ^ ?d" for x y using ok that by (auto simp: dir_ok_def)
  have tgl: "tg < sg1" using target_facts(3) [OF ok] by (simp add: tg sg1)
  show ok2: "dir_ok t2" unfolding dir_ok_def
  proof (intro conjI allI impI)
    show "?d' \<le> 64" using d' ldd lt by simp
    fix y :: nat assume y: "y < 2 ^ ?d'"
    note oy = old [OF shrink [OF y]] and py = ptr2 [OF y]
    show "dir_ptr t2 y < next_seg t2" using oy py t2(3) by (auto split: if_splits)
    show "local_depth (sg_heap t2 (dir_ptr t2 y)) \<le> ?d'"
      using oy py depth d' by (cases "?D (y div 2 ^ e) = tg") (auto split: if_splits)
    fix z :: nat assume z: "z < 2 ^ ?d'"
    note oz = old [OF shrink [OF z]] and pz = ptr2 [OF z]
    show "dir_ptr t2 y = dir_ptr t2 z \<longleftrightarrow> y div 2 ^ (?d' - local_depth (sg_heap t2 (dir_ptr t2 y)))
        = z div 2 ^ (?d' - local_depth (sg_heap t2 (dir_ptr t2 y)))"
    proof (cases "?D (y div 2 ^ e) = tg")
      case True
      have l: "local_depth (sg_heap t2 (dir_ptr t2 y)) = ld + 1" using py True depth by auto
      have "dir_ptr t2 y = dir_ptr t2 z \<longleftrightarrow> ?D (z div 2 ^ e) = tg \<and> (odd (y div 2 ^ f) \<longleftrightarrow> odd (z div 2 ^ f))"
        using py pz True oz tgl by auto
      also have "?D (z div 2 ^ e) = tg \<longleftrightarrow> y div 2 ^ e div 2 ^ (?d - ld) = z div 2 ^ e div 2 ^ (?d - ld)"
        using eq [OF shrink [OF y] shrink [OF z]] True ld by metis
      also have "\<dots> \<longleftrightarrow> y div 2 ^ f div 2 = z div 2 ^ f div 2"
      proof -
        have "e + (?d - ld) = f + 1" using d' ldd by (auto simp: e_def f_def)
        then have "w div 2 ^ e div 2 ^ (?d - ld) = w div 2 ^ f div 2" for w :: nat
          using div_pow2_twice [of w f 1] by (simp add: div_pow2_twice)
        then show ?thesis by simp
      qed
      also have "y div 2 ^ f div 2 = z div 2 ^ f div 2 \<and> (odd (y div 2 ^ f) \<longleftrightarrow> odd (z div 2 ^ f)) \<longleftrightarrow> y div 2 ^ f = z div 2 ^ f"
        by (simp only: div2_parity [of "y div 2 ^ f"])
      finally show ?thesis by (simp add: l f_def)
    next
      case False
      let ?l = "local_depth (sg_heap t (?D (y div 2 ^ e)))"
      have p: "dir_ptr t2 y = ?D (y div 2 ^ e)" using py False by simp
      then have l: "local_depth (sg_heap t2 (dir_ptr t2 y)) = ?l" using depth(3) False oy by simp
      have "dir_ptr t2 y = dir_ptr t2 z \<longleftrightarrow> ?D (y div 2 ^ e) = ?D (z div 2 ^ e)"
        using p pz oy False by auto
      also have "\<dots> \<longleftrightarrow> y div 2 ^ e div 2 ^ (?d - ?l) = z div 2 ^ e div 2 ^ (?d - ?l)"
        by (rule eq [OF shrink [OF y] shrink [OF z]])
      also have "e + (?d - ?l) = ?d' - ?l" using oy d' by (simp add: e_def)
      then have "y div 2 ^ e div 2 ^ (?d - ?l) = z div 2 ^ e div 2 ^ (?d - ?l) \<longleftrightarrow> y div 2 ^ (?d' - ?l) = z div 2 ^ (?d' - ?l)"
        by (simp add: div_pow2_twice)
      finally show ?thesis by (simp add: l)
    qed
  qed
  have i: "dir_index h k t2 < 2 ^ ?d'" by (rule target_facts(1) [OF ok2])
  have "?d' \<le> 64" using target_facts(4) [OF ok2] .
  then have "dir_index h k t2 div 2 ^ e = dir_index h k t" "dir_index h k t2 div 2 ^ f = hbits h k (ld + 1)"
    using d' hbits_prefix [of ?d ?d' h k] hbits_prefix [of "ld + 1" ?d' h k] by (simp_all add: dir_index_hbits e_def f_def)
  then show "target h k t2 = (if target h k t = tg \<and> odd (hbits h k (ld + 1)) then sg1 else target h k t)"
    using ptr2 [OF i] by (simp add: target_def)
qed

lemma seg_get_depth [simp]: "seg_get h k (sg\<lparr>local_depth := d\<rparr>) = seg_get h k sg"
  by (simp add: seg_get_def split: option.split)

text \<open>A split keeps the table well formed, and every entry it does not lose.\<close>

lemma split_target_correct:
  assumes inv: "cceh_inv h t" and lt: "local_depth (sg_heap t (target h key t)) < 64"
    and res: "split_target h key t = t'"
  shows "cceh_inv h t'"
    and "key_valid k \<Longrightarrow> k \<notin> set (snd (Split h (sg_heap t (target h key t)))) \<Longrightarrow> cceh_Get h k t' = cceh_Get h k t"
    and "local_depth (sg_heap t' (target h key t')) = local_depth (sg_heap t (target h key t)) + 1"
proof -
  define tg where "tg = target h key t"
  define sg where "sg = sg_heap t tg"
  define ld where "ld = local_depth sg"
  define sg1 where "sg1 = next_seg t"
  obtain new lost where sp: "Split h sg = (new, lost)" by (cases "Split h sg")
  define t0 where "t0 = on_target sg1 new (t\<lparr>next_seg := sg1 + 1, cerr := cerr t @ lost\<rparr>)"
  have t': "t' = on_target tg (sg\<lparr>local_depth := ld + 1\<rparr>) (dir_split h key tg sg1 ld t0)"
    using res sp by (simp add: split_target_def Let_def tg_def sg_def ld_def sg1_def t0_def)
  have ok: "dir_ok t" using inv by (simp add: cceh_inv_def)
  have tgl: "tg < sg1" using target_facts(3) [OF ok] by (simp add: tg_def sg1_def)
  have si: "seg_inv h sg" using target_seg_inv [OF inv] by (simp add: sg_def tg_def)
  note S = Split_correct [OF si sp]
  have same: "dir_split h key tg sg1 ld t0 = on_target sg1 new ((dir_split h key tg sg1 ld t)\<lparr>next_seg := sg1 + 1, cerr := cerr t @ lost\<rparr>)"
    by (simp add: dir_split_def t0_def on_target_def dir_index_def Let_def)
  have heap: "sg_heap t' = (sg_heap t)(sg1 := new, tg := sg\<lparr>local_depth := ld + 1\<rparr>)"
    unfolding t' same by (simp add: on_target_def dir_split_ptr(3) [OF ok tg_def ld_def [unfolded sg_def]])
  have ld': "ld = local_depth (sg_heap t tg)" by (simp add: ld_def sg_def)
  have lt': "ld < 64" using lt by (simp add: ld' tg_def)
  note D = split_dir_ok [OF ok tg_def ld' lt' sg1_def refl, where ?t2.0 = t']
  have dep: "local_depth (sg_heap t' tg) = ld + 1" "local_depth (sg_heap t' sg1) = ld + 1"
      "s \<noteq> tg \<Longrightarrow> s \<noteq> sg1 \<Longrightarrow> local_depth (sg_heap t' s) = local_depth (sg_heap t s)" for s
    using S(2) tgl by (auto simp: heap ld_def)
  have fr: "dir_depth t' = dir_depth (dir_split h key tg sg1 ld t)" "dir_ptr t' = dir_ptr (dir_split h key tg sg1 ld t)"
      "next_seg t' = sg1 + 1"
    unfolding t' same by (simp_all add: on_target_def)
  have ok': "dir_ok t'" and tgt: "\<And>k. target h k t' = (if target h k t = tg \<and> odd (hbits h k (ld + 1)) then sg1 else target h k t)"
    using D [OF dep fr] by auto
  have segs: "seg_inv h (sg_heap t' (dir_ptr t' y))" if "y < 2 ^ dir_depth t'" for y
  proof -
    have "dir_depth t \<le> dir_depth t'" using dir_split_ptr(1) [OF ok tg_def ld', of sg1] fr(1) by simp
    then have "y div 2 ^ (dir_depth t' - dir_depth t) < 2 ^ dir_depth t"
      using that by (intro less_mult_imp_div_less) (simp flip: power_add)
    then have "seg_inv h (sg_heap t (dir_ptr t (y div 2 ^ (dir_depth t' - dir_depth t))))" using inv by (simp add: cceh_inv_def)
    moreover have "seg_inv h (sg\<lparr>local_depth := ld + 1\<rparr>)" using si by (simp add: seg_inv_def)
    moreover have "dir_ptr t' y = sg1 \<or> dir_ptr t' y = dir_ptr t (y div 2 ^ (dir_depth t' - dir_depth t))"
      using dir_split_ptr(2) [OF ok tg_def ld', where ?sg1.0 = sg1 and y = y] that fr by auto
    ultimately show ?thesis using S(1) tgl by (auto simp: heap)
  qed
  then show "cceh_inv h t'" using ok' by (simp add: cceh_inv_def)
  show "cceh_Get h k t' = cceh_Get h k t" if kc: "key_valid k" "k \<notin> set (snd (Split h (sg_heap t (target h key t))))"
  proof (cases "target h k t = tg")
    case True
    have k: "key_valid k" "k \<notin> set lost" using kc sp by (simp_all add: sg_def tg_def)
    show ?thesis
    proof (cases "odd (hbits h k (ld + 1))")
      case odd: True
      then have "h k AND push_bit (64 - local_depth sg - 1) 1 \<noteq> 0" using pattern_hbits [OF lt', of h k] by (simp add: ld_def)
      then have "seg_get h k new = seg_get h k sg" by (rule S(3) [OF k(1) _ k(2)])
      then show ?thesis using True odd tgt [of k] tgl by (simp add: cceh_Get_seg heap sg_def)
    next
      case even: False
      then show ?thesis using True tgt [of k] by (simp add: cceh_Get_seg heap sg_def seg_get_depth)
    qed
  next
    case False
    then show ?thesis using tgt [of k] target_facts(3) [OF ok, of h k] by (auto simp: cceh_Get_seg heap sg1_def)
  qed
  show "local_depth (sg_heap t' (target h key t')) = local_depth (sg_heap t (target h key t)) + 1"
    using tgt [of key] dep(1,2) by (simp add: tg_def [symmetric] ld' [symmetric])
qed

section \<open>Insert\<close>

text \<open>Writing a slot of the key's segment that is the key's own or free.\<close>

lemma write_slot_correct:
  fixes val :: nat
  assumes inv: "cceh_inv h t" and k: "key_valid key" and w: "i \<in> set (window (f_idx h key))"
    and sg: "sg = sg_heap t (target h key t)"
    and slot: "fst (sg_slots sg i) = key \<or>
      (\<forall>j \<in> set (window (f_idx h key)). fst (sg_slots sg j) \<noteq> key) \<and> slot_free h key sg i"
  defines "t' \<equiv> on_target (target h key t) (set_slot i (key, val) sg) t"
  shows "cceh_inv h t'" and "key_valid k' \<Longrightarrow> cceh_Get h k' t' = (if k' = key then val else cceh_Get h k' t)"
    and "target h k' t' = target h k' t"
proof -
  let ?tg = "target h key t"
  have ok: "dir_ok t" and si: "seg_inv h sg" using inv target_seg_inv [OF inv] by (auto simp: cceh_inv_def sg)
  have no: "\<forall>j < kNumSlot. fst (sg_slots sg j) = key \<longrightarrow> j = i"
    using slot si k seg_probe [OF si k] window_lt [OF w] probe_Some by (metis option.inject)
  note S = set_slot_inv [where val = val, OF si k w no]
  have heap: "sg_heap t' = (sg_heap t)(?tg := set_slot i (key, val) sg)" "dir_depth t' = dir_depth t"
      "dir_ptr t' = dir_ptr t" "next_seg t' = next_seg t" by (simp_all add: t'_def on_target_def)
  have ld: "local_depth (sg_heap t' s) = local_depth (sg_heap t s)" for s by (simp add: heap set_slot_def sg)
  have ok': "dir_ok t'" using ok by (simp add: dir_ok_def heap(2-4) ld)
  then show "cceh_inv h t'" using inv S(1) by (simp add: cceh_inv_def heap)
  show tg: "target h k' t' = target h k' t" for k' by (simp add: target_def dir_index_def heap)
  assume k': "key_valid k'"
  show "cceh_Get h k' t' = (if k' = key then val else cceh_Get h k' t)"
  proof (cases "target h k' t = ?tg")
    case True
    have "k' \<noteq> fst (sg_slots sg i) \<or> k' = key"
    proof (rule ccontr)
      assume "\<not> (k' \<noteq> fst (sg_slots sg i) \<or> k' = key)"
      then have e: "k' = fst (sg_slots sg i)" "k' \<noteq> key" by auto
      then have "slot_free h key sg i" using slot by auto
      then have "hbits h k' (local_depth sg) \<noteq> hbits h key (local_depth sg)"
        using e(1) k' drop_bit_hbits [of "local_depth sg" h k' key] by (auto simp: slot_free_def key_valid_def)
      then show False using target_facts(5) [OF ok, of h k' key] True by (simp add: sg)
    qed
    then show ?thesis using S(2) [OF k'] True by (simp add: cceh_Get_seg tg heap sg)
  next
    case False
    then show ?thesis by (auto simp: cceh_Get_seg tg heap)
  qed
qed

lemma cceh_Get_probe:
  assumes "probe (\<lambda>i. fst (sg_slots (sg_heap t (target h key t)) i) = key) (f_idx h key) = Some i"
  shows "cceh_Get h key t = snd (sg_slots (sg_heap t (target h key t)) i)"
  using assms by (simp add: cceh_Get_def)

text \<open>
  An index is sound as long as no copy in a split failed and no undefined shift was reached. What
  was reported stays reported.
\<close>

definition cceh_ok :: "cceh \<Rightarrow> bool" where
  "cceh_ok t \<longleftrightarrow> \<not> undefined_behaviour t \<and> (\<forall>k \<in> set (cerr t). \<not> key_valid k)"

lemma split_target_cerr:
  "cerr (split_target h key t) = cerr t @ snd (Split h (sg_heap t (target h key t)))"
  "undefined_behaviour (split_target h key t) = undefined_behaviour t"
  by (auto simp: split_target_def on_target_def dir_split_def Let_def split: prod.splits)

lemma on_target_cerr [simp]:
  "cerr (on_target tg sg t) = cerr t" "undefined_behaviour (on_target tg sg t) = undefined_behaviour t"
  by (simp_all add: on_target_def)

lemma cceh_Insert_cerr:
  "cceh_Insert n h key val old0 t = Some (old, t') \<Longrightarrow>
   set (cerr t) \<subseteq> set (cerr t') \<and> undefined_behaviour t' = undefined_behaviour t"
proof (induction n arbitrary: t)
  case (Suc n)
  then show ?case using split_target_cerr [where t = t and h = h and key = key]
    by (fastforce simp: Let_def split: option.splits if_splits)
qed simp

text \<open>
  \<open>Insert\<close> for a client: the new binding, the old value, and every other binding that a split did
  not report as lost.
\<close>

lemma cceh_Insert_keeps:
  assumes "cceh_inv h t" and "key_valid key" and "cceh_Insert n h key val INVALID_VALUE t = Some (old, t')"
  shows "cceh_inv h t' \<and> old = cceh_Get h key t \<and> cceh_Get h key t' = val \<and>
    (\<exists>lost. cerr t' = cerr t @ lost \<and>
       (\<forall>k'. key_valid k' \<and> k' \<noteq> key \<and> k' \<notin> set lost \<longrightarrow> cceh_Get h k' t' = cceh_Get h k' t))"
  using assms
proof (induction n arbitrary: t)
  case (Suc n)
  let ?tg = "target h key t"
  let ?sg = "sg_heap t ?tg"
  let ?P = "probe (\<lambda>i. fst (sg_slots ?sg i) = key) (f_idx h key)"
  let ?F = "probe (slot_free h key ?sg) (f_idx h key)"
  show ?case
  proof (cases ?P)
    case (Some i)
    then have "old = snd (sg_slots ?sg i)" "t' = on_target ?tg (set_slot i (key, val) ?sg) t"
      using Suc.prems(3) by (simp_all add: Let_def INVALID_VALUE_def)
    then show ?thesis
      using write_slot_correct [OF Suc.prems(1,2) _ refl, where i = i and val = val] probe_Some [OF Some]
        cceh_Get_probe [OF Some] Suc.prems(2) by auto
  next
    case none: None
    then have absent: "\<forall>j \<in> set (window (f_idx h key)). fst (sg_slots ?sg j) \<noteq> key" by (simp add: probe_None)
    have g: "cceh_Get h key t = INVALID_VALUE" using none by (simp add: cceh_Get_def NONE_VALUE_def INVALID_VALUE_def)
    show ?thesis
    proof (cases ?F)
      case (Some i)
      then have "old = INVALID_VALUE" "t' = on_target ?tg (set_slot i (key, val) ?sg) t"
        using Suc.prems(3) none by (simp_all add: Let_def)
      then show ?thesis
        using write_slot_correct [OF Suc.prems(1,2) _ refl, where i = i and val = val] probe_Some [OF Some] absent g
          Suc.prems(2) by auto
    next
      case None
      let ?t1 = "split_target h key t" and ?lost = "snd (Split h ?sg)"
      have lt: "local_depth ?sg < 64" and rec: "cceh_Insert n h key val INVALID_VALUE ?t1 = Some (old, t')"
        using Suc.prems(3) none None by (auto simp: Let_def split: if_splits)
      note S = split_target_correct [OF Suc.prems(1) lt refl]
      have "key \<notin> set ?lost"
        using Split_lost [of key h ?sg] target_seg_inv [OF Suc.prems(1), of key] absent Suc.prems(2)
        unfolding seg_inv_def key_valid_def by metis
      then have "cceh_Get h key ?t1 = cceh_Get h key t" by (rule S(2) [OF Suc.prems(2)])
      moreover obtain lost where lost: "cerr t' = cerr ?t1 @ lost"
          "\<And>k'. key_valid k' \<Longrightarrow> k' \<noteq> key \<Longrightarrow> k' \<notin> set lost \<Longrightarrow> cceh_Get h k' t' = cceh_Get h k' ?t1"
        using Suc.IH [OF S(1) Suc.prems(2) rec] by blast
      have "cceh_Get h k' t' = cceh_Get h k' t" if "key_valid k'" "k' \<noteq> key" "k' \<notin> set (?lost @ lost)" for k'
        using lost(2) [OF that(1,2)] S(2) [OF that(1)] that(3) by simp
      moreover have "cerr t' = cerr t @ (?lost @ lost)" using lost(1) split_target_cerr(1) by simp
      ultimately show ?thesis using Suc.IH [OF S(1) Suc.prems(2) rec] by metis
    qed
  qed
qed simp

lemma cceh_Insert_step:
  assumes "cceh_inv h t" and "key_valid key" and "cceh_Insert n h key val INVALID_VALUE t = Some (old, t')"
    and "cceh_ok t'"
  shows "cceh_inv h t' \<and> old = cceh_Get h key t \<and>
    (\<forall>k'. key_valid k' \<longrightarrow> cceh_Get h k' t' = (if k' = key then val else cceh_Get h k' t))"
  using cceh_Insert_keeps [OF assms(1-3)] assms(4) by (auto simp: cceh_ok_def)

text \<open>More rounds than \<open>insert_rounds\<close> never change the result: the fuel is enough.\<close>

lemma cceh_Insert_fuel:
  assumes "cceh_inv h t" and "65 \<le> n + local_depth (sg_heap t (target h key t))"
  shows "cceh_Insert (n + m) h key val old t = cceh_Insert n h key val old t"
  using assms
proof (induction n arbitrary: t)
  case 0
  have "dir_ok t" using "0.prems"(1) by (simp add: cceh_inv_def)
  then show ?case using target_facts(2) [of t h key] target_facts(4) [of t] "0.prems"(2) by simp
next
  case (Suc n)
  let ?sg = "sg_heap t (target h key t)" and ?t1 = "split_target h key t"
  have "cceh_Insert (n + m) h key val old ?t1 = cceh_Insert n h key val old ?t1" if "local_depth ?sg < 64"
    using split_target_correct(1,3) [OF Suc.prems(1) that refl] Suc.prems(2) by (intro Suc.IH) auto
  then show ?case by (auto simp: Let_def split: option.splits)
qed

text \<open>
  When different keys have different hashes, a window whose slots all belong to the key's pattern
  of 64 bits would hold the key itself: splitting stops before the hash bits are used up.
\<close>

lemma cceh_Insert_returns:
  assumes "inj h" and "cceh_inv h t" and "65 \<le> n + local_depth (sg_heap t (target h key t))"
  shows "cceh_Insert n h key val old t \<noteq> None"
  using assms(2,3)
proof (induction n arbitrary: t)
  case 0
  have "dir_ok t" using "0.prems"(1) by (simp add: cceh_inv_def)
  then show ?case using target_facts(2) [of t h key] target_facts(4) [of t] "0.prems"(2) by simp
next
  case (Suc n)
  let ?sg = "sg_heap t (target h key t)" and ?t1 = "split_target h key t"
  have ok: "dir_ok t" using Suc.prems(1) by (simp add: cceh_inv_def)
  have rec: "cceh_Insert n h key val old ?t1 \<noteq> None" if "local_depth ?sg < 64"
    using split_target_correct(1,3) [OF Suc.prems(1) that refl] Suc.prems(2) by (intro Suc.IH) auto
  have "\<exists>i. probe (\<lambda>i. fst (sg_slots ?sg i) = key) (f_idx h key) = Some i"
    if full: "probe (slot_free h key ?sg) (f_idx h key) = None" and deep: "\<not> local_depth ?sg < 64"
  proof -
    have d: "64 - local_depth ?sg = 0" using deep by simp
    have "(f_idx h key + 0) mod kNumSlot \<in> set (window (f_idx h key))" unfolding window_set by (rule imageI) simp
    then obtain i where i: "i \<in> set (window (f_idx h key))" by blast
    then have f: "\<not> slot_free h key ?sg i" "i < kNumSlot" using full by (simp_all add: probe_None window_lt)
    then have "fst (sg_slots ?sg i) \<noteq> SENTINEL"
      using target_seg_inv [OF Suc.prems(1), of key] sentinel_not_invalid unfolding seg_inv_def by metis
    then have "fst (sg_slots ?sg i) = key"
      using assms(1) f(1) by (auto simp: slot_free_def d dest: injD)
    then show ?thesis using i probe_None by (metis (mono_tags, lifting) not_Some_eq)
  qed
  then show ?case using rec by (auto simp: Let_def split: option.splits)
qed

lemma insert_rounds_Suc: "insert_rounds = Suc 65" by (simp add: insert_rounds_def)

section \<open>The index contract\<close>

text \<open>Room for \<open>n\<close> more keys: that many free slots in every window.\<close>

definition cceh_room :: "(u64 \<Rightarrow> u64) \<Rightarrow> cceh \<Rightarrow> nat \<Rightarrow> bool" where
  "cceh_room h t n \<longleftrightarrow>
     (\<forall>key. key_valid key \<longrightarrow>
        n \<le> card {i \<in> set (window (f_idx h key)). slot_free h key (sg_heap t (target h key t)) i})"

lemma cceh_ops_sel:
  "ix_get (cceh_ops h) = cceh_Get h" "ix_put (cceh_ops h) k v t = ix_gc (cceh_ops h) k INVALID_VALUE v t"
  "ix_gc (cceh_ops h) k old v t = (case cceh_Insert insert_rounds h k v old t of
      None \<Rightarrow> (INVALID_VALUE, t\<lparr>undefined_behaviour := True\<rparr>) | Some r \<Rightarrow> r)"
  by (simp_all add: cceh_ops_def)

text \<open>The collector's compare-and-swap: a key present is found in the first round.\<close>

lemma cceh_gc_first:
  assumes "cceh_Get h key t \<noteq> INVALID_VALUE"
  shows "\<exists>i. probe (\<lambda>i. fst (sg_slots (sg_heap t (target h key t)) i) = key) (f_idx h key) = Some i"
  using assms by (auto simp: cceh_Get_def NONE_VALUE_def INVALID_VALUE_def Let_def split: option.splits)

lemma cceh_gc_correct:
  assumes inv: "cceh_inv h t" and k: "key_valid key" and g: "cceh_Get h key t \<noteq> INVALID_VALUE" and old: "old \<noteq> INVALID_VALUE"
  shows "cceh_inv h (snd (ix_gc (cceh_ops h) key old v t)) \<and>
    fst (ix_gc (cceh_ops h) key old v t) = (if cceh_Get h key t = old then old else v) \<and>
    (\<forall>k'. key_valid k' \<longrightarrow> cceh_Get h k' (snd (ix_gc (cceh_ops h) key old v t)) =
       (if k' = key \<and> cceh_Get h key t = old then v else cceh_Get h k' t))"
proof -
  let ?tg = "target h key t"
  let ?sg = "sg_heap t ?tg"
  obtain i where i: "probe (\<lambda>i. fst (sg_slots ?sg i) = key) (f_idx h key) = Some i" using cceh_gc_first [OF g] by blast
  note cur = cceh_Get_probe [OF i]
  have "cceh_Insert insert_rounds h key v old t = (if cceh_Get h key t = old
      then Some (old, on_target ?tg (set_slot i (key, v) ?sg) t) else Some (v, t))"
    unfolding insert_rounds_Suc cceh_Insert.simps using old cur i by (simp add: Let_def)
  then show ?thesis
    using write_slot_correct [OF inv k _ refl, where i = i and val = v] probe_Some [OF i] inv by (auto simp: cceh_ops_sel)
qed

text \<open>With a free slot in the window, one round is enough.\<close>

lemma cceh_Insert_free:
  assumes "probe (slot_free h key (sg_heap t (target h key t))) (f_idx h key) \<noteq> None"
  shows "\<exists>i old. cceh_Insert (Suc n) h key v INVALID_VALUE t =
    Some (old, on_target (target h key t) (set_slot i (key, v) (sg_heap t (target h key t))) t)"
  using assms by (cases "probe (\<lambda>i. fst (sg_slots (sg_heap t (target h key t)) i) = key) (f_idx h key)") (auto simp: Let_def)

lemma room_put:
  assumes inv: "cceh_inv h t" and ok: "cceh_ok t" and room: "cceh_room h t (Suc n)" and k: "key_valid key"
  shows "cceh_ok (snd (ix_put (cceh_ops h) key v t)) \<and> cceh_room h (snd (ix_put (cceh_ops h) key v t)) n"
proof -
  let ?tg = "target h key t"
  let ?sg = "sg_heap t ?tg"
  have "{i \<in> set (window (f_idx h key)). slot_free h key ?sg i} \<noteq> {}"
    using room k unfolding cceh_room_def by (metis card.empty not_less_eq_eq zero_le)
  then have "probe (slot_free h key ?sg) (f_idx h key) \<noteq> None" by (auto simp: probe_None)
  from cceh_Insert_free [OF this, of 65 v]
  obtain i where t': "snd (ix_put (cceh_ops h) key v t) = on_target ?tg (set_slot i (key, v) ?sg) t"
    by (auto simp: cceh_ops_sel insert_rounds_Suc simp del: cceh_Insert.simps)
  let ?t = "on_target ?tg (set_slot i (key, v) ?sg) t"
  have "cceh_room h ?t n" unfolding cceh_room_def
  proof (intro allI impI)
    fix k' assume k': "key_valid k'"
    let ?A = "{j \<in> set (window (f_idx h k')). slot_free h k' (sg_heap t (target h k' t)) j}"
    let ?B = "{j \<in> set (window (f_idx h k')). slot_free h k' (sg_heap ?t (target h k' ?t)) j}"
    have tg: "target h k' ?t = target h k' t" by (simp add: target_def dir_index_def on_target_def)
    have "?A - {i} \<subseteq> ?B"
      unfolding tg by (auto simp: on_target_def set_slot_def slot_free_def)
    then have "card (?A - {i}) \<le> card ?B" by (intro card_mono) auto
    moreover have "Suc n \<le> card ?A" using room k' by (simp add: cceh_room_def)
    moreover have "card ?A \<le> Suc (card (?A - {i}))" by (cases "i \<in> ?A") (auto simp: card_Diff_singleton_if)
    ultimately show "n \<le> card ?B" by linarith
  qed
  then show ?thesis using ok by (simp add: t' cceh_ok_def)
qed

section \<open>Inserting a key\<close>



interpretation cceh: flat_index_room "cceh_ops h" "cceh_inv h" key_valid cceh_ok "cceh_room h" now
  for h :: "u64 \<Rightarrow> u64" and now :: "cceh fs_store \<Rightarrow> nat"
proof unfold_locales
  fix s k k' v old n
  have none: "\<not> cceh_ok (s\<lparr>undefined_behaviour := True\<rparr>)" by (simp add: cceh_ok_def)
  show before: "cceh_ok s" if "cceh_ok (snd (ix_gc (cceh_ops h) k old v s))" for old
  proof (cases "cceh_Insert insert_rounds h k v old s")
    case None
    then show ?thesis using that none by (simp add: cceh_ops_sel)
  next
    case (Some r)
    then show ?thesis using that cceh_Insert_cerr [of insert_rounds h k v old s "fst r" "snd r"]
      by (auto simp: cceh_ops_sel cceh_ok_def)
  qed
  show "cceh_ok s" if "cceh_ok (snd (ix_put (cceh_ops h) k v s))" using before that by (simp add: cceh_ops_sel(2))
  assume inv: "cceh_inv h s" and k: "key_valid k"
  show "cceh_ok (snd (ix_put (cceh_ops h) k v s)) \<and> cceh_room h (snd (ix_put (cceh_ops h) k v s)) n"
    if "cceh_ok s" "cceh_room h s (Suc n)" by (rule room_put [OF inv that k])
  have put: "cceh_inv h (snd (ix_put (cceh_ops h) k v s)) \<and> fst (ix_put (cceh_ops h) k v s) = cceh_Get h k s \<and>
      (\<forall>k'. key_valid k' \<longrightarrow> cceh_Get h k' (snd (ix_put (cceh_ops h) k v s)) = (if k' = k then v else cceh_Get h k' s))"
    if ok: "cceh_ok (snd (ix_put (cceh_ops h) k v s))"
  proof -
    obtain old t' where r: "cceh_Insert insert_rounds h k v INVALID_VALUE s = Some (old, t')"
      using ok none by (cases "cceh_Insert insert_rounds h k v INVALID_VALUE s") (auto simp: cceh_ops_sel)
    then show ?thesis using cceh_Insert_step [OF inv k r] ok by (simp add: cceh_ops_sel)
  qed
  show "ix_get (cceh_ops h) k' (snd (ix_put (cceh_ops h) k v s)) = (if k' = k then v else ix_get (cceh_ops h) k' s)"
    if "key_valid k'" "cceh_ok (snd (ix_put (cceh_ops h) k v s))" using put [OF that(2)] that(1) by (simp add: cceh_ops_sel(1))
  show "fst (ix_put (cceh_ops h) k v s) = ix_get (cceh_ops h) k s" if "cceh_ok (snd (ix_put (cceh_ops h) k v s))"
    using put [OF that] by (simp add: cceh_ops_sel(1))
  show "cceh_inv h (snd (ix_put (cceh_ops h) k v s))" if "cceh_ok (snd (ix_put (cceh_ops h) k v s))" using put [OF that] by simp
  assume g: "ix_get (cceh_ops h) k s \<noteq> INVALID_VALUE"
  obtain i where "probe (\<lambda>i. fst (sg_slots (sg_heap s (target h k s)) i) = k) (f_idx h k) = Some i"
    using cceh_gc_first [OF g [unfolded cceh_ops_sel(1)]] by blast
  then show "cceh_ok (snd (ix_gc (cceh_ops h) k old v s)) = cceh_ok s"
    unfolding cceh_ops_sel insert_rounds_Suc cceh_Insert.simps by (auto simp: Let_def cceh_ok_def)
  assume o: "old \<noteq> INVALID_VALUE"
  note gc = cceh_gc_correct [OF inv k g [unfolded cceh_ops_sel(1)] o, of v]
  show "ix_get (cceh_ops h) k' (snd (ix_gc (cceh_ops h) k old v s)) =
      (if k' = k \<and> ix_get (cceh_ops h) k s = old then v else ix_get (cceh_ops h) k' s)" if "key_valid k'"
    using gc that by (simp add: cceh_ops_sel(1))
  show "fst (ix_gc (cceh_ops h) k old v s) = (if ix_get (cceh_ops h) k s = old then old else v)"
    "cceh_inv h (snd (ix_gc (cceh_ops h) k old v s))" using gc by (simp_all add: cceh_ops_sel(1))
qed

end
