(* ===== verification/Flat_Compact.thy ===== *)
theory Flat_Compact
  imports Flat_Cleaner
begin

text \<open>
  Compaction is safe: copying the live entries of a segment and clearing it changes nothing a
  client can see, never runs out of room and never follows a null pointer. The invariant is
  stated so that the writes of the clients keep it too.
\<close>

section \<open>Invariant\<close>

definition log_keys :: "(u64 \<Rightarrow> bool) \<Rightarrow> log \<Rightarrow> bool" where
  "log_keys ok l \<longleftrightarrow> (\<forall>i < num_segments l. \<forall>a \<in> set (seg_entries l i).
     \<exists>k. ok k \<and> kv_GetKey (pm_bytes (lpool l)) a = le_bytes 8 k)"

text \<open>The open segments: the heads \<open>W\<close> of the workers and the reserved segment.\<close>

definition gc_heads :: "nat set \<Rightarrow> cleaner \<Rightarrow> nat set" where
  "gc_heads W cl = W \<union> set_option (reserved_segment cl)"

definition gc_own :: "nat set \<Rightarrow> cleaner \<Rightarrow> log \<Rightarrow> bool" where
  "gc_own W cl l \<longleftrightarrow> (\<exists>r. reserved_segment cl = Some r \<and> r \<notin> W) \<and>
     (\<forall>b. backup_segment cl = Some b \<longrightarrow> b < num_segments l \<and> b \<notin> set (free_segments l) \<and> b \<notin> gc_heads W cl \<and>
        seg_tail (segs l b) = data_start (segs l b))"

definition gc_inv :: "'i index_ops \<Rightarrow> ('i \<Rightarrow> bool) \<Rightarrow> (u64 \<Rightarrow> bool) \<Rightarrow> nat set \<Rightarrow> cleaner \<Rightarrow> 'i db \<Rightarrow> bool" where
  "gc_inv ix iinv ikey_ok W cl db \<longleftrightarrow>
     gc_own W cl (db_log db) \<and> db_inv ix iinv ikey_ok (gc_heads W cl) db \<and> log_keys ikey_ok (db_log db)"

text \<open>
  The cleaner stands at \<open>p\<close> on its walk through segment \<open>seg\<close>, and the index no longer points to an
  entry it has passed.
\<close>

definition on_walk :: "'i index_ops \<Rightarrow> (u64 \<Rightarrow> bool) \<Rightarrow> nat \<Rightarrow> nat \<Rightarrow> 'i db \<Rightarrow> bool" where
  "on_walk ix ikey_ok seg p db \<longleftrightarrow>
     (let l = db_log db; m = pm_bytes (lpool l); tail = seg_tail (segs l seg) in
      data_start (segs l seg) \<le> p \<and> walk_end m p tail = seg_walk_end l seg \<and>
      (\<exists>d. seg_entries l seg = d @ entries m p tail \<and> (\<forall>k. ikey_ok k \<longrightarrow> ix_get ix k (db_index db) \<notin> set d)))"

text \<open>
  What is left to visit fits into the reserved segment, or there is a backup; \<open>q\<close> is \<open>p\<close>, or the next
  entry once the one at \<open>p\<close> has been copied.
\<close>

definition gc_room :: "nat \<Rightarrow> nat \<Rightarrow> cleaner \<Rightarrow> log \<Rightarrow> bool" where
  "gc_room seg p cl l \<longleftrightarrow> backup_segment cl \<noteq> None \<or>
     (\<forall>r. reserved_segment cl = Some r \<longrightarrow> HasSpaceFor (segs l r) (seg_tail (segs l seg) - p))"

definition compacting :: "'i index_ops \<Rightarrow> (u64 \<Rightarrow> bool) \<Rightarrow> nat set \<Rightarrow> nat \<Rightarrow> nat \<Rightarrow> nat \<Rightarrow> cleaner \<Rightarrow> 'i db \<Rightarrow> bool" where
  "compacting ix ikey_ok W seg p q cl db \<longleftrightarrow>
     seg < num_segments (db_log db) \<and> seg \<notin> set (free_segments (db_log db)) \<and> seg \<notin> gc_heads W cl \<and>
     backup_segment cl \<noteq> Some seg \<and> on_walk ix ikey_ok seg p db \<and> gc_room seg q cl (db_log db)"

section \<open>The walk\<close>

lemma on_walk_still:
  assumes w: "on_walk ix ikey_ok seg p db" and st: "still seg (db_log db) (db_log db')" and ok: "seg_ok (db_log db) seg"
    and idx: "\<And>k. ikey_ok k \<Longrightarrow> ix_get ix k (db_index db') \<in> set (seg_entries (db_log db) seg) \<Longrightarrow>
      ix_get ix k (db_index db') = ix_get ix k (db_index db)"
  shows "on_walk ix ikey_ok seg p db'"
proof -
  let ?l = "db_log db" and ?l' = "db_log db'"
  let ?m = "pm_bytes (lpool ?l)" and ?m' = "pm_bytes (lpool ?l')" and ?t = "seg_tail (segs ?l seg)"
  obtain d where d: "data_start (segs ?l seg) \<le> p" "walk_end ?m p ?t = seg_walk_end ?l seg"
      "seg_entries ?l seg = d @ entries ?m p ?t" "\<And>k. ikey_ok k \<Longrightarrow> ix_get ix k (db_index db) \<notin> set d"
    using w by (auto simp: on_walk_def Let_def)
  have s: "data_start (segs ?l' seg) = data_start (segs ?l seg)" "seg_tail (segs ?l' seg) = ?t"
      "seg_entries ?l' seg = seg_entries ?l seg" "seg_walk_end ?l' seg = seg_walk_end ?l seg"
      "\<And>a. data_start (segs ?l seg) \<le> a \<Longrightarrow> a < ?t \<Longrightarrow> ?m' a = ?m a"
    using st by (auto simp: still_def data_start_def)
  have "walk_end ?m p ?t \<le> ?t" using seg_ok_bounds(4) [OF ok] d(2) by simp
  then have e: "entries ?m' p ?t = entries ?m p ?t \<and> walk_end ?m' p ?t = walk_end ?m p ?t"
    using s(5) d(1,2) ok by (intro walk_cong) (auto simp: seg_ok_def)
  have "ix_get ix k (db_index db') \<notin> set d" if "ikey_ok k" for k
    using idx [OF that] d(3,4) that by auto
  then show ?thesis using d e s by (auto simp: on_walk_def Let_def)
qed

lemma on_walk_entry:
  assumes w: "on_walk ix ikey_ok seg p db" and ok: "seg_ok (db_log db) seg"
    and p: "p < seg_tail (segs (db_log db) seg)" "kv_size (pm_bytes (lpool (db_log db))) p \<noteq> sizeof_KVItem"
  shows "p \<in> set (seg_entries (db_log db) seg)"
    and "p + kv_size (pm_bytes (lpool (db_log db))) p \<le> seg_tail (segs (db_log db) seg)"
    and "(\<And>k. ikey_ok k \<Longrightarrow> ix_get ix k (db_index db) \<noteq> p) \<Longrightarrow> on_walk ix ikey_ok seg (p + kv_size (pm_bytes (lpool (db_log db))) p) db"
proof -
  let ?l = "db_log db"
  let ?m = "pm_bytes (lpool ?l)" and ?t = "seg_tail (segs ?l seg)"
  obtain d where d: "data_start (segs ?l seg) \<le> p" "walk_end ?m p ?t = seg_walk_end ?l seg"
      "seg_entries ?l seg = d @ entries ?m p ?t" "\<And>k. ikey_ok k \<Longrightarrow> ix_get ix k (db_index db) \<notin> set d"
    using w by (auto simp: on_walk_def Let_def)
  have e: "entries ?m p ?t = p # entries ?m (p + kv_size ?m p) ?t" "walk_end ?m p ?t = walk_end ?m (p + kv_size ?m p) ?t"
    using p by (subst entries.simps walk_end.simps; simp)+
  show pe: "p \<in> set (seg_entries ?l seg)" using d(3) e(1) by simp
  show "p + kv_size ?m p \<le> ?t" using walk_end_ge [of "p + kv_size ?m p" ?m ?t] e(2) d(2) seg_ok_bounds(4) [OF ok] by simp
  assume "\<And>k. ikey_ok k \<Longrightarrow> ix_get ix k (db_index db) \<noteq> p"
  then have "\<forall>k. ikey_ok k \<longrightarrow> ix_get ix k (db_index db) \<notin> set (d @ [p])" using d(4) by simp
  moreover have "seg_entries ?l seg = (d @ [p]) @ entries ?m (p + kv_size ?m p) ?t" using d(3) e(1) by simp
  ultimately show "on_walk ix ikey_ok seg (p + kv_size ?m p) db"
    using d(1,2) e(2) unfolding on_walk_def Let_def by (metis add_increasing2 zero_le)
qed

lemma on_walk_end:
  assumes w: "on_walk ix ikey_ok seg p db"
    and p: "\<not> (p < seg_tail (segs (db_log db) seg) \<and> kv_size (pm_bytes (lpool (db_log db))) p \<noteq> sizeof_KVItem)"
    and k: "ikey_ok k"
  shows "ix_get ix k (db_index db) \<notin> set (seg_entries (db_log db) seg)"
proof -
  have "entries (pm_bytes (lpool (db_log db))) p (seg_tail (segs (db_log db) seg)) = []" using p by (subst entries.simps) simp
  then show ?thesis using w k by (auto simp: on_walk_def Let_def)
qed

section \<open>What the log keeps\<close>

lemma log_keys_step:
  assumes "log_keys ok l" and "log_inv H l" and st: "log_step V J l l'" and kp: "log_keeps l l'"
    and V: "\<And>v. v \<in> V \<Longrightarrow> \<exists>k. ok k \<and> kv_GetKey (pm_bytes (lpool l')) v = le_bytes 8 k"
  shows "log_keys ok l'"
  unfolding log_keys_def
proof (intro allI impI ballI)
  fix i a assume "i < num_segments l'" and a: "a \<in> set (seg_entries l' i)"
  then have i: "i < num_segments l" using st by (simp add: log_step_def)
  show "\<exists>k. ok k \<and> kv_GetKey (pm_bytes (lpool l')) a = le_bytes 8 k"
  proof (cases "a \<in> V")
    case False
    then have old: "a \<in> set (seg_entries l i)" using st a i by (auto simp: log_step_def)
    then have "i \<notin> set (free_segments l)" using assms(2) by (auto simp: log_inv_def seg_entries_def)
    then have "kv_GetKey (pm_bytes (lpool l')) a = kv_GetKey (pm_bytes (lpool l)) a" using kp i old by (simp add: log_keeps_def)
    then show ?thesis using assms(1) i old by (auto simp: log_keys_def)
  qed (use V in blast)
qed

lemma db_inv_log:
  assumes "db_inv ix iinv ikey_ok H db" and "log_keeps (db_log db) l'" and "log_inv H' l'"
  shows "db_inv ix iinv ikey_ok H' (db\<lparr>db_log := l'\<rparr>)"
    and "ikey_ok k \<Longrightarrow> db_contents ix (db\<lparr>db_log := l'\<rparr>) k = db_contents ix db k"
  using assms live_keeps [OF assms(2)] by (auto simp: db_inv_def db_contents_def Let_def)

lemma log_inv_add:
  assumes "log_inv H l" and "b < num_segments l" and "b \<notin> set (free_segments l)" and "seg_tail (segs l b) = data_start (segs l b)"
  shows "log_inv (insert b H) l"
  using assms by (auto simp: log_inv_def seg_walk_end_def)

text \<open>Entries of different segments are different.\<close>

lemma entries_apart:
  assumes "log_inv H l" and "i < num_segments l" and "j < num_segments l" and "a \<in> set (seg_entries l i)" and "a \<in> set (seg_entries l j)"
  shows "i = j"
proof -
  have "GetSegmentID l a = n" if "n < num_segments l" "a \<in> set (seg_entries l n)" for n
  proof -
    have ok: "seg_ok l n" using assms(1) that by (simp add: log_inv_def)
    have "data_start (segs l n) \<le> a \<and> a < seg_tail (segs l n)"
      using that(2) seg_ok_bounds(4) [OF ok] entries_inside [of "pm_bytes (lpool l)" "data_start (segs l n)" "seg_tail (segs l n)" _ a]
      by (auto simp: seg_entries_def seg_walk_end_def)
    then show ?thesis using seg_ok_bounds [OF ok] by (intro GetSegmentID_addr) auto
  qed
  then show ?thesis using assms by metis
qed

section \<open>Room in the reserved segment\<close>

lemma freeze_reserved:
  assumes inv: "gc_inv ix iinv ikey_ok W cl db" and c: "compacting ix ikey_ok W seg p q cl db" and b: "backup_segment cl = Some b"
  shows "\<exists>cl' l'. FreezeReservedAndGetNew now cl (db_log db) = Inr (cl', l') \<and>
    cl' = cl\<lparr>reserved_segment := Some b, backup_segment := None, cl_tmp := cl_tmp cl'\<rparr> \<and>
    log_inv (gc_heads W cl') l' \<and> log_keeps (db_log db) l' \<and> log_step {} (insert seg (insert b W)) (db_log db) l' \<and>
    free_segments l' = free_segments (db_log db)"
proof -
  let ?l = "db_log db"
  obtain r where r: "reserved_segment cl = Some r" "r \<notin> W" using inv by (auto simp: gc_inv_def gc_own_def)
  have li: "log_inv (insert r W) ?l" using inv r by (simp add: gc_inv_def db_inv_def gc_heads_def)
  have bo: "b < num_segments ?l" "b \<notin> set (free_segments ?l)" "b \<notin> insert r W" "seg_tail (segs ?l b) = data_start (segs ?l b)"
    using inv b r by (auto simp: gc_inv_def gc_own_def gc_heads_def)
  have sr: "seg \<noteq> r" using c r by (auto simp: compacting_def gc_heads_def)
  obtain tmp l1 where l1: "SyncCleanerGarbageBytes (cl_tmp cl) (FreezeSegment now (Some r) ?l) = (tmp, l1)" by fastforce
  have wf: "worker_Freeze now (Some r) (cl_tmp cl) ?l = (tmp, l1)" using l1 by (simp add: worker_Freeze_def)
  let ?J = "insert seg (insert b W)"
  have J: "?J \<inter> set_option (Some r) = {}" using sr bo(3) r(2) by auto
  have f: "log_inv W l1" "log_keeps ?l l1" "free_segments l1 = free_segments ?l"
    using worker_Freeze_log [OF li _ wf] r(2) by auto
  have st: "log_step {} ?J ?l l1" by (rule worker_Freeze_step [OF li _ J wf]) simp
  let ?l' = "on_seg (StartUsing False False) b l1"
  have q: "quiet l1 ?l'" "free_segments l1 = [] @ free_segments ?l'" "num_free_segments ?l' = num_free_segments l1"
    by (simp_all add: quiet_def on_seg_def StartUsing_def set_header_def)
  have qi: "log_inv W ?l'" "log_keeps l1 ?l'" using quiet_inv [OF q(1) f(1) q(2)] f(1) q by (auto simp: log_inv_def)
  have st': "log_step {} ?J ?l ?l'" by (rule log_step_trans [OF st quiet_step [OF q(1)]])
  then have "seg_tail (segs ?l' b) = data_start (segs ?l' b)" "num_segments ?l' = num_segments ?l"
    using bo(1,4) by (auto simp: log_step_def still_def data_start_def)
  then have "log_inv (insert b W) ?l'" using bo(1,2) f(3) q(2) by (intro log_inv_add [OF qi(1)]) auto
  moreover have "FreezeReservedAndGetNew now cl ?l = Inr (cl\<lparr>reserved_segment := Some b, backup_segment := None, cl_tmp := tmp\<rparr>, ?l')"
    by (simp add: FreezeReservedAndGetNew_def r(1) l1 b)
  ultimately show ?thesis using log_keeps_trans [OF f(2) qi(2)] st' f(3) q(2) by (auto simp: gc_heads_def)
qed

text \<open>
  What one action of the cleaner keeps, for a client that writes at the same time: the entries
  outside \<open>V\<close>, the workers' heads and the segment being compacted.
\<close>

definition gc_keeps :: "nat set \<Rightarrow> nat \<Rightarrow> nat set \<Rightarrow> cleaner \<Rightarrow> log \<Rightarrow> cleaner \<Rightarrow> log \<Rightarrow> bool" where
  "gc_keeps V seg W cl l cl' l' \<longleftrightarrow> log_keeps l l' \<and> log_step V (insert seg W) l l' \<and> free_segments l' = free_segments l \<and>
     to_compact cl' = to_compact cl \<and> cleaner_id cl' = cleaner_id cl \<and>
     set_option (reserved_segment cl') \<subseteq> set_option (reserved_segment cl) \<union> set_option (backup_segment cl) \<and>
     set_option (backup_segment cl') \<subseteq> set_option (backup_segment cl)"

lemma reserve_space_ok:
  assumes inv: "gc_inv ix iinv ikey_ok W cl db" and c: "compacting ix ikey_ok W seg p p cl db"
    and p: "p < seg_tail (segs (db_log db) seg)" "kv_size (pm_bytes (lpool (db_log db))) p \<noteq> sizeof_KVItem"
  defines "sz \<equiv> kv_size (pm_bytes (lpool (db_log db))) p"
  shows "\<exists>cl' l'. reserve_space now sz cl (db_log db) = Inr (cl', l') \<and>
    gc_inv ix iinv ikey_ok W cl' (db\<lparr>db_log := l'\<rparr>) \<and> compacting ix ikey_ok W seg p p cl' (db\<lparr>db_log := l'\<rparr>) \<and>
    gc_keeps {} seg W cl (db_log db) cl' l' \<and>
    (\<forall>r. reserved_segment cl' = Some r \<longrightarrow> HasSpaceFor (segs l' r) sz)"
proof -
  let ?l = "db_log db"
  obtain r where r: "reserved_segment cl = Some r" "r \<notin> W" using inv by (auto simp: gc_inv_def gc_own_def)
  have li: "log_inv (gc_heads W cl) ?l" and di: "db_inv ix iinv ikey_ok (gc_heads W cl) db" and lk: "log_keys ikey_ok ?l"
    using inv by (auto simp: gc_inv_def db_inv_def)
  have seg: "seg < num_segments ?l" "seg \<notin> set (free_segments ?l)" "seg \<notin> gc_heads W cl" "on_walk ix ikey_ok seg p db"
    using c by (auto simp: compacting_def)
  have ok: "seg_ok ?l seg" using li seg by (simp add: log_inv_def)
  note e = on_walk_entry [OF seg(4) ok p, folded sz_def]
  have szl: "sz \<le> seg_tail (segs ?l seg) - p" using e(2) by simp
  show ?thesis
  proof (cases "HasSpaceFor (segs ?l r) sz")
    case True
    then show ?thesis using inv c r by (auto simp: reserve_space_def gc_keeps_def compacting_def gc_room_def)
  next
    case False
    then have "backup_segment cl \<noteq> None" using c r szl by (auto simp: compacting_def gc_room_def HasSpaceFor_def)
    then obtain b where b: "backup_segment cl = Some b" by auto
    from freeze_reserved [OF inv c b, of now] obtain cl' l' where
      f: "FreezeReservedAndGetNew now cl ?l = Inr (cl', l')"
        "cl' = cl\<lparr>reserved_segment := Some b, backup_segment := None, cl_tmp := cl_tmp cl'\<rparr>"
        "log_inv (gc_heads W cl') l'" "log_keeps ?l l'" "log_step {} (insert seg (insert b W)) ?l l'"
        "free_segments l' = free_segments ?l" by blast
    let ?db' = "db\<lparr>db_log := l'\<rparr>"
    have cl': "reserved_segment cl' = Some b" "backup_segment cl' = None" "to_compact cl' = to_compact cl"
        "cleaner_id cl' = cleaner_id cl" by (subst f(2), simp)+
    have bo: "b < num_segments ?l" "b \<notin> gc_heads W cl" "seg_tail (segs ?l b) = data_start (segs ?l b)" "b \<noteq> seg"
      using inv b c by (auto simp: gc_inv_def gc_own_def compacting_def)
    have st: "still seg ?l l'" "still b ?l l'" "num_segments l' = num_segments ?l" using f(5) seg(1) bo(1) by (auto simp: log_step_def)
    have "seg_tail (segs ?l seg) - p \<le> SEGMENT_SIZE - HEADERS_SIZE"
      using seg_ok_bounds [OF ok] seg(4) ok by (auto simp: on_walk_def Let_def seg_ok_def data_start_def)
    then have room: "HasSpaceFor (segs l' b) (seg_tail (segs l' seg) - p)"
      using st(1,2) bo(3) by (simp add: HasSpaceFor_def still_def seg_end_def data_start_def HEADERS_SIZE_def SEGMENT_SIZE_def)
    have lk': "log_keys ikey_ok l'" using log_keys_step [OF lk li f(5,4)] by simp
    have i': "gc_inv ix iinv ikey_ok W cl' ?db'"
      using db_inv_log(1) [OF di f(4,3)] lk' cl' bo(2) by (auto simp: gc_inv_def gc_own_def gc_heads_def)
    have w': "on_walk ix ikey_ok seg p ?db'" by (rule on_walk_still [OF seg(4) _ ok]) (use st(1) in simp_all)
    have c': "compacting ix ikey_ok W seg p p cl' ?db'"
      using seg w' room st(3) f(6) cl' bo(4) by (auto simp: compacting_def gc_room_def gc_heads_def)
    have k': "gc_keeps {} seg W cl ?l cl' l'"
      using f(4,6) log_step_mono [OF f(5), of "{}" "insert seg W"] cl' b by (auto simp: gc_keeps_def)
    have hs: "HasSpaceFor (segs l' b) sz" using room szl st(1) by (simp add: HasSpaceFor_def still_def)
    have "reserve_space now sz cl ?l = Inr (cl', l')" using False f(1) r by (simp add: reserve_space_def)
    then show ?thesis using i' c' k' hs room cl' by (intro exI [of _ cl'] exI [of _ l']) simp
  qed
qed

section \<open>Copying an entry\<close>

lemma length_kv_fields: "length (kv_GetKey m p) = kv_key_size m p" "length (kv_GetValue m p) = kv_val_size m p"
  by (simp_all add: kv_GetKey_def kv_GetValue_def)

text \<open>The entry at \<open>p\<close> has its copy at \<open>v\<close> in the reserved segment, not yet in the index.\<close>

definition copied :: "'i index_ops \<Rightarrow> nat \<Rightarrow> nat \<Rightarrow> nat \<Rightarrow> cleaner \<Rightarrow> 'i db \<Rightarrow> bool" where
  "copied ix seg p v cl db \<longleftrightarrow>
     (let l = db_log db; m = pm_bytes (lpool l) in
      p < seg_tail (segs l seg) \<and> kv_size m p \<noteq> sizeof_KVItem \<and>
      (\<exists>r. reserved_segment cl = Some r \<and> v \<in> set (seg_entries l r)) \<and>
      kv_GetKey m v = kv_GetKey m p \<and> kv_GetValue m v = kv_GetValue m p \<and>
      ix_get ix (index_key (kv_GetKey m p)) (db_index db) \<noteq> INVALID_VALUE)"

lemma entry_key:
  assumes inv: "gc_inv ix iinv ikey_ok W cl db" and c: "compacting ix ikey_ok W seg p q cl db"
    and p: "p < seg_tail (segs (db_log db) seg)" "kv_size (pm_bytes (lpool (db_log db))) p \<noteq> sizeof_KVItem"
  obtains k where "ikey_ok k" "kv_GetKey (pm_bytes (lpool (db_log db))) p = le_bytes 8 k"
    "index_key (kv_GetKey (pm_bytes (lpool (db_log db))) p) = k" "p \<in> set (seg_entries (db_log db) seg)"
    "live (db_log db) k p" "p \<noteq> INVALID_VALUE" "tp_GetAddr p = p"
proof -
  let ?l = "db_log db"
  have li: "log_inv (gc_heads W cl) ?l" and lk: "log_keys ikey_ok ?l" using inv by (auto simp: gc_inv_def db_inv_def)
  have seg: "seg < num_segments ?l" "seg \<notin> set (free_segments ?l)" "on_walk ix ikey_ok seg p db" using c by (auto simp: compacting_def)
  have ok: "seg_ok ?l seg" using li seg by (simp add: log_inv_def)
  have pe: "p \<in> set (seg_entries ?l seg)" by (rule on_walk_entry(1) [OF seg(3) ok p])
  then obtain k where k: "ikey_ok k" "kv_GetKey (pm_bytes (lpool ?l)) p = le_bytes 8 k" using lk seg by (auto simp: log_keys_def)
  have lv: "live ?l k p" using seg pe k by (auto simp: live_def)
  have "index_key (le_bytes 8 k) = k" by (simp add: index_key_def le_word_le_bytes_full)
  then show thesis using that k pe lv live_address(1,2) [OF li lv] by simp
qed

lemma gc_append_ok:
  assumes inv: "gc_inv ix iinv ikey_ok W cl db" and c: "compacting ix ikey_ok W seg p p cl db"
    and p: "p < seg_tail (segs (db_log db) seg)" "kv_size (pm_bytes (lpool (db_log db))) p \<noteq> sizeof_KVItem"
    and room: "\<And>r. reserved_segment cl = Some r \<Longrightarrow> HasSpaceFor (segs (db_log db) r) (kv_size (pm_bytes (lpool (db_log db))) p)"
    and live: "\<not> IsGarbage ix p db"
  shows "\<exists>v l'. gc_append p cl (db_log db) = Inr (v, l') \<and> gc_inv ix iinv ikey_ok W cl (db\<lparr>db_log := l'\<rparr>) \<and>
    compacting ix ikey_ok W seg p (p + kv_size (pm_bytes (lpool l')) p) cl (db\<lparr>db_log := l'\<rparr>) \<and>
    copied ix seg p v cl (db\<lparr>db_log := l'\<rparr>) \<and> gc_keeps {v} seg W cl (db_log db) cl l' \<and>
    kv_size (pm_bytes (lpool l')) p = kv_size (pm_bytes (lpool (db_log db))) p"
proof -
  let ?l = "db_log db" and ?m = "pm_bytes (lpool (db_log db))"
  obtain k where k: "ikey_ok k" "kv_GetKey ?m p = le_bytes 8 k" "index_key (kv_GetKey ?m p) = k" "p \<in> set (seg_entries ?l seg)"
      "p \<noteq> INVALID_VALUE" by (rule entry_key [OF inv c p])
  obtain r where r: "reserved_segment cl = Some r" "r \<notin> W" using inv by (auto simp: gc_inv_def gc_own_def)
  have li: "log_inv (gc_heads W cl) ?l" and di: "db_inv ix iinv ikey_ok (gc_heads W cl) db" and lk: "log_keys ikey_ok ?l"
    using inv by (auto simp: gc_inv_def db_inv_def)
  have rH: "r \<in> gc_heads W cl" using r by (simp add: gc_heads_def)
  have seg: "seg < num_segments ?l" "seg \<notin> set (free_segments ?l)" "seg \<notin> gc_heads W cl" "on_walk ix ikey_ok seg p db"
    using c by (auto simp: compacting_def)
  then have sr: "seg \<noteq> r" using rH by blast
  have ok: "seg_ok ?l seg" using li seg by (simp add: log_inv_def)
  have len: "length (kv_GetKey ?m p) < 2 ^ 15" "length (kv_GetValue ?m p) < 2 ^ 16" "kv_GetKey ?m p \<noteq> []"
    using unsigned_less [of "le_word (mem_read ?m (p + 2) 2) :: u16", where 'a = nat] k(2)
    by (auto simp: length_kv_fields kv_key_size_def kv_val_size_def simp flip: length_0_conv)
  have sz: "sizeof_KVItem + length (kv_GetKey ?m p) + length (kv_GetValue ?m p) = kv_size ?m p"
    by (simp add: length_kv_fields kv_size_def)
  obtain v s pm where a: "seg_Append (kv_GetKey ?m p) (kv_GetValue ?m p) (kv_epoch ?m p) (segs ?l r, lpool ?l) = (v, s, pm)"
    by (metis prod_cases3)
  have hs: "HasSpaceFor (segs ?l r) (sizeof_KVItem + length (kv_GetKey ?m p) + length (kv_GetValue ?m p))"
    using room [OF r(1)] sz by simp
  then have v: "v = seg_tail (segs ?l r)" "seg_tail s = seg_tail (segs ?l r) + kv_size ?m p" "segment_start s = segment_start (segs ?l r)"
    using a sz by (auto simp: seg_Append_def Let_def tagged_pointer_def)
  have okr: "seg_ok ?l r" using li rH by (auto simp: log_inv_def)
  have vi: "v \<noteq> INVALID_VALUE" using seg_ok_bounds(1,2) [OF okr] v(1) by (simp add: INVALID_VALUE_def)
  define l' where "l' = ?l\<lparr>segs := (segs ?l)(r := s), lpool := pm\<rparr>"
  note A = seg_Append_log [OF li rH len a vi, folded l'_def]
  have st: "log_step {v} (insert seg W) ?l l'"
    using seg_Append_step [OF li rH len a vi, of "insert seg W"] sr r(2) by (auto simp: l'_def)
  have lp: "lpool l' = pm" "free_segments l' = free_segments ?l" by (simp_all add: l'_def)
  let ?db' = "db\<lparr>db_log := l'\<rparr>"
  have still: "still seg ?l l'" using st seg(1) by (auto simp: log_step_def)
  have fields: "kv_GetKey (pm_bytes pm) p = kv_GetKey ?m p" "kv_GetValue (pm_bytes pm) p = kv_GetValue ?m p"
      "kv_size (pm_bytes pm) p = kv_size ?m p"
    using entry_fields_frame [OF ok k(4), of "pm_bytes pm"] still lp by (auto simp: still_def)
  have lk': "log_keys ikey_ok l'" using log_keys_step [OF lk li st A(2)] A(4) k(1,2) lp by auto
  have i': "gc_inv ix iinv ikey_ok W cl ?db'"
    using inv db_inv_log(1) [OF di A(2,1)] lk' lp sr by (auto simp: gc_inv_def gc_own_def gc_heads_def r l'_def data_start_def)
  have w': "on_walk ix ikey_ok seg p ?db'" by (rule on_walk_still [OF seg(4) _ ok]) (use still in simp_all)
  have "gc_room seg (p + kv_size ?m p) cl l'"
    using c r v(2,3) still on_walk_entry(2) [OF seg(4) ok p]
    by (auto simp: gc_room_def compacting_def HasSpaceFor_def seg_end_def l'_def still_def)
  then have c': "compacting ix ikey_ok W seg p (p + kv_size (pm_bytes (lpool l')) p) cl ?db'"
    using c w' st fields lp by (auto simp: compacting_def log_step_def)
  have "ix_get ix k (db_index db) \<noteq> INVALID_VALUE" using live k(3,5) by (auto simp: IsGarbage_def tp_GetAddr_def INVALID_VALUE_def)
  then have cp: "copied ix seg p v cl ?db'"
    using p still A(3-5) fields k(3) r(1) lp by (auto simp: copied_def Let_def still_def)
  have "gc_append p cl ?l = Inr (v, l')" by (simp add: gc_append_def r a l'_def)
  moreover have "gc_keeps {v} seg W cl ?l cl l'" using A(2) st lp by (simp add: gc_keeps_def)
  ultimately show ?thesis using i' c' cp fields lp by (intro exI [of _ v] exI [of _ l']) simp
qed

section \<open>Moving the index entry\<close>

lemma cl_MarkGarbage_ok:
  assumes "log_inv H l" and "live l k a"
  shows "\<exists>cl' l'. cl_MarkGarbage a cl l = Inr (cl', l') \<and> cl' = cl\<lparr>cl_tmp := cl_tmp cl'\<rparr> \<and> quiet l l' \<and> free_segments l' = free_segments l \<and>
    num_free_segments l' = num_free_segments l"
proof -
  obtain i where i: "i < num_segments l" "GetSegmentID l a = i" using live_address(3) [OF assms] by auto
  then have "registered l i" using assms(1) by (simp add: log_inv_def)
  then show ?thesis using i live_address(2) [OF assms]
    by (auto simp: cl_MarkGarbage_def Let_def GetSegment_def quiet_def seg_MarkGarbage_def)
qed

lemma gc_inv_quiet:
  assumes "gc_inv ix iinv ikey_ok W cl db" and cl: "reserved_segment cl' = reserved_segment cl" "backup_segment cl' = backup_segment cl"
    and q: "quiet (db_log db) l'" "free_segments l' = free_segments (db_log db)" "num_free_segments l' = num_free_segments (db_log db)"
  shows "gc_inv ix iinv ikey_ok W cl' (db\<lparr>db_log := l'\<rparr>)"
    and "ikey_ok k \<Longrightarrow> db_contents ix (db\<lparr>db_log := l'\<rparr>) k = db_contents ix db k"
    and "log_keeps (db_log db) l'"
proof -
  let ?l = "db_log db"
  have li: "log_inv (gc_heads W cl) ?l" and di: "db_inv ix iinv ikey_ok (gc_heads W cl) db" and lk: "log_keys ikey_ok ?l"
    using assms(1) by (auto simp: gc_inv_def db_inv_def)
  have qi: "log_inv (gc_heads W cl) l'" and kp: "log_keeps ?l l'"
    using quiet_inv [OF q(1) li, of "[]"] q li by (auto simp: log_inv_def)
  note qs = quiet_segs [OF q(1)]
  have lk': "log_keys ikey_ok l'" using lk q(1) by (simp add: log_keys_def qs quiet_def)
  show "gc_inv ix iinv ikey_ok W cl' (db\<lparr>db_log := l'\<rparr>)"
    using assms(1) db_inv_log(1) [OF di kp qi] lk' q cl by (auto simp: gc_inv_def gc_own_def gc_heads_def qs quiet_def)
  show "ikey_ok k \<Longrightarrow> db_contents ix (db\<lparr>db_log := l'\<rparr>) k = db_contents ix db k" by (rule db_inv_log(2) [OF di kp qi])
  show "log_keeps ?l l'" by (rule kp)
qed

lemma compacting_quiet:
  assumes "compacting ix ikey_ok W seg p q cl db" and q: "quiet (db_log db) l'" "free_segments l' = free_segments (db_log db)"
  shows "compacting ix ikey_ok W seg p q (cl\<lparr>cl_tmp := tmp\<rparr>) (db\<lparr>db_log := l'\<rparr>)"
  using assms by (auto simp: compacting_def gc_heads_def on_walk_def gc_room_def HasSpaceFor_def seg_end_def Let_def
      quiet_segs [OF q(1)] quiet_def)

context flat_index
begin

lemma gc_index_ok:
  assumes inv: "gc_inv ix iinv ikey_ok W cl db" and c: "compacting ix ikey_ok W seg p q cl db" and cp: "copied ix seg p v cl db"
  defines "k0 \<equiv> index_key (kv_GetKey (pm_bytes (lpool (db_log db))) p)"
  defines "db' \<equiv> db\<lparr>db_index := snd (ix_gc ix k0 p v (db_index db))\<rparr>"
  shows "gc_inv ix iinv ikey_ok W cl db'"
    and "compacting ix ikey_ok W seg (p + kv_size (pm_bytes (lpool (db_log db))) p) q cl db'"
    and "ikey_ok k \<Longrightarrow> db_contents ix db' k = db_contents ix db k"
    and "iok (db_index db') = iok (db_index db)"
    and "fst (ix_gc ix k0 p v (db_index db)) = v \<Longrightarrow> \<exists>k. live (db_log db) k v"
proof -
  let ?l = "db_log db" and ?m = "pm_bytes (lpool (db_log db))" and ?i' = "snd (ix_gc ix k0 p v (db_index db))"
  have C: "p < seg_tail (segs ?l seg)" "kv_size ?m p \<noteq> sizeof_KVItem" "kv_GetKey ?m v = kv_GetKey ?m p"
      "kv_GetValue ?m v = kv_GetValue ?m p" "ix_get ix k0 (db_index db) \<noteq> INVALID_VALUE"
    using cp by (auto simp: copied_def Let_def k0_def)
  obtain r where r: "reserved_segment cl = Some r" "v \<in> set (seg_entries ?l r)" using cp by (auto simp: copied_def Let_def)
  obtain k1 where k: "ikey_ok k1" "kv_GetKey ?m p = le_bytes 8 k1" "k0 = k1" "p \<in> set (seg_entries ?l seg)" "p \<noteq> INVALID_VALUE"
    unfolding k0_def by (rule entry_key [OF inv c C(1,2)])
  have li: "log_inv (gc_heads W cl) ?l" and ii: "iinv (db_index db)"
    and lv: "\<And>k. ikey_ok k \<Longrightarrow> ix_get ix k (db_index db) \<noteq> INVALID_VALUE \<Longrightarrow> live ?l k (ix_get ix k (db_index db))"
    using inv by (auto simp: gc_inv_def db_inv_def)
  have rn: "r < num_segments ?l" "r \<notin> set (free_segments ?l)" using li r by (auto simp: log_inv_def gc_heads_def)
  have seg: "seg < num_segments ?l" "seg \<noteq> r" "on_walk ix ikey_ok seg p db" using c r by (auto simp: compacting_def gc_heads_def)
  have nv: "live ?l k0 v" using rn r C(3) k by (auto simp: live_def)
  have vi: "v \<noteq> INVALID_VALUE" by (rule live_address(1) [OF li nv])
  have nw: "new_value ix ikey_ok k0 v (db_index db)" by (rule live_new_value [OF li nv lv])
  have vs: "v \<notin> set (seg_entries ?l seg)" using entries_apart [OF li seg(1) rn(1)] r(2) seg(2) by blast
  then have vp: "v \<noteq> p" using k(4) by blast
  have get: "ix_get ix k' ?i' = (if k' = k0 \<and> ix_get ix k0 (db_index db) = p then v else ix_get ix k' (db_index db))" if "ikey_ok k'" for k'
    using k that C(5) nw by (intro gc_get [OF ii]) auto
  have ii': "iinv ?i'" using gc_inv [OF ii _ C(5) k(5) nw] k by auto
  have lv': "live ?l k' (ix_get ix k' ?i')" if "ikey_ok k'" "ix_get ix k' ?i' \<noteq> INVALID_VALUE" for k'
    using that lv [of k'] get [of k'] nv by (auto split: if_splits)
  then show gi: "gc_inv ix iinv ikey_ok W cl db'" using inv ii' by (simp add: gc_inv_def db_inv_def db'_def)
  have w': "on_walk ix ikey_ok seg p db'"
  proof (rule on_walk_still [OF seg(3)])
    show "ix_get ix k' (db_index db') = ix_get ix k' (db_index db)"
      if "ikey_ok k'" "ix_get ix k' (db_index db') \<in> set (seg_entries ?l seg)" for k'
      using that get [of k'] vs by (auto simp: db'_def split: if_splits)
    show "seg_ok ?l seg" using li seg by (simp add: log_inv_def)
  qed (simp add: db'_def)
  have np: "ix_get ix k' (db_index db') \<noteq> p" if "ikey_ok k'" for k'
  proof
    assume eq: "ix_get ix k' (db_index db') = p"
    then have g: "ix_get ix k' (db_index db) = p" "\<not> (k' = k0 \<and> ix_get ix k0 (db_index db) = p)"
      using get [OF that] vp by (auto simp: db'_def split: if_splits)
    then have "live ?l k' p" using lv [OF that] k(5) by simp
    then have "le_bytes 8 k' = le_bytes 8 k0" using k by (simp add: live_def)
    then have "k' = k0" by (simp add: le_bytes_eq_iff take_bit_word_eq_self)
    then show False using g by simp
  qed
  have "on_walk ix ikey_ok seg (p + kv_size ?m p) db'"
    using on_walk_entry(3) [OF w' _ _ _ np] C(1,2) li seg(1) by (simp add: db'_def log_inv_def)
  then show "compacting ix ikey_ok W seg (p + kv_size ?m p) q cl db'" using c by (simp add: compacting_def db'_def)
  show "db_contents ix db' k = db_contents ix db k" if "ikey_ok k"
    using get [OF that] C(4,5) vi k(5) by (auto simp: db_contents_def db'_def Let_def)
  show "iok (db_index db') = iok (db_index db)" using gc_ok [OF ii _ C(5) nw] k by (simp add: db'_def)
  show "\<exists>k. live ?l k v" using nv by blast
qed

lemma gc_move_ok:
  assumes inv: "gc_inv ix iinv ikey_ok W cl db" and cp: "copied ix seg p v cl db"
    and c: "compacting ix ikey_ok W seg p (p + kv_size (pm_bytes (lpool (db_log db))) p) cl db"
  defines "q \<equiv> p + kv_size (pm_bytes (lpool (db_log db))) p"
  shows "\<exists>cl' db'. gc_move ix p v cl db = Inr (cl', db') \<and> gc_inv ix iinv ikey_ok W cl' db' \<and>
    compacting ix ikey_ok W seg q q cl' db' \<and> (\<forall>k. ikey_ok k \<longrightarrow> db_contents ix db' k = db_contents ix db k) \<and>
    iok (db_index db') = iok (db_index db) \<and> gc_keeps {} seg W cl (db_log db) cl' (db_log db')"
proof -
  let ?k0 = "index_key (kv_GetKey (pm_bytes (lpool (db_log db))) p)"
  let ?db1 = "db\<lparr>db_index := snd (ix_gc ix ?k0 p v (db_index db))\<rparr>"
  note g = gc_index_ok [OF inv c cp, folded q_def]
  show ?thesis
  proof (cases "fst (ix_gc ix ?k0 p v (db_index db)) = v")
    case True
    obtain k where lv: "live (db_log db) k v" using g(5) True by blast
    have li: "log_inv (gc_heads W cl) (db_log db)" using inv by (simp add: gc_inv_def db_inv_def)
    from cl_MarkGarbage_ok [OF li lv, of cl] obtain cl' l' where
      m: "cl_MarkGarbage v cl (db_log db) = Inr (cl', l')" "cl' = cl\<lparr>cl_tmp := cl_tmp cl'\<rparr>" "quiet (db_log db) l'"
        "free_segments l' = free_segments (db_log db)" "num_free_segments l' = num_free_segments (db_log db)" by blast
    have res: "gc_move ix p v cl db = Inr (cl', ?db1\<lparr>db_log := l'\<rparr>)"
      using True m(1) by (simp add: gc_move_def Let_def split_beta tagged_pointer_def)
    have "quiet (db_log ?db1) l'" "free_segments l' = free_segments (db_log ?db1)" "num_free_segments l' = num_free_segments (db_log ?db1)"
      using m(3-5) by simp_all
    note Q = gc_inv_quiet(1) [OF g(1) _ _ this] compacting_quiet [OF g(2) this(1,2), where tmp = "cl_tmp cl'", folded m(2)]
      gc_inv_quiet(2,3) [OF g(1) refl refl this]
    have eq: "reserved_segment cl' = reserved_segment cl" "backup_segment cl' = backup_segment cl" by (subst m(2), simp)+
    have "gc_keeps {} seg W cl (db_log db) cl' l'"
      using Q(4) quiet_step [OF m(3)] m(4) by (subst m(2)) (simp add: gc_keeps_def)
    then show ?thesis using res Q(1) [OF eq] Q(2,3) g(3,4) by (intro exI [of _ cl'] exI [of _ "?db1\<lparr>db_log := l'\<rparr>"]) simp
  next
    case False
    then have "gc_move ix p v cl db = Inr (cl, ?db1)" by (simp add: gc_move_def Let_def split_beta tagged_pointer_def)
    then show ?thesis using g(1-4) by (intro exI [of _ cl] exI [of _ ?db1]) (simp add: gc_keeps_def)
  qed
qed

section \<open>A whole segment\<close>

lemma skip_garbage:
  assumes inv: "gc_inv ix iinv ikey_ok W cl db" and c: "compacting ix ikey_ok W seg p p cl db"
    and p: "p < seg_tail (segs (db_log db) seg)" "kv_size (pm_bytes (lpool (db_log db))) p \<noteq> sizeof_KVItem"
    and garbage: "IsGarbage ix p db"
  defines "q \<equiv> p + kv_size (pm_bytes (lpool (db_log db))) p"
  shows "compacting ix ikey_ok W seg q q cl db"
proof -
  let ?l = "db_log db"
  obtain k where k: "kv_GetKey (pm_bytes (lpool ?l)) p = le_bytes 8 k" "index_key (kv_GetKey (pm_bytes (lpool ?l)) p) = k"
      "tp_GetAddr p = p" "p \<noteq> INVALID_VALUE" by (rule entry_key [OF inv c p])
  have "ix_get ix k' (db_index db) \<noteq> p" if "ikey_ok k'" for k'
  proof
    assume eq: "ix_get ix k' (db_index db) = p"
    then have "live ?l k' p" using inv that k(4) by (auto simp: gc_inv_def db_inv_def)
    then have "k' = k" using k(1) by (simp add: live_def le_bytes_eq_iff take_bit_word_eq_self)
    then show False using garbage eq k(2,3) by (simp add: IsGarbage_def)
  qed
  moreover have "seg_ok ?l seg" "on_walk ix ikey_ok seg p db" using inv c by (auto simp: gc_inv_def db_inv_def log_inv_def compacting_def)
  ultimately have "on_walk ix ikey_ok seg q db" unfolding q_def using on_walk_entry(3) p by blast
  then show ?thesis using c by (auto simp: compacting_def gc_room_def HasSpaceFor_def q_def)
qed

lemma compact_entry_ok:
  assumes inv: "gc_inv ix iinv ikey_ok W cl db" and c: "compacting ix ikey_ok W seg p p cl db"
    and p: "p < seg_tail (segs (db_log db) seg)" "kv_size (pm_bytes (lpool (db_log db))) p \<noteq> sizeof_KVItem"
  defines "q \<equiv> p + kv_size (pm_bytes (lpool (db_log db))) p"
  shows "\<exists>cl' db'. compact_entry ix now p cl db = Inr (cl', db') \<and> gc_inv ix iinv ikey_ok W cl' db' \<and>
    compacting ix ikey_ok W seg q q cl' db' \<and> (\<forall>k. ikey_ok k \<longrightarrow> db_contents ix db' k = db_contents ix db k) \<and>
    iok (db_index db') = iok (db_index db) \<and> seg_tail (segs (db_log db') seg) = seg_tail (segs (db_log db) seg) \<and>
    num_segments (db_log db') = num_segments (db_log db)"
proof -
  let ?l = "db_log db"
  have di: "db_inv ix iinv ikey_ok (gc_heads W cl) db" using inv by (simp add: gc_inv_def)
  have sg: "seg < num_segments ?l" "p \<in> set (seg_entries ?l seg)" "seg_ok ?l seg"
    using inv c on_walk_entry(1) [OF _ _ p] by (auto simp: compacting_def gc_inv_def db_inv_def log_inv_def)
  from reserve_space_ok [OF inv c p, of now] obtain cl1 l1 where
    r: "reserve_space now (kv_size (pm_bytes (lpool ?l)) p) cl ?l = Inr (cl1, l1)"
      "gc_inv ix iinv ikey_ok W cl1 (db\<lparr>db_log := l1\<rparr>)" "compacting ix ikey_ok W seg p p cl1 (db\<lparr>db_log := l1\<rparr>)"
      "gc_keeps {} seg W cl ?l cl1 l1"
      "\<And>r. reserved_segment cl1 = Some r \<Longrightarrow> HasSpaceFor (segs l1 r) (kv_size (pm_bytes (lpool ?l)) p)" by blast
  let ?db1 = "db\<lparr>db_log := l1\<rparr>"
  have still: "still seg ?l l1" "num_segments l1 = num_segments ?l" using r(4) sg by (auto simp: gc_keeps_def log_step_def)
  have sz: "kv_size (pm_bytes (lpool l1)) p = kv_size (pm_bytes (lpool ?l)) p"
    using entry_fields_frame [OF sg(3,2), of "pm_bytes (lpool l1)"] still by (auto simp: still_def)
  have p1: "p < seg_tail (segs (db_log ?db1) seg)" "kv_size (pm_bytes (lpool (db_log ?db1))) p \<noteq> sizeof_KVItem"
    using p still sz by (simp_all add: still_def)
  have cont1: "db_contents ix ?db1 k = db_contents ix db k" if "ikey_ok k" for k
    using db_inv_log(2) [OF di _ _ that, of l1] r(2,4) by (auto simp: gc_keeps_def gc_inv_def db_inv_def)
  show ?thesis
  proof (cases "IsGarbage ix p ?db1")
    case True
    then have "compact_entry ix now p cl db = Inr (cl1, ?db1)" by (simp add: compact_entry_def r(1))
    moreover have "compacting ix ikey_ok W seg q q cl1 ?db1"
      using skip_garbage [OF r(2,3) p1 True] sz by (simp add: q_def)
    ultimately show ?thesis using r(2) cont1 still by (intro exI [of _ cl1] exI [of _ ?db1]) (simp add: still_def)
  next
    case False
    from gc_append_ok [OF r(2,3) p1 _ False] r(5) sz obtain v l2 where
      a: "gc_append p cl1 l1 = Inr (v, l2)" "gc_inv ix iinv ikey_ok W cl1 (db\<lparr>db_log := l2\<rparr>)"
        "compacting ix ikey_ok W seg p (p + kv_size (pm_bytes (lpool l2)) p) cl1 (db\<lparr>db_log := l2\<rparr>)"
        "copied ix seg p v cl1 (db\<lparr>db_log := l2\<rparr>)" "gc_keeps {v} seg W cl1 l1 cl1 l2"
        "kv_size (pm_bytes (lpool l2)) p = kv_size (pm_bytes (lpool l1)) p" by auto
    let ?db2 = "db\<lparr>db_log := l2\<rparr>"
    have kp2: "log_keeps l1 l2" "log_step {v} (insert seg W) l1 l2" using a(5) by (simp_all add: gc_keeps_def)
    have li2: "log_inv (gc_heads W cl1) l2" using a(2) by (simp add: gc_inv_def db_inv_def)
    have cont2: "db_contents ix ?db2 k = db_contents ix ?db1 k" if "ikey_ok k" for k
      using db_inv_log(2) [of ix iinv ikey_ok "gc_heads W cl1" ?db1 l2, OF _ _ li2 that] r(2) kp2 by (simp add: gc_inv_def)
    from gc_move_ok [OF a(2,4)] a(3) obtain cl' db' where
      m: "gc_move ix p v cl1 ?db2 = Inr (cl', db')" "gc_inv ix iinv ikey_ok W cl' db'"
        "compacting ix ikey_ok W seg q q cl' db'" "\<And>k. ikey_ok k \<Longrightarrow> db_contents ix db' k = db_contents ix ?db2 k"
        "iok (db_index db') = iok (db_index ?db2)" "gc_keeps {} seg W cl1 l2 cl' (db_log db')"
      using a(6) sz by (auto simp: q_def)
    have "compact_entry ix now p cl db = Inr (cl', db')" using False a(1) m(1) by (simp add: compact_entry_def r(1))
    moreover have "still seg l1 l2" "still seg l2 (db_log db')" "num_segments (db_log db') = num_segments ?l"
      using kp2 m(6) sg(1) still by (auto simp: log_step_def gc_keeps_def)
    ultimately show ?thesis using m cont1 cont2 still by (intro exI [of _ cl'] exI [of _ db']) (simp add: still_def)
  qed
qed

lemma compact_loop_ok:
  assumes "gc_inv ix iinv ikey_ok W cl db" and "compacting ix ikey_ok W seg p p cl db" and "tail = seg_tail (segs (db_log db) seg)"
  shows "\<exists>cl' db' p'. compact_loop ix now p tail cl db = Inr (cl', db') \<and> gc_inv ix iinv ikey_ok W cl' db' \<and>
    compacting ix ikey_ok W seg p' p' cl' db' \<and> (\<forall>k. ikey_ok k \<longrightarrow> ix_get ix k (db_index db') \<notin> set (seg_entries (db_log db') seg)) \<and>
    (\<forall>k. ikey_ok k \<longrightarrow> db_contents ix db' k = db_contents ix db k) \<and> iok (db_index db') = iok (db_index db)"
  using assms
proof (induction "tail - p" arbitrary: p cl db rule: less_induct)
  case less
  let ?sz = "kv_size (pm_bytes (lpool (db_log db))) p"
  show ?case
  proof (cases "p < tail \<and> ?sz \<noteq> sizeof_KVItem")
    case True
    then have p: "p < seg_tail (segs (db_log db) seg)" "?sz \<noteq> sizeof_KVItem" using less.prems(3) by simp_all
    from compact_entry_ok [OF less.prems(1,2) p, of now] obtain cl1 db1 where
      e: "compact_entry ix now p cl db = Inr (cl1, db1)" "gc_inv ix iinv ikey_ok W cl1 db1"
        "compacting ix ikey_ok W seg (p + ?sz) (p + ?sz) cl1 db1" "\<And>k. ikey_ok k \<Longrightarrow> db_contents ix db1 k = db_contents ix db k"
        "iok (db_index db1) = iok (db_index db)" "tail = seg_tail (segs (db_log db1) seg)"
      using less.prems(3) by auto
    have "tail - (p + ?sz) < tail - p" using True kv_size_pos [of "pm_bytes (lpool (db_log db))" p] by (intro diff_less_mono2) auto
    from less.hyps [OF this e(2,3,6)] have ih: "\<exists>cl' db' p'. compact_loop ix now (p + ?sz) tail cl1 db1 = Inr (cl', db') \<and> gc_inv ix iinv ikey_ok W cl' db' \<and>
      compacting ix ikey_ok W seg p' p' cl' db' \<and> (\<forall>k. ikey_ok k \<longrightarrow> ix_get ix k (db_index db') \<notin> set (seg_entries (db_log db') seg)) \<and>
      (\<forall>k. ikey_ok k \<longrightarrow> db_contents ix db' k = db_contents ix db1 k) \<and> iok (db_index db') = iok (db_index db1)" .
    have "compact_loop ix now p tail cl db = compact_loop ix now (p + ?sz) tail cl1 db1"
      by (subst compact_loop.simps) (simp add: True e(1))
    then show ?thesis using ih e(4,5) by simp
  next
    case False
    then have "compact_loop ix now p tail cl db = Inr (cl, db)" by (subst compact_loop.simps) auto
    moreover have "ix_get ix k (db_index db) \<notin> set (seg_entries (db_log db) seg)" if "ikey_ok k" for k
      using on_walk_end [of ix ikey_ok seg p db k] less.prems(2,3) False that by (auto simp: compacting_def)
    ultimately show ?thesis using less.prems(1,2) by (intro exI [of _ cl] exI [of _ db] exI [of _ p]) simp
  qed
qed

end

section \<open>Clearing the segment\<close>

lemma clear_log:
  assumes inv: "log_inv H l" and seg: "seg < num_segments l" "seg \<notin> H" "seg \<notin> set (free_segments l)"
  defines "l' \<equiv> on_seg seg_Clear seg l"
  shows "log_inv H l'" and "seg_entries l' seg = []" and "i \<noteq> seg \<Longrightarrow> seg_entries l' i = seg_entries l i \<and> segs l' i = segs l i"
    and "pm_bytes (lpool l') = pm_bytes (lpool l)" and "same_frame l l'" and "seg_tail (segs l' seg) = data_start (segs l' seg)"
proof -
  have f: "pm_bytes (lpool l') = pm_bytes (lpool l)" "same_frame l l'" "seg_tail (segs l' seg) = data_start (segs l' seg)"
      "segment_start (segs l' seg) = segment_start (segs l seg)" "\<And>i. i \<noteq> seg \<Longrightarrow> segs l' i = segs l i"
    by (simp_all add: l'_def on_seg_def seg_Clear_def set_header_def same_frame_def data_start_def)
  then show "pm_bytes (lpool l') = pm_bytes (lpool l)" "same_frame l l'" "seg_tail (segs l' seg) = data_start (segs l' seg)" by simp_all
  have addr: "seg_addr l' = seg_addr l" using f(2) by (auto simp: same_frame_def seg_addr_def fun_eq_iff)
  have same: "seg_entries l' i = seg_entries l i" "seg_walk_end l' i = seg_walk_end l i" if "i \<noteq> seg" for i
    using that f(1,5) by (simp_all add: seg_entries_def seg_walk_end_def)
  show "i \<noteq> seg \<Longrightarrow> seg_entries l' i = seg_entries l i \<and> segs l' i = segs l i" using same f(5) by simp
  show "seg_entries l' seg = []" using f(3) by (simp add: seg_entries_def)
  have w: "seg_walk_end l' seg = seg_tail (segs l' seg)" using f(3) by (simp add: seg_walk_end_def)
  have "seg_ok l seg" using inv seg by (simp add: log_inv_def)
  then have "seg_ok l' seg"
    using f(3,4) w addr by (auto simp: seg_ok_def seg_wf_def data_start_def seg_end_def SEGMENT_SIZE_def HEADERS_SIZE_def)
  then have ok: "seg_ok l' i" if "i < num_segments l" for i
    using that inv same f(5) addr by (cases "i = seg") (auto simp: seg_ok_def log_inv_def)
  have H: "i < num_segments l \<and> i \<notin> set (free_segments l) \<and> seg_walk_end l' i = seg_tail (segs l' i)" if "i \<in> H" for i
    using that inv seg(2) same f(5) by (cases "i = seg") (auto simp: log_inv_def)
  have F: "i < num_segments l \<and> seg_tail (segs l' i) = data_start (segs l' i)" if "i \<in> set (free_segments l)" for i
    using that inv seg(3) f(5) by (cases "i = seg") (auto simp: log_inv_def)
  show "log_inv H l'" using inv ok H F f(2) addr by (auto simp: log_inv_def same_frame_def)
qed

lemma push_free_log:
  assumes "log_inv H l" and "seg < num_segments l" "seg \<notin> H" "seg \<notin> set (free_segments l)" "seg_tail (segs l seg) = data_start (segs l seg)"
  shows "log_inv H (push_free seg l)"
  using assms by (auto simp: log_inv_def push_free_def seg_ok_def seg_walk_end_def seg_addr_def)

lemma finish_compaction_ok:
  assumes inv: "gc_inv ix iinv ikey_ok W cl db" and c: "compacting ix ikey_ok W seg p q cl db"
    and out: "\<And>k. ikey_ok k \<Longrightarrow> ix_get ix k (db_index db) \<notin> set (seg_entries (db_log db) seg)"
    and fin: "finish_compaction seg cl (db_log db) = (cl', l')"
  shows "gc_inv ix iinv ikey_ok W cl' (db\<lparr>db_log := l'\<rparr>)" and "backup_segment cl' \<noteq> None"
    and "ikey_ok k \<Longrightarrow> db_contents ix (db\<lparr>db_log := l'\<rparr>) k = db_contents ix db k"
    and "seg_entries l' seg = []" and "backup_segment cl' = Some seg \<or> seg \<in> set (free_segments l')"
proof -
  let ?l = "db_log db" and ?l1 = "on_seg seg_Clear seg (db_log db)"
  have li: "log_inv (gc_heads W cl) ?l" and lk: "log_keys ikey_ok ?l" using inv by (auto simp: gc_inv_def db_inv_def)
  have seg: "seg < num_segments ?l" "seg \<notin> gc_heads W cl" "seg \<notin> set (free_segments ?l)" "backup_segment cl \<noteq> Some seg"
    using c by (auto simp: compacting_def)
  note C = clear_log [OF li seg(1-3)]
  have fr: "num_segments ?l1 = num_segments ?l" "free_segments ?l1 = free_segments ?l" using C(5) by (simp_all add: same_frame_def)
  have P: "log_inv (gc_heads W cl) (push_free seg ?l1)"
    using seg C(1,6) fr by (intro push_free_log) auto
  have l': "l' = (if backup_segment cl = None then ?l1 else push_free seg ?l1)"
      "cl' = (if backup_segment cl = None then cl\<lparr>clean_seg_count := clean_seg_count cl + 1, backup_segment := Some seg\<rparr>
              else cl\<lparr>clean_seg_count := clean_seg_count cl + 1\<rparr>)"
    using fin by (auto simp: finish_compaction_def Let_def split: if_splits)
  have e: "seg_entries l' i = seg_entries ?l1 i" "segs l' = segs ?l1" "pm_bytes (lpool l') = pm_bytes (lpool ?l)"
      "num_segments l' = num_segments ?l" for i
    using C(4) fr(1) by (auto simp: l' push_free_def seg_entries_def)
  show "seg_entries l' seg = []" using C(2) e by simp
  show "backup_segment cl' \<noteq> None" "backup_segment cl' = Some seg \<or> seg \<in> set (free_segments l')"
    by (auto simp: l' push_free_def)
  have li': "log_inv (gc_heads W cl') l'" using C(1) P by (auto simp: l' gc_heads_def)
  have lk': "log_keys ikey_ok l'" unfolding log_keys_def e(1,3,4)
  proof (intro allI impI ballI)
    fix i a assume "i < num_segments ?l" "a \<in> set (seg_entries ?l1 i)"
    then show "\<exists>k. ikey_ok k \<and> kv_GetKey (pm_bytes (lpool ?l)) a = le_bytes 8 k"
      using lk C(2) C(3) [of i] by (cases "i = seg") (auto simp: log_keys_def)
  qed
  have lv: "live l' k (ix_get ix k (db_index db))" if "ikey_ok k" "ix_get ix k (db_index db) \<noteq> INVALID_VALUE" for k
  proof -
    have "live ?l k (ix_get ix k (db_index db))" using inv that by (auto simp: gc_inv_def db_inv_def)
    then obtain i where i: "i < num_segments ?l" "i \<notin> set (free_segments ?l)" "ix_get ix k (db_index db) \<in> set (seg_entries ?l i)"
        "kv_GetKey (pm_bytes (lpool ?l)) (ix_get ix k (db_index db)) = le_bytes 8 k" by (auto simp: live_def)
    then have "i \<noteq> seg" using out [OF that(1)] by blast
    then have "i \<notin> set (free_segments l')" using i(2) fr(2) by (auto simp: l' push_free_def)
    then show ?thesis unfolding live_def using i e C(3) [OF \<open>i \<noteq> seg\<close>] by auto
  qed
  have own: "gc_own W cl' l'"
    using inv seg C(3,6) fr e(2,4) by (auto simp: gc_inv_def gc_own_def gc_heads_def l' push_free_def)
  show "gc_inv ix iinv ikey_ok W cl' (db\<lparr>db_log := l'\<rparr>)"
    using inv li' lk' lv own by (auto simp: gc_inv_def db_inv_def)
  show "ikey_ok k \<Longrightarrow> db_contents ix (db\<lparr>db_log := l'\<rparr>) k = db_contents ix db k"
    using e(3) by (simp add: db_contents_def Let_def)
qed

text \<open>A segment the cleaner may take: closed, and not its own.\<close>

definition closed_for :: "nat set \<Rightarrow> cleaner \<Rightarrow> log \<Rightarrow> nat \<Rightarrow> bool" where
  "closed_for W cl l seg \<longleftrightarrow> seg < num_segments l \<and> seg \<notin> set (free_segments l) \<and> seg \<notin> gc_heads W cl \<and> backup_segment cl \<noteq> Some seg"

text \<open>The cleaner has a backup segment, or its reserved segment is still empty.\<close>

definition has_room :: "cleaner \<Rightarrow> log \<Rightarrow> bool" where
  "has_room cl l \<longleftrightarrow> backup_segment cl \<noteq> None \<or>
     (\<forall>r. reserved_segment cl = Some r \<longrightarrow> seg_tail (segs l r) = data_start (segs l r))"

lemma compaction_start:
  assumes inv: "gc_inv ix iinv ikey_ok W cl db" and seg: "closed_for W cl (db_log db) seg" and room: "has_room cl (db_log db)"
  shows "compacting ix ikey_ok W seg (data_start (segs (db_log db) seg)) (data_start (segs (db_log db) seg)) cl db"
proof -
  let ?l = "db_log db"
  have li: "log_inv (gc_heads W cl) ?l" using inv by (simp add: gc_inv_def db_inv_def)
  have ok: "seg_ok ?l seg" using li seg by (simp add: log_inv_def closed_for_def)
  have "on_walk ix ikey_ok seg (data_start (segs ?l seg)) db"
    by (simp add: on_walk_def Let_def seg_walk_end_def seg_entries_def)
  moreover have "gc_room seg (data_start (segs ?l seg)) cl ?l"
    using room ok seg_ok_bounds [OF ok]
    by (auto simp: gc_room_def has_room_def HasSpaceFor_def seg_end_def data_start_def seg_ok_def SEGMENT_SIZE_def HEADERS_SIZE_def)
  ultimately show ?thesis using seg by (simp add: compacting_def closed_for_def)
qed

context flat_index
begin

lemma CompactSegment_ok:
  assumes inv: "gc_inv ix iinv ikey_ok W cl db" and seg: "closed_for W cl (db_log db) seg" and room: "has_room cl (db_log db)"
  shows "\<exists>cl' db'. CompactSegment ix now seg cl db = Inr (cl', db') \<and> gc_inv ix iinv ikey_ok W cl' db' \<and> has_room cl' (db_log db') \<and>
    (\<forall>k. ikey_ok k \<longrightarrow> db_contents ix db' k = db_contents ix db k) \<and> iok (db_index db') = iok (db_index db) \<and>
    seg_entries (db_log db') seg = [] \<and> (backup_segment cl' = Some seg \<or> seg \<in> set (free_segments (db_log db')))"
proof -
  let ?s = "segs (db_log db) seg"
  from compact_loop_ok [OF inv compaction_start [OF inv seg room] refl, of now] obtain cl1 db1 p where
    l: "compact_loop ix now (data_start ?s) (seg_tail ?s) cl db = Inr (cl1, db1)" "gc_inv ix iinv ikey_ok W cl1 db1"
      "compacting ix ikey_ok W seg p p cl1 db1" "\<And>k. ikey_ok k \<Longrightarrow> ix_get ix k (db_index db1) \<notin> set (seg_entries (db_log db1) seg)"
      "\<And>k. ikey_ok k \<Longrightarrow> db_contents ix db1 k = db_contents ix db k" "iok (db_index db1) = iok (db_index db)" by blast
  obtain cl' l' where f: "finish_compaction seg cl1 (db_log db1) = (cl', l')" by fastforce
  note F = finish_compaction_ok [OF l(2,3,4) f]
  have "CompactSegment ix now seg cl db = Inr (cl', db1\<lparr>db_log := l'\<rparr>)" by (simp add: CompactSegment_def l(1) f)
  then show ?thesis using F l(5,6) by (intro exI [of _ cl'] exI [of _ "db1\<lparr>db_log := l'\<rparr>"]) (simp add: has_room_def)
qed

end

end
