(* ===== verification/Flat_Concurrent.thy ===== *)
theory Flat_Concurrent
  imports Flat_Compact
begin

text \<open>
  Clients and cleaner at the same time: the writes of the clients interleaved with the actions of the
  cleaner thread, which reads the index (to decide whether an entry is live) and updates it (by
  compare-and-swap) in different actions.
\<close>

section \<open>Steps\<close>

text \<open>
  Where the cleaner is: idle, at address \<open>p\<close> of its walk up to \<open>tail\<close>, or there with the entry copied
  to \<open>v\<close> but not yet entered into the index.
\<close>

datatype phase = Idle | Visit nat nat nat | Copied nat nat nat nat

record 'i gc_state =
  gc_store :: "'i fs_store"
  gc_cleaner :: cleaner
  gc_phase :: phase

abbreviation gc_db :: "'i gc_state \<Rightarrow> 'i db" where "gc_db s \<equiv> fs_db (gc_store s)"
abbreviation gc_log :: "'i gc_state \<Rightarrow> log" where "gc_log s \<equiv> db_log (gc_db s)"
abbreviation gc_size :: "'i gc_state \<Rightarrow> nat \<Rightarrow> nat" where "gc_size s p \<equiv> kv_size (pm_bytes (lpool (gc_log s))) p"

definition gc_update :: "cleaner \<Rightarrow> 'i db \<Rightarrow> phase \<Rightarrow> 'i gc_state \<Rightarrow> 'i gc_state" where
  "gc_update cl db ph s = s\<lparr>gc_store := gc_store s\<lparr>fs_db := db\<rparr>, gc_cleaner := cl, gc_phase := ph\<rparr>"

text \<open>The cleaner takes over the closed segments and picks one, as \<open>DoMemoryClean\<close> does.\<close>

definition take_closed :: "cleaner \<Rightarrow> 'i db \<Rightarrow> cleaner \<times> 'i db" where
  "take_closed cl db =
     (let l = db_log db; c = cleaner_id cl in
      (cl\<lparr>to_compact := to_compact cl @ closed_segments l c\<rparr>,
       db\<lparr>db_log := l\<lparr>closed_segments := (closed_segments l)(c := [])\<rparr>\<rparr>))"

inductive gc_step :: "'i index_ops \<Rightarrow> 'i gc_state \<Rightarrow> (nat \<times> byte list \<times> byte list) option \<Rightarrow> 'i gc_state \<Rightarrow> bool"
  for ix :: "'i index_ops" where
  put: "worker_Put ix now key val (fs_workers (gc_store s) t) (gc_db s) = Inr (w, db) \<Longrightarrow>
    gc_step ix s (Some (t, key, val))
      (s\<lparr>gc_store := (gc_store s)\<lparr>fs_db := db, fs_workers := (fs_workers (gc_store s))(t := w)\<rparr>\<rparr>)"
| pick_none: "gc_phase s = Idle \<Longrightarrow> take_closed (gc_cleaner s) (gc_db s) = (cl, db) \<Longrightarrow>
    pick_scan now (segs (db_log db)) (to_compact cl) (Finite 0) None = None \<Longrightarrow>
    gc_step ix s None (gc_update cl db Idle s)"
| pick_some: "gc_phase s = Idle \<Longrightarrow> take_closed (gc_cleaner s) (gc_db s) = (cl, db) \<Longrightarrow>
    pick_scan now (segs (db_log db)) (to_compact cl) (Finite 0) None = Some seg \<Longrightarrow>
    gc_step ix s None
      (gc_update (cl\<lparr>to_compact := remove1 seg (to_compact cl)\<rparr>) db
         (Visit seg (data_start (segs (db_log db) seg)) (seg_tail (segs (db_log db) seg))) s)"
| skip: "gc_phase s = Visit seg p tail \<Longrightarrow> p < tail \<Longrightarrow> gc_size s p \<noteq> sizeof_KVItem \<Longrightarrow>
    reserve_space now (gc_size s p) (gc_cleaner s) (gc_log s) = Inr (cl, l) \<Longrightarrow> IsGarbage ix p ((gc_db s)\<lparr>db_log := l\<rparr>) \<Longrightarrow>
    gc_step ix s None (gc_update cl ((gc_db s)\<lparr>db_log := l\<rparr>) (Visit seg (p + gc_size s p) tail) s)"
| copy: "gc_phase s = Visit seg p tail \<Longrightarrow> p < tail \<Longrightarrow> gc_size s p \<noteq> sizeof_KVItem \<Longrightarrow>
    reserve_space now (gc_size s p) (gc_cleaner s) (gc_log s) = Inr (cl, l) \<Longrightarrow> \<not> IsGarbage ix p ((gc_db s)\<lparr>db_log := l\<rparr>) \<Longrightarrow>
    gc_append p cl l = Inr (v, l') \<Longrightarrow>
    gc_step ix s None (gc_update cl ((gc_db s)\<lparr>db_log := l'\<rparr>) (Copied seg p tail v) s)"
| move: "gc_phase s = Copied seg p tail v \<Longrightarrow> gc_move ix p v (gc_cleaner s) (gc_db s) = Inr (cl, db) \<Longrightarrow>
    gc_step ix s None (gc_update cl db (Visit seg (p + gc_size s p) tail) s)"
| finish: "gc_phase s = Visit seg p tail \<Longrightarrow> \<not> (p < tail \<and> gc_size s p \<noteq> sizeof_KVItem) \<Longrightarrow>
    finish_compaction seg (gc_cleaner s) (gc_log s) = (cl, l) \<Longrightarrow>
    gc_step ix s None (gc_update cl ((gc_db s)\<lparr>db_log := l\<rparr>) Idle s)"

text \<open>A run, with the writes that happened in it in order.\<close>

inductive gc_run :: "'i index_ops \<Rightarrow> 'i gc_state \<Rightarrow> (nat \<times> byte list \<times> byte list) list \<Rightarrow> 'i gc_state \<Rightarrow> bool"
  for ix :: "'i index_ops" and s0 :: "'i gc_state" where
  run_nil: "gc_run ix s0 [] s0"
| run_gc: "gc_run ix s0 ws s \<Longrightarrow> gc_step ix s None s' \<Longrightarrow> gc_run ix s0 ws s'"
| run_put: "gc_run ix s0 ws s \<Longrightarrow> gc_step ix s (Some w) s' \<Longrightarrow> gc_run ix s0 (ws @ [w]) s'"

section \<open>Invariant\<close>

definition phase_seg :: "phase \<Rightarrow> nat list" where
  "phase_seg ph = (case ph of Idle \<Rightarrow> [] | Visit seg p tail \<Rightarrow> [seg] | Copied seg p tail v \<Rightarrow> [seg])"

text \<open>The segments the cleaner holds besides the reserved one.\<close>

definition gc_held :: "cleaner \<Rightarrow> phase \<Rightarrow> nat set" where
  "gc_held cl ph = set_option (backup_segment cl) \<union> set (to_compact cl) \<union> set (phase_seg ph)"

definition phase_ok :: "'i index_ops \<Rightarrow> (u64 \<Rightarrow> bool) \<Rightarrow> nat set \<Rightarrow> cleaner \<Rightarrow> phase \<Rightarrow> 'i db \<Rightarrow> bool" where
  "phase_ok ix ikey_ok W cl ph db =
     (case ph of
        Idle \<Rightarrow> has_room cl (db_log db)
      | Visit seg p tail \<Rightarrow> compacting ix ikey_ok W seg p p cl db \<and> tail = seg_tail (segs (db_log db) seg)
      | Copied seg p tail v \<Rightarrow>
          compacting ix ikey_ok W seg p (p + kv_size (pm_bytes (lpool (db_log db))) p) cl db \<and> copied ix seg p v cl db \<and>
          tail = seg_tail (segs (db_log db) seg))"

definition held_ok :: "nat set \<Rightarrow> cleaner \<Rightarrow> phase \<Rightarrow> log \<Rightarrow> bool" where
  "held_ok W cl ph l \<longleftrightarrow> cleaner_id cl = 0 \<and> distinct (to_compact cl @ phase_seg ph) \<and>
     (\<forall>i \<in> set (to_compact cl). closed_for W cl l i) \<and> queue_ok (gc_held cl ph) (gc_heads W cl) l"

definition gc_state_inv :: "'i index_ops \<Rightarrow> ('i \<Rightarrow> bool) \<Rightarrow> (u64 \<Rightarrow> bool) \<Rightarrow> 'i gc_state \<Rightarrow> bool" where
  "gc_state_inv ix iinv ikey_ok s \<longleftrightarrow>
     gc_inv ix iinv ikey_ok (fs_heads (gc_store s)) (gc_cleaner s) (gc_db s) \<and>
     (\<forall>t t' i. log_head (fs_workers (gc_store s) t) = Some i \<and> log_head (fs_workers (gc_store s) t') = Some i \<longrightarrow> t = t') \<and>
     held_ok (fs_heads (gc_store s)) (gc_cleaner s) (gc_phase s) (gc_log s) \<and>
     phase_ok ix ikey_ok (fs_heads (gc_store s)) (gc_cleaner s) (gc_phase s) (gc_db s)"

section \<open>The cleaner's segments\<close>

lemma held_apart:
  assumes "gc_inv ix iinv ikey_ok W cl db" and "held_ok W cl ph (db_log db)" and "phase_ok ix ikey_ok W cl ph db"
  shows "gc_held cl ph \<inter> gc_heads W cl = {}" and "gc_held cl ph \<inter> set (free_segments (db_log db)) = {}"
    and "i \<in> gc_held cl ph \<Longrightarrow> i < num_segments (db_log db)"
  using assms by (auto simp: gc_held_def phase_seg_def phase_ok_def compacting_def held_ok_def closed_for_def gc_inv_def gc_own_def
      split: phase.splits)

lemma held_keeps:
  assumes "held_ok W cl ph l" and "gc_keeps V seg W cl l cl' l'" and "phase_seg ph' = phase_seg ph"
    and "queue_ok (gc_held cl' ph') (gc_heads W cl') l'"
  shows "held_ok W cl' ph' l'"
  using assms by (auto simp: held_ok_def gc_keeps_def closed_for_def gc_heads_def log_step_def)

lemma reserve_space_queue:
  assumes inv: "gc_inv ix iinv ikey_ok W cl db" and q: "queue_ok (gc_held cl ph) (gc_heads W cl) (db_log db)"
    and ap: "gc_held cl ph \<inter> gc_heads W cl = {}" and res: "reserve_space now sz cl (db_log db) = Inr (cl', l')"
  shows "queue_ok (gc_held cl' ph) (gc_heads W cl') l'"
proof -
  let ?l = "db_log db"
  obtain r where r: "reserved_segment cl = Some r" "r \<notin> W" using inv by (auto simp: gc_inv_def gc_own_def)
  show ?thesis
  proof (cases "HasSpaceFor (segs ?l r) sz")
    case True
    then show ?thesis using res q r by (simp add: reserve_space_def)
  next
    case False
    then have f: "FreezeReservedAndGetNew now cl ?l = Inr (cl', l')" using res r by (simp add: reserve_space_def)
    then obtain b where b: "backup_segment cl = Some b" by (auto simp: FreezeReservedAndGetNew_def split: option.splits prod.splits)
    obtain tmp l1 where l1: "worker_Freeze now (Some r) (cl_tmp cl) ?l = (tmp, l1)" by fastforce
    have res': "cl' = cl\<lparr>reserved_segment := Some b, backup_segment := None, cl_tmp := tmp\<rparr>" "l' = on_seg (StartUsing False False) b l1"
      using f l1 by (auto simp: FreezeReservedAndGetNew_def r b worker_Freeze_def)
    have li: "log_inv (gc_heads W cl) ?l" using inv by (simp add: gc_inv_def db_inv_def)
    have "queue_ok (gc_held cl ph) (gc_heads W cl - set_option (Some r)) l1"
      by (rule worker_Freeze_queue [OF li q _ ap l1]) (use r in \<open>simp add: gc_heads_def\<close>)
    moreover have "b \<in> gc_held cl ph" using b by (simp add: gc_held_def)
    ultimately show ?thesis
      using r by (auto simp: queue_ok_def res' gc_held_def gc_heads_def on_seg_def StartUsing_def)
  qed
qed

lemma gc_append_queue: "gc_append p cl l = Inr (v, l') \<Longrightarrow> queue_ok X H l' = queue_ok X H l"
  by (auto simp: gc_append_def Let_def queue_ok_def split: option.splits prod.splits)

lemma gc_move_queue:
  "gc_move ix p v cl db = Inr (cl', db') \<Longrightarrow> queue_ok X H (db_log db') = queue_ok X H (db_log db) \<and>
   reserved_segment cl' = reserved_segment cl \<and> backup_segment cl' = backup_segment cl \<and> to_compact cl' = to_compact cl"
  by (auto simp: gc_move_def cl_MarkGarbage_def Let_def queue_ok_def split: prod.splits if_splits sum.splits option.splits)

lemma finish_held:
  assumes h: "held_ok W cl ph l" and ph: "phase_seg ph = [seg]" and fin: "finish_compaction seg cl l = (cl', l')"
  shows "held_ok W cl' Idle l'"
proof -
  have "set (free_segments l') \<subseteq> insert seg (set (free_segments l))" "closed_segments l' = closed_segments l"
      "num_segments l' = num_segments l" "num_cleaners l' = num_cleaners l" "to_compact cl' = to_compact cl" "cleaner_id cl' = cleaner_id cl"
      "reserved_segment cl' = reserved_segment cl" "backup_segment cl' = backup_segment cl \<or> backup_segment cl' = Some seg"
    using fin by (auto simp: finish_compaction_def Let_def on_seg_def push_free_def seg_Clear_def set_header_def split: if_splits prod.splits)
  then show ?thesis
    using h ph unfolding held_ok_def queue_ok_def gc_held_def closed_for_def gc_heads_def phase_seg_def
    by (auto split: phase.splits)
qed

lemma take_closed_held:
  assumes h: "held_ok W cl Idle (db_log db)" and tc: "take_closed cl db = (cl', db')"
    and H: "set_option (backup_segment cl) \<inter> gc_heads W cl = {}"
  shows "held_ok W cl' Idle (db_log db')" and "reserved_segment cl' = reserved_segment cl \<and> backup_segment cl' = backup_segment cl"
    and "quiet (db_log db) (db_log db') \<and> free_segments (db_log db') = free_segments (db_log db) \<and>
      num_free_segments (db_log db') = num_free_segments (db_log db) \<and> db_index db' = db_index db \<and> segs (db_log db') = segs (db_log db)"
proof -
  have r: "cl' = cl\<lparr>to_compact := to_compact cl @ closed_segments (db_log db) 0\<rparr>"
      "db' = db\<lparr>db_log := (db_log db)\<lparr>closed_segments := (closed_segments (db_log db))(0 := [])\<rparr>\<rparr>"
    using tc h by (simp_all add: take_closed_def Let_def held_ok_def)
  show "held_ok W cl' Idle (db_log db')"
    using h H by (auto simp: r held_ok_def queue_ok_def gc_held_def phase_seg_def closed_for_def gc_heads_def)
  show "reserved_segment cl' = reserved_segment cl \<and> backup_segment cl' = backup_segment cl" by (simp add: r)
  show "quiet (db_log db) (db_log db') \<and> free_segments (db_log db') = free_segments (db_log db) \<and>
      num_free_segments (db_log db') = num_free_segments (db_log db) \<and> db_index db' = db_index db \<and> segs (db_log db') = segs (db_log db)"
    by (simp add: r quiet_def)
qed

lemma pick_scan_mem: "pick_scan now sg is m it = Some i \<Longrightarrow> i \<in> set is \<or> it = Some i"
  by (induction "is" arbitrary: m it) (auto split: if_splits)

section \<open>The cleaner's actions\<close>

lemma gc_update_simps [simp]:
  "gc_db (gc_update cl db ph s) = db" "gc_cleaner (gc_update cl db ph s) = cl" "gc_phase (gc_update cl db ph s) = ph"
  "fs_workers (gc_store (gc_update cl db ph s)) = fs_workers (gc_store s)" "fs_heads (gc_store (gc_update cl db ph s)) = fs_heads (gc_store s)"
  by (simp_all add: gc_update_def fs_heads_def)

lemma gc_state_inv_update:
  assumes "gc_state_inv ix iinv ikey_ok s" and "gc_inv ix iinv ikey_ok (fs_heads (gc_store s)) cl db"
    and "held_ok (fs_heads (gc_store s)) cl ph (db_log db)" and "phase_ok ix ikey_ok (fs_heads (gc_store s)) cl ph db"
  shows "gc_state_inv ix iinv ikey_ok (gc_update cl db ph s)"
  using assms by (auto simp: gc_state_inv_def)

context flat_index
begin

lemma pick_ok:
  assumes inv: "gc_state_inv ix iinv ikey_ok s" and ph: "gc_phase s = Idle" and tc: "take_closed (gc_cleaner s) (gc_db s) = (cl, db)"
  defines "W \<equiv> fs_heads (gc_store s)"
  shows "gc_inv ix iinv ikey_ok W cl db" and "held_ok W cl Idle (db_log db)" and "has_room cl (db_log db)"
    and "ikey_ok k \<Longrightarrow> db_contents ix db k = db_contents ix (gc_db s) k" and "db_index db = db_index (gc_db s)"
proof -
  have I: "gc_inv ix iinv ikey_ok W (gc_cleaner s) (gc_db s)" "held_ok W (gc_cleaner s) Idle (gc_log s)" "has_room (gc_cleaner s) (gc_log s)"
    using inv ph by (auto simp: gc_state_inv_def W_def phase_ok_def)
  have H: "set_option (backup_segment (gc_cleaner s)) \<inter> gc_heads W (gc_cleaner s) = {}"
    using I(1) by (auto simp: gc_inv_def gc_own_def)
  note T = take_closed_held [OF I(2) tc H]
  have db: "db = (gc_db s)\<lparr>db_log := db_log db\<rparr>" using T(3) tc by (auto simp: take_closed_def Let_def)
  have q: "quiet (gc_log s) (db_log db)" "free_segments (db_log db) = free_segments (gc_log s)"
      "num_free_segments (db_log db) = num_free_segments (gc_log s)" "segs (db_log db) = segs (gc_log s)" using T(3) by auto
  note G = gc_inv_quiet [OF I(1) _ _ q(1-3)]
  show "gc_inv ix iinv ikey_ok W cl db" using G(1) [of cl] T(2) db by metis
  show "held_ok W cl Idle (db_log db)" by (rule T(1))
  show "has_room cl (db_log db)" using I(3) T(2) q(4) by (simp add: has_room_def)
  show "ikey_ok k \<Longrightarrow> db_contents ix db k = db_contents ix (gc_db s) k" using G(2) [OF refl refl] db by metis
  show "db_index db = db_index (gc_db s)" using T(3) by simp
qed

lemma visit_ok:
  assumes inv: "gc_state_inv ix iinv ikey_ok s" and ph: "gc_phase s = Visit seg p tail" and p: "p < tail" "gc_size s p \<noteq> sizeof_KVItem"
  defines "W \<equiv> fs_heads (gc_store s)" and "ph \<equiv> Visit seg p tail"
  obtains cl l where "reserve_space now (gc_size s p) (gc_cleaner s) (gc_log s) = Inr (cl, l)"
    "gc_inv ix iinv ikey_ok W cl ((gc_db s)\<lparr>db_log := l\<rparr>)" "compacting ix ikey_ok W seg p p cl ((gc_db s)\<lparr>db_log := l\<rparr>)"
    "held_ok W cl ph l" "tail = seg_tail (segs l seg)" "kv_size (pm_bytes (lpool l)) p = gc_size s p"
    "\<And>k. ikey_ok k \<Longrightarrow> db_contents ix ((gc_db s)\<lparr>db_log := l\<rparr>) k = db_contents ix (gc_db s) k"
    "\<And>r. reserved_segment cl = Some r \<Longrightarrow> HasSpaceFor (segs l r) (gc_size s p)"
proof -
  let ?db = "gc_db s" and ?cl = "gc_cleaner s"
  have I: "gc_inv ix iinv ikey_ok W ?cl ?db" "held_ok W ?cl ph (gc_log s)" "phase_ok ix ikey_ok W ?cl ph ?db"
    using inv \<open>gc_phase s = Visit seg p tail\<close> by (auto simp: gc_state_inv_def W_def ph_def)
  have c: "compacting ix ikey_ok W seg p p ?cl ?db" "tail = seg_tail (segs (gc_log s) seg)" using I(3) by (simp_all add: phase_ok_def ph_def)
  have p': "p < seg_tail (segs (gc_log s) seg)" using p c by simp
  from reserve_space_ok [OF I(1) c(1) p' p(2), of now] obtain cl l where
    r: "reserve_space now (gc_size s p) ?cl (gc_log s) = Inr (cl, l)" "gc_inv ix iinv ikey_ok W cl (?db\<lparr>db_log := l\<rparr>)"
      "compacting ix ikey_ok W seg p p cl (?db\<lparr>db_log := l\<rparr>)" "gc_keeps {} seg W ?cl (gc_log s) cl l"
      "\<And>r. reserved_segment cl = Some r \<Longrightarrow> HasSpaceFor (segs l r) (gc_size s p)" by blast
  have di: "db_inv ix iinv ikey_ok (gc_heads W ?cl) ?db" using I(1) by (simp add: gc_inv_def)
  have sg: "seg < num_segments (gc_log s)" "seg_ok (gc_log s) seg" "p \<in> set (seg_entries (gc_log s) seg)"
    using I(1) c(1) on_walk_entry(1) [OF _ _ p' p(2)] by (auto simp: compacting_def gc_inv_def db_inv_def log_inv_def)
  then have st: "still seg (gc_log s) l" using r(4) by (auto simp: gc_keeps_def log_step_def)
  have sz: "kv_size (pm_bytes (lpool l)) p = gc_size s p"
    using entry_fields_frame [OF sg(2,3), of "pm_bytes (lpool l)"] st by (auto simp: still_def)
  have "queue_ok (gc_held cl ph) (gc_heads W cl) l"
    using reserve_space_queue [OF I(1) _ held_apart(1) [OF I] r(1)] I(2) by (simp add: held_ok_def)
  then have h: "held_ok W cl ph l" by (rule held_keeps [OF I(2) r(4) refl])
  have cont: "db_contents ix (?db\<lparr>db_log := l\<rparr>) k = db_contents ix ?db k" if "ikey_ok k" for k
    using db_inv_log(2) [OF di _ _ that, of l] r(2,4) by (auto simp: gc_keeps_def gc_inv_def db_inv_def)
  show thesis by (rule that [OF r(1-3) h _ sz cont r(5)]) (use c(2) st in \<open>simp_all add: still_def\<close>)
qed

text \<open>No action of the cleaner is visible to a client.\<close>

definition gc_invisible :: "'i gc_state \<Rightarrow> 'i gc_state \<Rightarrow> ('i index_ops \<Rightarrow> (u64 \<Rightarrow> bool) \<Rightarrow> ('i \<Rightarrow> bool) \<Rightarrow> bool)" where
  "gc_invisible s s' = (\<lambda>ix ikey_ok iok. fs_workers (gc_store s') = fs_workers (gc_store s) \<and>
     (\<forall>k. ikey_ok k \<longrightarrow> db_contents ix (gc_db s') k = db_contents ix (gc_db s) k) \<and> iok (db_index (gc_db s')) = iok (db_index (gc_db s)))"

lemma gc_step_skip:
  assumes inv: "gc_state_inv ix iinv ikey_ok s" and ph: "gc_phase s = Visit seg p tail" and p: "p < tail" "gc_size s p \<noteq> sizeof_KVItem"
    and r: "reserve_space now (gc_size s p) (gc_cleaner s) (gc_log s) = Inr (cl, l)" and g: "IsGarbage ix p ((gc_db s)\<lparr>db_log := l\<rparr>)"
  defines "s' \<equiv> gc_update cl ((gc_db s)\<lparr>db_log := l\<rparr>) (Visit seg (p + gc_size s p) tail) s"
  shows "gc_state_inv ix iinv ikey_ok s' \<and> gc_invisible s s' ix ikey_ok iok"
proof -
  let ?W = "fs_heads (gc_store s)" and ?db = "(gc_db s)\<lparr>db_log := l\<rparr>"
  obtain cl' l' where v: "reserve_space now (gc_size s p) (gc_cleaner s) (gc_log s) = Inr (cl', l')"
      "gc_inv ix iinv ikey_ok ?W cl' ((gc_db s)\<lparr>db_log := l'\<rparr>)" "compacting ix ikey_ok ?W seg p p cl' ((gc_db s)\<lparr>db_log := l'\<rparr>)"
      "held_ok ?W cl' (Visit seg p tail) l'" "tail = seg_tail (segs l' seg)" "kv_size (pm_bytes (lpool l')) p = gc_size s p"
      "\<And>k. ikey_ok k \<Longrightarrow> db_contents ix ((gc_db s)\<lparr>db_log := l'\<rparr>) k = db_contents ix (gc_db s) k"
    using visit_ok [OF inv ph p, where now = now] by blast
  have eq: "cl' = cl" "l' = l" using v(1) r by simp_all
  have "compacting ix ikey_ok ?W seg (p + gc_size s p) (p + gc_size s p) cl ?db"
    using skip_garbage [OF v(2,3) [unfolded eq] _ _ g] v(5,6) p by (simp add: eq)
  then have "phase_ok ix ikey_ok ?W cl (Visit seg (p + gc_size s p) tail) ?db" using v(5) by (simp add: phase_ok_def eq)
  moreover have "held_ok ?W cl (Visit seg (p + gc_size s p) tail) (db_log ?db)"
    using v(4) by (simp add: held_ok_def gc_held_def phase_seg_def eq)
  ultimately show ?thesis
    using gc_state_inv_update [OF inv v(2) [unfolded eq]] v(7) by (simp add: s'_def gc_invisible_def eq)
qed

lemma gc_step_copy:
  assumes inv: "gc_state_inv ix iinv ikey_ok s" and ph: "gc_phase s = Visit seg p tail" and p: "p < tail" "gc_size s p \<noteq> sizeof_KVItem"
    and r: "reserve_space now (gc_size s p) (gc_cleaner s) (gc_log s) = Inr (cl, l)" and g: "\<not> IsGarbage ix p ((gc_db s)\<lparr>db_log := l\<rparr>)"
  obtains v l' where "gc_append p cl l = Inr (v, l')"
    "gc_state_inv ix iinv ikey_ok (gc_update cl ((gc_db s)\<lparr>db_log := l'\<rparr>) (Copied seg p tail v) s)"
    "gc_invisible s (gc_update cl ((gc_db s)\<lparr>db_log := l'\<rparr>) (Copied seg p tail v) s) ix ikey_ok iok"
proof -
  let ?W = "fs_heads (gc_store s)" and ?db = "(gc_db s)\<lparr>db_log := l\<rparr>"
  obtain cl1 l1 where v: "reserve_space now (gc_size s p) (gc_cleaner s) (gc_log s) = Inr (cl1, l1)"
      "gc_inv ix iinv ikey_ok ?W cl1 ((gc_db s)\<lparr>db_log := l1\<rparr>)" "compacting ix ikey_ok ?W seg p p cl1 ((gc_db s)\<lparr>db_log := l1\<rparr>)"
      "held_ok ?W cl1 (Visit seg p tail) l1" "tail = seg_tail (segs l1 seg)" "kv_size (pm_bytes (lpool l1)) p = gc_size s p"
      "\<And>k. ikey_ok k \<Longrightarrow> db_contents ix ((gc_db s)\<lparr>db_log := l1\<rparr>) k = db_contents ix (gc_db s) k"
      "\<And>r. reserved_segment cl1 = Some r \<Longrightarrow> HasSpaceFor (segs l1 r) (gc_size s p)"
    using visit_ok [OF inv ph p, where now = now] by blast
  have eq: "cl1 = cl" "l1 = l" using v(1) r by simp_all
  note v = v [unfolded eq]
  have pl: "p < seg_tail (segs (db_log ?db) seg)" "kv_size (pm_bytes (lpool (db_log ?db))) p \<noteq> sizeof_KVItem" using p v(5,6) by simp_all
  from gc_append_ok [OF v(2,3) pl _ g] v(6,8) obtain w l' where
    a: "gc_append p cl l = Inr (w, l')" "gc_inv ix iinv ikey_ok ?W cl (?db\<lparr>db_log := l'\<rparr>)"
      "compacting ix ikey_ok ?W seg p (p + kv_size (pm_bytes (lpool l')) p) cl (?db\<lparr>db_log := l'\<rparr>)"
      "copied ix seg p w cl (?db\<lparr>db_log := l'\<rparr>)" "gc_keeps {w} seg ?W cl l cl l'" by auto
  let ?db' = "(gc_db s)\<lparr>db_log := l'\<rparr>" and ?ph = "Copied seg p tail w"
  have "seg < num_segments l" using v(3) by (simp add: compacting_def)
  then have st: "still seg l l'" using a(5) by (auto simp: gc_keeps_def log_step_def)
  have "phase_ok ix ikey_ok ?W cl ?ph ?db'" using a(3,4) st v(5) by (simp add: phase_ok_def still_def)
  moreover have "held_ok ?W cl ?ph (db_log ?db')"
    using held_keeps [OF v(4) a(5), of ?ph] gc_append_queue [OF a(1)] v(4) by (simp add: held_ok_def gc_held_def phase_seg_def)
  moreover have "db_contents ix ?db' k = db_contents ix (gc_db s) k" if "ikey_ok k" for k
    using db_inv_log(2) [of ix iinv ikey_ok "gc_heads ?W cl" ?db l', OF _ _ _ that] v(2,7) a(2,5) that
    by (auto simp: gc_inv_def gc_keeps_def db_inv_def)
  ultimately show thesis
    using that [OF a(1)] gc_state_inv_update [OF inv, of cl ?db'] a(2) by (simp add: gc_invisible_def)
qed

lemma gc_step_move:
  assumes inv: "gc_state_inv ix iinv ikey_ok s" and ph: "gc_phase s = Copied seg p tail v"
  obtains cl db where "gc_move ix p v (gc_cleaner s) (gc_db s) = Inr (cl, db)"
    "gc_state_inv ix iinv ikey_ok (gc_update cl db (Visit seg (p + gc_size s p) tail) s)"
    "gc_invisible s (gc_update cl db (Visit seg (p + gc_size s p) tail) s) ix ikey_ok iok"
proof -
  let ?W = "fs_heads (gc_store s)" and ?cl = "gc_cleaner s" and ?db = "gc_db s"
  have I: "gc_inv ix iinv ikey_ok ?W ?cl ?db" "held_ok ?W ?cl (Copied seg p tail v) (gc_log s)"
      "compacting ix ikey_ok ?W seg p (p + gc_size s p) ?cl ?db" "copied ix seg p v ?cl ?db" "tail = seg_tail (segs (gc_log s) seg)"
    using inv ph by (auto simp: gc_state_inv_def phase_ok_def)
  from gc_move_ok [OF I(1,4,3)] obtain cl db where
    m: "gc_move ix p v ?cl ?db = Inr (cl, db)" "gc_inv ix iinv ikey_ok ?W cl db"
      "compacting ix ikey_ok ?W seg (p + gc_size s p) (p + gc_size s p) cl db"
      "\<forall>k. ikey_ok k \<longrightarrow> db_contents ix db k = db_contents ix ?db k" "iok (db_index db) = iok (db_index ?db)"
      "gc_keeps {} seg ?W ?cl (gc_log s) cl (db_log db)" by blast
  let ?ph = "Visit seg (p + gc_size s p) tail"
  have "seg < num_segments (gc_log s)" using I(3) by (simp add: compacting_def)
  then have "still seg (gc_log s) (db_log db)" using m(6) by (auto simp: gc_keeps_def log_step_def)
  then have "phase_ok ix ikey_ok ?W cl ?ph db" using m(3) I(5) by (simp add: phase_ok_def still_def)
  moreover have "queue_ok (gc_held cl ?ph) (gc_heads ?W cl) (db_log db)"
    using gc_move_queue [OF m(1)] I(2) by (simp add: held_ok_def gc_held_def phase_seg_def gc_heads_def)
  then have "held_ok ?W cl ?ph (db_log db)" by (rule held_keeps [OF I(2) m(6), rotated]) (simp add: phase_seg_def)
  ultimately show thesis using that [OF m(1)] gc_state_inv_update [OF inv m(2)] m(4,5) by (simp add: gc_invisible_def)
qed

lemma gc_step_finish:
  assumes inv: "gc_state_inv ix iinv ikey_ok s" and ph: "gc_phase s = Visit seg p tail"
    and p: "\<not> (p < tail \<and> gc_size s p \<noteq> sizeof_KVItem)" and fin: "finish_compaction seg (gc_cleaner s) (gc_log s) = (cl, l)"
  defines "s' \<equiv> gc_update cl ((gc_db s)\<lparr>db_log := l\<rparr>) Idle s"
  shows "gc_state_inv ix iinv ikey_ok s' \<and> gc_invisible s s' ix ikey_ok iok"
proof -
  let ?W = "fs_heads (gc_store s)" and ?cl = "gc_cleaner s" and ?db = "gc_db s"
  have I: "gc_inv ix iinv ikey_ok ?W ?cl ?db" "held_ok ?W ?cl (Visit seg p tail) (gc_log s)"
      "compacting ix ikey_ok ?W seg p p ?cl ?db" "tail = seg_tail (segs (gc_log s) seg)"
    using inv ph by (auto simp: gc_state_inv_def phase_ok_def)
  have "ix_get ix k (db_index ?db) \<notin> set (seg_entries (gc_log s) seg)" if "ikey_ok k" for k
    using on_walk_end [of ix ikey_ok seg p ?db k] I(3,4) p that by (auto simp: compacting_def)
  note F = finish_compaction_ok [OF I(1,3) this fin]
  have "held_ok ?W cl Idle l" using finish_held [OF I(2) _ fin] by (simp add: phase_seg_def)
  moreover have "phase_ok ix ikey_ok ?W cl Idle (?db\<lparr>db_log := l\<rparr>)" using F(2) by (simp add: phase_ok_def has_room_def)
  ultimately show ?thesis using gc_state_inv_update [OF inv F(1)] F(3) by (simp add: s'_def gc_invisible_def)
qed

lemma gc_step_internal:
  assumes inv: "gc_state_inv ix iinv ikey_ok s" and step: "gc_step ix s None s'"
  shows "gc_state_inv ix iinv ikey_ok s' \<and> gc_invisible s s' ix ikey_ok iok"
  using step
proof cases
  case (pick_none cl db now)
  note P = pick_ok [OF inv pick_none(2,3)]
  then show ?thesis using gc_state_inv_update [OF inv P(1,2)] pick_none(1) by (simp add: gc_invisible_def phase_ok_def)
next
  case (pick_some cl db now seg)
  let ?W = "fs_heads (gc_store s)" and ?cl = "cl\<lparr>to_compact := remove1 seg (to_compact cl)\<rparr>"
  let ?ph = "Visit seg (data_start (segs (db_log db) seg)) (seg_tail (segs (db_log db) seg))"
  note P = pick_ok [OF inv pick_some(2,3)]
  have seg: "seg \<in> set (to_compact cl)" using pick_scan_mem [OF pick_some(4)] by simp
  then have cf: "closed_for ?W cl (db_log db) seg" using P(2) by (simp add: held_ok_def)
  have g: "gc_inv ix iinv ikey_ok ?W ?cl db" using P(1) by (simp add: gc_inv_def gc_own_def gc_heads_def)
  have "closed_for ?W ?cl (db_log db) seg" "has_room ?cl (db_log db)" using cf P(3) by (simp_all add: closed_for_def gc_heads_def has_room_def)
  from compaction_start [OF g this] have "phase_ok ix ikey_ok ?W ?cl ?ph db" by (simp add: phase_ok_def)
  moreover have "held_ok ?W ?cl ?ph (db_log db)"
    using P(2) seg by (auto simp: held_ok_def phase_seg_def closed_for_def gc_heads_def queue_ok_def gc_held_def distinct_remove1
        dest: notin_set_remove1)
  ultimately show ?thesis
    using gc_state_inv_update [OF inv g] P(4,5) pick_some(1) by (simp add: gc_invisible_def)
next
  case (skip seg p tail now cl l)
  then show ?thesis using gc_step_skip [OF inv skip(2-6)] by simp
next
  case (copy seg p tail now cl l v l')
  obtain v1 l1 where c: "gc_append p cl l = Inr (v1, l1)"
    "gc_state_inv ix iinv ikey_ok (gc_update cl ((gc_db s)\<lparr>db_log := l1\<rparr>) (Copied seg p tail v1) s)"
    "gc_invisible s (gc_update cl ((gc_db s)\<lparr>db_log := l1\<rparr>) (Copied seg p tail v1) s) ix ikey_ok iok"
    by (rule gc_step_copy [OF inv copy(2-6)])
  then show ?thesis using copy(1,7) by simp
next
  case (move seg p tail v cl db)
  obtain cl1 db1 where m: "gc_move ix p v (gc_cleaner s) (gc_db s) = Inr (cl1, db1)"
    "gc_state_inv ix iinv ikey_ok (gc_update cl1 db1 (Visit seg (p + gc_size s p) tail) s)"
    "gc_invisible s (gc_update cl1 db1 (Visit seg (p + gc_size s p) tail) s) ix ikey_ok iok"
    by (rule gc_step_move [OF inv move(2)])
  then show ?thesis using move(1,3) by simp
next
  case (finish seg p tail cl l)
  then show ?thesis using gc_step_finish [OF inv finish(2-4)] by simp
qed

text \<open>The cleaner never gets stuck inside a compaction.\<close>

lemma gc_progress:
  assumes inv: "gc_state_inv ix iinv ikey_ok s" and "gc_phase s \<noteq> Idle"
  shows "\<exists>s'. gc_step ix s None s'"
proof (cases "gc_phase s")
  case (Visit seg p tail)
  show ?thesis
  proof (cases "p < tail \<and> gc_size s p \<noteq> sizeof_KVItem")
    case True
    then have p: "p < tail" "gc_size s p \<noteq> sizeof_KVItem" by simp_all
    obtain cl l where r: "reserve_space 0 (gc_size s p) (gc_cleaner s) (gc_log s) = Inr (cl, l)" using visit_ok [OF inv Visit p, where now = 0] by blast
    show ?thesis
    proof (cases "IsGarbage ix p ((gc_db s)\<lparr>db_log := l\<rparr>)")
      case True
      then show ?thesis using gc_step.skip [OF Visit p r] by blast
    next
      case False
      obtain v l' where "gc_append p cl l = Inr (v, l')" using gc_step_copy [OF inv Visit p r False] by blast
      then show ?thesis using gc_step.copy [OF Visit p r False] by blast
    qed
  next
    case False
    then show ?thesis using gc_step.finish [OF Visit False] by (metis surj_pair)
  qed
next
  case (Copied seg p tail v)
  obtain cl db where "gc_move ix p v (gc_cleaner s) (gc_db s) = Inr (cl, db)" using gc_step_move [OF inv Copied] by blast
  then show ?thesis using gc_step.move [OF Copied] by blast
qed (use assms(2) in simp)

section \<open>The clients' writes\<close>

lemma walk_put:
  assumes w: "on_walk ix ikey_ok seg p db" and st: "still seg (db_log db) (db_log db')" and li: "log_inv H (db_log db)" "log_inv H' (db_log db')"
    and seg: "seg < num_segments (db_log db)" "num_segments (db_log db') = num_segments (db_log db)"
    and v: "v \<in> set (seg_entries (db_log db') i)" "i < num_segments (db_log db')" "i \<noteq> seg"
    and get: "\<And>k. ikey_ok k \<Longrightarrow> ix_get ix k (db_index db') = (if k = k0 then v else ix_get ix k (db_index db))"
  shows "on_walk ix ikey_ok seg p db'"
proof (rule on_walk_still [OF w st])
  show "seg_ok (db_log db) seg" using li(1) seg by (simp add: log_inv_def)
  have "v \<notin> set (seg_entries (db_log db') seg)" using entries_apart [OF li(2) _ v(2) _ v(1)] seg v(3) by (metis)
  then show "ix_get ix k (db_index db') = ix_get ix k (db_index db)"
    if "ikey_ok k" "ix_get ix k (db_index db') \<in> set (seg_entries (db_log db) seg)" for k
    using that get [OF that(1)] st by (auto simp: still_def split: if_splits)
qed

lemma phase_put:
  assumes ph: "phase_ok ix ikey_ok W cl ph db" and gi: "gc_inv ix iinv ikey_ok W cl db"
    and st: "\<And>j. j \<in> insert r (set (phase_seg ph)) \<Longrightarrow> still j (db_log db) (db_log db')" and r: "reserved_segment cl = Some r"
    and li: "log_inv H' (db_log db')" and kp: "log_keeps (db_log db) (db_log db')" and n: "num_segments (db_log db') = num_segments (db_log db)"
    and fr: "set (free_segments (db_log db')) \<subseteq> set (free_segments (db_log db))"
    and W': "\<And>j. j \<in> set (phase_seg ph) \<Longrightarrow> j \<notin> gc_heads W' cl \<and> i \<noteq> j"
    and v: "v \<in> set (seg_entries (db_log db') i)" "i < num_segments (db_log db')" "v \<noteq> INVALID_VALUE"
    and get: "\<And>k. ikey_ok k \<Longrightarrow> ix_get ix k (db_index db') = (if k = k0 then v else ix_get ix k (db_index db))"
  shows "phase_ok ix ikey_ok W' cl ph db'"
proof (cases "phase_seg ph")
  case Nil
  then have "ph = Idle" by (simp add: phase_seg_def split: phase.splits)
  then show ?thesis using ph st [of r] r by (auto simp: phase_ok_def has_room_def still_def data_start_def)
next
  case (Cons seg rest)
  let ?l = "db_log db" and ?l' = "db_log db'"
  have li0: "log_inv (gc_heads W cl) ?l" using gi by (simp add: gc_inv_def db_inv_def)
  have s: "still seg ?l ?l'" "still r ?l ?l'" using st Cons by auto
  have tails: "seg_tail (segs ?l' seg) = seg_tail (segs ?l seg)" "HasSpaceFor (segs ?l' r) x = HasSpaceFor (segs ?l r) x" for x
    using s by (simp_all add: still_def HasSpaceFor_def seg_end_def)
  have comp: "compacting ix ikey_ok W' seg p q cl db'" if "compacting ix ikey_ok W seg p q cl db" for p q
  proof -
    have "on_walk ix ikey_ok seg p db'"
      using that W' Cons by (intro walk_put [OF _ s(1) li0 li _ n v(1,2) _ get]) (auto simp: compacting_def)
    then show ?thesis using that W' Cons n fr r tails by (auto simp: compacting_def gc_room_def)
  qed
  show ?thesis
  proof (cases ph)
    case (Visit sg p tail)
    then show ?thesis using ph comp tails Cons by (auto simp: phase_ok_def phase_seg_def)
  next
    case (Copied sg p tail w)
    then have sg: "sg = seg" using Cons by (simp add: phase_seg_def)
    let ?m = "pm_bytes (lpool ?l)" and ?m' = "pm_bytes (lpool ?l')"
    have P: "compacting ix ikey_ok W seg p (p + kv_size ?m p) cl db" "copied ix seg p w cl db" "tail = seg_tail (segs ?l seg)"
      using ph by (simp_all add: Copied phase_ok_def sg)
    have C: "p < seg_tail (segs ?l seg)" "kv_size ?m p \<noteq> sizeof_KVItem" "w \<in> set (seg_entries ?l r)" "kv_GetKey ?m w = kv_GetKey ?m p"
        "kv_GetValue ?m w = kv_GetValue ?m p" "ix_get ix (index_key (kv_GetKey ?m p)) (db_index db) \<noteq> INVALID_VALUE"
      using P(2) r by (auto simp: copied_def Let_def)
    obtain k where k: "ikey_ok k" "index_key (kv_GetKey ?m p) = k" "p \<in> set (seg_entries ?l seg)" by (rule entry_key [OF gi P(1) C(1,2)])
    have ok: "seg_ok ?l seg" using li0 P(1) by (simp add: log_inv_def compacting_def)
    have f: "kv_GetKey ?m' p = kv_GetKey ?m p" "kv_GetValue ?m' p = kv_GetValue ?m p" "kv_size ?m' p = kv_size ?m p"
      using entry_fields_frame [OF ok k(3), of ?m'] s(1) by (auto simp: still_def)
    have rn: "r < num_segments ?l" "r \<notin> set (free_segments ?l)" using li0 r by (auto simp: log_inv_def gc_heads_def)
    have "kv_GetKey ?m' w = kv_GetKey ?m w" "kv_GetValue ?m' w = kv_GetValue ?m w" using kp rn C(3) by (simp_all add: log_keeps_def)
    moreover have "ix_get ix k (db_index db') \<noteq> INVALID_VALUE" using get [OF k(1)] v(3) C(6) k(2) by simp
    ultimately have "copied ix seg p w cl db'"
      using C f s r k(2) by (auto simp: copied_def Let_def still_def)
    then show ?thesis using comp [OF P(1)] P(3) f(3) tails by (simp add: phase_ok_def Copied sg)
  qed (use Cons in \<open>simp add: phase_seg_def\<close>)
qed

lemma gc_step_put:
  assumes inv: "gc_state_inv ix iinv ikey_ok s" and put: "worker_Put ix now key val (fs_workers (gc_store s) t) (gc_db s) = Inr (w, db)"
    and arg: "kv_arg_ok key val" and k: "ikey_ok (index_key key)" and ok: "iok (db_index db)"
  defines "s' \<equiv> s\<lparr>gc_store := (gc_store s)\<lparr>fs_db := db, fs_workers := (fs_workers (gc_store s))(t := w)\<rparr>\<rparr>"
  shows "gc_state_inv ix iinv ikey_ok s'"
    and "ikey_ok k' \<Longrightarrow> db_contents ix (gc_db s') k' = (if k' = index_key key then Some val else db_contents ix (gc_db s) k')"
proof -
  let ?st = "gc_store s" and ?cl = "gc_cleaner s" and ?ph = "gc_phase s" and ?db = "gc_db s" and ?l = "gc_log s" and ?l' = "db_log db"
  let ?W = "fs_heads ?st" and ?hd = "log_head (fs_workers ?st t)" and ?W' = "fs_heads (gc_store s')"
  have I: "gc_inv ix iinv ikey_ok ?W ?cl ?db" "held_ok ?W ?cl ?ph ?l" "phase_ok ix ikey_ok ?W ?cl ?ph ?db"
    and inj: "\<And>t t' i. log_head (fs_workers ?st t) = Some i \<Longrightarrow> log_head (fs_workers ?st t') = Some i \<Longrightarrow> t = t'"
    using inv by (auto simp: gc_state_inv_def)
  obtain r where r: "reserved_segment ?cl = Some r" "r \<notin> ?W" using I(1) by (auto simp: gc_inv_def gc_own_def)
  let ?H = "gc_heads ?W ?cl" and ?J = "insert r (gc_held ?cl ?ph)"
  have di: "db_inv ix iinv ikey_ok ?H ?db" and li: "log_inv ?H ?l" and lk: "log_keys ikey_ok ?l"
    using I(1) by (auto simp: gc_inv_def db_inv_def)
  have hd: "set_option ?hd \<subseteq> ?W" "set_option ?hd \<subseteq> ?H" by (auto simp: fs_heads_def gc_heads_def)
  note ap = held_apart [OF I]
  have J: "?J \<inter> set_option ?hd = {}" "?J \<inter> set (free_segments ?l) = {}"
    using ap r hd li by (auto simp: log_inv_def gc_heads_def)
  have q: "queue_ok (gc_held ?cl ?ph) ?H ?l" using I(2) by (simp add: held_ok_def)
  obtain v i where P: "log_head w = Some i" "log_step {v} ?J ?l ?l'" "log_keeps ?l ?l'" "kv_GetKey (pm_bytes (lpool ?l')) v = key"
      "v \<in> set (seg_entries ?l' i)" "i \<notin> ?J" "set (free_segments ?l') \<subseteq> set (free_segments ?l)"
      "db_index db = snd (ix_put ix (index_key key) v (db_index ?db))" "queue_ok (gc_held ?cl ?ph) (insert i (?H - set_option ?hd)) ?l'"
    using worker_Put_step [OF li hd(2) arg put J q ap(1,2)] by blast
  have C: "db_inv ix iinv ikey_ok (insert i (?H - set_option ?hd)) db" "i \<notin> ?H - set_option ?hd"
      "\<And>k'. ikey_ok k' \<Longrightarrow> db_contents ix db k' = (if k' = index_key key then Some val else db_contents ix ?db k')"
    using put_correct [OF di hd(2) arg k ok put] P(1) by auto
  show "ikey_ok k' \<Longrightarrow> db_contents ix (gc_db s') k' = (if k' = index_key key then Some val else db_contents ix ?db k')"
    using C(3) by (simp add: s'_def)
  have others: "?W - set_option ?hd = {j. \<exists>t'. t' \<noteq> t \<and> log_head (fs_workers ?st t') = Some j}"
    using inj by (auto simp: fs_heads_def) (metis option.set_intros)
  have W': "?W' = insert i (?W - set_option ?hd)" unfolding others using P(1) by (auto simp: fs_heads_def s'_def)
  have H': "insert i (?H - set_option ?hd) = gc_heads ?W' ?cl" using r hd by (auto simp: W' gc_heads_def)
  have inj': "t1 = t2" if "log_head (fs_workers (gc_store s') t1) = Some j" "log_head (fs_workers (gc_store s') t2) = Some j" for t1 t2 j
    using that P(1) C(2) inj [of t1 j t2] others by (auto simp: s'_def gc_heads_def split: if_splits)
  have n: "num_segments ?l' = num_segments ?l" and st: "\<And>j. j \<in> ?J \<Longrightarrow> still j ?l ?l'"
    using P(2) ap(3) r li by (auto simp: log_step_def log_inv_def gc_heads_def)
  have li': "log_inv (gc_heads ?W' ?cl) ?l'" using C(1) H' by (simp add: db_inv_def)
  have key: "key = le_bytes 8 (index_key key)" using arg index_key_le_bytes [of key] by (simp add: kv_arg_ok_def)
  have lk': "log_keys ikey_ok ?l'" using log_keys_step [OF lk li P(2,3)] P(4) k key by auto
  have i: "i < num_segments ?l'" "i \<notin> set (free_segments ?l')" using li' W' by (auto simp: log_inv_def gc_heads_def)
  have nw: "new_value ix ikey_ok (index_key key) v (db_index ?db)"
    by (rule live_new_value [OF li'])
      (use i P(4,5) key di live_keeps(1) [OF P(3)] in \<open>auto simp: live_def db_inv_def\<close>)
  then have vi: "v \<noteq> INVALID_VALUE" by (simp add: new_value_def)
  have get: "ix_get ix k' (db_index db) = (if k' = index_key key then v else ix_get ix k' (db_index ?db))" if "ikey_ok k'" for k'
    using put_get [OF _ k that _ nw] di ok P(8) by (simp add: db_inv_def)
  have apart: "j \<notin> gc_heads ?W' ?cl \<and> i \<noteq> j" if "j \<in> gc_held ?cl ?ph" for j
    using that ap(1) P(6) by (auto simp: W' gc_heads_def)
  have g': "gc_inv ix iinv ikey_ok ?W' ?cl db"
  proof -
    have "b < num_segments ?l' \<and> b \<notin> set (free_segments ?l') \<and> b \<notin> gc_heads ?W' ?cl \<and> seg_tail (segs ?l' b) = data_start (segs ?l' b)"
      if b: "backup_segment ?cl = Some b" for b
      using I(1) b st [of b] apart [of b] P(7) n by (auto simp: gc_inv_def gc_own_def gc_held_def still_def data_start_def)
    then show ?thesis using C(1) H' lk' r P(6) by (auto simp: gc_inv_def gc_own_def W')
  qed
  have h': "held_ok ?W' ?cl ?ph ?l'"
    using I(2) P(7,9) apart n by (auto simp: held_ok_def closed_for_def gc_held_def H')
  have "phase_ok ix ikey_ok ?W' ?cl ?ph db"
    using phase_put [OF I(3,1) _ r(1) li' P(3) n P(7) _ P(5) i(1) vi get] st apart by (auto simp: gc_held_def)
  moreover have sel: "gc_cleaner s' = ?cl" "gc_phase s' = ?ph" "gc_db s' = db" by (simp_all add: s'_def)
  ultimately show "gc_state_inv ix iinv ikey_ok s'" unfolding gc_state_inv_def sel using g' h' inj' by blast
qed

section \<open>Runs\<close>

lemma gc_step_ok_before: "gc_step ix s e s' \<Longrightarrow> iok (db_index (gc_db s')) \<Longrightarrow> iok (db_index (gc_db s))"
proof (induction rule: gc_step.induct)
  case (put now key val s t w db)
  then obtain v w1 db1 where mk: "MakeKVItem now key val (fs_workers (gc_store s) t) (gc_db s) = Inr (v, w1, db1)"
    by (auto simp: worker_Put_def split: sum.splits prod.splits)
  then show ?case using worker_Put_index [OF mk put(1)] put(2) put_ok by simp
next
  case (move s seg p tail v cl db)
  then have "\<exists>k old. db_index db = snd (ix_gc ix k old v (db_index (gc_db s)))"
    by (auto simp: gc_move_def cl_MarkGarbage_def Let_def split: prod.splits if_splits sum.splits option.splits) (metis snd_conv)+
  then show ?case using move(3) gc_ok_before by auto
qed (auto simp: take_closed_def Let_def)

lemma map_after_snoc: "map_after (ws @ [(t, k, v)]) m = (map_after ws m)(k \<mapsto> v)"
  by (simp add: map_after_def)

lemma gc_run_correct:
  assumes "gc_run ix s0 ws s" and inv: "gc_state_inv ix iinv ikey_ok s0" and "list_all (\<lambda>(t, k, v). kv_arg_ok k v \<and> ikey_ok (index_key k)) ws"
    and "iok (db_index (gc_db s))"
  shows "gc_state_inv ix iinv ikey_ok s \<and>
    fs_contents ix ikey_ok (Inr (gc_store s)) = map_after ws (fs_contents ix ikey_ok (Inr (gc_store s0)))"
  using assms(1,3,4)
proof induction
  case run_nil
  then show ?case using inv by simp
next
  case (run_gc ws s s')
  then have ih: "gc_state_inv ix iinv ikey_ok s" "fs_contents ix ikey_ok (Inr (gc_store s)) = map_after ws (fs_contents ix ikey_ok (Inr (gc_store s0)))"
    using gc_step_ok_before [OF run_gc.hyps(2)] by blast+
  note st = gc_step_internal [OF ih(1) run_gc.hyps(2)]
  have "fs_contents ix ikey_ok (Inr (gc_store s')) = fs_contents ix ikey_ok (Inr (gc_store s))"
    using st by (auto simp: fs_contents_def gc_invisible_def fun_eq_iff fs_key_ok_def)
  then show ?case using st ih(2) by simp
next
  case (run_put ws s w s')
  obtain t k v where w: "w = (t, k, v)" by (cases w)
  have ih: "gc_state_inv ix iinv ikey_ok s" "fs_contents ix ikey_ok (Inr (gc_store s)) = map_after ws (fs_contents ix ikey_ok (Inr (gc_store s0)))"
    using run_put gc_step_ok_before [OF run_put.hyps(2)] by auto
  have arg: "kv_arg_ok k v" "ikey_ok (index_key k)" using run_put.prems(1) by (auto simp: w)
  from run_put.hyps(2) obtain now wk db where p: "worker_Put ix now k v (fs_workers (gc_store s) t) (gc_db s) = Inr (wk, db)"
      "s' = s\<lparr>gc_store := (gc_store s)\<lparr>fs_db := db, fs_workers := (fs_workers (gc_store s))(t := wk)\<rparr>\<rparr>"
    by (cases rule: gc_step.cases) (auto simp: w)
  have ok: "iok (db_index db)" using run_put.prems(2) by (simp add: p(2))
  note P = gc_step_put [OF ih(1) p(1) arg ok, folded p(2)]
  have k8: "length k = 8" using arg(1) by (simp add: kv_arg_ok_def)
  have "fs_contents ix ikey_ok (Inr (gc_store s')) k' = ((fs_contents ix ikey_ok (Inr (gc_store s)))(k \<mapsto> v)) k'" for k'
  proof (cases "fs_key_ok ikey_ok k'")
    case True
    then have "index_key k' = index_key k \<longleftrightarrow> k' = k" using index_key_le_bytes k8 by (metis fs_key_ok_def)
    then show ?thesis using True P(2) [of "index_key k'"] by (simp add: fs_contents_def fs_key_ok_def)
  next
    case False
    then show ?thesis using k8 arg(2) by (auto simp: fs_contents_def fs_key_ok_def)
  qed
  then show ?case using P(1) ih(2) by (auto simp: w map_after_snoc fun_eq_iff)
qed

end

text \<open>Without the cleaner a run is what the clients' interface does.\<close>

lemma insert_all_run:
  assumes "gc_run ix s0 ws0 s" and "snd (insert_all (fs_api ix now) ws (Inr (gc_store s))) = Inr st"
  shows "gc_run ix s0 (ws0 @ ws) (s\<lparr>gc_store := st\<rparr>)"
  using assms
proof (induction ws arbitrary: ws0 s)
  case (Cons w ws)
  obtain t k v where w: "w = (t, k, v)" by (cases w)
  have ai: "api_insert (fs_api ix now t) = fs_insert ix now t" for t by (simp add: fs_api_def)
  have stop: "snd (insert_all (fs_api ix now) ws (Inl e)) = Inl e" for e ws
    by (induction ws) (auto simp: ai fs_insert_def split: prod.splits)
  obtain wk db where p: "worker_Put ix (now (gc_store s)) k v (fs_workers (gc_store s) t) (gc_db s) = Inr (wk, db)"
  proof (cases "worker_Put ix (now (gc_store s)) k v (fs_workers (gc_store s) t) (gc_db s)")
    case (Inl e)
    then show ?thesis using Cons.prems(2) stop [of ws e] by (auto simp: w ai fs_insert_def Let_def split: prod.splits)
  next
    case (Inr r)
    then show ?thesis using that by (cases r) auto
  qed
  let ?s = "s\<lparr>gc_store := (gc_store s)\<lparr>fs_db := db, fs_workers := (fs_workers (gc_store s))(t := wk)\<rparr>\<rparr>"
  have "gc_run ix s0 (ws0 @ [w]) ?s" unfolding w by (rule run_put [OF Cons.prems(1) gc_step.put [OF p]])
  from Cons.IH [OF this] Cons.prems(2) p show ?case
    by (simp add: w ai fs_insert_def Let_def split: prod.splits)
qed auto

end
