(* ===== verification/Flat_Store.thy ===== *)
theory Flat_Store
  imports CCEH Load_Phase Flat_Concurrent
begin

text \<open>
  The FlatStore wrapper as the benchmark opens it: the constructor of \<open>DB\<close> on a new log pool with the
  CCEH index, one client per thread, and what the composed store promises.
\<close>

section \<open>Opening the store\<close>

text \<open>\<open>DB::DB\<close> with \<open>CCEHIndex()\<close> (\<open>CCEH(128 * 1024)\<close>, directory depth 17).\<close>

definition db_new :: "nat \<Rightarrow> nat \<Rightarrow> nat \<Rightarrow> nat \<Rightarrow> pool \<Rightarrow> cceh db" where
  "db_new workers cleaners start log_size pm =
     \<lparr>db_index = cceh_new 17, db_log = log_new workers cleaners start log_size pm, epoch_map = (\<lambda>_. 0),
      cur_num_workers = 0\<rparr>"

text \<open>\<open>flatstore_wrapper(opt)\<close> when there is no pool yet: one worker and one cleaner.\<close>

definition flatstore_new :: "nat \<Rightarrow> nat \<Rightarrow> pool \<Rightarrow> cceh db" where
  "flatstore_new start log_size pm = db_new 1 1 start log_size pm"

text \<open>\<open>get_client\<close> by each of the threads \<open>0 ..< T\<close>; the other slots hold no worker.\<close>

definition get_client :: "nat \<Rightarrow> 'i fs_store \<Rightarrow> 'i fs_store" where
  "get_client t st =
     (let (w, db) = worker_new (fs_db st) in st\<lparr>fs_db := db, fs_workers := (fs_workers st)(t := w)\<rparr>)"

definition fs_open :: "nat \<Rightarrow> 'i db \<Rightarrow> 'i fs_store" where
  "fs_open T db =
     fold get_client [0..<T] \<lparr>fs_db = db, fs_workers = (\<lambda>_. \<lparr>worker_id = 0, log_head = None, tmp_garbage = []\<rparr>)\<rparr>"

section \<open>The initial log\<close>

lemma init_segments_seg:
  "i < n \<Longrightarrow> fst (init_segments start n pm) i =
     segment_object (start + i * SEGMENT_SIZE) (start + i * SEGMENT_SIZE + HEADERS_SIZE)"
  by (induction n) (auto simp: log_segment_new_def seg_Init_def segment_object_def data_start_def less_Suc_eq
      split: prod.splits)

lemma StartUsing_frame:
  "same_frame l (on_seg (StartUsing hot sc) i l) \<and>
   segment_start (segs (on_seg (StartUsing hot sc) i l) j) = segment_start (segs l j) \<and>
   seg_tail (segs (on_seg (StartUsing hot sc) i l) j) = seg_tail (segs l j)"
  by (simp add: same_frame_def on_seg_def StartUsing_def)

lemma StartUsing_fold_frame:
  "same_frame l (fold (on_seg (StartUsing hot sc)) is l) \<and>
   segment_start (segs (fold (on_seg (StartUsing hot sc)) is l) j) = segment_start (segs l j) \<and>
   seg_tail (segs (fold (on_seg (StartUsing hot sc)) is l) j) = seg_tail (segs l j)"
proof (induction "is" arbitrary: l)
  case (Cons i "is")
  then show ?case using StartUsing_frame [of l hot sc i] by (simp add: same_frame_def)
qed (simp add: same_frame_def)

lemma empty_seg_ok:
  assumes "segment_start (segs l i) = seg_addr l i" and "seg_tail (segs l i) = data_start (segs l i)"
  shows "seg_ok l i" and "seg_entries l i = []" and "seg_walk_end l i = seg_tail (segs l i)"
  using assms by (simp_all add: seg_ok_def seg_wf_def seg_walk_end_def seg_entries_def seg_end_def data_start_def
      HEADERS_SIZE_def SEGMENT_SIZE_def)

lemma log_new_facts:
  fixes workers start :: nat and pm :: pool
  assumes "cleaners \<le> sz div SEGMENT_SIZE"
  defines "l \<equiv> log_new workers cleaners start sz pm"
  shows "free_segments l = [0..<sz div SEGMENT_SIZE - cleaners]"
    and "num_segments l = sz div SEGMENT_SIZE" and "pool_start l = start" and "num_cleaners l = cleaners"
    and "i < num_segments l \<Longrightarrow> registered l i \<and> segment_start (segs l i) = seg_addr l i \<and> seg_tail (segs l i) = data_start (segs l i)"
    and "num_free_segments l = int (length (free_segments l))"
proof -
  let ?n = "sz div SEGMENT_SIZE"
  let ?l0 = "\<lparr>num_workers = workers, num_cleaners = cleaners, pool_start = start, num_segments = ?n,
      segs = fst (init_segments start ?n pm), registered = (\<lambda>i. i < ?n), free_segments = [0..<?n - cleaners],
      num_free_segments = int ?n - int cleaners, alloc_counter = 0, clean_threshold = 10, free_status = FS_Sufficient,
      closed_segments = (\<lambda>_. []), cleaner_garbage = (\<lambda>_. 0), stop_flag = (cleaners = 0),
      lpool = snd (init_segments start ?n pm)\<rparr>"
  have l: "l = fold (on_seg (StartUsing False False)) [?n - cleaners..<?n] ?l0"
    by (simp add: l_def log_new_def Let_def split_beta)
  note f = StartUsing_fold_frame [of ?l0 False False "[?n - cleaners..<?n]", folded l]
  then have ff: "free_segments l = [0..<?n - cleaners]" "num_segments l = ?n" "pool_start l = start"
      "num_cleaners l = cleaners" "num_free_segments l = int ?n - int cleaners" "registered l = (\<lambda>i. i < ?n)"
    by (simp_all add: same_frame_def)
  then show "free_segments l = [0..<?n - cleaners]" "num_segments l = ?n" "pool_start l = start" "num_cleaners l = cleaners"
    "num_free_segments l = int (length (free_segments l))"
    using assms(1) by (simp_all add: of_nat_diff)
  assume "i < num_segments l"
  then show "registered l i \<and> segment_start (segs l i) = seg_addr l i \<and> seg_tail (segs l i) = data_start (segs l i)"
    using f [of i] ff init_segments_seg [of i ?n start pm] by (simp add: seg_addr_def data_start_def segment_object_def)
qed

lemma log_new_inv:
  assumes "cleaners \<le> sz div SEGMENT_SIZE" and "0 < start" and "start + sz \<le> 2 ^ 48"
  shows "log_inv {} (log_new workers cleaners start sz pm)"
proof -
  note f = log_new_facts [OF assms(1), where workers = workers and start = start and pm = pm]
  have "sz div SEGMENT_SIZE * SEGMENT_SIZE \<le> sz" by simp
  then have "start + sz div SEGMENT_SIZE * SEGMENT_SIZE \<le> 2 ^ 48" using assms(3) by linarith
  then show ?thesis using assms(2) f(5) f(6) empty_seg_ok(1)
    by (auto simp: log_inv_def f(1-4) seg_addr_def)
qed

section \<open>The initial store\<close>

lemma fs_open_fields:
  "db_index (fs_db (fs_open T db)) = db_index db \<and> db_log (fs_db (fs_open T db)) = db_log db \<and>
   (\<forall>t. log_head (fs_workers (fs_open T db) t) = None)"
proof -
  have "db_index (fs_db (fold get_client ts st)) = db_index (fs_db st) \<and> db_log (fs_db (fold get_client ts st)) = db_log (fs_db st) \<and>
     (\<forall>t. log_head (fs_workers (fold get_client ts st) t) = None)"
    if "\<forall>t. log_head (fs_workers st t) = None" for ts and st :: "'a fs_store"
    using that by (induction ts arbitrary: st) (auto simp: get_client_def worker_new_def)
  then show ?thesis by (simp add: fs_open_def)
qed

lemma cceh_new_get: "cceh_Get h k (cceh_new d) = INVALID_VALUE" if "key_valid k"
  using that by (auto simp: cceh_Get_def cceh_new_def seg_new_def NONE_VALUE_def INVALID_VALUE_def key_valid_def Let_def
      split: option.splits dest: probe_Some)

text \<open>A store opened on a new pool with an empty index.\<close>

lemma fs_open_empty:
  fixes T :: nat and pm :: pool and db :: "'i db"
  assumes "SEGMENT_SIZE \<le> sz" and "0 < start" and "start + sz \<le> 2 ^ 48" and l: "db_log db = log_new 1 1 start sz pm"
    and i: "iinv (db_index db)" "\<forall>k. ikey_ok k \<longrightarrow> ix_get ix k (db_index db) = INVALID_VALUE"
  defines "s \<equiv> Inr (fs_open T db)"
  shows "fs_inv ix iinv ikey_ok s" and "fs_ok iok s = iok (db_index db)" and "fs_contents ix ikey_ok s = Map.empty"
    and "fs_room iroom s n \<longleftrightarrow> n \<le> sz div SEGMENT_SIZE - 1 \<and> iroom (db_index db) n"
proof -
  have c: "1 \<le> sz div SEGMENT_SIZE" using assms(1) by (simp add: SEGMENT_SIZE_def)
  note o = fs_open_fields [of T db]
  have heads: "fs_heads (fs_open T db) = {}" using o by (simp add: fs_heads_def)
  show "fs_inv ix iinv ikey_ok s"
    using o heads log_new_inv [OF c assms(2,3)] i by (auto simp: fs_inv_def s_def db_inv_def l)
  show "fs_ok iok s = iok (db_index db)" using o by (simp add: fs_ok_def s_def)
  show "fs_contents ix ikey_ok s = Map.empty"
    using o i(2) by (auto simp: fs_contents_def s_def db_contents_def fs_key_ok_def)
  show "fs_room iroom s n \<longleftrightarrow> n \<le> sz div SEGMENT_SIZE - 1 \<and> iroom (db_index db) n"
    using o log_new_facts(1) [OF c, where workers = 1 and start = start and pm = pm]
    by (auto simp: fs_room_def s_def l)
qed

lemma flatstore_new_sel: "db_log (flatstore_new start sz pm) = log_new 1 1 start sz pm" "db_index (flatstore_new start sz pm) = cceh_new 17"
  by (simp_all add: flatstore_new_def db_new_def)

lemma flatstore_new_empty:
  "cceh_inv h (db_index (flatstore_new start sz pm))"
  "\<forall>k. key_valid k \<longrightarrow> ix_get (cceh_ops h) k (db_index (flatstore_new start sz pm)) = INVALID_VALUE"
  using cceh_new_inv [of 17 h] cceh_new_get [of _ h] by (simp_all add: flatstore_new_sel cceh_ops_sel(1))

lemma flatstore_open_ok:
  fixes T :: nat and pm :: pool
  assumes "SEGMENT_SIZE \<le> sz" and "0 < start" and "start + sz \<le> 2 ^ 48"
  defines "s \<equiv> Inr (fs_open T (flatstore_new start sz pm))"
  shows "fs_inv (cceh_ops h) (cceh_inv h) key_valid s" and "fs_ok cceh_ok s"
    and "fs_contents (cceh_ops h) key_valid s = Map.empty"
    and "fs_room (cceh_room h) s (min 32 (sz div SEGMENT_SIZE - 1))"
proof -
  note i = flatstore_new_sel(2) [of start sz pm]
  note E = fs_open_empty [where T = T and iinv = "cceh_inv h" and ikey_ok = key_valid and ix = "cceh_ops h",
      OF assms(1-3) flatstore_new_sel(1) [of start sz pm] flatstore_new_empty, folded s_def]
  show "fs_inv (cceh_ops h) (cceh_inv h) key_valid s" "fs_contents (cceh_ops h) key_valid s = Map.empty" using E(1,3) by blast+
  show "fs_ok cceh_ok s" using E(2) [where iok = cceh_ok] by (simp add: i cceh_ok_def cceh_new_def)
  have "{j \<in> set (window (f_idx h key)). slot_free h key (sg_heap (cceh_new 17) (target h key (cceh_new 17))) j}
      = set (window (f_idx h key))" for key
    by (auto simp: slot_free_def cceh_new_def seg_new_def sentinel_not_invalid [symmetric])
  then have "cceh_room h (cceh_new 17) (min 32 n)" for n by (simp add: cceh_room_def window_card)
  then show "fs_room (cceh_room h) s (min 32 (sz div SEGMENT_SIZE - 1))" using E(4) by (simp add: i)
qed

lemma fs_room_mono: "fs_room (cceh_room h) s n \<Longrightarrow> m \<le> n \<Longrightarrow> fs_room (cceh_room h) s m"
  unfolding fs_room_def cceh_room_def by (auto split: sum.splits intro: order_trans)

section \<open>The composed store\<close>

abbreviation flatstore_api :: "(cceh fs_store \<Rightarrow> nat) \<Rightarrow> nat \<Rightarrow> cceh fs_state client_api" where
  "flatstore_api now \<equiv> fs_api (cceh_ops key_hash) now"

abbreviation flatstore_start :: "nat \<Rightarrow> nat \<Rightarrow> nat \<Rightarrow> pool \<Rightarrow> cceh fs_state" where
  "flatstore_start T start sz pm \<equiv> Inr (fs_open T (flatstore_new start sz pm))"

text \<open>Arguments the store handles: eight-byte keys outside the two reserved ones, values below 64 KiB.\<close>

definition write_ok :: "nat \<times> byte list \<times> byte list \<Rightarrow> bool" where
  "write_ok w = (case w of (t, k, v) \<Rightarrow> fs_key_ok key_valid k \<and> fs_value_ok v)"

lemma write_ok_all: "list_all write_ok ws \<Longrightarrow> \<forall>(t, k, v) \<in> set ws. fs_key_ok key_valid k \<and> fs_value_ok v"
  by (auto simp: list_all_iff write_ok_def)



text \<open>Two clients write three records to a pool of eight segments.\<close>

definition demo_pool :: pool where
  "demo_pool = \<lparr>pm_bytes = (\<lambda>_. 0), pm_hdr = (\<lambda>_. \<lparr>h_offset = 0, h_status = StatusAvailable,
     h_objects_tail_offset = 0, h_has_shortcut = False\<rparr>)\<rparr>"

definition demo_writes :: "(nat \<times> byte list \<times> byte list) list" where
  "demo_writes = [(0, [1, 0, 0, 0, 0, 0, 0, 0], [10]), (1, [2, 0, 0, 0, 0, 0, 0, 0], [20, 21]),
     (1, [1, 0, 0, 0, 0, 0, 0, 0], [30])]"

lemma demo_writes_ok: "list_all write_ok demo_writes"
  by (simp add: demo_writes_def write_ok_def fs_key_ok_def fs_value_ok_def index_key_def key_valid_def INVALID_KEY_def
      SENTINEL_def)

lemma demo_size: "SEGMENT_SIZE \<le> 8 * SEGMENT_SIZE" "0 < SEGMENT_SIZE" "SEGMENT_SIZE + 8 * SEGMENT_SIZE \<le> 2 ^ 48"
  by (simp_all add: SEGMENT_SIZE_def)


lemma demo_accepted:
  "fs_ok cceh_ok (snd (insert_all (flatstore_api (\<lambda>_. 0)) demo_writes (flatstore_start 2 SEGMENT_SIZE (8 * SEGMENT_SIZE) demo_pool)))"
proof -
  note o = flatstore_open_ok [OF demo_size, where T = 2 and pm = demo_pool]
  have n: "min 32 (8 * SEGMENT_SIZE div SEGMENT_SIZE - 1) = length demo_writes + 4" by (simp add: demo_writes_def SEGMENT_SIZE_def)
  show ?thesis by (rule cceh.fs.insert_all_room [OF o(1,2) write_ok_all [OF demo_writes_ok] o(4) [unfolded n]])
qed


section \<open>Loading the store\<close>

text \<open>The keys of the load phase are not the reserved ones: their record numbers are far above any load.\<close>

lemma unhash_reserved: "multiplicative_unhash INVALID_KEY = 10865459392498951543" "multiplicative_unhash SENTINEL = 3284174711288351470"
  by (simp_all add: multiplicative_unhash_def INVALID_KEY_def SENTINEL_def)

lemma hash_key_valid:
  assumes "unat rid \<le> 2 ^ 61" shows "key_valid (multiplicative_hash rid)"
proof -
  have "rid \<noteq> 10865459392498951543" "rid \<noteq> 3284174711288351470" using assms by auto
  then show ?thesis unfolding key_valid_def using unhash_reserved multiplicative_unhash_hash by metis
qed

lemma load_key_ok:
  assumes "kg_sz kg = 8" and "unat rid \<le> 2 ^ 61"
  shows "fs_key_ok key_valid (seq_key False kg [] rid)"
  using hash_key_valid [OF assms(2)] assms(1)
  by (simp add: fs_key_ok_def seq_key_def id_bytes_def index_key_def rep_bytes_def le_word_le_bytes_full)

lemma load_id_bound:
  assumes "j \<le> chunk n T t" and "t < T" and "n < 2 ^ 61"
  shows "unat (of_nat (n div T * t) + of_nat j :: u64) \<le> 2 ^ 61"
proof -
  have "n div T * t + j \<le> n div T * t + n div T + 1" using assms(1) by (simp add: chunk_def split: if_splits)
  also have "\<dots> = n div T * (t + 1) + 1" by (simp add: algebra_simps)
  also have "\<dots> \<le> n div T * T + 1" using assms(2) by (intro add_right_mono mult_le_mono2) simp
  also have "\<dots> \<le> n + 1" by simp
  finally have "n div T * t + j \<le> 2 ^ 61" using assms(3) by linarith
  then have "unat (of_nat (n div T * t + j) :: u64) \<le> 2 ^ 61"
    unfolding unat_of_nat by (rule order_trans [OF mod_less_eq_dividend])
  then show ?thesis by (simp only: of_nat_add)
qed


definition demo_load_bench :: "(unit, cceh fs_state) bench" where
  "demo_load_bench = \<lparr>b_opt = options_default\<lparr>num_records := 4, num_threads := 2, value_size := 8\<rparr>, b_be = False,
     b_kg = \<lparr>kg_N = 4, kg_sz = 8, kg_prefix = []\<rparr>, b_ops = \<lparr>ops = replicate 256 INSERT\<rparr>,
     b_vg = value_generator_new 8, b_api = flatstore_api (\<lambda>_. 0), b_next_id = Pair 1, b_op_draw = Pair 0,
     b_uniform = (\<lambda>a b. Pair a), b_bool = Pair True\<rparr>"

lemma demo_load_facts:
  "b_api demo_load_bench = flatstore_api (\<lambda>_. 0)" "values_ok demo_load_bench" "\<not> b_be demo_load_bench"
  "kg_sz (b_kg demo_load_bench) = 8" "kg_prefix (b_kg demo_load_bench) = []"
  "num_records (b_opt demo_load_bench) = 4" "num_threads (b_opt demo_load_bench) = 2" "value_size (b_opt demo_load_bench) = 8"
  "kg_wf (b_kg demo_load_bench) (w_tls (demo_worker tid))"
  by (simp_all add: demo_load_bench_def options_default_def values_ok_def uniform_ok_def VALUE_MAX_def demo_worker_def kg_wf_def
      kg_size_def KEY_MAX_def kg_tls_init_def)

lemma demo_load_run:
  obtains st where
    "(load_step demo_load_bench)\<^sup>*\<^sup>* (load_init demo_load_bench demo_worker (flatstore_start 2 SEGMENT_SIZE (8 * SEGMENT_SIZE) demo_pool)) st"
    "finished st" "fs_ok cceh_ok (par_store st)"
proof -
  let ?b = demo_load_bench and ?s = "flatstore_start 2 SEGMENT_SIZE (8 * SEGMENT_SIZE) demo_pool"
  let ?st0 = "load_init ?b demo_worker ?s"
  note o = flatstore_open_ok [OF demo_size, where T = 2 and pm = demo_pool]
  obtain st where st: "(load_step ?b)\<^sup>*\<^sup>* ?st0 st" "finished st"
    using load_completes [OF load_init_workers_wf [of ?b demo_worker, OF demo_load_facts(9)]] by blast
  have th: "par_threads ?st0 = [((demo_worker 0)\<lparr>w_tls := w_tls (demo_worker 0)\<lparr>current_id := 0\<rparr>\<rparr>, 2),
      ((demo_worker 1)\<lparr>w_tls := w_tls (demo_worker 1)\<lparr>current_id := 2\<rparr>\<rparr>, 2)]"
    by (simp add: load_init_def Let_def demo_load_facts(6,7) upt_rec chunk_def load_base_def)
  have "remaining ?st0 = 4" by (simp add: remaining_def th)
  then have "remaining ?st0 \<le> min 32 (8 * SEGMENT_SIZE div SEGMENT_SIZE - 1)" by (simp only:) (simp add: SEGMENT_SIZE_def)
  then have rm: "fs_room (cceh_room key_hash) ?s (remaining ?st0)" by (rule fs_room_mono [OF o(4)])
  have keys: "fs_key_ok key_valid (seq_key (b_be ?b) (b_kg ?b)
        (take (length (kg_prefix (b_kg ?b))) (kg_buf (w_tls (fst (par_threads ?st0 ! i)))))
        (current_id (w_tls (fst (par_threads ?st0 ! i))) + of_nat j))"
    if "i < length (par_threads ?st0)" "1 \<le> j" "j \<le> snd (par_threads ?st0 ! i)" for i j
    using that load_key_ok [OF demo_load_facts(4) load_id_bound [where n = 4 and T = 2 and t = i and j = j]]
    by (simp add: load_init_def Let_def demo_load_facts(3,5,6,7) load_base_nat)
  have vals: "fs_value_ok v" if "length v = unat (value_size (b_opt ?b))" for v
    using that by (simp add: fs_value_ok_def demo_load_facts(8))
  have i0: "kv_upsert.load_inv (fs_contents (cceh_ops key_hash) key_valid) (fs_inv (cceh_ops key_hash) (cceh_inv key_hash) key_valid) ?b ?st0 ?st0"
    by (rule kv_upsert.load_init_inv [OF cceh.fs.kv_upsert_axioms o(1) demo_load_facts(9)])
  have "fs_ok cceh_ok (par_store st)"
    using kv_upsert_room.load_room [OF cceh.fs.kv_upsert_room_axioms demo_load_facts(1,2) keys vals st(1) i0]
      o(2) rm by (simp add: load_init_def Let_def)
  then show thesis using that st by blast
qed


section \<open>With the cleaner\<close>

text \<open>The cleaner the log starts: it reserves the last segment.\<close>

definition gc_open :: "nat \<Rightarrow> nat \<Rightarrow> 'i db \<Rightarrow> 'i gc_state" where
  "gc_open T sz db =
     \<lparr>gc_store = fs_open T db, gc_cleaner = cleaner_new 0 1 (sz div SEGMENT_SIZE - 1), gc_phase = Idle\<rparr>"

abbreviation flatstore_gc_start :: "nat \<Rightarrow> nat \<Rightarrow> nat \<Rightarrow> pool \<Rightarrow> cceh gc_state" where
  "flatstore_gc_start T start sz pm \<equiv> gc_open T sz (flatstore_new start sz pm)"

lemma log_new_closed: "closed_segments (log_new workers cleaners start sz pm) = (\<lambda>_. [])"
proof -
  have "closed_segments (fold (on_seg (StartUsing False False)) is l) = closed_segments l" for "is" l
    by (induction "is" arbitrary: l) (simp_all add: on_seg_def split: prod.splits)
  then show ?thesis by (simp add: log_new_def Let_def split_beta)
qed

lemma gc_open_inv:
  fixes T :: nat and pm :: pool and db :: "'i db"
  assumes "SEGMENT_SIZE \<le> sz" and "0 < start" and "start + sz \<le> 2 ^ 48" and l: "db_log db = log_new 1 1 start sz pm"
    and i: "iinv (db_index db)" "\<forall>k. ikey_ok k \<longrightarrow> ix_get ix k (db_index db) = INVALID_VALUE"
  defines "s \<equiv> gc_open T sz db"
  shows "gc_state_inv ix iinv ikey_ok s" and "fs_contents ix ikey_ok (Inr (gc_store s)) = Map.empty"
proof -
  let ?n = "sz div SEGMENT_SIZE" and ?l = "log_new 1 1 start sz pm"
  have c: "1 \<le> ?n" using assms(1) by (simp add: SEGMENT_SIZE_def)
  note f = log_new_facts [OF c, where workers = 1 and start = start and pm = pm]
  note o = fs_open_fields [of T db]
  have db: "gc_log s = ?l" "db_index (gc_db s) = db_index db" using o l by (simp_all add: s_def gc_open_def)
  have W: "fs_heads (gc_store s) = {}" using o by (simp add: s_def gc_open_def fs_heads_def)
  have cl: "gc_cleaner s = cleaner_new 0 1 (?n - 1)" "gc_phase s = Idle" by (simp_all add: s_def gc_open_def)
  have r: "?n - 1 < num_segments ?l" "?n - 1 \<notin> set (free_segments ?l)" "seg_tail (segs ?l (?n - 1)) = data_start (segs ?l (?n - 1))"
    using c f(1,2) f(5) [of "?n - 1"] by auto
  have "log_inv {?n - 1} ?l" using log_inv_add [OF log_new_inv [OF c assms(2,3)] r] by simp
  moreover have "log_keys ikey_ok ?l" using f(5) empty_seg_ok(2) by (auto simp: log_keys_def)
  ultimately have "gc_inv ix iinv ikey_ok {} (cleaner_new 0 1 (?n - 1)) (gc_db s)"
    using i by (auto simp: gc_inv_def gc_own_def db_inv_def gc_heads_def db cleaner_new_def)
  moreover have "held_ok {} (cleaner_new 0 1 (?n - 1)) Idle ?l"
    using f(4) by (simp add: held_ok_def cleaner_new_def phase_seg_def queue_ok_def log_new_closed)
  moreover have "phase_ok ix ikey_ok {} (cleaner_new 0 1 (?n - 1)) Idle (gc_db s)"
    using r(3) by (simp add: phase_ok_def has_room_def cleaner_new_def db)
  moreover have "log_head (fs_workers (gc_store s) t) = None" for t using o by (simp add: s_def gc_open_def)
  ultimately show "gc_state_inv ix iinv ikey_ok s" by (simp add: gc_state_inv_def W cl db)
  show "fs_contents ix ikey_ok (Inr (gc_store s)) = Map.empty"
    using fs_open_empty(3) [OF assms(1-4), where iinv = iinv and ikey_ok = ikey_ok and ix = ix, OF i] by (simp add: s_def gc_open_def)
qed

text \<open>What a lookup gives after a run, and that the cleaner is not stuck.\<close>

context flat_index
begin

lemma gc_run_find:
  assumes run: "gc_run ix s0 ws s" and i0: "gc_state_inv ix iinv ikey_ok s0" "fs_contents ix ikey_ok (Inr (gc_store s0)) = Map.empty"
    and ws: "\<forall>(t, k, v) \<in> set ws. fs_key_ok ikey_ok k \<and> fs_value_ok v" and ok: "iok (db_index (gc_db s))" and k: "fs_key_ok ikey_ok k"
  shows "fst (fs_find ix k (Inr (gc_store s))) = (case map_after ws Map.empty k of None \<Rightarrow> (False, []) | Some v \<Rightarrow> (True, v)) \<and>
    (gc_phase s = Idle \<or> (\<exists>s'. gc_step ix s None s'))"
proof -
  have "list_all (\<lambda>(t, k, v). kv_arg_ok k v \<and> ikey_ok (index_key k)) ws"
    using ws by (auto simp: list_all_iff kv_arg_ok_def fs_key_ok_def fs_value_ok_def)
  from gc_run_correct [OF run i0(1) this ok] have R: "gc_state_inv ix iinv ikey_ok s \<and>
      fs_contents ix ikey_ok (Inr (gc_store s)) = map_after ws Map.empty" using i0(2) by simp
  then have di: "db_inv ix iinv ikey_ok (gc_heads (fs_heads (gc_store s)) (gc_cleaner s)) (gc_db s)"
    by (simp add: gc_state_inv_def gc_inv_def)
  have "worker_Get ix k (gc_db s) = map_after ws Map.empty k"
    using get_correct [OF di] fun_cong [OF conjunct2 [OF R], of k] k by (simp add: fs_contents_def fs_key_ok_def)
  then show ?thesis using gc_progress [OF conjunct1 [OF R]] by (auto simp: fs_find_def split: option.splits)
qed

end



end
