(* ===== verification/Flat_Restart.thy ===== *)
theory Flat_Restart
  imports Flat_Order Flat_Store
begin

text \<open>
  Recovery of FlatStore with the CCEH index: a store filled by one client holds the same after its
  client is gone and the log is recovered; what a lookup finds after recovery in general; and what
  opening an existing pool through the wrapper really recovers.
\<close>

section \<open>The initial log is in order\<close>

lemma init_segments_status:
  "i < n \<Longrightarrow> h_status (pm_hdr (snd (init_segments start n pm)) (start + i * SEGMENT_SIZE)) = StatusAvailable"
  by (induction n) (auto simp: log_segment_new_def seg_Init_def segment_object_def set_header_def less_Suc_eq split: prod.splits)

lemma log_new_status:
  assumes "1 \<le> sz div SEGMENT_SIZE" and "i < sz div SEGMENT_SIZE"
  shows "h_status (seg_header (log_new 1 1 start sz pm) i) = (if i = sz div SEGMENT_SIZE - 1 then StatusUsing else StatusAvailable)"
proof -
  let ?n = "sz div SEGMENT_SIZE" and ?f = "init_segments start (sz div SEGMENT_SIZE) pm"
  have u: "[?n - 1..<?n] = [?n - 1]" using assms(1) by (simp add: upt_rec)
  have st: "segment_start (fst ?f (?n - 1)) = start + (?n - 1) * SEGMENT_SIZE"
    using init_segments_seg [of "?n - 1" ?n start pm] assms(1) by (simp add: segment_object_def)
  have "SEGMENT_SIZE \<noteq> 0" by (simp add: SEGMENT_SIZE_def)
  moreover have l: "lpool (log_new 1 1 start sz pm) =
      snd (StartUsing False False (fst ?f (?n - 1), snd ?f))" "pool_start (log_new 1 1 start sz pm) = start"
    unfolding log_new_def Let_def split_beta u by (simp_all add: on_seg_def split_beta)
  ultimately show ?thesis using init_segments_status [OF assms(2), of start pm]
    unfolding seg_header_def seg_addr_def l by (simp add: StartUsing_def set_header_def st del: One_nat_def)
qed

lemma log_new_in_order:
  assumes "SEGMENT_SIZE \<le> sz" and "0 < start" and "start + sz \<le> 2 ^ 48"
  shows "in_order {num_segments (log_new 1 1 start sz pm) - 1} 0 (log_new 1 1 start sz pm)"
    and "all_entries (log_new 1 1 start sz pm) = []" and "num_segments (log_new 1 1 start sz pm) = sz div SEGMENT_SIZE"
proof -
  let ?n = "sz div SEGMENT_SIZE"
  define l where "l = log_new 1 1 start sz pm"
  have c: "1 \<le> ?n" using assms(1) by (simp add: SEGMENT_SIZE_def)
  note f = log_new_facts [OF c, where workers = 1 and start = start and pm = pm, folded l_def]
  have e: "seg_entries l i = []" "seg_tail (segs l i) = data_start (segs l i)" if "i < ?n" for i
    using f(5) [of i] that empty_seg_ok(2) [of l i] by (simp_all add: f(2))
  show n: "num_segments (log_new 1 1 start sz pm) = ?n" using f(2) by (simp add: l_def)
  show "all_entries (log_new 1 1 start sz pm) = []" unfolding l_def [symmetric] by (simp add: all_entries_def f(2) e)
  have r: "?n - 1 < num_segments l" "?n - 1 \<notin> set (free_segments l)" "seg_tail (segs l (?n - 1)) = data_start (segs l (?n - 1))"
    using c e(2) [of "?n - 1"] by (auto simp: f(1,2))
  have "log_inv {?n - 1} l" using log_inv_add [OF log_new_inv [OF c assms(2,3)] r [unfolded l_def]] by (simp add: l_def)
  moreover have "h_status (seg_header l i) = (if i = ?n - 1 then StatusUsing else StatusAvailable)" if "i < ?n" for i
    unfolding l_def by (rule log_new_status [OF c that])
  ultimately show "in_order {num_segments (log_new 1 1 start sz pm) - 1} 0 (log_new 1 1 start sz pm)"
    unfolding n unfolding l_def [symmetric] using c e by (auto simp: in_order_def f(1,2,4))
qed

section \<open>Opening an existing pool\<close>

text \<open>
  \<open>flatstore_wrapper(opt)\<close> when the pool file exists: \<open>DB\<close> is constructed on it as on a new one, and
  then recovered; which recovery runs depends on whether the index is persistent.
\<close>

definition flatstore_reopen ::
  "bool \<Rightarrow> (nat \<Rightarrow> nat) \<Rightarrow> nat \<Rightarrow> nat \<Rightarrow> nat \<Rightarrow> pool \<Rightarrow> fs_error + (cleaner list \<times> cceh db)" where
  "flatstore_reopen idx_persistent junk now start log_size pm =
     (let db = db_new 1 1 start log_size pm;
          cls = [cleaner_new 0 1 (log_size div SEGMENT_SIZE - 1)]
      in if idx_persistent
         then (case DB_RecoverySegments now cls db of
                 Inl e \<Rightarrow> Inl e
               | Inr (cls, db) \<Rightarrow> DB_RecoveryInfo (cceh_ops key_hash) True cls db)
         else DB_RecoveryAll (cceh_ops key_hash) (cceh_new 17) junk now cls db)"

text \<open>Recovering the segment objects of an in-order log whose segments are all closed or available.\<close>

lemma reopen_segments_ok:
  assumes "\<forall>i < num_segments l. h_status (seg_header l i) = StatusAvailable \<or> h_status (seg_header l i) = StatusClosed"
    and "j \<le> num_segments l" and "lpool l1 = lpool l" and "pool_start l1 = pool_start l" and "num_segments l1 = num_segments l"
  shows "\<exists>free l'. foldM (reopen_segment cid) [0..<j] (free0, l1) = Inr (free, l') \<and> (\<forall>i < j. registered l' i) \<and>
    lpool l' = lpool l \<and> pool_start l' = pool_start l \<and> num_segments l' = num_segments l"
  using assms(2)
proof (induction j)
  case 0
  then show ?case using assms(3-5) by simp
next
  case (Suc j)
  then obtain free l' where ih: "foldM (reopen_segment cid) [0..<j] (free0, l1) = Inr (free, l')" "\<forall>i < j. registered l' i"
    "lpool l' = lpool l" "pool_start l' = pool_start l" "num_segments l' = num_segments l" by auto
  have "h_status (seg_header l' j) = StatusAvailable \<or> h_status (seg_header l' j) = StatusClosed"
    using assms(1) Suc.prems ih(3,4) by (simp add: seg_header_def seg_addr_def)
  then have "\<exists>free' l''. reopen_segment cid j (free, l') = Inr (free', l'') \<and> (\<forall>i. registered l'' i \<longleftrightarrow> i = j \<or> registered l' i) \<and>
      lpool l'' = lpool l' \<and> pool_start l'' = pool_start l' \<and> num_segments l'' = num_segments l'"
    by (auto simp: reopen_segment_def Let_def push_closed_def)
  then obtain free' l'' where "reopen_segment cid j (free, l') = Inr (free', l'')" "\<forall>i. registered l'' i \<longleftrightarrow> i = j \<or> registered l' i"
      "lpool l'' = lpool l'" "pool_start l'' = pool_start l'" "num_segments l'' = num_segments l'" by blast
  then show ?case using ih by (auto simp: foldM_append less_Suc_eq)
qed

lemma info_loop_frame:
  "registered (snd (info_loop ix idx i p t cl l)) = registered l \<and> lpool (snd (info_loop ix idx i p t cl l)) = lpool l \<and>
   num_segments (snd (info_loop ix idx i p t cl l)) = num_segments l"
proof (induction ix idx i p t cl l rule: info_loop.induct)
  case (1 ix idx i p t cl l)
  show ?case
  proof (cases "p < t \<and> kv_size (pm_bytes (lpool l)) p \<noteq> sizeof_KVItem")
    case True
    then show ?thesis using 1 by (simp add: info_loop.simps [of ix idx i p t cl l] Let_def)
  next
    case False
    then have "info_loop ix idx i p t cl l = (cl, l)" by (subst info_loop.simps) (auto simp: Let_def)
    then show ?thesis by simp
  qed
qed

lemma info_segments_ok:
  assumes "\<forall>i \<in> set is. registered l i"
  shows "\<exists>cl' l'. foldM (info_segment ix idx) is (cl, l) = Inr (cl', l') \<and> registered l' = registered l \<and> num_segments l' = num_segments l"
  using assms
proof (induction "is" arbitrary: cl l)
  case (Cons i "is")
  let ?r = "info_loop ix idx i (data_start (segs l i)) (seg_tail (segs l i)) cl l"
  have fr: "registered (snd ?r) = registered l" "num_segments (snd ?r) = num_segments l" by (simp_all add: info_loop_frame)
  have st: "info_segment ix idx i (cl, l) = Inr (if h_status (seg_header l i) \<noteq> StatusAvailable then ?r else (cl, l))"
    using Cons.prems by (simp add: info_segment_def GetSegment_def)
  show ?case using Cons.IH [of "snd ?r" "fst ?r"] Cons.IH [of l cl] Cons.prems fr by (simp add: st)
qed simp

lemma cleaner_RecoveryInfo_ok:
  assumes "\<forall>i < num_segments (db_log db). registered (db_log db) i"
  shows "\<exists>cl' db'. cleaner_RecoveryInfo ix cl db = Inr (cl', db') \<and> db_index db' = db_index db \<and>
    (\<forall>i < num_segments (db_log db'). registered (db_log db') i)"
proof -
  have "\<forall>i \<in> set (segment_numbers (cleaner_id cl) (db_log db)). registered (db_log db) i" using assms by (simp add: segment_numbers_def)
  from info_segments_ok [OF this, of ix "db_index db" cl] show ?thesis using assms by (auto simp: cleaner_RecoveryInfo_def)
qed

lemma RecoverySegments_ok:
  assumes o: "in_order {num_segments l - 1} f l" and cl: "reserved_segment cl = Some (num_segments l - 1)" "backup_segment cl = None"
  shows "\<exists>cls l'. log_RecoverySegments now [cl] l = Inr (cls, l') \<and> (\<forall>c \<in> set cls. cleaner_id c = 0) \<and>
    (\<forall>i < num_segments l'. registered l' i) \<and> num_cleaners l' = 1"
proof -
  define l0 where "l0 = forget_log now [cl] l"
  note fl = forget_log_one [OF cl, of now l, folded l0_def]
  have o2: "in_order {} f (FreezeSegment now (Some (num_segments l - 1)) l)" using in_order_close(1) [OF o, of "num_segments l - 1" now] by simp
  have n2: "num_segments (FreezeSegment now (Some r) l) = num_segments l" "pool_start (FreezeSegment now (Some r) l) = pool_start l" for r
    by (simp_all add: FreezeSegment_def AddClosedSegment_def Let_def on_seg_Close)
  have st: "\<forall>i < num_segments l0. h_status (seg_header l0 i) = StatusAvailable \<or> h_status (seg_header l0 i) = StatusClosed"
    using o2 unfolding in_order_def n2 by (auto simp: seg_header_def seg_addr_def fl n2)
  have c: "num_cleaners l0 = 1" using o fl(4) by (simp add: in_order_def)
  obtain free l' where r: "foldM (reopen_segment 0) [0..<num_segments l0] ([], l0) = Inr (free, l')" "\<forall>i < num_segments l0. registered l' i"
      "num_segments l' = num_segments l0"
    using reopen_segments_ok [OF st order.refl refl refl refl, of 0 "[]"] by blast
  have "num_cleaners l' = 1"
  proof -
    have keep: "foldM (reopen_segment 0) is (fs, x) = Inr (free', y) \<Longrightarrow> num_cleaners y = num_cleaners x" for "is" fs x free' y
    proof (induction "is" arbitrary: fs x)
      case (Cons i "is")
      then obtain fs' x' where "reopen_segment 0 i (fs, x) = Inr (fs', x')" "num_cleaners y = num_cleaners x'"
        by (auto split: sum.splits)
      then show ?case by (auto simp: reopen_segment_def Let_def push_closed_def split: if_splits)
    qed simp
    show ?thesis using keep [OF r(1)] c by simp
  qed
  moreover have "log_RecoverySegments now [cl] l = Inr ([recovery_cleaner 1 0], publish_free free l')"
    using r(1) segment_numbers_one [OF c] c
    by (simp add: log_RecoverySegments_def recover_with_def cleaner_RecoverySegments_def recovery_cleaner_def Let_def l0_def)
  ultimately show ?thesis using r(2,3) by (auto simp: publish_free_eq recovery_cleaner_def)
qed

lemma RecoveryInfo_ok:
  assumes "\<forall>i < num_segments (db_log db). registered (db_log db) i"
  shows "\<exists>cls' db'. log_RecoveryInfo ix True cls db = Inr (cls', db') \<and> db_index db' = db_index db"
proof -
  let ?f = "\<lambda>cl (past, db). case cleaner_RecoveryInfo ix cl db of Inl e \<Rightarrow> Inl e | Inr (cl, db) \<Rightarrow> Inr (past @ [cl], db)"
  have "\<exists>cls' db'. foldM ?f cls (past, db) = Inr (cls', db') \<and> db_index db' = db_index db" for past
    using assms
  proof (induction cls arbitrary: past db)
    case (Cons cl cls)
    obtain cl' db' where c: "cleaner_RecoveryInfo ix cl db = Inr (cl', db')" "db_index db' = db_index db"
        "\<forall>i < num_segments (db_log db'). registered (db_log db') i" using cleaner_RecoveryInfo_ok [OF Cons.prems] by blast
    then show ?case using Cons.IH [OF c(3), of "past @ [cl']"] by simp
  qed simp
  then show ?thesis by (simp add: log_RecoveryInfo_def recover_with_def)
qed

text \<open>
  C34: opening an existing pool through the wrapper recovers nothing. The constructor of \<open>DB\<close> marks
  every segment available before recovery reads the headers, and starts with an empty index:
  whatever the pool held, recovery succeeds and every lookup fails, with a persistent index or not.
\<close>

theorem flatstore_reopen_loses:
  assumes "SEGMENT_SIZE \<le> sz" and "0 < start" and "start + sz \<le> 2 ^ 48" and "key_valid (index_key key)"
  shows "\<exists>cls db. flatstore_reopen idx_persistent junk now start sz pm = Inr (cls, db) \<and> worker_Get (cceh_ops key_hash) key db = None"
proof -
  let ?ix = "cceh_ops key_hash" and ?n = "sz div SEGMENT_SIZE"
  let ?cl = "cleaner_new 0 1 (?n - 1)"
  define db0 where "db0 = db_new 1 1 start sz pm"
  note o = log_new_in_order [OF assms(1-3), where pm = pm]
  have l: "db_log db0 = log_new 1 1 start sz pm" "db_index db0 = cceh_new 17" "cur_num_workers db0 = 0" by (simp_all add: db0_def db_new_def)
  note o' = o(1) [folded l(1)]
  have fresh: "cceh_inv key_hash (cceh_new 17)" "\<And>k. key_valid k \<Longrightarrow> ix_get ?ix k (cceh_new 17) = INVALID_VALUE"
    using cceh_new_inv cceh_new_get by (simp_all add: cceh_ops_sel)
  have cl: "reserved_segment ?cl = Some (num_segments (db_log db0) - 1)" "backup_segment ?cl = None"
    unfolding l o(3) by (simp_all add: cleaner_new_def)
  have none: "worker_Get ?ix key db = None" if "db_index db = cceh_new 17" for db
    using fresh(2) [OF assms(4)] by (simp add: worker_Get_def that)
  have eq: "flatstore_reopen idx_persistent junk now start sz pm =
      (if idx_persistent then (case DB_RecoverySegments now [?cl] db0 of Inl e \<Rightarrow> Inl e | Inr (cls, db) \<Rightarrow> DB_RecoveryInfo ?ix True cls db)
       else DB_RecoveryAll ?ix (cceh_new 17) junk now [?cl] db0)"
    by (simp only: flatstore_reopen_def Let_def db0_def)
  show ?thesis
  proof (cases idx_persistent)
    case False
    have "replayed ?ix key_valid (cceh_new 17) db0" using o(2) [folded l(1)] by (simp add: replayed_def l(2))
    from flat_index.order_recovery [OF cceh.flat_index_axioms o' this l(3) fresh _ cl, of junk now]
    obtain cls db where "DB_RecoveryAll ?ix (cceh_new 17) junk now [?cl] db0 = Inr (cls, db)" "worker_Get ?ix key db = worker_Get ?ix key db0"
      using assms(4) by (auto simp: l cceh_ok_def cceh_new_def)
    then show ?thesis unfolding eq using False none [OF l(2)] by auto
  next
    case True
    obtain cls l' where r: "log_RecoverySegments now [?cl] (db_log db0) = Inr (cls, l')" "\<forall>i < num_segments l'. registered l' i"
      using RecoverySegments_ok [OF o' cl, of now] by blast
    obtain cls' db' where i: "log_RecoveryInfo ?ix True cls (db0\<lparr>db_log := l'\<rparr>) = Inr (cls', db')" "db_index db' = cceh_new 17"
      using RecoveryInfo_ok [of "db0\<lparr>db_log := l'\<rparr>" ?ix cls] r(2) l(2) by auto
    show ?thesis unfolding eq using True r(1) i none l(3) by (auto simp: DB_RecoverySegments_def DB_RecoveryInfo_def)
  qed
qed

theorem flatstore_reopen_loses_witness:
  "\<exists>cls db. flatstore_reopen True (\<lambda>_. 0) 0 SEGMENT_SIZE (8 * SEGMENT_SIZE) demo_pool = Inr (cls, db) \<and>
     worker_Get (cceh_ops key_hash) [1, 0, 0, 0, 0, 0, 0, 0] db = None"
  by (rule flatstore_reopen_loses [OF demo_size])
    (simp add: index_key_def key_valid_def INVALID_KEY_def SENTINEL_def)

section \<open>One client, then recovery\<close>

definition solo_write :: "nat \<times> byte list \<times> byte list \<Rightarrow> bool" where
  "solo_write w = (case w of (t, k, v) \<Rightarrow> t = 0 \<and> 8 dvd length v)"

definition solo_store :: "cceh fs_store \<Rightarrow> bool" where
  "solo_store st \<longleftrightarrow> solo_log (log_head (fs_workers st 0)) (db_log (fs_db st)) \<and>
     replayed (cceh_ops key_hash) key_valid (cceh_new 17) (fs_db st) \<and> cur_num_workers (fs_db st) = 1"

lemma insert_all_Inl: "snd (insert_all (flatstore_api now) ws (Inl e)) = Inl e"
  by (induction ws) (auto simp: fs_api_def fs_insert_def Let_def split_beta)

lemma insert_all_solo:
  assumes "solo_store st" and "list_all write_ok ws" and "list_all solo_write ws"
    and "snd (insert_all (flatstore_api now) ws (Inr st)) = Inr st'"
  shows "solo_store st' \<and> num_segments (db_log (fs_db st')) = num_segments (db_log (fs_db st))"
  using assms
proof (induction ws arbitrary: st)
  case (Cons w ws)
  obtain k v where w: "w = (0, k, v)" "8 dvd length v" using Cons.prems(3) by (auto simp: solo_write_def)
  let ?p = "worker_Put (cceh_ops key_hash) (now st) k v (fs_workers st 0) (fs_db st)"
  have ins: "api_insert (flatstore_api now 0) k v (Inr st) = fs_insert (cceh_ops key_hash) now 0 k v (Inr st)" by (simp add: fs_api_def)
  show ?case
  proof (cases ?p)
    case (Inl e)
    then show ?thesis using Cons.prems(4) insert_all_Inl [of now ws e] by (simp add: w(1) ins fs_insert_def Let_def split_beta)
  next
    case (Inr r)
    obtain w' db' where r: "r = (w', db')" by (cases r)
    let ?st = "st\<lparr>fs_db := db', fs_workers := (fs_workers st)(0 := w')\<rparr>"
    have nxt: "snd (insert_all (flatstore_api now) ws (Inr ?st)) = Inr st'"
      using Cons.prems(4) by (simp add: w(1) ins fs_insert_def Inr r Let_def split_beta)
    have arg: "kv_arg_ok k v" "key_valid (index_key k)"
      using Cons.prems(2) by (auto simp: w(1) write_ok_def kv_arg_ok_def fs_key_ok_def fs_value_ok_def)
    have s0: "solo_log (log_head (fs_workers st 0)) (db_log (fs_db st))" "replayed (cceh_ops key_hash) key_valid (cceh_new 17) (fs_db st)"
      using Cons.prems(1) by (simp_all add: solo_store_def)
    note p = worker_Put_order [OF s0 arg(1) w(2) arg(2) Inr [unfolded r]]
    have "solo_store ?st" using p Cons.prems(1) by (simp add: solo_store_def)
    from Cons.IH [OF this _ _ nxt] show ?thesis using Cons.prems(2,3) p(4) by simp
  qed
qed simp

lemma solo_start:
  assumes "SEGMENT_SIZE \<le> sz" and "0 < start" and "start + sz \<le> 2 ^ 48"
  shows "solo_store (fs_open 1 (flatstore_new start sz pm))"
    and "num_segments (db_log (fs_db (fs_open 1 (flatstore_new start sz pm)))) = sz div SEGMENT_SIZE"
proof -
  let ?db = "flatstore_new start sz pm"
  note o = fs_open_fields [of 1 ?db]
  have i: "db_index ?db = cceh_new 17" and l: "db_log ?db = log_new 1 1 start sz pm" and c: "cur_num_workers ?db = 0"
    by (simp_all add: flatstore_new_def db_new_def)
  note n = log_new_in_order [OF assms, where pm = pm, folded l]
  have w: "cur_num_workers (fs_db (fs_open 1 ?db)) = 1" using c by (simp add: fs_open_def get_client_def worker_new_def)
  have "solo_log None (db_log ?db)" unfolding solo_log_def using n(1) by (intro exI [of _ 0]) simp
  moreover have "replayed (cceh_ops key_hash) key_valid (cceh_new 17) (fs_db (fs_open 1 ?db))"
    using o n(2) i by (simp add: replayed_def)
  ultimately show "solo_store (fs_open 1 ?db)" using o w by (simp add: solo_store_def)
  show "num_segments (db_log (fs_db (fs_open 1 ?db))) = sz div SEGMENT_SIZE" using o n(3) by simp
qed

lemma filled_get:
  assumes "SEGMENT_SIZE \<le> sz" and "0 < start" and "start + sz \<le> 2 ^ 48" and "list_all write_ok ws" and "fs_key_ok key_valid k"
    and "snd (insert_all (flatstore_api now) ws (flatstore_start 1 start sz pm)) = Inr st" and "cceh_ok (db_index (fs_db st))"
  shows "worker_Get (cceh_ops key_hash) k (fs_db st) = map_after ws Map.empty k"
proof -
  note o = flatstore_open_ok [OF assms(1-3), where T = 1 and pm = pm]
  have ok: "fs_ok cceh_ok (snd (insert_all (flatstore_api now) ws (flatstore_start 1 start sz pm)))" using assms(6,7) by (simp add: fs_ok_def)
  show ?thesis
    using cceh.fs.insert_all_find [OF o(1) write_ok_all [OF assms(4)] ok assms(5), of 0] assms(6)
    unfolding o(3) by (auto simp: fs_api_def fs_find_def split: option.splits)
qed

text \<open>
  C10: recovery restores a store that one client filled. As long as no segment was cleaned and the values
  are multiples of eight bytes long, after any writes that reported no failure, when the client is
  gone, \<open>RecoveryAll\<close> on the pool succeeds and every lookup gives the last value written, from the
  bytes of the log alone.
\<close>

theorem flatstore_recovery_roundtrip:
  assumes "SEGMENT_SIZE \<le> sz" and "0 < start" and "start + sz \<le> 2 ^ 48"
    and "list_all write_ok ws" and "list_all solo_write ws" and "fs_key_ok key_valid k"
    and "snd (insert_all (flatstore_api now) ws (flatstore_start 1 start sz pm)) = Inr st" and "cceh_ok (db_index (fs_db st))"
  shows "\<exists>cls db. DB_RecoveryAll (cceh_ops key_hash) (cceh_new 17) junk t2 [cleaner_new 0 1 (sz div SEGMENT_SIZE - 1)]
      (worker_delete t1 (fs_workers st 0) (fs_db st)) = Inr (cls, db) \<and>
    worker_Get (cceh_ops key_hash) k db = map_after ws Map.empty k"
proof -
  let ?ix = "cceh_ops key_hash" and ?cl = "cleaner_new 0 1 (sz div SEGMENT_SIZE - 1)"
  note s0 = solo_start [OF assms(1-3), of pm]
  have s: "solo_store st" "num_segments (db_log (fs_db st)) = sz div SEGMENT_SIZE"
    using insert_all_solo [OF s0(1) assms(4,5,7)] s0(2) by auto
  have fresh: "cceh_inv key_hash (cceh_new 17)" "\<And>k. key_valid k \<Longrightarrow> ix_get ?ix k (cceh_new 17) = INVALID_VALUE"
    using cceh_new_inv cceh_new_get by (simp_all add: cceh_ops_sel)
  have cl: "reserved_segment ?cl = Some (num_segments (db_log (fs_db st)) - 1)" "backup_segment ?cl = None"
    unfolding s(2) by (simp_all add: cleaner_new_def)
  have kv: "key_valid (index_key k)" using assms(6) by (simp add: fs_key_ok_def)
  have solo: "solo_log (log_head (fs_workers st 0)) (db_log (fs_db st))" "replayed ?ix key_valid (cceh_new 17) (fs_db st)"
    "cur_num_workers (fs_db st) = 1" using s(1) by (simp_all add: solo_store_def)
  obtain cls db where r: "DB_RecoveryAll ?ix (cceh_new 17) junk t2 [?cl] (worker_delete t1 (fs_workers st 0) (fs_db st)) = Inr (cls, db)"
      "worker_Get ?ix k db = worker_Get ?ix k (fs_db st)"
    using flat_index.solo_recovery [OF cceh.flat_index_axioms solo fresh assms(8) cl] kv by blast
  show ?thesis using r filled_get [OF assms(1-4,6-8)] by auto
qed

text \<open>Three writes of one client with values of eight bytes.\<close>

definition solo_writes :: "(nat \<times> byte list \<times> byte list) list" where
  "solo_writes = [(0, [1, 0, 0, 0, 0, 0, 0, 0], [10, 0, 0, 0, 0, 0, 0, 0]), (0, [2, 0, 0, 0, 0, 0, 0, 0], [20, 0, 0, 0, 0, 0, 0, 0]),
     (0, [1, 0, 0, 0, 0, 0, 0, 0], [30, 0, 0, 0, 0, 0, 0, 0])]"

lemma solo_writes_ok: "list_all write_ok solo_writes" "list_all solo_write solo_writes"
  subgoal by (simp add: solo_writes_def write_ok_def fs_key_ok_def fs_value_ok_def index_key_def key_valid_def INVALID_KEY_def SENTINEL_def)
  subgoal by (simp add: solo_writes_def solo_write_def numeral_eq_Suc)
  done

lemma solo_writes_accepted:
  "\<exists>st. snd (insert_all (flatstore_api (\<lambda>_. 0)) solo_writes (flatstore_start 1 SEGMENT_SIZE (8 * SEGMENT_SIZE) demo_pool)) = Inr st \<and>
     cceh_ok (db_index (fs_db st))"
proof -
  note o = flatstore_open_ok [OF demo_size, where T = 1 and pm = demo_pool]
  have n: "min 32 (8 * SEGMENT_SIZE div SEGMENT_SIZE - 1) = length solo_writes + 4" by (simp add: solo_writes_def SEGMENT_SIZE_def)
  have "fs_ok cceh_ok (snd (insert_all (flatstore_api (\<lambda>_. 0)) solo_writes (flatstore_start 1 SEGMENT_SIZE (8 * SEGMENT_SIZE) demo_pool)))"
    by (rule cceh.fs.insert_all_room [OF o(1,2) write_ok_all [OF solo_writes_ok(1)] o(4) [unfolded n]])
  then show ?thesis by (auto simp: fs_ok_def split: sum.splits)
qed

theorem flatstore_recovery_roundtrip_witness:
  "\<exists>st cls db. snd (insert_all (flatstore_api (\<lambda>_. 0)) solo_writes (flatstore_start 1 SEGMENT_SIZE (8 * SEGMENT_SIZE) demo_pool)) = Inr st \<and>
     DB_RecoveryAll (cceh_ops key_hash) (cceh_new 17) (\<lambda>_. 0) 7 [cleaner_new 0 1 (8 * SEGMENT_SIZE div SEGMENT_SIZE - 1)]
       (worker_delete 5 (fs_workers st 0) (fs_db st)) = Inr (cls, db) \<and>
     worker_Get (cceh_ops key_hash) [1, 0, 0, 0, 0, 0, 0, 0] db = Some [30, 0, 0, 0, 0, 0, 0, 0]"
proof -
  obtain st where st: "snd (insert_all (flatstore_api (\<lambda>_. 0)) solo_writes (flatstore_start 1 SEGMENT_SIZE (8 * SEGMENT_SIZE) demo_pool)) = Inr st"
    "cceh_ok (db_index (fs_db st))" using solo_writes_accepted by blast
  have k: "fs_key_ok key_valid [1, 0, 0, 0, 0, 0, 0, 0]" using solo_writes_ok(1) by (simp add: solo_writes_def write_ok_def)
  have m: "map_after solo_writes Map.empty [1, 0, 0, 0, 0, 0, 0, 0] = Some [30, 0, 0, 0, 0, 0, 0, 0]" by (simp add: solo_writes_def)
  from flatstore_recovery_roundtrip [OF demo_size solo_writes_ok k st, of "\<lambda>_. 0" 7 5] show ?thesis
    unfolding m using st(1) by blast
qed

section \<open>What recovery finds in general\<close>



end
