(* ===== verification/Index_Arena.thy ===== *)
theory Index_Arena
  imports Prelude
begin

text \<open>
  The allocator of the volatile index (\<open>MMAPAllocator\<close> in \<^verbatim>\<open>util/index_arena.h\<close>): a mapped pool cut from the
  front at cache line boundaries, with a queue of freed blocks per size. The address of the mapping
  is chosen by the operating system and is an argument. Running out of the pool, and freeing a null
  pointer, end the process; both are \<open>None\<close> here.
\<close>

section \<open>State and operations\<close>

definition CACHE_LINE_SIZE :: nat where "CACHE_LINE_SIZE = 64"

text \<open>
  \<open>reserved_space\<close> holds the freed blocks of all queues in the order of the calls; the queue of a
  size is the sublist of that size.
\<close>

record arena =
  idx_start_addr :: nat
  idx_pool_size :: nat
  cur_alloc_addr :: nat
  allocated_space :: nat
  freed_space :: nat
  reserved_space :: "(nat \<times> nat) list"

definition pool_end_addr :: "arena \<Rightarrow> nat" where
  "pool_end_addr a = idx_start_addr a + idx_pool_size a"

text \<open>\<open>Initialize\<close> drops the old mapping; the two counters keep their values.\<close>

definition Initialize :: "nat \<Rightarrow> arena \<Rightarrow> arena" where
  "Initialize addr a = a\<lparr>reserved_space := [], idx_start_addr := addr, cur_alloc_addr := addr\<rparr>"

definition arena_new :: "nat \<Rightarrow> nat \<Rightarrow> arena" where
  "arena_new addr sz =
     Initialize addr \<lparr>idx_start_addr = 0, idx_pool_size = sz, cur_alloc_addr = 0, allocated_space = 0,
       freed_space = 0, reserved_space = []\<rparr>"

definition align_line :: "nat \<Rightarrow> nat" where
  "align_line a = (a + CACHE_LINE_SIZE - 1) div CACHE_LINE_SIZE * CACHE_LINE_SIZE"

definition Alloc :: "nat \<Rightarrow> arena \<Rightarrow> (nat \<times> arena) option" where
  "Alloc sz a =
     (let a = a\<lparr>allocated_space := allocated_space a + sz\<rparr> in
      case List.find (\<lambda>(p, n). n = sz) (reserved_space a) of
        Some b \<Rightarrow> Some (fst b, a\<lparr>reserved_space := remove1 b (reserved_space a)\<rparr>)
      | None \<Rightarrow>
          let p = align_line (cur_alloc_addr a); a = a\<lparr>cur_alloc_addr := p + sz\<rparr> in
          if cur_alloc_addr a > pool_end_addr a then None else Some (p, a))"

definition Free :: "nat \<Rightarrow> nat \<Rightarrow> arena \<Rightarrow> arena option" where
  "Free p sz a =
     (if p = 0 then None
      else Some (a\<lparr>reserved_space := reserved_space a @ [(p, sz)], freed_space := freed_space a + sz\<rparr>))"

definition ToPoolOffset :: "nat \<Rightarrow> arena \<Rightarrow> nat" where
  "ToPoolOffset addr a = addr - idx_start_addr a"

definition ToDirectPointer :: "nat \<Rightarrow> arena \<Rightarrow> nat" where
  "ToDirectPointer off a = idx_start_addr a + off"

section \<open>Blocks in use\<close>

text \<open>How many of the blocks \<open>(address, size)\<close> contain the address.\<close>

definition occupancy :: "nat \<Rightarrow> (nat \<times> nat) list \<Rightarrow> nat" where
  "occupancy x bs = length (filter (\<lambda>(p, n). p \<le> x \<and> x < p + n) bs)"

lemma occupancy_simps [simp]:
  "occupancy x [] = 0"
  "occupancy x (b # bs) = (if fst b \<le> x \<and> x < fst b + snd b then 1 else 0) + occupancy x bs"
  "occupancy x (bs @ cs) = occupancy x bs + occupancy x cs"
  by (simp_all add: occupancy_def split_beta)

lemma occupancy_remove1: "b \<in> set bs \<Longrightarrow> occupancy x bs = occupancy x [b] + occupancy x (remove1 b bs)"
  by (induction bs) auto

text \<open>No address is in two blocks; all blocks lie between two addresses.\<close>

definition apart :: "(nat \<times> nat) list \<Rightarrow> bool" where
  "apart bs \<longleftrightarrow> (\<forall>x. occupancy x bs \<le> 1)"

definition blocks_in :: "nat \<Rightarrow> nat \<Rightarrow> (nat \<times> nat) list \<Rightarrow> bool" where
  "blocks_in lo hi bs \<longleftrightarrow> (\<forall>b \<in> set bs. lo \<le> fst b \<and> fst b + snd b \<le> hi)"

lemma blocks_in_simps [simp]:
  "blocks_in lo hi []" "blocks_in lo hi (b # bs) \<longleftrightarrow> lo \<le> fst b \<and> fst b + snd b \<le> hi \<and> blocks_in lo hi bs"
  "blocks_in lo hi (bs @ cs) \<longleftrightarrow> blocks_in lo hi bs \<and> blocks_in lo hi cs"
  by (auto simp: blocks_in_def)

lemma blocks_in_remove1: "blocks_in lo hi bs \<Longrightarrow> blocks_in lo hi (remove1 b bs)"
  using set_remove1_subset [of b bs] by (auto simp: blocks_in_def)

lemma blocks_in_mono: "blocks_in lo hi bs \<Longrightarrow> hi \<le> hi' \<Longrightarrow> blocks_in lo hi' bs"
  by (auto simp: blocks_in_def)

lemma occupancy_above: "blocks_in lo x bs \<Longrightarrow> occupancy x bs = 0"
  by (induction bs) auto

lemma occupancy_inside: "blocks_in lo hi bs \<Longrightarrow> 0 < occupancy x bs \<Longrightarrow> lo \<le> x \<and> x < hi"
  by (induction bs) (auto split: if_splits)

lemma align_line_ge: "a \<le> align_line a"
proof -
  have "a + 63 = (a + 63) div 64 * 64 + (a + 63) mod 64" by simp
  moreover have "(a + 63) mod 64 < 64" by simp
  ultimately have "a \<le> (a + 63) div 64 * 64" by linarith
  then show ?thesis by (simp add: align_line_def CACHE_LINE_SIZE_def)
qed

lemma align_line_aligned: "64 dvd a \<Longrightarrow> align_line a = a"
  by (auto simp: align_line_def CACHE_LINE_SIZE_def elim!: dvdE)

text \<open>A client frees only blocks it holds, with their size.\<close>

inductive arena_step :: "arena \<times> (nat \<times> nat) list \<Rightarrow> arena \<times> (nat \<times> nat) list \<Rightarrow> bool" where
  alloc: "Alloc sz a = Some (p, a') \<Longrightarrow> arena_step (a, bs) (a', (p, sz) # bs)"
| free: "(p, sz) \<in> set bs \<Longrightarrow> Free p sz a = Some a' \<Longrightarrow> arena_step (a, bs) (a', remove1 (p, sz) bs)"

definition arena_inv :: "nat \<Rightarrow> nat \<Rightarrow> arena \<times> (nat \<times> nat) list \<Rightarrow> bool" where
  "arena_inv start sz st \<longleftrightarrow>
     (let (a, bs) = st in
      idx_start_addr a = start \<and> idx_pool_size a = sz \<and> cur_alloc_addr a \<le> start + sz \<and>
      start \<le> cur_alloc_addr a \<and> blocks_in start (cur_alloc_addr a) (bs @ reserved_space a) \<and>
      apart (bs @ reserved_space a))"

lemma Alloc_inv:
  assumes "arena_inv start sz (a, bs)" and "Alloc n a = Some (p, a')"
  shows "arena_inv start sz (a', (p, n) # bs)"
proof (cases "List.find (\<lambda>(p, m). m = n) (reserved_space a)")
  case None
  let ?p = "align_line (cur_alloc_addr a)"
  have r: "p = ?p" "idx_start_addr a' = start" "idx_pool_size a' = sz" "cur_alloc_addr a' = ?p + n"
      "reserved_space a' = reserved_space a" "?p + n \<le> start + sz"
    using assms None by (auto simp: Alloc_def Let_def pool_end_addr_def arena_inv_def split: if_splits)
  have old: "blocks_in start (cur_alloc_addr a) (bs @ reserved_space a)" "start \<le> cur_alloc_addr a"
      "\<And>x. occupancy x (bs @ reserved_space a) \<le> 1"
    using assms(1) by (simp_all add: arena_inv_def apart_def)
  have le: "cur_alloc_addr a \<le> ?p" by (rule align_line_ge)
  have occ: "occupancy x ((p, n) # bs @ reserved_space a) \<le> 1" for x
  proof (cases "?p \<le> x")
    case True
    then show ?thesis using occupancy_above [OF blocks_in_mono [OF old(1)], of x] le by simp
  qed (use old(3) [of x] r(1) in simp)
  have "blocks_in start (?p + n) (bs @ reserved_space a)" using blocks_in_mono [OF old(1)] le by simp
  moreover have "apart (((p, n) # bs) @ reserved_space a)" using occ by (simp only: apart_def append_Cons) simp
  ultimately show ?thesis using r old(2) le by (simp add: arena_inv_def)
next
  case (Some b)
  then have b: "b \<in> set (reserved_space a)" "snd b = n" by (auto simp: find_Some_iff split_beta)
  have o: "occupancy x (reserved_space a) = occupancy x [b] + occupancy x (remove1 b (reserved_space a))" for x
    using b(1) by (rule occupancy_remove1)
  have r: "p = fst b" "a' = a\<lparr>allocated_space := allocated_space a + n, reserved_space := remove1 b (reserved_space a)\<rparr>"
    using assms(2) Some by (simp_all add: Alloc_def)
  have i: "occupancy x bs + occupancy x (reserved_space a) \<le> 1" for x using assms(1) by (simp add: arena_inv_def apart_def)
  have "occupancy x (((p, n) # bs) @ remove1 b (reserved_space a)) \<le> 1" for x
    using i [of x] o [of x] b(2) r(1) by (simp split: if_splits)
  then have "apart (((p, n) # bs) @ remove1 b (reserved_space a))" by (simp only: apart_def) simp
  moreover have "blocks_in start (cur_alloc_addr a) [b]" using assms(1) b(1) by (auto simp: arena_inv_def blocks_in_def)
  ultimately show ?thesis using assms(1) b r by (simp add: arena_inv_def blocks_in_remove1)
qed

lemma Free_inv:
  assumes "arena_inv start sz (a, bs)" and "Free p n a = Some a'" and "(p, n) \<in> set bs"
  shows "arena_inv start sz (a', remove1 (p, n) bs)"
proof -
  have o: "occupancy x bs = occupancy x [(p, n)] + occupancy x (remove1 (p, n) bs)" for x
    using assms(3) by (rule occupancy_remove1)
  have r: "a' = a\<lparr>reserved_space := reserved_space a @ [(p, n)], freed_space := freed_space a + n\<rparr>"
    using assms(2) by (simp add: Free_def split: if_splits)
  have i: "occupancy x bs + occupancy x (reserved_space a) \<le> 1" for x using assms(1) by (simp add: arena_inv_def apart_def)
  have "occupancy x (remove1 (p, n) bs @ reserved_space a @ [(p, n)]) \<le> 1" for x
    using i [of x] o [of x] by (simp split: if_splits)
  then have "apart (remove1 (p, n) bs @ reserved_space a @ [(p, n)])" by (simp only: apart_def) simp
  moreover have "blocks_in start (cur_alloc_addr a) [(p, n)]"
    using assms(1) bspec [OF _ assms(3), of "\<lambda>b. start \<le> fst b \<and> fst b + snd b \<le> cur_alloc_addr a"]
    by (simp add: arena_inv_def blocks_in_def)
  ultimately show ?thesis using assms(1) r by (simp add: arena_inv_def blocks_in_remove1)
qed

lemma arena_steps_inv:
  "arena_step\<^sup>*\<^sup>* st st' \<Longrightarrow> arena_inv start sz st \<Longrightarrow> arena_inv start sz st'"
proof (induction rule: rtranclp_induct)
  case (step st' st'')
  then show ?case by (auto elim!: arena_step.cases intro: Alloc_inv Free_inv)
qed

text \<open>
  C25: whatever sequence of allocations and releases a client makes, no address of the pool belongs to
  two blocks the client holds, and every block lies inside the mapped pool.
\<close>

theorem arena_blocks_disjoint:
  assumes "arena_step\<^sup>*\<^sup>* (arena_new start sz, []) (a, bs)"
  shows "occupancy x bs \<le> 1 \<and> (0 < occupancy x bs \<longrightarrow> start \<le> x \<and> x < start + sz)"
proof -
  have "arena_inv start sz (arena_new start sz, [])" by (simp add: arena_inv_def apart_def arena_new_def Initialize_def)
  then have inv: "arena_inv start sz (a, bs)" by (rule arena_steps_inv [OF assms])
  then have b: "blocks_in start (start + sz) bs" by (auto simp: arena_inv_def intro: blocks_in_mono)
  have "occupancy x bs + occupancy x (reserved_space a) \<le> 1" using inv by (simp add: arena_inv_def apart_def)
  then show ?thesis using occupancy_inside [OF b] by simp
qed

theorem arena_blocks_disjoint_witness:
  "\<exists>a. arena_step\<^sup>*\<^sup>* (arena_new 4096 4096, []) (a, [(4160, 60), (4096, 20)]) \<and>
     occupancy 4110 [(4160, 60), (4096, 20)] \<le> 1 \<and> occupancy 4180 [(4160, 60), (4096, 20)] = 1"
proof -
  obtain a1 where a1: "Alloc 20 (arena_new 4096 4096) = Some (4096, a1)" "cur_alloc_addr a1 = 4116"
      "idx_start_addr a1 = 4096" "idx_pool_size a1 = 4096" "reserved_space a1 = []"
    by (simp add: Alloc_def arena_new_def Initialize_def align_line_def CACHE_LINE_SIZE_def pool_end_addr_def)
  obtain a2 where a2: "Alloc 60 a1 = Some (4160, a2)"
    using a1 by (simp add: Alloc_def align_line_def CACHE_LINE_SIZE_def pool_end_addr_def Let_def)
  have r: "arena_step\<^sup>*\<^sup>* (arena_new 4096 4096, []) (a2, [(4160, 60), (4096, 20)])"
    using arena_step.alloc [OF a1(1)] arena_step.alloc [OF a2] by (metis converse_rtranclp_into_rtranclp rtranclp.rtrancl_refl)
  from arena_blocks_disjoint [OF r, of 4110] r show ?thesis by (auto simp: occupancy_def)
qed

end
