(* ===== verification/FF_Page.thy ===== *)
theory FF_Page
  imports Index_Arena
begin

unbundle bit_operations_syntax

text \<open>
  The pages of the FAST and FAIR B+-tree (\<^verbatim>\<open>db/index/FAST_FAIR/ff_btree.h\<close>): the header, the array of records
  ended by a null pointer, and the operations on one page. A record is a key and a pointer: a child
  page in an internal page, a log address in a leaf. Addresses are natural numbers, 0 is the null
  pointer. Calls are atomic here, so locks are granted at once, a switch counter read twice is the
  same twice, and cache line flushes have no effect.
\<close>

section \<open>State\<close>

definition LONG_MAX :: u64 where "LONG_MAX = 2 ^ 63 - 1"

definition cardinality :: nat where "cardinality = 29"

record page =
  leftmost_ptr :: nat
  sibling_ptr :: nat
  level :: nat
  switch_counter :: "8 word"
  is_deleted :: bool
  last_index :: int
  fence_key :: u64
  records :: "nat \<Rightarrow> u64 \<times> nat"

abbreviation rkey :: "page \<Rightarrow> nat \<Rightarrow> u64" where "rkey p i \<equiv> fst (records p i)"
abbreviation rptr :: "page \<Rightarrow> nat \<Rightarrow> nat" where "rptr p i \<equiv> snd (records p i)"

definition page_new :: "nat \<Rightarrow> page" where
  "page_new lvl = \<lparr>leftmost_ptr = 0, sibling_ptr = 0, level = lvl, switch_counter = 0, is_deleted = False,
     last_index = - 1, fence_key = 0, records = (\<lambda>_. (LONG_MAX, 0))\<rparr>"

text \<open>The constructor called when the tree grows.\<close>

definition page_grow :: "nat \<Rightarrow> u64 \<Rightarrow> nat \<Rightarrow> nat \<Rightarrow> page" where
  "page_grow left key right lvl =
     (page_new lvl)\<lparr>leftmost_ptr := left, records := (\<lambda>_. (LONG_MAX, 0))(0 := (key, right)), last_index := 0\<rparr>"

definition IS_FORWARD :: "8 word \<Rightarrow> bool" where
  "IS_FORWARD c \<longleftrightarrow> even c"

section \<open>Operations\<close>

text \<open>
  The first record from \<open>i\<close> on whose pointer is null. The array ends at \<open>cardinality\<close>; pages that
  satisfy \<open>page_has\<close> below have a null pointer before it.
\<close>

function first_null :: "page \<Rightarrow> nat \<Rightarrow> nat" where
  "first_null p i = (if i < cardinality \<and> rptr p i \<noteq> 0 then first_null p (i + 1) else i)"
  by pat_completeness auto
termination by (relation "measure (\<lambda>(p, i). cardinality - i)") auto

declare first_null.simps [simp del]

fun last_null :: "page \<Rightarrow> nat \<Rightarrow> nat" where
  "last_null p 0 = (if rptr p 0 \<noteq> 0 then first_null p 0 else 0)"
| "last_null p (Suc i) = (if rptr p (Suc i) \<noteq> 0 then last_null p i else Suc i)"

definition count :: "page \<Rightarrow> nat" where
  "count p =
     (let c = nat (last_index p + 1) in if IS_FORWARD (switch_counter p) then first_null p c else last_null p c)"

text \<open>
  Removal of the first record with the key, moving the others down; \<open>shift\<close> tells that it was found.
\<close>

function remove_loop :: "nat \<Rightarrow> u64 \<Rightarrow> nat \<Rightarrow> bool \<Rightarrow> (nat \<Rightarrow> u64 \<times> nat) \<Rightarrow> bool \<times> (nat \<Rightarrow> u64 \<times> nat)" where
  "remove_loop left key i shift r =
     (if i < cardinality \<and> snd (r i) \<noteq> 0 then
        let hit = (\<not> shift \<and> fst (r i) = key);
            r = (if hit then r(i := (fst (r i), if i = 0 then left else snd (r (i - 1)))) else r);
            shift = (shift \<or> hit);
            r = (if shift then r(i := r (i + 1)) else r)
        in remove_loop left key (i + 1) shift r
      else (shift, r))"
  by pat_completeness auto
termination by (relation "measure (\<lambda>(_, _, i, _, _). cardinality - i)") auto

declare remove_loop.simps [simp del]

definition remove_key :: "u64 \<Rightarrow> page \<Rightarrow> bool \<times> page" where
  "remove_key key p =
     (let p = (if IS_FORWARD (switch_counter p) then p\<lparr>switch_counter := switch_counter p + 1\<rparr> else p);
          (shift, r) = remove_loop (leftmost_ptr p) key 0 False (records p)
      in (shift, p\<lparr>records := r, last_index := (if shift then last_index p - 1 else last_index p)\<rparr>))"

text \<open>
  The shifting loop of \<open>insert_key\<close> from the end: records with a larger key move up one place. The
  first result is the position of the new record.
\<close>

fun shift_insert :: "nat \<Rightarrow> u64 \<Rightarrow> nat \<Rightarrow> (nat \<Rightarrow> u64 \<times> nat) \<Rightarrow> nat \<times> (nat \<Rightarrow> u64 \<times> nat)" where
  "shift_insert 0 key ptr r = (0, r(0 := (key, ptr)))"
| "shift_insert (Suc i) key ptr r =
     (if key < fst (r i) then shift_insert i key ptr (r(Suc i := r i)) else (Suc i, r(Suc i := (key, ptr))))"

definition insert_key :: "u64 \<Rightarrow> nat \<Rightarrow> nat \<Rightarrow> page \<Rightarrow> nat \<times> page" where
  "insert_key key ptr num_entries p =
     (let p = (if \<not> IS_FORWARD (switch_counter p) then p\<lparr>switch_counter := switch_counter p + 1\<rparr> else p) in
      if num_entries = 0 then
        (0, p\<lparr>records := (records p)(0 := (key, ptr), 1 := (rkey p 1, 0)), last_index := int num_entries\<rparr>)
      else
        let r = (records p)(num_entries + 1 := (rkey p (num_entries + 1), rptr p num_entries));
            (pos, r) = shift_insert num_entries key ptr r
        in (pos, p\<lparr>records := r, last_index := int num_entries\<rparr>))"

text \<open>The search of a leaf for the pointer of a key, in the direction of the switch counter.\<close>

definition leaf_search :: "u64 \<Rightarrow> page \<Rightarrow> nat" where
  "leaf_search key p =
     (if IS_FORWARD (switch_counter p) then
        (if rkey p 0 = key \<and> rptr p 0 \<noteq> 0 then rptr p 0
         else case List.find (\<lambda>i. rkey p i = key \<and> rptr p (i - 1) \<noteq> rptr p i) [1..<first_null p 1] of
                Some i \<Rightarrow> rptr p i | None \<Rightarrow> 0)
      else
        (case List.find (\<lambda>i. rkey p i = key \<and> rptr p (i - 1) \<noteq> rptr p i \<and> rptr p i \<noteq> 0) (rev [1..<count p]) of
           Some i \<Rightarrow> rptr p i
         | None \<Rightarrow> if rkey p 0 = key \<and> rptr p 0 \<noteq> 0 then rptr p 0 else 0))"

text \<open>The search of an internal page for the child of a key.\<close>

definition internal_search :: "u64 \<Rightarrow> page \<Rightarrow> nat" where
  "internal_search key p =
     (if IS_FORWARD (switch_counter p) then
        (if key < rkey p 0 \<and> leftmost_ptr p \<noteq> rptr p 0 then leftmost_ptr p
         else let e = first_null p 1 in
           case List.find (\<lambda>i. key < rkey p i \<and> rptr p (i - 1) \<noteq> rptr p i) [1..<e] of
             Some i \<Rightarrow> rptr p (i - 1) | None \<Rightarrow> rptr p (e - 1))
      else
        (case List.find (\<lambda>i. rkey p i \<le> key \<and> (if i = 0 then leftmost_ptr p else rptr p (i - 1)) \<noteq> rptr p i)
                (rev [0..<count p]) of
           Some i \<Rightarrow> rptr p i | None \<Rightarrow> 0))"

text \<open>\<open>linear_search\<close>; the fence of the sibling is read from the heap of pages.\<close>

definition linear_search :: "(nat \<Rightarrow> page) \<Rightarrow> u64 \<Rightarrow> nat \<Rightarrow> nat" where
  "linear_search h key q =
     (let p = h q; t = sibling_ptr p in
      if leftmost_ptr p = 0 then
        (let ret = leaf_search key p in
         if ret \<noteq> 0 then ret else if t \<noteq> 0 \<and> fence_key (h t) \<le> key then t else 0)
      else
        (let ret = internal_search key p in
         if t \<noteq> 0 \<and> fence_key (h t) \<le> key then t else if ret \<noteq> 0 then ret else leftmost_ptr p))"

section \<open>What a page holds\<close>

text \<open>
  The array holds exactly the records \<open>es\<close>, in ascending order of keys, followed by a null pointer
  inside the array. The forward loops look at record 1 even when there is no record 0.
\<close>

definition page_has :: "page \<Rightarrow> (u64 \<times> nat) list \<Rightarrow> bool" where
  "page_has p es \<longleftrightarrow> length es < cardinality \<and> last_index p = int (length es) - 1 \<and>
     (\<forall>i < length es. records p i = es ! i \<and> snd (es ! i) \<noteq> 0) \<and> rptr p (length es) = 0 \<and>
     (es = [] \<longrightarrow> rptr p 1 = 0) \<and> sorted_wrt (<) (List.map fst es)"

definition entries :: "page \<Rightarrow> (u64 \<times> nat) list" where
  "entries p = List.map (records p) [0..<nat (last_index p + 1)]"

lemma page_has_entries: "page_has p es \<Longrightarrow> entries p = es"
  by (auto simp: page_has_def entries_def intro: nth_equalityI)

lemma page_has_first_null: "page_has p es \<Longrightarrow> i \<le> length es \<Longrightarrow> first_null p i = length es"
proof (induction "length es - i" arbitrary: i)
  case (Suc n)
  then show ?case by (subst first_null.simps) (auto simp: page_has_def)
qed (subst first_null.simps, auto simp: page_has_def)

lemma page_has_count: "page_has p es \<Longrightarrow> count p = length es"
proof -
  assume p: "page_has p es"
  then have "nat (last_index p + 1) = length es" and "last_null p (length es) = length es"
    by (simp add: page_has_def, cases "length es") (auto simp: page_has_def)
  then show ?thesis using page_has_first_null [OF p, of "length es"] by (simp add: count_def Let_def)
qed

lemma page_has_nth: "page_has p es \<Longrightarrow> i < length es \<Longrightarrow> records p i = es ! i \<and> snd (es ! i) \<noteq> 0"
  by (simp add: page_has_def)

lemma page_has_less: "page_has p es \<Longrightarrow> i < j \<Longrightarrow> j < length es \<Longrightarrow> fst (es ! i) < fst (es ! j)"
  by (auto simp: page_has_def sorted_wrt_iff_nth_less)

lemma page_has_distinct: "page_has p es \<Longrightarrow> distinct (List.map fst es)"
  by (simp add: page_has_def strict_sorted_iff)

lemma page_has_new: "page_has (page_new lvl) []"
  by (simp add: page_has_def page_new_def cardinality_def)

lemma page_has_grow: "right \<noteq> 0 \<Longrightarrow> page_has (page_grow left key right lvl) [(key, right)]"
  by (simp add: page_has_def page_grow_def page_new_def cardinality_def)

lemma page_has_first_null_1: "page_has p es \<Longrightarrow> first_null p 1 = max 1 (length es)"
  using page_has_first_null [of p es 1] by (cases es) (auto simp: page_has_def first_null.simps [of p "Suc 0"])

section \<open>Searching a page\<close>

lemma find_SomeD: "List.find P xs = Some x \<Longrightarrow> P x \<and> x \<in> set xs"
  by (induction xs) (auto split: if_splits)

lemma find_unique:
  assumes "i \<in> set xs" and "P i" and "\<And>j. j \<in> set xs \<Longrightarrow> P j \<Longrightarrow> j = i"
  shows "List.find P xs = Some i"
proof -
  obtain j where j: "List.find P xs = Some j" using assms(1,2) by (cases "List.find P xs") (auto simp: find_None_iff)
  then show ?thesis using find_SomeD [OF j] assms(3) [of j] by blast
qed

lemma find_upt_first: "List.find P [m..<n] = Some i \<Longrightarrow> m \<le> j \<Longrightarrow> j < i \<Longrightarrow> \<not> P j"
proof (induction "n - m" arbitrary: m)
  case (Suc d)
  from Suc.hyps(2) Suc.prems have "List.find P [Suc m..<n] = Some i" "\<not> P m" if "m \<noteq> i"
    using that by (auto simp: upt_rec [of m n] split: if_splits)
  then show ?case using Suc.hyps(1) [of "Suc m"] Suc.hyps(2) Suc.prems by (cases "j = m") auto
qed simp

lemma page_has_fst_inj: "page_has p es \<Longrightarrow> i < length es \<Longrightarrow> j < length es \<Longrightarrow> fst (es ! i) = fst (es ! j) \<Longrightarrow> i = j"
  using page_has_less [of p es i j] page_has_less [of p es j i] by (cases i j rule: linorder_cases) auto

lemma leaf_search_found:
  assumes p: "page_has p es" and d: "distinct (List.map snd es)" and i: "i < length es" "fst (es ! i) = key"
  shows "leaf_search key p = snd (es ! i)"
proof -
  have ne: "rptr p (i - 1) \<noteq> rptr p i" if "i \<noteq> 0"
    using that i(1) nth_eq_iff_index_eq [OF d, of "i - 1" i] page_has_nth [OF p, of i] page_has_nth [OF p, of "i - 1"] by simp
  have only: "j = i" if "j < length es" "rkey p j = key" for j
    using page_has_fst_inj [OF p that(1) i(1)] page_has_nth [OF p that(1)] that(2) i(2) by simp
  have ri: "records p i = es ! i" "snd (es ! i) \<noteq> 0" using page_has_nth [OF p i(1)] by auto
  let ?fw = "\<lambda>i. rkey p i = key \<and> rptr p (i - 1) \<noteq> rptr p i"
  let ?bw = "\<lambda>i. rkey p i = key \<and> rptr p (i - 1) \<noteq> rptr p i \<and> rptr p i \<noteq> 0"
  have e: "first_null p 1 = length es" using page_has_first_null_1 [OF p] i(1) by simp
  show ?thesis
  proof (cases "i = 0")
    case True
    have fw: "rkey p 0 = key" "rptr p 0 \<noteq> 0" "rptr p 0 = snd (es ! i)" using ri i(2) True by simp_all
    have "List.find ?bw (rev [1..<length es]) = None"
      unfolding find_None_iff using only True by fastforce
    then show ?thesis using fw page_has_count [OF p] unfolding leaf_search_def by simp
  next
    case False
    have z: "rkey p 0 \<noteq> key" using only [of 0] i(1) False by fastforce
    have P: "rkey p i = key" "rptr p i \<noteq> 0" using ri i by simp_all
    have f: "List.find ?fw [1..<length es] = Some i"
      by (rule find_unique, use i(1) False in simp, use P ne False in blast, rule only) auto
    have b: "List.find ?bw (rev [1..<length es]) = Some i"
      by (rule find_unique, use i(1) False in simp, use P ne False in blast, rule only) auto
    show ?thesis unfolding leaf_search_def e page_has_count [OF p] f b using z ri by simp
  qed
qed

lemma leaf_search_none:
  assumes p: "page_has p es" and k: "key \<notin> fst ` set es"
  shows "leaf_search key p = 0"
proof -
  have no: "rkey p j \<noteq> key" if "j < length es" for j
    using page_has_nth [OF p that] k nth_mem [OF that] by (metis image_eqI)
  have z: "\<not> (rkey p 0 = key \<and> rptr p 0 \<noteq> 0)" using no [of 0] p by (cases es) (auto simp: page_has_def)
  have e: "[1..<first_null p 1] = [1..<length es]" using page_has_first_null_1 [OF p] by (simp add: max_def)
  have f: "List.find (\<lambda>i. rkey p i = key \<and> rptr p (i - 1) \<noteq> rptr p i) [1..<length es] = None"
    unfolding find_None_iff using no by fastforce
  have b: "List.find (\<lambda>i. rkey p i = key \<and> rptr p (i - 1) \<noteq> rptr p i \<and> rptr p i \<noteq> 0) (rev [1..<length es]) = None"
    unfolding find_None_iff using no by fastforce
  show ?thesis unfolding leaf_search_def e page_has_count [OF p] f b using z by simp
qed

text \<open>The child found is the leftmost one, or one whose separating key is at most the key sought.\<close>

lemma internal_search_child:
  assumes p: "page_has p es" and ne: "es \<noteq> []" and d: "distinct (leftmost_ptr p # List.map snd es)"
  shows "internal_search key p \<in> {0, leftmost_ptr p} \<or>
    (\<exists>j < length es. internal_search key p = snd (es ! j) \<and> fst (es ! j) \<le> key)"
proof (cases "IS_FORWARD (switch_counter p)")
  case False
  let ?P = "\<lambda>i. rkey p i \<le> key \<and> (if i = 0 then leftmost_ptr p else rptr p (i - 1)) \<noteq> rptr p i"
  show ?thesis
  proof (cases "List.find ?P (rev [0..<length es])")
    case (Some i)
    from find_SomeD [OF this] have i: "i < length es" "rkey p i \<le> key" by simp_all
    then show ?thesis using Some False page_has_count [OF p] page_has_nth [OF p, of i]
      by (intro disjI2 exI [of _ i]) (simp add: internal_search_def)
  qed (use False page_has_count [OF p] in \<open>simp add: internal_search_def\<close>)
next
  case True
  let ?P = "\<lambda>i. key < rkey p i \<and> rptr p (i - 1) \<noteq> rptr p i"
  have e: "first_null p 1 = length es" using page_has_first_null_1 [OF p] ne by (cases es) auto
  have n0: "0 < length es" using ne by simp
  have l0: "leftmost_ptr p \<noteq> rptr p 0" using d page_has_nth [OF p n0] n0 nth_mem [OF n0] by force
  have step: "rptr p (i - 1) \<noteq> rptr p i" if "0 < i" "i < length es" for i
    using that d nth_eq_iff_index_eq [of "List.map snd es" "i - 1" i] page_has_nth [OF p, of i] page_has_nth [OF p, of "i - 1"]
    by simp
  show ?thesis
  proof (cases "key < rkey p 0")
    case c: True
    then show ?thesis using True l0 by (simp add: internal_search_def)
  next
    case c: False
    show ?thesis
    proof (cases "List.find ?P [1..<length es]")
      case None
      have "\<not> key < rkey p (length es - 1)"
      proof (cases "length es = 1")
        case False
        then have "length es - 1 \<in> set [1..<length es]" using n0 by (cases "length es") auto
        then have "\<not> ?P (length es - 1)" using None unfolding find_None_iff by blast
        then show ?thesis using step [of "length es - 1"] n0 False by auto
      qed (use c in simp)
      then show ?thesis using None True c e page_has_nth [OF p, of "length es - 1"] n0
        by (intro disjI2 exI [of _ "length es - 1"]) (simp add: internal_search_def leD)
    next
      case (Some i)
      from find_SomeD [OF this] have i: "1 \<le> i" "i < length es" by simp_all
      have "\<not> key < rkey p (i - 1)"
      proof (cases "i = 1")
        case False
        then show ?thesis using i find_upt_first [OF Some, of "i - 1"] step [of "i - 1"] by auto
      qed (use c in simp)
      then show ?thesis using Some True c e page_has_nth [OF p, of "i - 1"] i
        by (intro disjI2 exI [of _ "i - 1"]) (auto simp: internal_search_def not_less)
    qed
  qed
qed

section \<open>Changing a page\<close>

lemma shift_insert_result:
  assumes "shift_insert n key ptr r = (j, r')"
  shows "j \<le> n" and "\<And>i. j \<le> i \<Longrightarrow> i < n \<Longrightarrow> key < fst (r i)" and "0 < j \<Longrightarrow> fst (r (j - 1)) \<le> key"
    and "r' = (\<lambda>i. if i < j then r i else if i = j then (key, ptr) else if i \<le> n then r (i - 1) else r i)"
proof -
  have "j \<le> n \<and> (\<forall>i. j \<le> i \<and> i < n \<longrightarrow> key < fst (r i)) \<and> (0 < j \<longrightarrow> fst (r (j - 1)) \<le> key) \<and>
      r' = (\<lambda>i. if i < j then r i else if i = j then (key, ptr) else if i \<le> n then r (i - 1) else r i)"
    using assms
  proof (induction n arbitrary: r)
    case (Suc n)
    show ?case
    proof (cases "key < fst (r n)")
      case True
      let ?r = "r(Suc n := r n)"
      from True Suc.prems have "shift_insert n key ptr ?r = (j, r')" by simp
      from Suc.IH [OF this] have ih: "j \<le> n" "\<forall>i. j \<le> i \<and> i < n \<longrightarrow> key < fst (?r i)" "0 < j \<longrightarrow> fst (?r (j - 1)) \<le> key"
          "r' = (\<lambda>i. if i < j then ?r i else if i = j then (key, ptr) else if i \<le> n then ?r (i - 1) else ?r i)" by blast+
      have "r' i = (if i < j then r i else if i = j then (key, ptr) else if i \<le> Suc n then r (i - 1) else r i)" for i
        using ih(1) unfolding ih(4) by (cases "i = Suc n") auto
      moreover have "key < fst (r i)" if "j \<le> i" "i < Suc n" for i using ih(2) that True by (cases "i = n") auto
      moreover have "0 < j \<longrightarrow> fst (r (j - 1)) \<le> key" using ih(1,3) by (simp split: if_splits)
      ultimately show ?thesis using ih(1) by auto
    next
      case False
      then have "j = Suc n" "r' = r(Suc n := (key, ptr))" using Suc.prems by auto
      then show ?thesis using False by (auto simp: leI)
    qed
  qed auto
  then show "j \<le> n" "\<And>i. j \<le> i \<Longrightarrow> i < n \<Longrightarrow> key < fst (r i)" "0 < j \<Longrightarrow> fst (r (j - 1)) \<le> key"
    "r' = (\<lambda>i. if i < j then r i else if i = j then (key, ptr) else if i \<le> n then r (i - 1) else r i)" by blast+
qed

text \<open>The header fields that an operation on the records keeps.\<close>

definition same_header :: "page \<Rightarrow> page \<Rightarrow> bool" where
  "same_header p p' \<longleftrightarrow> leftmost_ptr p' = leftmost_ptr p \<and> sibling_ptr p' = sibling_ptr p \<and> level p' = level p \<and>
     is_deleted p' = is_deleted p \<and> fence_key p' = fence_key p"

lemma insert_key_has:
  assumes p: "page_has p es" and k: "key \<notin> fst ` set es" and ptr: "ptr \<noteq> 0" and n: "length es < cardinality - 1"
  obtains j where "j \<le> length es" "\<forall>e \<in> set (take j es). fst e < key" "\<forall>e \<in> set (drop j es). key < fst e"
    "page_has (snd (insert_key key ptr (length es) p)) (take j es @ (key, ptr) # drop j es)"
    "fst (insert_key key ptr (length es) p) = j"
    "same_header p (snd (insert_key key ptr (length es) p))" "IS_FORWARD (switch_counter (snd (insert_key key ptr (length es) p)))"
proof -
  let ?p = "snd (insert_key key ptr (length es) p)"
  have hd: "same_header p ?p" by (simp add: insert_key_def same_header_def Let_def split_beta)
  have fw: "IS_FORWARD (switch_counter ?p)" by (simp add: insert_key_def IS_FORWARD_def Let_def split_beta)
  have li: "last_index ?p = int (length es)" by (simp add: insert_key_def Let_def split_beta)
  show thesis
  proof (cases "es = []")
    case True
    have "page_has ?p [(key, ptr)]" "fst (insert_key key ptr (length es) p) = 0" using True ptr li
      by (simp_all add: page_has_def cardinality_def insert_key_def Let_def)
    then show ?thesis using that [of 0] hd fw True by simp
  next
    case False
    define n where "n = length es"
    define r where "r = (records p)(n + 1 := (rkey p (n + 1), rptr p n))"
    obtain j r' where s: "shift_insert n key ptr r = (j, r')" by (cases "shift_insert n key ptr r")
    note S = shift_insert_result [OF s]
    have res: "records ?p = r'" "fst (insert_key key ptr (length es) p) = j"
      using False s by (simp_all add: insert_key_def Let_def n_def r_def split_beta)
    have r: "r i = es ! i" if "i < n" for i using page_has_nth [OF p] that by (simp add: r_def n_def)
    have rn: "snd (r (n + 1)) = 0" using p by (simp add: r_def page_has_def n_def)
    have lt: "fst (es ! i) < key" if "i < j" for i
    proof -
      have "fst (es ! (j - 1)) \<le> key" using S(1,3) r [of "j - 1"] that by auto
      moreover have "fst (es ! i) \<le> fst (es ! (j - 1))"
        using page_has_less [OF p, of i "j - 1"] that S(1) by (cases "i = j - 1") (force simp: n_def)+
      moreover have "fst (es ! i) \<noteq> key" using k that S(1) by (metis image_eqI less_le_trans n_def nth_mem)
      ultimately show ?thesis by simp
    qed
    have gt: "key < fst (es ! i)" if "j \<le> i" "i < n" for i using S(2) [OF that] r [OF that(2)] by simp
    let ?es = "take j es @ (key, ptr) # drop j es"
    have len: "length ?es = n + 1" using S(1) by (simp add: n_def)
    have nth: "?es ! i = (if i < j then es ! i else if i = j then (key, ptr) else es ! (i - 1))" if "i < n + 1" for i
      using that S(1) by (auto simp: nth_append n_def nth_Cons' min_def)
    have recs: "r' i = ?es ! i" if "i < n + 1" for i
      using nth [OF that] that S(1) r unfolding S(4) by auto
    have lo: "\<forall>e \<in> set (take j es). fst e < key"
    proof
      fix e assume "e \<in> set (take j es)"
      then obtain i where "i < j" "e = es ! i" by (auto simp: in_set_conv_nth)
      then show "fst e < key" using lt by simp
    qed
    have hi: "\<forall>e \<in> set (drop j es). key < fst e"
    proof
      fix e assume "e \<in> set (drop j es)"
      then obtain i where "i < n - j" "e = es ! (j + i)" using S(1) by (auto simp: in_set_conv_nth n_def)
      then show "key < fst e" using gt [of "j + i"] by simp
    qed
    have sd: "sorted_wrt (<) (List.map fst (take j es @ drop j es))" using p by (simp add: page_has_def)
    have "sorted_wrt (<) (List.map fst ?es)"
      using sd lo hi unfolding map_append sorted_wrt_append by fastforce
    moreover have "rptr ?p (length ?es) = 0" using rn S(1) unfolding res len S(4) by simp
    moreover have "records ?p i = ?es ! i \<and> snd (?es ! i) \<noteq> 0" if "i < length ?es" for i
      using recs [of i] nth [of i] that ptr page_has_nth [OF p, of i] page_has_nth [OF p, of "i - 1"] S(1)
      unfolding res len by (auto simp: n_def)
    ultimately have "page_has ?p ?es"
      using li n len unfolding page_has_def by (simp add: n_def del: length_append)
    then show ?thesis using that [OF _ lo hi _ res(2) hd fw] S(1) by (simp add: n_def)
  qed
qed

lemma remove_loop_shift:
  assumes "i \<le> n" and "n < cardinality" and "\<And>x. i \<le> x \<Longrightarrow> x < n \<Longrightarrow> snd (r x) \<noteq> 0" and "snd (r n) = 0"
  shows "remove_loop left key i True r = (True, \<lambda>x. if i \<le> x \<and> x < n then r (x + 1) else r x)"
  using assms
proof (induction "n - i" arbitrary: i r)
  case 0
  then show ?case by (subst remove_loop.simps) (auto simp: fun_eq_iff)
next
  case (Suc d)
  let ?r = "r(i := r (i + 1))"
  have "remove_loop left key (i + 1) True ?r = (True, \<lambda>x. if i + 1 \<le> x \<and> x < n then ?r (x + 1) else ?r x)"
    using Suc.hyps(2) Suc.prems by (intro Suc.hyps(1)) auto
  moreover have "(\<lambda>x. if i + 1 \<le> x \<and> x < n then ?r (x + 1) else ?r x) = (\<lambda>x. if i \<le> x \<and> x < n then r (x + 1) else r x)"
  proof
    fix x show "(if i + 1 \<le> x \<and> x < n then ?r (x + 1) else ?r x) = (if i \<le> x \<and> x < n then r (x + 1) else r x)"
      using Suc.hyps(2) by (cases "x = i") auto
  qed
  moreover have "remove_loop left key i True r = remove_loop left key (i + 1) True ?r"
    using Suc.hyps(2) Suc.prems by (subst remove_loop.simps) (auto simp: Let_def)
  ultimately show ?case by (simp only:)
qed

lemma remove_loop_skip:
  assumes "i \<le> j" and "j < cardinality" and "\<And>x. i \<le> x \<Longrightarrow> x < j \<Longrightarrow> snd (r x) \<noteq> 0 \<and> fst (r x) \<noteq> key"
  shows "remove_loop left key i False r = remove_loop left key j False r"
  using assms
proof (induction "j - i" arbitrary: i)
  case (Suc d)
  then have "remove_loop left key i False r = remove_loop left key (i + 1) False r"
    by (subst remove_loop.simps) (auto simp: Let_def)
  then show ?case using Suc.hyps(1) [of "i + 1"] Suc.hyps(2) Suc.prems by auto
qed simp

lemma remove_key_has:
  assumes p: "page_has p (es @ (key, v) # fs)"
  shows "fst (remove_key key p)" and "page_has (snd (remove_key key p)) (es @ fs)"
    and "same_header p (snd (remove_key key p))"
proof -
  let ?n = "length es + length fs + 1" and ?j = "length es"
  let ?all = "es @ (key, v) # fs"
  define sw where "sw = (if IS_FORWARD (switch_counter p) then p\<lparr>switch_counter := switch_counter p + 1\<rparr> else p)"
  have n: "?n < cardinality" and nul: "snd (records p ?n) = 0" using p by (simp_all add: page_has_def)
  have nz: "records p x = ?all ! x" "snd (records p x) \<noteq> 0" if "x < ?n" for x using page_has_nth [OF p, of x] that by simp_all
  have before: "fst (records p x) \<noteq> key" if "x < ?j" for x
    using page_has_less [OF p, of x ?j] nz [of x] that by (simp add: nth_append)
  let ?r = "(records p)(?j := records p (?j + 1))"
  have "remove_loop left key 0 False (records p) = remove_loop left key ?j False (records p)" for left
    by (rule remove_loop_skip) (use n nz before in auto)
  moreover have "remove_loop left key ?j False (records p) = remove_loop left key (?j + 1) True ?r" for left
    using n nz(2) [of ?j] nz(1) [of ?j] by (subst remove_loop.simps) (simp add: Let_def nth_append)
  moreover have "remove_loop left key (?j + 1) True ?r = (True, \<lambda>x. if ?j + 1 \<le> x \<and> x < ?n then ?r (x + 1) else ?r x)" for left
    by (rule remove_loop_shift) (use n nz(2) nul in auto)
  ultimately have loop: "remove_loop left key 0 False (records p) =
      (True, \<lambda>x. if ?j + 1 \<le> x \<and> x < ?n then ?r (x + 1) else ?r x)" for left by simp
  have sw: "records sw = records p" "last_index sw = last_index p" "same_header p sw" by (simp_all add: sw_def same_header_def)
  have res: "remove_key key p = (True, sw\<lparr>records := \<lambda>x. if ?j + 1 \<le> x \<and> x < ?n then ?r (x + 1) else ?r x,
      last_index := last_index p - 1\<rparr>)"
    unfolding remove_key_def sw_def [symmetric] Let_def sw(1) loop using sw(2) by simp
  then show "fst (remove_key key p)" "same_header p (snd (remove_key key p))" using sw(3) by (simp_all add: same_header_def)
  have recs: "records (snd (remove_key key p)) x = (if x < ?j then records p x else if x < ?n then records p (x + 1) else records p x)" for x
    unfolding res by (cases "x = ?j") auto
  have "records (snd (remove_key key p)) x = (es @ fs) ! x \<and> snd ((es @ fs) ! x) \<noteq> 0" if "x < length (es @ fs)" for x
    using that nz [of x] nz [of "x + 1"] unfolding recs by (auto simp: nth_append nth_Cons' Suc_diff_le)
  moreover have "rptr (snd (remove_key key p)) (length (es @ fs)) = 0"
    using nul unfolding recs by simp
  moreover have "rptr (snd (remove_key key p)) 1 = 0" if "es @ fs = []" using that nul unfolding recs by simp
  moreover have "sorted_wrt (<) (List.map fst (es @ fs))" using p by (simp add: page_has_def sorted_wrt_append)
  moreover have "last_index (snd (remove_key key p)) = int (length (es @ fs)) - 1" using p by (simp add: res page_has_def)
  ultimately show "page_has (snd (remove_key key p)) (es @ fs)" using n by (simp add: page_has_def)
qed

lemma remove_key_absent:
  assumes p: "page_has p es" and k: "key \<notin> fst ` set es"
  shows "\<not> fst (remove_key key p)" and "page_has (snd (remove_key key p)) es" and "same_header p (snd (remove_key key p))"
proof -
  have n: "length es < cardinality" and nul: "snd (records p (length es)) = 0" using p by (simp_all add: page_has_def)
  have "fst (records p x) \<noteq> key" if "x < length es" for x
    using page_has_nth [OF p that] k nth_mem [OF that] by (metis image_eqI)
  then have "remove_loop left key 0 False (records p) = remove_loop left key (length es) False (records p)" for left
    by (intro remove_loop_skip) (use n page_has_nth [OF p] in auto)
  moreover have "remove_loop left key (length es) False (records p) = (False, records p)" for left
    using nul by (subst remove_loop.simps) simp
  ultimately have "remove_loop left key 0 False (records p) = (False, records p)" for left by simp
  then show "\<not> fst (remove_key key p)" "page_has (snd (remove_key key p)) es" "same_header p (snd (remove_key key p))"
    using p by (auto simp: remove_key_def Let_def page_has_def same_header_def)
qed

end
