(* ===== verification/FF_Tree.thy ===== *)
theory FF_Tree
  imports FF_Page Flat_Segment
begin

text \<open>
  The B+-tree of \<^verbatim>\<open>db/index/FAST_FAIR/ff_btree.h\<close> and \<^verbatim>\<open>ff_btree.cpp\<close>: pages on a heap, cut from the index
  allocator, every page linked to its right sibling. A search that finds its key beyond the fence of
  the sibling moves right. Loops that follow pointers are partial functions: a run that does not
  end is \<open>None\<close>, the end of the process for lack of index space is \<open>Inl No_index_space\<close>.
\<close>

section \<open>State\<close>

record btree =
  root :: nat
  height :: int
  pages :: "nat \<Rightarrow> page"
  index_arena :: arena

text \<open>The fields of \<open>LogEntryHelper\<close> that the tree reads or writes besides the new value.\<close>

record le_helper =
  old_val :: nat
  shortcut :: "nat \<times> nat"
  fast_path :: bool

datatype ff_error = No_index_space

definition sizeof_page :: nat where "sizeof_page = 512"

definition on_page :: "nat \<Rightarrow> page \<Rightarrow> btree \<Rightarrow> btree" where
  "on_page q p t = t\<lparr>pages := (pages t)(q := p)\<rparr>"

definition setNewRoot :: "nat \<Rightarrow> btree \<Rightarrow> btree" where
  "setNewRoot r t = t\<lparr>root := r, height := height t + 1\<rparr>"

text \<open>\<open>new page(\<dots>)\<close>\<close>

definition page_alloc :: "page \<Rightarrow> btree \<Rightarrow> (nat \<times> btree) option" where
  "page_alloc p t =
     (case Alloc sizeof_page (index_arena t) of
        None \<Rightarrow> None | Some (q, a) \<Rightarrow> Some (q, on_page q p (t\<lparr>index_arena := a\<rparr>)))"

definition btree_new :: "arena \<Rightarrow> (nat \<Rightarrow> page) \<Rightarrow> btree option" where
  "btree_new a h =
     (case page_alloc (page_new 0) \<lparr>root = 0, height = 1, pages = h, index_arena = a\<rparr> of
        None \<Rightarrow> None | Some (q, t) \<Rightarrow> Some (t\<lparr>root := q\<rparr>))"

section \<open>Descending\<close>

partial_function (option) descend :: "(nat \<Rightarrow> page) \<Rightarrow> (page \<Rightarrow> bool) \<Rightarrow> u64 \<Rightarrow> nat \<Rightarrow> nat option" where
  "descend h stop key q = (if stop (h q) then Some q else descend h stop key (linear_search h key q))"

abbreviation is_leaf :: "page \<Rightarrow> bool" where "is_leaf p \<equiv> leftmost_ptr p = 0"

text \<open>The loop over the leaves: the last page looked at, and what the search in it returned.\<close>

partial_function (option) search_leaves :: "(nat \<Rightarrow> page) \<Rightarrow> u64 \<Rightarrow> nat \<Rightarrow> (nat \<times> nat) option" where
  "search_leaves h key q =
     (let t = linear_search h key q in
      if t = sibling_ptr (h q) then (if t = 0 then Some (0, t) else search_leaves h key t) else Some (q, t))"

definition btree_search :: "u64 \<Rightarrow> btree \<Rightarrow> nat option" where
  "btree_search key t =
     Option.bind (descend (pages t) is_leaf key (root t)) (\<lambda>q. map_option snd (search_leaves (pages t) key q))"

section \<open>Inserting\<close>

definition set_ptr :: "nat \<Rightarrow> nat \<Rightarrow> page \<Rightarrow> page" where
  "set_ptr i ptr p = p\<lparr>records := (records p)(i := (rkey p i, ptr))\<rparr>"

text \<open>The update of an existing record in \<open>store\<close>, \<open>None\<close> when the page does not have the key.\<close>

definition update_at :: "nat \<Rightarrow> nat \<Rightarrow> nat \<Rightarrow> le_helper option \<Rightarrow> btree \<Rightarrow> le_helper option \<times> btree" where
  "update_at q i right le t =
     (let p = pages t q; old = rptr p i; t' = on_page q (set_ptr i right p) t in
      case le of
        None \<Rightarrow> (None, t')
      | Some h \<Rightarrow>
          let h = h\<lparr>shortcut := (q, i)\<rparr> in
          if old_val h \<noteq> INVALID_VALUE then
            (if old = old_val h then (Some h, t') else (Some (h\<lparr>old_val := right\<rparr>), t))
          else (Some (h\<lparr>old_val := old\<rparr>), t'))"

definition try_update :: "nat \<Rightarrow> u64 \<Rightarrow> nat \<Rightarrow> le_helper option \<Rightarrow> btree \<Rightarrow> (le_helper option \<times> btree) option" where
  "try_update q key right le t =
     (let p = pages t q in
      case List.find (\<lambda>i. key \<le> rkey p i) [0..<count p] of
        None \<Rightarrow> None
      | Some i \<Rightarrow> if rkey p i = key then Some (update_at q i right le t) else None)"

definition note_shortcut :: "nat \<Rightarrow> nat \<Rightarrow> le_helper option \<Rightarrow> le_helper option" where
  "note_shortcut q pos le = map_option (\<lambda>h. h\<lparr>shortcut := (q, pos)\<rparr>) le"

definition store_new :: "nat \<Rightarrow> u64 \<Rightarrow> nat \<Rightarrow> le_helper option \<Rightarrow> btree \<Rightarrow> le_helper option \<times> btree" where
  "store_new q key right le t =
     (let (pos, p) = insert_key key right (count (pages t q)) (pages t q)
      in (note_shortcut q pos le, on_page q p t))"

text \<open>The records that move to the new sibling when a page is full, the new sibling, and what is left.\<close>

definition migrate :: "page \<Rightarrow> nat list \<Rightarrow> page \<Rightarrow> nat \<times> page" where
  "migrate p is s = fold (\<lambda>i (c, s). (c + 1, snd (insert_key (rkey p i) (rptr p i) c s))) is (0, s)"

definition split_right :: "page \<Rightarrow> nat \<times> page" where
  "split_right p =
     (let n = count p; m = n div 2;
          (c, s) = (if is_leaf p then migrate p [m..<n] (page_new (level p))
                    else let (c, s) = migrate p [m + 1..<n] (page_new (level p)) in (c, s\<lparr>leftmost_ptr := rptr p m\<rparr>))
      in (c, s\<lparr>fence_key := rkey p m, sibling_ptr := sibling_ptr p\<rparr>))"

definition split_left :: "nat \<Rightarrow> page \<Rightarrow> page" where
  "split_left s p =
     (let m = count p div 2 in
      p\<lparr>sibling_ptr := s,
        switch_counter := (if IS_FORWARD (switch_counter p) then switch_counter p + 2 else switch_counter p + 1),
        records := (records p)(m := (rkey p m, 0)), last_index := int m - 1\<rparr>)"

text \<open>The overflow branch of \<open>store\<close> up to the update of the parent: the page returned, the split key, the sibling.\<close>

definition split_page ::
  "nat \<Rightarrow> u64 \<Rightarrow> nat \<Rightarrow> le_helper option \<Rightarrow> btree \<Rightarrow> (nat \<times> u64 \<times> nat \<times> le_helper option \<times> btree) option" where
  "split_page q key right le t =
     (let p = pages t q; m = count p div 2; split_key = rkey p m; (c, sp) = split_right p in
      case page_alloc sp t of
        None \<Rightarrow> None
      | Some (s, t) \<Rightarrow>
          let t = on_page q (split_left s p) t in
          if key < split_key then
            let (pos, p') = insert_key key right m (pages t q)
            in Some (q, split_key, s, note_shortcut q pos le, on_page q p' t)
          else
            let (pos, p') = insert_key key right c (pages t s)
            in Some (s, split_key, s, note_shortcut s pos le, on_page s p' t))"

text \<open>
  \<open>store\<close> and \<open>btree_insert_internal\<close> call each other: one partial function on the two kinds of calls.
  The result is the page returned (0 for a page that was deleted meanwhile, which makes the caller
  start again), the helper and the tree.
\<close>

datatype ff_call = Store nat u64 nat "le_helper option" | Insert_internal u64 nat nat

partial_function (option) ff_run ::
  "ff_call \<Rightarrow> btree \<Rightarrow> (ff_error + (nat \<times> le_helper option \<times> btree)) option" where
  "ff_run c t =
     (case c of
        Store q key right le \<Rightarrow>
          (let p = pages t q; sib = sibling_ptr p in
           if is_deleted p then Some (Inr (0, le, t))
           else if sib \<noteq> 0 \<and> fence_key (pages t sib) \<le> key then ff_run (Store sib key right le) t
           else
             (case try_update q key right le t of
                Some (le, t) \<Rightarrow> Some (Inr (q, le, t))
              | None \<Rightarrow>
                  if count p < cardinality - 1 then
                    (let (le, t) = store_new q key right le t in Some (Inr (q, le, t)))
                  else
                    (case split_page q key right le t of
                       None \<Rightarrow> Some (Inl No_index_space)
                     | Some (ret, split_key, s, le, t) \<Rightarrow>
                         if root t = q then
                           (case page_alloc (page_grow q split_key s (level p + 1)) t of
                              None \<Rightarrow> Some (Inl No_index_space)
                            | Some (r, t) \<Rightarrow> Some (Inr (ret, le, setNewRoot r t)))
                         else
                           Option.bind (ff_run (Insert_internal split_key s (level p + 1)) t)
                             (\<lambda>res. case res of Inl e \<Rightarrow> Some (Inl e) | Inr (_, _, t) \<Rightarrow> Some (Inr (ret, le, t))))))
      | Insert_internal key right lvl \<Rightarrow>
          if lvl > level (pages t (root t)) then Some (Inr (0, None, t))
          else
            Option.bind (descend (pages t) (\<lambda>p. level p \<le> lvl) key (root t))
              (\<lambda>q. Option.bind (ff_run (Store q key right None) t)
                 (\<lambda>res. case res of
                    Inl e \<Rightarrow> Some (Inl e)
                  | Inr (ret, _, t) \<Rightarrow>
                      if ret = 0 then ff_run (Insert_internal key right lvl) t else Some (Inr (ret, None, t)))))"

partial_function (option) btree_insert ::
  "u64 \<Rightarrow> nat \<Rightarrow> le_helper \<Rightarrow> btree \<Rightarrow> (ff_error + (le_helper option \<times> btree)) option" where
  "btree_insert key new_val le t =
     Option.bind (descend (pages t) is_leaf key (root t))
       (\<lambda>q. Option.bind (ff_run (Store q key new_val (Some le)) t)
          (\<lambda>res. case res of
             Inl e \<Rightarrow> Some (Inl e)
           | Inr (ret, le', t) \<Rightarrow>
               if ret = 0 then btree_insert key new_val (case le' of None \<Rightarrow> le | Some h \<Rightarrow> h) t
               else Some (Inr (le', t))))"

section \<open>Deleting\<close>

partial_function (option) btree_delete :: "u64 \<Rightarrow> btree \<Rightarrow> btree option" where
  "btree_delete key t =
     Option.bind (descend (pages t) is_leaf key (root t))
       (\<lambda>q. Option.bind (search_leaves (pages t) key q)
          (\<lambda>(q, _). if q = 0 then Some t
             else let (found, p) = remove_key key (pages t q); t = on_page q p t in
                  if found then Some t else btree_delete key t))"

section \<open>Scanning\<close>

text \<open>
  One page of \<open>linear_search_range\<close>. \<open>go_on k vec\<close> is the guard of the two variants (the key is below the
  upper end, or the vector is not full): when it fails for a key above \<open>lo\<close> the scan returns. The
  second component of the result tells that the scan goes on.
\<close>

fun range_loop :: "(u64 \<Rightarrow> nat list \<Rightarrow> bool) \<Rightarrow> u64 \<Rightarrow> page \<Rightarrow> nat list \<Rightarrow> nat list \<Rightarrow> nat list \<times> bool" where
  "range_loop go_on lo p [] vec = (vec, True)"
| "range_loop go_on lo p (i # is) vec =
     (if lo < rkey p i then
        if go_on (rkey p i) vec then
          range_loop go_on lo p is
            (if rptr p i \<noteq> (if i = 0 then 0 else rptr p (i - 1)) \<and> rptr p i \<noteq> 0 then vec @ [rptr p i] else vec)
        else (vec, False)
      else range_loop go_on lo p is vec)"

definition range_order :: "page \<Rightarrow> nat list" where
  "range_order p =
     (if IS_FORWARD (switch_counter p) then 0 # [1..<first_null p 1] else rev [1..<count p] @ [0])"

partial_function (option) linear_search_range ::
  "(u64 \<Rightarrow> nat list \<Rightarrow> bool) \<Rightarrow> (nat \<Rightarrow> page) \<Rightarrow> u64 \<Rightarrow> nat \<Rightarrow> nat list \<Rightarrow> nat list option" where
  "linear_search_range go_on h lo q vec =
     (if q = 0 then Some vec
      else let (vec, go) = range_loop go_on lo (h q) (range_order (h q)) vec in
           if go then linear_search_range go_on h lo (sibling_ptr (h q)) vec else Some vec)"

definition btree_search_range :: "u64 \<Rightarrow> nat \<Rightarrow> btree \<Rightarrow> nat list option" where
  "btree_search_range lo cnt t =
     Option.bind (descend (pages t) is_leaf lo (root t))
       (\<lambda>q. linear_search_range (\<lambda>k vec. length vec < cnt) (pages t) lo q [])"

text \<open>The variant with an upper end; it returns at the first key above \<open>lo\<close> that is not below \<open>hi\<close>.\<close>

definition linear_search_between :: "(nat \<Rightarrow> page) \<Rightarrow> u64 \<Rightarrow> u64 \<Rightarrow> nat \<Rightarrow> nat list option" where
  "linear_search_between h lo hi q = linear_search_range (\<lambda>k vec. k < hi) h lo q []"

definition btree_search_between :: "u64 \<Rightarrow> u64 \<Rightarrow> btree \<Rightarrow> nat list option" where
  "btree_search_between lo hi t =
     Option.bind (descend (pages t) is_leaf lo (root t))
       (\<lambda>q. linear_search_between (pages t) lo hi q)"

end
