(* ===== verification/FF_Inv.thy ===== *)
theory FF_Inv
  imports FF_Tree
begin

text \<open>
  The invariant of the tree, and that a search returns what the leaves hold. The pages of a
  level form a chain of siblings with ascending fences that starts at fence 0; a child has
  its separating key as its fence, so a descent stays on pages whose fence is at most the key, and
  moving right ends at the page that covers the key. It is not needed that every page has a parent
  entry: a page split off is reached through its left sibling.
\<close>

section \<open>Invariant\<close>

text \<open>Where the index pool is mapped: above the log, whose addresses are below \<open>2 ^ 48\<close>.\<close>

definition index_base :: nat where "index_base = 2 ^ 48"

abbreviation lvl :: "(nat \<Rightarrow> page) \<Rightarrow> nat \<Rightarrow> nat" where "lvl h q \<equiv> level (h q)"
abbreviation fence :: "(nat \<Rightarrow> page) \<Rightarrow> nat \<Rightarrow> u64" where "fence h q \<equiv> fence_key (h q)"
abbreviation sib :: "(nat \<Rightarrow> page) \<Rightarrow> nat \<Rightarrow> nat" where "sib h q \<equiv> sibling_ptr (h q)"

definition links_ok :: "nat set \<Rightarrow> (nat \<Rightarrow> page) \<Rightarrow> nat \<Rightarrow> bool" where
  "links_ok P h q \<longleftrightarrow>
     (if sib h q = 0 then \<forall>q' \<in> P. lvl h q' = lvl h q \<longrightarrow> fence h q' \<le> fence h q
      else sib h q \<in> P \<and> lvl h (sib h q) = lvl h q \<and> fence h q < fence h (sib h q) \<and>
        (\<forall>q' \<in> P. lvl h q' = lvl h q \<longrightarrow> fence h q' \<le> fence h q \<or> fence h (sib h q) \<le> fence h q') \<and>
        (\<forall>e \<in> set (entries (h q)). fst e < fence h (sib h q)))"

definition leaf_ok :: "page \<Rightarrow> bool" where
  "leaf_ok p \<longleftrightarrow> leftmost_ptr p = 0 \<and> (\<forall>e \<in> set (entries p). fence_key p \<le> fst e \<and> snd e < index_base) \<and>
     distinct (List.map snd (entries p))"

text \<open>A pointer of an internal page to a page one level down that starts at \<open>k\<close>.\<close>

definition child_ok :: "nat set \<Rightarrow> (nat \<Rightarrow> page) \<Rightarrow> nat \<Rightarrow> u64 \<Rightarrow> nat \<Rightarrow> bool" where
  "child_ok P h l k c \<longleftrightarrow> c \<in> P \<and> lvl h c + 1 = l \<and> fence h c = k"

definition inner_ok :: "nat set \<Rightarrow> (nat \<Rightarrow> page) \<Rightarrow> page \<Rightarrow> bool" where
  "inner_ok P h p \<longleftrightarrow> child_ok P h (level p) (fence_key p) (leftmost_ptr p) \<and> entries p \<noteq> [] \<and>
     (\<forall>e \<in> set (entries p). fence_key p < fst e \<and> child_ok P h (level p) (fst e) (snd e))"

text \<open>\<open>fw\<close>: every page is searched forward, as long as nothing was deleted.\<close>

definition node_ok :: "bool \<Rightarrow> nat set \<Rightarrow> (nat \<Rightarrow> page) \<Rightarrow> nat \<Rightarrow> bool" where
  "node_ok fw P h q \<longleftrightarrow> page_has (h q) (entries (h q)) \<and> \<not> is_deleted (h q) \<and>
     (fw \<longrightarrow> IS_FORWARD (switch_counter (h q))) \<and> links_ok P h q \<and>
     (if lvl h q = 0 then leaf_ok (h q) else inner_ok P h (h q))"

definition heap_inv :: "bool \<Rightarrow> nat set \<Rightarrow> nat \<Rightarrow> (nat \<Rightarrow> page) \<Rightarrow> bool" where
  "heap_inv fw P r h \<longleftrightarrow> finite P \<and> (\<forall>q \<in> P. index_base \<le> q) \<and> r \<in> P \<and> (\<forall>q \<in> P. lvl h q \<le> lvl h r) \<and>
     (\<forall>l \<le> lvl h r. \<exists>q \<in> P. lvl h q = l \<and> fence h q = 0) \<and>
     (\<forall>q \<in> P. \<forall>q' \<in> P. lvl h q = lvl h q' \<and> fence h q = fence h q' \<longrightarrow> q = q') \<and>
     (\<forall>q \<in> P. node_ok fw P h q)"

text \<open>What the tree holds.\<close>

definition pairs :: "nat set \<Rightarrow> (nat \<Rightarrow> page) \<Rightarrow> (u64 \<times> nat) set" where
  "pairs P h = {e. \<exists>q \<in> P. lvl h q = 0 \<and> e \<in> set (entries (h q))}"

text \<open>The page of a level that is responsible for a key.\<close>

definition covers :: "nat set \<Rightarrow> (nat \<Rightarrow> page) \<Rightarrow> nat \<Rightarrow> u64 \<Rightarrow> nat \<Rightarrow> bool" where
  "covers P h l key q \<longleftrightarrow> q \<in> P \<and> lvl h q = l \<and> fence h q \<le> key \<and> (sib h q = 0 \<or> key < fence h (sib h q))"

lemma heap_inv_node: "heap_inv fw P r h \<Longrightarrow> q \<in> P \<Longrightarrow> node_ok fw P h q"
  by (simp add: heap_inv_def)

lemma heap_inv_addr: "heap_inv fw P r h \<Longrightarrow> q \<in> P \<Longrightarrow> index_base \<le> q \<and> q \<noteq> 0"
  by (auto simp: heap_inv_def index_base_def)

lemma heap_inv_inj: "heap_inv fw P r h \<Longrightarrow> q \<in> P \<Longrightarrow> q' \<in> P \<Longrightarrow> lvl h q = lvl h q' \<Longrightarrow> fence h q = fence h q' \<Longrightarrow> q = q'"
  by (simp add: heap_inv_def)

lemma node_ok_has: "node_ok fw P h q \<Longrightarrow> page_has (h q) (entries (h q))"
  by (simp add: node_ok_def)

lemma is_leaf_iff: "heap_inv fw P r h \<Longrightarrow> q \<in> P \<Longrightarrow> is_leaf (h q) \<longleftrightarrow> lvl h q \<le> 0"
  using heap_inv_node [of fw P r h q] heap_inv_addr [of fw P r h "leftmost_ptr (h q)"]
  by (auto simp: node_ok_def leaf_ok_def inner_ok_def child_ok_def split: if_splits)

section \<open>Moving right\<close>

definition rank :: "nat set \<Rightarrow> (nat \<Rightarrow> page) \<Rightarrow> nat \<Rightarrow> nat" where
  "rank P h q = card {q' \<in> P. lvl h q' = lvl h q \<and> fence h q < fence h q'}"

definition mu :: "nat set \<Rightarrow> (nat \<Rightarrow> page) \<Rightarrow> nat \<Rightarrow> nat" where
  "mu P h q = lvl h q * (card P + 1) + rank P h q"

lemma rank_less:
  assumes "finite P" and "q' \<in> P" and "lvl h q' = lvl h q" and "fence h q < fence h q'"
  shows "rank P h q' < rank P h q"
proof -
  have "{x \<in> P. lvl h x = lvl h q' \<and> fence h q' < fence h x} \<subset> {x \<in> P. lvl h x = lvl h q \<and> fence h q < fence h x}"
    using assms by (auto intro: order_less_trans)
  then show ?thesis unfolding rank_def using assms(1) by (intro psubset_card_mono) auto
qed

lemma rank_le: "finite P \<Longrightarrow> rank P h q \<le> card P"
  unfolding rank_def by (rule card_mono) auto

lemma mu_right: "finite P \<Longrightarrow> q' \<in> P \<Longrightarrow> lvl h q' = lvl h q \<Longrightarrow> fence h q < fence h q' \<Longrightarrow> mu P h q' < mu P h q"
  using rank_less [of P q' h q] by (simp add: mu_def)

lemma mu_down: "finite P \<Longrightarrow> lvl h q' + 1 = lvl h q \<Longrightarrow> mu P h q' < mu P h q"
proof -
  assume "finite P" and l: "lvl h q' + 1 = lvl h q"
  then have "rank P h q' < card P + 1" using rank_le [of P h q'] by simp
  moreover have "lvl h q * (card P + 1) = lvl h q' * (card P + 1) + (card P + 1)" using l [symmetric] by simp
  ultimately show ?thesis unfolding mu_def by linarith
qed

lemma not_covers:
  assumes "heap_inv fw P r h" and "q \<in> P" and "fence h q \<le> key" and "\<not> covers P h (lvl h q) key q"
  shows "sib h q \<noteq> 0" and "sib h q \<in> P" and "lvl h (sib h q) = lvl h q" and "fence h q < fence h (sib h q)"
    and "fence h (sib h q) \<le> key"
  using assms heap_inv_node [OF assms(1,2)] by (auto simp: covers_def node_ok_def links_ok_def not_less)

lemma covers_stays: "covers P h l key q \<Longrightarrow> \<not> (sib h q \<noteq> 0 \<and> fence h (sib h q) \<le> key)"
  by (auto simp: covers_def)

lemma covers_unique:
  assumes inv: "heap_inv fw P r h" and c: "covers P h l key q" "covers P h l key q'"
  shows "q = q'"
proof -
  have "fence h y \<le> fence h x" if "covers P h l key x" "covers P h l key y" for x y
    using heap_inv_node [OF inv, of x] that by (fastforce simp: covers_def node_ok_def links_ok_def split: if_splits)
  from this [OF c] this [OF c(2,1)] show ?thesis using heap_inv_inj [OF inv] c by (simp add: covers_def)
qed

lemma covers_exists:
  assumes inv: "heap_inv fw P r h" and "q \<in> P" and "fence h q \<le> key"
  shows "\<exists>c. covers P h (lvl h q) key c"
  using assms(2,3)
proof (induction "mu P h q" arbitrary: q rule: less_induct)
  case less
  show ?case
  proof (cases "covers P h (lvl h q) key q")
    case False
    note n = not_covers [OF inv less.prems False]
    have "mu P h (sib h q) < mu P h q" using mu_right [OF _ n(2-4)] inv by (simp add: heap_inv_def)
    from less.hyps [OF this n(2,5)] show ?thesis using n(3) by simp
  qed blast
qed

lemma leaf_entry_covers:
  assumes "heap_inv fw P r h" and "q \<in> P" and "lvl h q = 0" and "(k, v) \<in> set (entries (h q))"
  shows "covers P h 0 k q"
  using heap_inv_node [OF assms(1,2)] assms(2-4)
  by (fastforce simp: covers_def node_ok_def links_ok_def leaf_ok_def split: if_splits)

lemma pairs_covered:
  assumes "heap_inv fw P r h" and "covers P h 0 k q"
  shows "(k, v) \<in> pairs P h \<longleftrightarrow> (k, v) \<in> set (entries (h q))"
proof -
  have "x = q" if "x \<in> P" "lvl h x = 0" "(k, v) \<in> set (entries (h x))" for x
    using covers_unique [OF assms(1) leaf_entry_covers [OF assms(1) that] assms(2)] .
  then show ?thesis using assms(2) by (auto simp: pairs_def covers_def)
qed

lemma entries_functional: "page_has p es \<Longrightarrow> (k, v) \<in> set es \<Longrightarrow> (k, v') \<in> set es \<Longrightarrow> v = v'"
  using page_has_distinct [of p es] by (metis eq_key_imp_eq_value)

lemma pairs_functional:
  assumes inv: "heap_inv fw P r h" and "(k, v) \<in> pairs P h" and "(k, v') \<in> pairs P h"
  shows "v = v'"
proof -
  obtain q where q: "q \<in> P" "lvl h q = 0" "(k, v) \<in> set (entries (h q))" using assms(2) by (auto simp: pairs_def)
  note c = leaf_entry_covers [OF inv q]
  then have "(k, v') \<in> set (entries (h q))" using assms(3) pairs_covered [OF inv c] by simp
  then show ?thesis using entries_functional [OF node_ok_has [OF heap_inv_node [OF inv q(1)]] q(3)] by simp
qed

lemma pairs_value: "heap_inv fw P r h \<Longrightarrow> (k, v) \<in> pairs P h \<Longrightarrow> v \<noteq> 0 \<and> v < index_base"
proof -
  assume inv: "heap_inv fw P r h" and "(k, v) \<in> pairs P h"
  then obtain q where q: "q \<in> P" "lvl h q = 0" "(k, v) \<in> set (entries (h q))" by (auto simp: pairs_def)
  then show ?thesis using heap_inv_node [OF inv q(1)]
    by (auto simp: node_ok_def leaf_ok_def page_has_def in_set_conv_nth) (metis nth_mem snd_conv)+
qed

section \<open>Searching\<close>

lemma inner_distinct:
  assumes inv: "heap_inv fw P r h" and q: "q \<in> P" "lvl h q \<noteq> 0"
  shows "distinct (leftmost_ptr (h q) # List.map snd (entries (h q)))"
proof -
  let ?p = "h q" and ?es = "entries (h q)"
  have n: "page_has ?p ?es" "inner_ok P h ?p" using heap_inv_node [OF inv q(1)] q(2) by (auto simp: node_ok_def)
  have f: "fence h (snd e) = fst e" "fence h (leftmost_ptr ?p) = fence_key ?p" "fence_key ?p < fst e" if "e \<in> set ?es" for e
    using n(2) that by (auto simp: inner_ok_def child_ok_def)
  have "List.map (fence h) (List.map snd ?es) = List.map fst ?es" using f(1) by simp
  then have "distinct (List.map snd ?es)" using page_has_distinct [OF n(1)] distinct_map by metis
  moreover have "leftmost_ptr ?p \<notin> snd ` set ?es" using f by fastforce
  ultimately show ?thesis by simp
qed

text \<open>A step of a descent goes right or one level down, and stays at or below the key.\<close>

lemma linear_search_inner:
  assumes inv: "heap_inv fw P r h" and q: "q \<in> P" "lvl h q \<noteq> 0" "fence h q \<le> key"
  defines "c \<equiv> linear_search h key q"
  shows "c \<in> P" and "fence h c \<le> key" and "lvl h c = lvl h q \<and> fence h q < fence h c \<or> lvl h c + 1 = lvl h q"
proof -
  let ?p = "h q" and ?es = "entries (h q)"
  have n: "page_has ?p ?es" "inner_ok P h ?p" "links_ok P h q" using heap_inv_node [OF inv q(1)] q(2) by (auto simp: node_ok_def)
  have nl: "leftmost_ptr ?p \<noteq> 0" using is_leaf_iff [OF inv q(1)] q(2) by simp
  have lm: "child_ok P h (lvl h q) (fence h q) (leftmost_ptr ?p)" "?es \<noteq> []" using n(2) by (auto simp: inner_ok_def)
  have ch: "child_ok P h (lvl h q) (fst e) (snd e)" if "e \<in> set ?es" for e using n(2) that by (auto simp: inner_ok_def)
  have "c \<in> P \<and> fence h c \<le> key \<and> (lvl h c = lvl h q \<and> fence h q < fence h c \<or> lvl h c + 1 = lvl h q)"
  proof (cases "sib h q \<noteq> 0 \<and> fence h (sib h q) \<le> key")
    case True
    then show ?thesis using n(3) nl by (simp add: c_def linear_search_def links_ok_def Let_def)
  next
    case False
    let ?i = "internal_search key ?p"
    have c: "c = (if ?i \<noteq> 0 then ?i else leftmost_ptr ?p)" unfolding c_def linear_search_def Let_def using False nl by auto
    from internal_search_child [OF n(1) lm(2) inner_distinct [OF inv q(1,2)], of key]
    have "c = leftmost_ptr ?p \<or> (\<exists>j < length ?es. c = snd (?es ! j) \<and> fst (?es ! j) \<le> key)" unfolding c by auto
    then show ?thesis
    proof
      assume "\<exists>j < length ?es. c = snd (?es ! j) \<and> fst (?es ! j) \<le> key"
      then obtain j where "j < length ?es" "c = snd (?es ! j)" "fst (?es ! j) \<le> key" by blast
      then show ?thesis using ch [of "?es ! j"] by (simp add: child_ok_def)
    qed (use lm(1) q(3) in \<open>simp add: child_ok_def\<close>)
  qed
  then show "c \<in> P" "fence h c \<le> key" "lvl h c = lvl h q \<and> fence h q < fence h c \<or> lvl h c + 1 = lvl h q" by blast+
qed

lemma descend_ends:
  assumes inv: "heap_inv fw P r h" and stop: "\<And>q. q \<in> P \<Longrightarrow> stop (h q) \<longleftrightarrow> lvl h q \<le> l"
    and "q \<in> P" and "fence h q \<le> key" and "l \<le> lvl h q"
  shows "\<exists>c. descend h stop key q = Some c \<and> c \<in> P \<and> lvl h c = l \<and> fence h c \<le> key"
  using assms(3-5)
proof (induction "mu P h q" arbitrary: q rule: less_induct)
  case less
  show ?case
  proof (cases "lvl h q = l")
    case True
    then have "descend h stop key q = Some q" using stop [OF less.prems(1)] by (subst descend.simps) simp
    then show ?thesis using True less.prems by blast
  next
    case False
    let ?c = "linear_search h key q"
    note s = linear_search_inner [OF inv less.prems(1) _ less.prems(2)]
    have nz: "lvl h q \<noteq> 0" using False less.prems(3) by simp
    have "finite P" using inv by (simp add: heap_inv_def)
    then have "mu P h ?c < mu P h q" using s(3) [OF nz] mu_right [of P ?c h q] mu_down [of P h ?c q] s(1) [OF nz] by auto
    moreover have "l \<le> lvl h ?c" using s(3) [OF nz] less.prems(3) False by auto
    ultimately have "\<exists>c. descend h stop key ?c = Some c \<and> c \<in> P \<and> lvl h c = l \<and> fence h c \<le> key"
      using less.hyps s(1,2) [OF nz] by blast
    moreover have "descend h stop key q = descend h stop key ?c"
      using stop [OF less.prems(1)] False less.prems(3) by (subst descend.simps) simp
    ultimately show ?thesis by simp
  qed
qed

lemma fence_least: "heap_inv fw P r h \<Longrightarrow> (\<And>q. q \<in> P \<Longrightarrow> lvl h q = lvl h r \<Longrightarrow> q = r) \<Longrightarrow> fence h r = 0"
  unfolding heap_inv_def by (metis order_refl)

text \<open>A leaf that covers the key is searched to the end, any other one leads to its sibling.\<close>

lemma linear_search_leaf:
  assumes inv: "heap_inv fw P r h" and q: "q \<in> P" "lvl h q = 0" "fence h q \<le> key"
  shows "\<not> covers P h 0 key q \<Longrightarrow> linear_search h key q = sib h q"
    and "covers P h 0 key q \<Longrightarrow> (key, v) \<in> pairs P h \<Longrightarrow> linear_search h key q = v"
    and "covers P h 0 key q \<Longrightarrow> key \<notin> fst ` pairs P h \<Longrightarrow> linear_search h key q = 0"
proof -
  let ?p = "h q" and ?es = "entries (h q)"
  have n: "page_has ?p ?es" "leaf_ok ?p" "links_ok P h q" using heap_inv_node [OF inv q(1)] q(2) by (auto simp: node_ok_def)
  have l: "leftmost_ptr ?p = 0" "distinct (List.map snd ?es)" using n(2) by (auto simp: leaf_ok_def)
  show "linear_search h key q = sib h q" if c: "\<not> covers P h 0 key q"
  proof -
    note r = not_covers [OF inv q(1,3)]
    have "key \<notin> fst ` set ?es" using r c q(2) n(3) by (fastforce simp: links_ok_def)
    then show ?thesis using leaf_search_none [OF n(1)] l r c q(2) by (simp add: linear_search_def)
  qed
  assume c: "covers P h 0 key q"
  show "linear_search h key q = v" if v: "(key, v) \<in> pairs P h"
  proof -
    have "(key, v) \<in> set ?es" using v pairs_covered [OF inv c] by simp
    then obtain i where i: "i < length ?es" "?es ! i = (key, v)" by (auto simp: in_set_conv_nth)
    then have "leaf_search key ?p = v" using leaf_search_found [OF n(1) l(2) i(1), of key] by simp
    then show ?thesis using l(1) pairs_value [OF inv v] by (simp add: linear_search_def)
  qed
  show "linear_search h key q = 0" if v: "key \<notin> fst ` pairs P h"
  proof -
    have "key \<notin> fst ` set ?es" using v q by (force simp: pairs_def)
    then show ?thesis using leaf_search_none [OF n(1)] l(1) covers_stays [OF c] by (auto simp: linear_search_def Let_def)
  qed
qed

lemma search_leaves_ends:
  assumes inv: "heap_inv fw P r h" and "q \<in> P" and "lvl h q = 0" and "fence h q \<le> key"
  shows "\<exists>c. covers P h 0 key c \<and> (\<forall>v. (key, v) \<in> pairs P h \<longrightarrow> search_leaves h key q = Some (c, v)) \<and>
      (key \<notin> fst ` pairs P h \<longrightarrow> search_leaves h key q = Some (if sib h c = 0 then 0 else c, 0))"
  using assms(2-4)
proof (induction "mu P h q" arbitrary: q rule: less_induct)
  case less
  note s = linear_search_leaf [OF inv less.prems]
  show ?case
  proof (cases "covers P h 0 key q")
    case True
    have sb: "sib h q = 0 \<or> index_base \<le> sib h q"
      using heap_inv_node [OF inv less.prems(1)] heap_inv_addr [OF inv] by (auto simp: node_ok_def links_ok_def split: if_splits)
    have "search_leaves h key q = Some (q, v)" if v: "(key, v) \<in> pairs P h" for v
      using s(2) [OF True v] pairs_value [OF inv v] sb by (subst search_leaves.simps) (auto simp: Let_def)
    moreover have "search_leaves h key q = Some (if sib h q = 0 then 0 else q, 0)" if "key \<notin> fst ` pairs P h"
      using s(3) [OF True that] by (subst search_leaves.simps) (auto simp: Let_def)
    ultimately show ?thesis using True by blast
  next
    case False
    have "\<not> covers P h (lvl h q) key q" using False less.prems(2) by simp
    note n = not_covers [OF inv less.prems(1,3) this]
    have "mu P h (sib h q) < mu P h q" using mu_right [OF _ n(2-4)] inv by (simp add: heap_inv_def)
    from less.hyps [OF this n(2) _ n(5)] n(3) less.prems(2)
    have "\<exists>c. covers P h 0 key c \<and> (\<forall>v. (key, v) \<in> pairs P h \<longrightarrow> search_leaves h key (sib h q) = Some (c, v)) \<and>
      (key \<notin> fst ` pairs P h \<longrightarrow> search_leaves h key (sib h q) = Some (if sib h c = 0 then 0 else c, 0))" by simp
    moreover have "search_leaves h key q = search_leaves h key (sib h q)"
      using s(1) [OF False] n(1) by (subst search_leaves.simps) (simp add: Let_def)
    ultimately show ?thesis by simp
  qed
qed

end
