(* ===== verification/FF_Update.thy ===== *)
theory FF_Update
  imports FF_Inv
begin

text \<open>
  The three changes that an insertion makes to the heap of pages, and that each keeps the invariant:
  new records in one page, a page split in two, and a new root. What the pages of a split hold is
  first shown page by page.
\<close>

section \<open>Pages\<close>

lemma set_ptr_has:
  assumes "page_has p es" and "i < length es" and "ptr \<noteq> 0"
  shows "page_has (set_ptr i ptr p) (es[i := (fst (es ! i), ptr)])" and "same_header p (set_ptr i ptr p)"
    and "switch_counter (set_ptr i ptr p) = switch_counter p"
proof -
  have "List.map fst (es[i := (fst (es ! i), ptr)]) = List.map fst es"
    by (metis list_update_id map_update fst_conv nth_map assms(2))
  then show "page_has (set_ptr i ptr p) (es[i := (fst (es ! i), ptr)])"
    using assms unfolding page_has_def by (auto simp: set_ptr_def nth_list_update)
qed (simp_all add: set_ptr_def same_header_def)

lemma try_update_hit:
  assumes p: "page_has (pages t q) es" and i: "i < length es" "fst (es ! i) = key"
  shows "try_update q key right le t = Some (update_at q i right le t)"
proof -
  have "List.find (\<lambda>i. key \<le> rkey (pages t q) i) [0..<length es] = Some i"
  proof -
    obtain j where j: "List.find (\<lambda>i. key \<le> rkey (pages t q) i) [0..<length es] = Some j"
      using i page_has_nth [OF p i(1)] by (cases "List.find (\<lambda>i. key \<le> rkey (pages t q) i) [0..<length es]") (auto simp: find_None_iff)
    have "key \<le> fst (es ! j)" "j < length es" using find_SomeD [OF j] page_has_nth [OF p, of j] by auto
    moreover have "\<not> i < j" using find_upt_first [OF j, of i] page_has_nth [OF p i(1)] i by auto
    ultimately have "j = i" using page_has_less [OF p, of j i] i by (cases i j rule: linorder_cases) auto
    then show ?thesis using j by simp
  qed
  then show ?thesis using page_has_count [OF p] page_has_nth [OF p i(1)] i by (simp add: try_update_def)
qed

lemma try_update_miss:
  assumes p: "page_has (pages t q) es" and "key \<notin> fst ` set es"
  shows "try_update q key right le t = None"
proof -
  have "rkey (pages t q) i \<noteq> key" if "i < length es" for i
    using page_has_nth [OF p that] assms(2) nth_mem [OF that] by (metis image_eqI)
  then show ?thesis using page_has_count [OF p]
    by (fastforce simp: try_update_def Let_def split: option.splits dest!: find_SomeD)
qed

lemma insert_key_last:
  assumes p: "page_has p es" and "\<forall>e \<in> set es. fst e < key" and "ptr \<noteq> 0" and "length es < cardinality - 1"
  shows "page_has (snd (insert_key key ptr (length es) p)) (es @ [(key, ptr)])"
    and "same_header p (snd (insert_key key ptr (length es) p))"
    and "IS_FORWARD (switch_counter (snd (insert_key key ptr (length es) p)))"
proof -
  have "key \<notin> fst ` set es" using assms(2) by auto
  from insert_key_has [OF p this assms(3,4)] obtain j where
    j: "j \<le> length es" "\<forall>e \<in> set (drop j es). key < fst e"
      "page_has (snd (insert_key key ptr (length es) p)) (take j es @ (key, ptr) # drop j es)"
      "same_header p (snd (insert_key key ptr (length es) p))" "IS_FORWARD (switch_counter (snd (insert_key key ptr (length es) p)))"
    by metis
  have "drop j es = []" using j(2) assms(2) by (cases "drop j es") (auto dest: in_set_dropD, metis in_set_dropD list.set_intros(1) not_less_iff_gr_or_eq fst_conv)
  then have "take j es @ (key, ptr) # drop j es = es @ [(key, ptr)]" by simp
  then show "page_has (snd (insert_key key ptr (length es) p)) (es @ [(key, ptr)])" using j(3) by simp
  show "same_header p (snd (insert_key key ptr (length es) p))" "IS_FORWARD (switch_counter (snd (insert_key key ptr (length es) p)))"
    using j(4,5) by auto
qed

lemma migrate_has:
  assumes p: "page_has p es" and "a \<le> b" and "b \<le> length es" and "0 < a"
  shows "\<exists>s. migrate p [a..<b] (page_new l) = (b - a, s) \<and> page_has s (take (b - a) (drop a es)) \<and>
      same_header (page_new l) s \<and> IS_FORWARD (switch_counter s)"
  using assms(2,3)
proof (induction "b - a" arbitrary: b)
  case 0
  then show ?case by (auto simp: migrate_def page_has_new same_header_def page_new_def IS_FORWARD_def page_has_def cardinality_def)
next
  case (Suc d)
  obtain c where b: "b = Suc c" "a \<le> c" "c < length es" using Suc.hyps(2) Suc.prems by (cases b) auto
  let ?ds = "take (c - a) (drop a es)"
  have "d = c - a" using b Suc.hyps(2) by (simp add: Suc_diff_le)
  from Suc.hyps(1) [OF this b(2)] b(3) obtain s where
    s: "migrate p [a..<c] (page_new l) = (c - a, s)" "page_has s ?ds" "same_header (page_new l) s" by auto
  have rc: "records p c = es ! c" "snd (es ! c) \<noteq> 0" using page_has_nth [OF p b(3)] by auto
  have len: "length ?ds = c - a" using b by simp
  have lt: "\<forall>e \<in> set ?ds. fst e < fst (es ! c)"
  proof
    fix e assume "e \<in> set ?ds"
    then obtain i where "i < c - a" "e = es ! (a + i)" using b by (auto simp: in_set_conv_nth)
    then show "fst e < fst (es ! c)" using page_has_less [OF p, of "a + i" c] b by simp
  qed
  have "length es < cardinality" using p by (simp add: page_has_def)
  then have sz: "length ?ds < cardinality - 1" using b assms(4) len by linarith
  note I = insert_key_last [OF s(2) lt rc(2) sz, unfolded len]
  have "take (b - a) (drop a es) = ?ds @ [es ! c]" using b by (simp add: Suc_diff_le take_Suc_conv_app_nth)
  moreover have "migrate p [a..<b] (page_new l) = (b - a, snd (insert_key (fst (es ! c)) (snd (es ! c)) (c - a) s))"
    using s(1) b rc by (simp add: migrate_def Suc_diff_le)
  ultimately show ?case using I s(3) by (auto simp: same_header_def)
qed

lemma split_left_has:
  assumes p: "page_has p es" and "2 \<le> length es"
  shows "page_has (split_left s p) (take (length es div 2) es)" and "same_header (p\<lparr>sibling_ptr := s\<rparr>) (split_left s p)"
    and "IS_FORWARD (switch_counter (split_left s p))"
proof -
  let ?m = "length es div 2"
  have m: "?m < length es" "1 \<le> ?m" using assms(2) by auto
  have ne: "take ?m es \<noteq> []" using m by auto
  have mc: "?m < cardinality" using p m(1) by (simp add: page_has_def)
  have "sorted_wrt (<) (List.map fst (take ?m es))" using p by (simp add: page_has_def sorted_wrt_take flip: take_map)
  then show "page_has (split_left s p) (take ?m es)"
    using p m(2) ne mc unfolding page_has_def by (auto simp: split_left_def page_has_count [OF p] Let_def)
  show "same_header (p\<lparr>sibling_ptr := s\<rparr>) (split_left s p)" by (simp add: split_left_def same_header_def Let_def)
  show "IS_FORWARD (switch_counter (split_left s p))" by (simp add: split_left_def IS_FORWARD_def Let_def)
qed

text \<open>A page is split when it holds 28 records: 14 stay, and in an internal page the 15th becomes the leftmost child.\<close>

lemma split_right_has:
  assumes p: "page_has p es" and n: "length es = 28"
  defines "d \<equiv> (if is_leaf p then drop 14 es else drop 15 es)"
  obtains s where "split_right p = (length d, s)" and "page_has s d" and "IS_FORWARD (switch_counter s)"
    and "level s = level p" and "fence_key s = fst (es ! 14)" and "sibling_ptr s = sibling_ptr p" and "\<not> is_deleted s"
    and "leftmost_ptr s = (if is_leaf p then 0 else snd (es ! 14))"
proof -
  have rm: "records p 14 = es ! 14" using page_has_nth [OF p, of 14] n by simp
  let ?a = "if is_leaf p then 14 else 15 :: nat"
  have a: "?a \<le> length es" "0 < ?a" using n by simp_all
  obtain s0 where s0: "migrate p [?a..<length es] (page_new (level p)) = (length es - ?a, s0)"
      "page_has s0 (take (length es - ?a) (drop ?a es))" "same_header (page_new (level p)) s0" "IS_FORWARD (switch_counter s0)"
    using migrate_has [OF p a(1) order_refl a(2), of "level p"] by blast
  have d: "take (length es - ?a) (drop ?a es) = d" "length es - ?a = length d" by (auto simp: d_def)
  let ?s = "(if is_leaf p then s0 else s0\<lparr>leftmost_ptr := snd (es ! 14)\<rparr>)\<lparr>fence_key := fst (es ! 14), sibling_ptr := sibling_ptr p\<rparr>"
  have "split_right p = (length d, ?s)"
    using s0(1) d(2) rm n unfolding split_right_def page_has_count [OF p] Let_def by (auto split: if_splits)
  moreover have "page_has ?s d" using s0(2) d(1) by (auto simp: page_has_def)
  ultimately show thesis using that [of ?s] s0(3,4) by (auto simp: same_header_def page_new_def)
qed

section \<open>New records in one page\<close>

text \<open>What a page with these records must satisfy next to its neighbours.\<close>

definition content_ok :: "nat set \<Rightarrow> (nat \<Rightarrow> page) \<Rightarrow> page \<Rightarrow> bool" where
  "content_ok P h p \<longleftrightarrow> page_has p (entries p) \<and> \<not> is_deleted p \<and> (if level p = 0 then leaf_ok p else inner_ok P h p)"

definition below_fence :: "(nat \<Rightarrow> page) \<Rightarrow> page \<Rightarrow> bool" where
  "below_fence h p \<longleftrightarrow> sibling_ptr p = 0 \<or> (\<forall>e \<in> set (entries p). fst e < fence h (sibling_ptr p))"

lemma node_ok_content: "node_ok fw P h q \<Longrightarrow> content_ok P h (h q)"
  by (simp add: node_ok_def content_ok_def)

lemma node_ok_below: "node_ok fw P h q \<Longrightarrow> below_fence h (h q)"
  by (auto simp: node_ok_def links_ok_def below_fence_def split: if_splits)

lemma inner_ok_frame:
  assumes "\<And>c. c \<in> P \<Longrightarrow> lvl h' c = lvl h c \<and> fence h' c = fence h c" and "P \<subseteq> P'" and "inner_ok P h p"
  shows "inner_ok P' h' p"
  using assms by (auto simp: inner_ok_def child_ok_def)

lemma content_ok_frame:
  assumes "\<And>c. c \<in> P \<Longrightarrow> lvl h' c = lvl h c \<and> fence h' c = fence h c" and "P \<subseteq> P'" and "content_ok P h p"
  shows "content_ok P' h' p"
  using assms inner_ok_frame [of P h' h P' p] by (auto simp: content_ok_def)

lemma heap_inv_change:
  assumes inv: "heap_inv fw P r h" and q: "q \<in> P" and hd: "same_header (h q) p" and fwd: "fw \<longrightarrow> IS_FORWARD (switch_counter p)"
    and c: "content_ok P h p" "below_fence h p"
  shows "heap_inv fw P r (h(q := p))"
proof -
  let ?h = "h(q := p)"
  have hd': "lvl ?h x = lvl h x" "fence ?h x = fence h x" "sib ?h x = sib h x" for x
    using hd by (auto simp: same_header_def)
  have "node_ok fw P ?h x" if x: "x \<in> P" for x
  proof (cases "x = q")
    case True
    have "links_ok P h q" using heap_inv_node [OF inv q] by (simp add: node_ok_def)
    then have "links_ok P ?h q" using c(2) hd unfolding links_ok_def hd' by (auto simp: below_fence_def same_header_def)
    moreover have "content_ok P ?h p" using content_ok_frame [OF _ order_refl c(1), of ?h] hd' by simp
    ultimately show ?thesis using True fwd by (simp add: node_ok_def content_ok_def)
  next
    case False
    then have e: "?h x = h x" by simp
    have "node_ok fw P h x" by (rule heap_inv_node [OF inv x])
    then have n: "links_ok P h x" "content_ok P h (h x)" "fw \<longrightarrow> IS_FORWARD (switch_counter (h x))"
      by (simp_all add: node_ok_def content_ok_def)
    have "links_ok P ?h x" using n(1) unfolding links_ok_def hd' e .
    moreover have "content_ok P ?h (h x)" using content_ok_frame [OF _ order_refl n(2), of ?h] hd' by simp
    ultimately show ?thesis using n(3) unfolding node_ok_def content_ok_def e by blast
  qed
  then show ?thesis using inv unfolding heap_inv_def hd' by blast
qed

section \<open>Splitting a page\<close>

text \<open>No page of the level starts between the fence of a page and the fence of its sibling.\<close>

lemma split_gap:
  assumes inv: "heap_inv fw P r h" and q: "q \<in> P" and x: "x \<in> P" "x \<noteq> q" "lvl h x = lvl h q"
    and sk: "sib h q = 0 \<or> sk < fence h (sib h q)"
  shows "fence h x < fence h q \<or> sk < fence h x"
proof -
  have ne: "fence h x \<noteq> fence h q" using heap_inv_inj [OF inv x(1) q] x by blast
  have "links_ok P h q" using heap_inv_node [OF inv q] by (simp add: node_ok_def)
  then have "fence h x \<le> fence h q \<or> sib h q \<noteq> 0 \<and> fence h (sib h q) \<le> fence h x"
    using x by (auto simp: links_ok_def split: if_splits)
  then show ?thesis using ne sk by auto
qed

lemma heap_inv_split:
  assumes inv: "heap_inv fw P r h" and q: "q \<in> P" and s: "s \<notin> P" "index_base \<le> s"
    and pq: "same_header ((h q)\<lparr>sibling_ptr := s\<rparr>) pq" "content_ok P h pq" "fw \<longrightarrow> IS_FORWARD (switch_counter pq)"
      "\<forall>e \<in> set (entries pq). fst e < sk"
    and ps: "level ps = lvl h q" "fence_key ps = sk" "sibling_ptr ps = sib h q" "content_ok P h ps"
      "fw \<longrightarrow> IS_FORWARD (switch_counter ps)" "below_fence h ps"
    and sk: "fence h q < sk" "sib h q = 0 \<or> sk < fence h (sib h q)"
  shows "heap_inv fw (insert s P) r (h(q := pq, s := ps))"
proof -
  let ?P = "insert s P"
  define h' where "h' = h(q := pq, s := ps)"
  have qs: "q \<noteq> s" using q s by blast
  have old: "lvl h' x = lvl h x" "fence h' x = fence h x" if "x \<in> P" for x
    using that s(1) pq(1) by (auto simp: same_header_def h'_def)
  have new: "lvl h' s = lvl h q" "fence h' s = sk" "sib h' s = sib h q" "sib h' q = s" "h' q = pq" "h' s = ps"
    using ps pq(1) qs by (auto simp: same_header_def h'_def)
  have gap: "fence h x < fence h q \<or> sk < fence h x" if "x \<in> P" "x \<noteq> q" "lvl h x = lvl h q" for x
    by (rule split_gap [OF inv q that sk(2)])
  have cont: "content_ok ?P h' p" if "content_ok P h p" for p by (rule content_ok_frame [OF _ _ that]) (use old in auto)
  have lq: "links_ok P h q" using heap_inv_node [OF inv q] by (simp add: node_ok_def)
  have "fence h' x \<le> fence h' q \<or> sk \<le> fence h' x" if "x \<in> ?P" "lvl h' x = lvl h' q" for x
  proof (cases "x = s \<or> x = q")
    case False
    then have "x \<in> P" "x \<noteq> q" using that by auto
    then show ?thesis using gap [of x] old [of x] old [OF q] that by (auto dest: order_less_imp_le)
  qed (auto simp: new(2))
  then have "links_ok ?P h' q"
    using sk(1) s(2) old [OF q] pq(4) unfolding links_ok_def new(4) by (simp add: new ps(1,2) index_base_def)
  then have nq: "node_ok fw ?P h' q" using cont [OF pq(2)] pq(3) by (simp add: node_ok_def content_ok_def new)
  have "links_ok ?P h' s"
  proof (cases "sib h q = 0")
    case True
    have "fence h' x \<le> sk" if "x \<in> ?P" "lvl h' x = lvl h q" for x
    proof (cases "x = s")
      case False
      then have "x \<in> P" "lvl h x = lvl h q" using that old by auto
      then have "fence h x \<le> fence h q" using lq True by (simp add: links_ok_def)
      then show ?thesis using sk(1) old(2) [OF \<open>x \<in> P\<close>] by simp
    qed (simp add: new(2))
    then show ?thesis using True unfolding links_ok_def new(1-3) by simp
  next
    case False
    then have sq: "sib h q \<in> P" "lvl h (sib h q) = lvl h q" "sk < fence h (sib h q)" using lq sk(2) by (auto simp: links_ok_def)
    have "fence h' x \<le> sk \<or> fence h (sib h q) \<le> fence h' x" if "x \<in> ?P" "lvl h' x = lvl h q" for x
    proof (cases "x = s")
      case xs: False
      then have x: "x \<in> P" "lvl h x = lvl h q" using that old by auto
      then have "fence h x \<le> fence h q \<or> fence h (sib h q) \<le> fence h x" using lq False by (simp add: links_ok_def)
      then show ?thesis using sk(1) old(2) [OF x(1)] by auto
    qed (simp add: new(2))
    moreover have "\<forall>e \<in> set (entries ps). fst e < fence h (sib h q)" using ps(3,6) False by (simp add: below_fence_def)
    ultimately show ?thesis using False sq old [OF sq(1)] unfolding links_ok_def new(1-3) by (simp add: new(6))
  qed
  then have ns: "node_ok fw ?P h' s" using cont [OF ps(4)] ps(5) by (simp add: node_ok_def content_ok_def new)
  have nx: "node_ok fw ?P h' x" if x: "x \<in> P" "x \<noteq> q" for x
  proof -
    have e: "h' x = h x" using x s by (auto simp: h'_def)
    have n: "links_ok P h x" "content_ok P h (h x)" "fw \<longrightarrow> IS_FORWARD (switch_counter (h x))"
      using heap_inv_node [OF inv x(1)] by (simp_all add: node_ok_def content_ok_def)
    have sx: "sib h x = 0 \<or> sib h x \<in> P" using n(1) by (simp add: links_ok_def split: if_splits)
    have "links_ok ?P h' x"
    proof (cases "sib h x = 0")
      case True
      have "sk \<le> fence h x" if "lvl h q = lvl h x"
        using gap [OF x] that n(1) True q by (fastforce simp: links_ok_def)
      then show ?thesis using n(1) True old new by (auto simp: links_ok_def e)
    next
      case False
      then have sp: "sib h x \<in> P" using sx by simp
      have "sk \<le> fence h x \<or> fence h (sib h x) \<le> sk" if "lvl h q = lvl h x"
        using gap [OF x] that n(1) False q sk(1) by (fastforce simp: links_ok_def)
      then show ?thesis using n(1) False old [OF sp] old new unfolding links_ok_def e by auto
    qed
    then show ?thesis using cont [OF n(2)] n(3) unfolding node_ok_def content_ok_def e by blast
  qed
  have nodes: "\<forall>x \<in> ?P. node_ok fw ?P h' x" using nq ns nx by (metis insertE)
  have r: "r \<in> P" "finite P" "\<forall>x \<in> P. index_base \<le> x" "\<forall>x \<in> P. lvl h x \<le> lvl h r"
      "\<forall>l \<le> lvl h r. \<exists>x \<in> P. lvl h x = l \<and> fence h x = 0" using inv by (auto simp: heap_inv_def)
  have inj: "x = y" if xy: "x \<in> ?P" "y \<in> ?P" "lvl h' x = lvl h' y" "fence h' x = fence h' y" for x y
  proof -
    have ns: "\<not> (lvl h' z = lvl h' s \<and> fence h' z = fence h' s)" if "z \<in> P" for z
      using gap [OF that] sk(1) old [OF that] new(1,2) by (cases "z = q") auto
    consider "x = s" "y = s" | "x = s" "y \<in> P" | "x \<in> P" "y = s" | "x \<in> P" "y \<in> P" using xy(1,2) by blast
    then show ?thesis
      by cases (use ns [of x] ns [of y] xy heap_inv_inj [OF inv, of x y] old [of x] old [of y] in \<open>simp_all\<close>)
  qed
  have "\<forall>l \<le> lvl h' r. \<exists>x \<in> ?P. lvl h' x = l \<and> fence h' x = 0"
  proof (intro allI impI)
    fix l assume "l \<le> lvl h' r"
    then obtain x where "x \<in> P" "lvl h x = l" "fence h x = 0" using r(5) old [OF r(1)] by auto
    then show "\<exists>x \<in> ?P. lvl h' x = l \<and> fence h' x = 0" using old [of x] by (intro bexI [of _ x]) auto
  qed
  moreover have "\<forall>x \<in> ?P. lvl h' x \<le> lvl h' r" using r(1,4) q old new(1) by simp
  ultimately show ?thesis unfolding heap_inv_def h'_def [symmetric] using r(1-3) s(2) nodes inj by blast
qed

section \<open>A new root\<close>

lemma entries_grow: "right \<noteq> 0 \<Longrightarrow> entries (page_grow left key right l) = [(key, right)]"
  using page_has_grow by (rule page_has_entries)

lemma page_grow_fields [simp]:
  "level (page_grow left key right l) = l" "fence_key (page_grow left key right l) = 0"
  "sibling_ptr (page_grow left key right l) = 0" "leftmost_ptr (page_grow left key right l) = left"
  "\<not> is_deleted (page_grow left key right l)" "IS_FORWARD (switch_counter (page_grow left key right l))"
  by (simp_all add: page_grow_def page_new_def IS_FORWARD_def)

lemma heap_inv_grow:
  assumes inv: "heap_inv fw P r h" and n: "n \<notin> P" "index_base \<le> n" and r: "fence h r = 0"
    and s: "s \<in> P" "lvl h s = lvl h r" "fence h s = sk" "0 < sk"
  shows "heap_inv fw (insert n P) n (h(n := page_grow r sk s (lvl h r + 1)))"
proof -
  let ?P = "insert n P"
  define h' where "h' = h(n := page_grow r sk s (lvl h r + 1))"
  have old: "h' x = h x" if "x \<in> P" for x using that n(1) by (auto simp: h'_def)
  have new: "h' n = page_grow r sk s (lvl h r + 1)" by (simp add: h'_def)
  have R: "r \<in> P" "finite P" "\<forall>x \<in> P. index_base \<le> x" "\<forall>x \<in> P. lvl h x \<le> lvl h r"
      "\<forall>l \<le> lvl h r. \<exists>x \<in> P. lvl h x = l \<and> fence h x = 0" using inv by (auto simp: heap_inv_def)
  have s0: "s \<noteq> 0" using heap_inv_addr [OF inv s(1)] by simp
  have ln: "lvl h' n = lvl h r + 1" "fence h' n = 0" by (simp_all add: new)
  have lt: "lvl h' x < lvl h' n" if "x \<in> P" for x using R(4) that old [OF that] ln by fastforce
  have "links_ok ?P h' n" using lt ln(2) unfolding links_ok_def by (fastforce simp: new)
  moreover have "inner_ok ?P h' (h' n)"
    unfolding inner_ok_def using entries_grow [OF s0] R(1) r s old [OF R(1)] old [OF s(1)] by (simp add: new child_ok_def)
  ultimately have nn: "node_ok fw ?P h' n"
    using page_has_grow [OF s0] entries_grow [OF s0] ln(1) by (simp add: node_ok_def new)
  have nx: "node_ok fw ?P h' x" if x: "x \<in> P" for x
  proof -
    have N: "links_ok P h x" "content_ok P h (h x)" "fw \<longrightarrow> IS_FORWARD (switch_counter (h x))"
      using heap_inv_node [OF inv x] by (simp_all add: node_ok_def content_ok_def)
    have c: "content_ok ?P h' (h x)" by (rule content_ok_frame [OF _ _ N(2)]) (use old in auto)
    have "sib h x = 0 \<or> sib h x \<in> P" using N(1) by (simp add: links_ok_def split: if_splits)
    then have "links_ok ?P h' x"
      using N(1) lt [OF x] old [of "sib h x"] old unfolding links_ok_def old [OF x] by auto
    then show ?thesis using c N(3) unfolding node_ok_def content_ok_def old [OF x] by blast
  qed
  have "\<exists>x \<in> ?P. lvl h' x = l \<and> fence h' x = 0" if "l \<le> lvl h' n" for l
  proof (cases "l = lvl h' n")
    case False
    then have "l \<le> lvl h r" using that ln(1) by simp
    then obtain x where "x \<in> P" "lvl h x = l" "fence h x = 0" using R(5) by auto
    then show ?thesis using old [of x] by (intro bexI [of _ x]) auto
  qed (use ln(2) in auto)
  moreover have "x = y" if xy: "x \<in> ?P" "y \<in> ?P" "lvl h' x = lvl h' y" "fence h' x = fence h' y" for x y
    using xy lt [of x] lt [of y] heap_inv_inj [OF inv, of x y] old [of x] old [of y] by auto
  moreover have "\<forall>x \<in> ?P. lvl h' x \<le> lvl h' n" using lt by (auto intro: order_less_imp_le)
  moreover have "\<forall>x \<in> ?P. node_ok fw ?P h' x" using nn nx by (metis insertE)
  ultimately show ?thesis unfolding heap_inv_def h'_def [symmetric] using R(2,3) n(2) by blast
qed

section \<open>What the leaves hold\<close>

text \<open>The binding of a key replaced.\<close>

definition rebind :: "u64 \<Rightarrow> nat \<Rightarrow> (u64 \<times> nat) set \<Rightarrow> (u64 \<times> nat) set" where
  "rebind key v S = insert (key, v) {e \<in> S. fst e \<noteq> key}"

text \<open>The records of a page if it is a leaf.\<close>

definition leaf_set :: "page \<Rightarrow> (u64 \<times> nat) set" where
  "leaf_set p = (if level p = 0 then set (entries p) else {})"

lemma pairs_leaf_set: "pairs P h = (\<Union>q \<in> P. leaf_set (h q))"
  by (auto simp: pairs_def leaf_set_def split: if_splits)

lemma pairs_leaf_change:
  assumes inv: "heap_inv fw P r h" and c: "covers P h 0 key q" and P: "P \<subseteq> P'"
    and others: "\<And>x. x \<in> P \<Longrightarrow> x \<noteq> q \<Longrightarrow> h' x = h x"
    and E: "(\<Union>x \<in> insert q (P' - P). leaf_set (h' x)) = X \<union> {e \<in> leaf_set (h q). fst e \<noteq> key}"
  shows "pairs P' h' = X \<union> {e \<in> pairs P h. fst e \<noteq> key}"
proof -
  have q: "q \<in> P" "lvl h q = 0" using c by (auto simp: covers_def)
  have nk: "fst e \<noteq> key" if x: "x \<in> P - {q}" "e \<in> leaf_set (h x)" for x e
    using covers_unique [OF inv c] leaf_entry_covers [OF inv, of x "fst e" "snd e"] x by (auto simp: leaf_set_def split: if_splits)
  have P': "P' = insert q (P' - P) \<union> (P - {q})" and Pq: "P = insert q (P - {q})" using P q(1) by auto
  have "pairs P' h' = (\<Union>x \<in> insert q (P' - P). leaf_set (h' x)) \<union> (\<Union>x \<in> P - {q}. leaf_set (h' x))"
    unfolding pairs_leaf_set by (subst P') (rule UN_Un)
  also have "(\<Union>x \<in> P - {q}. leaf_set (h' x)) = (\<Union>x \<in> P - {q}. leaf_set (h x))" using others by (intro SUP_cong) auto
  also have "\<dots> = {e \<in> (\<Union>x \<in> P - {q}. leaf_set (h x)). fst e \<noteq> key}" using nk by blast
  finally have "pairs P' h' = X \<union> {e \<in> leaf_set (h q) \<union> (\<Union>x \<in> P - {q}. leaf_set (h x)). fst e \<noteq> key}" unfolding E by blast
  moreover have "pairs P h = leaf_set (h q) \<union> (\<Union>x \<in> P - {q}. leaf_set (h x))"
    unfolding pairs_leaf_set by (subst Pq) (rule UN_insert)
  ultimately show ?thesis by simp
qed

lemma pairs_same:
  assumes "P \<subseteq> P'" and "\<And>x. x \<in> P' - P \<Longrightarrow> leaf_set (h' x) = {}" and "\<And>x. x \<in> P \<Longrightarrow> leaf_set (h' x) = leaf_set (h x)"
  shows "pairs P' h' = pairs P h"
proof -
  have "P' = P \<union> (P' - P)" using assms(1) by blast
  then have "pairs P' h' = (\<Union>x \<in> P. leaf_set (h' x)) \<union> (\<Union>x \<in> P' - P. leaf_set (h' x))"
    unfolding pairs_leaf_set using UN_Un by metis
  then show ?thesis using assms(2,3) by (simp add: pairs_leaf_set)
qed

section \<open>The tree and its pages\<close>

definition pages_of :: "arena \<Rightarrow> nat set" where
  "pages_of a = {q. idx_start_addr a \<le> q \<and> q < cur_alloc_addr a \<and> sizeof_page dvd q - idx_start_addr a}"

definition arena_ok :: "arena \<Rightarrow> bool" where
  "arena_ok a \<longleftrightarrow> reserved_space a = [] \<and> index_base \<le> idx_start_addr a \<and> 64 dvd idx_start_addr a \<and>
     (\<exists>n. cur_alloc_addr a = idx_start_addr a + n * sizeof_page)"

definition ff_inv :: "bool \<Rightarrow> btree \<Rightarrow> bool" where
  "ff_inv fw t \<longleftrightarrow> arena_ok (index_arena t) \<and> heap_inv fw (pages_of (index_arena t)) (root t) (pages t) \<and>
     (\<forall>q \<in> pages_of (index_arena t). lvl (pages t) q = lvl (pages t) (root t) \<longrightarrow> q = root t)"

abbreviation ff_pages :: "btree \<Rightarrow> nat set" where "ff_pages t \<equiv> pages_of (index_arena t)"
abbreviation ff_pairs :: "btree \<Rightarrow> (u64 \<times> nat) set" where "ff_pairs t \<equiv> pairs (ff_pages t) (pages t)"

lemma page_alloc_result:
  assumes ok: "arena_ok (index_arena t)" and al: "page_alloc p t = Some (q, t')"
  shows "q \<notin> ff_pages t" and "index_base \<le> q" and "ff_pages t' = insert q (ff_pages t)" and "arena_ok (index_arena t')"
    and "pages t' = (pages t)(q := p)" and "root t' = root t"
proof -
  let ?a = "index_arena t"
  obtain n where a: "reserved_space ?a = []" "index_base \<le> idx_start_addr ?a" "64 dvd idx_start_addr ?a"
      "cur_alloc_addr ?a = idx_start_addr ?a + n * sizeof_page" using ok by (auto simp: arena_ok_def)
  have "64 dvd cur_alloc_addr ?a" using a(3,4) by (simp add: sizeof_page_def)
  note al' = align_line_aligned [OF this]
  have r: "q = cur_alloc_addr ?a" "pages t' = (pages t)(q := p)" "root t' = root t"
      "idx_start_addr (index_arena t') = idx_start_addr ?a" "cur_alloc_addr (index_arena t') = cur_alloc_addr ?a + sizeof_page"
      "reserved_space (index_arena t') = []"
    using al a(1) al' by (auto simp: page_alloc_def Alloc_def on_page_def Let_def split: option.splits if_splits)
  then show "q \<notin> ff_pages t" "index_base \<le> q" "pages t' = (pages t)(q := p)" "root t' = root t"
    using a(2,4) by (auto simp: pages_of_def)
  show "arena_ok (index_arena t')" using r a unfolding arena_ok_def by (auto intro: exI [of _ "n + 1"])
  have fresh: "x = cur_alloc_addr ?a" if x: "cur_alloc_addr ?a \<le> x" "x < cur_alloc_addr ?a + sizeof_page" "sizeof_page dvd x - idx_start_addr ?a" for x
  proof -
    obtain m where "x - idx_start_addr ?a = sizeof_page * m" using x(3) by (elim dvdE)
    then have m: "x = idx_start_addr ?a + m * sizeof_page" using x(1) a(4) by (simp add: mult.commute)
    then have "n \<le> m" "m < n + 1" using x(1,2) a(4) by (simp_all add: sizeof_page_def)
    then show ?thesis using m a(4) by simp
  qed
  show "ff_pages t' = insert q (ff_pages t)"
  proof (rule set_eqI)
    fix x show "x \<in> ff_pages t' \<longleftrightarrow> x \<in> insert q (ff_pages t)"
      using r(1,4,5) a(4) fresh [of x] by (cases "x < cur_alloc_addr ?a") (auto simp: pages_of_def sizeof_page_def)
  qed
qed

end
