(* ===== verification/FF_Insert.thy ===== *)
theory FF_Insert
  imports FF_Update
begin

text \<open>
  \<open>store\<close> and \<open>btree_insert_internal\<close>: a call on a well-formed tree returns, and the tree it leaves is
  well formed and holds the new record, unless the index pool is exhausted.
\<close>

section \<open>New records\<close>

text \<open>
  What the caller of \<open>store\<close> guarantees. For a leaf: the value is not a null pointer, lies below the
  index pool and is bound to no other key (neighbouring records with equal pointers are taken for
  an insertion in progress). For an internal page: the pointer leads to a page one level down that starts at the
  key, and no page of the level does.
\<close>

definition store_pre :: "nat set \<Rightarrow> (nat \<Rightarrow> page) \<Rightarrow> nat \<Rightarrow> u64 \<Rightarrow> nat \<Rightarrow> bool" where
  "store_pre P h l key right \<longleftrightarrow> right \<noteq> 0 \<and>
     (if l = 0 then right < index_base \<and> (\<forall>k. (k, right) \<in> pairs P h \<longrightarrow> k = key)
      else child_ok P h l key right \<and> (\<forall>x \<in> P. lvl h x = l \<longrightarrow> fence h x \<noteq> key))"

lemma content_new:
  assumes c: "content_ok P h p" and hd: "level p' = level p" "leftmost_ptr p' = leftmost_ptr p" "fence_key p' = fence_key p" "\<not> is_deleted p'"
    and p': "page_has p' es'" "set es' \<subseteq> insert (key, right) (set (entries p))" "fence_key p \<le> key"
    and leaf: "level p = 0 \<Longrightarrow> right < index_base \<and> distinct (List.map snd es')"
    and inner: "level p \<noteq> 0 \<Longrightarrow> child_ok P h (level p) key right \<and> fence_key p \<noteq> key \<and> es' \<noteq> []"
  shows "content_ok P h p'"
proof (cases "level p = 0")
  case True
  then show ?thesis using c hd p' leaf page_has_entries [OF p'(1)] by (auto simp: content_ok_def leaf_ok_def)
next
  case False
  have "fence_key p < fst e \<and> child_ok P h (level p) (fst e) (snd e)" if "e \<in> set es'" for e
    using that c p'(2,3) inner [OF False] False by (cases "e = (key, right)") (auto simp: content_ok_def inner_ok_def)
  then show ?thesis using c hd p'(1) inner [OF False] page_has_entries [OF p'(1)] False by (simp add: content_ok_def inner_ok_def)
qed

lemma distinct_snd_insert:
  assumes "distinct (List.map snd es)" and "v \<notin> snd ` set es"
  shows "distinct (List.map snd (take j es @ (k, v) # drop j es))"
proof -
  have "distinct (List.map snd (take j es @ drop j es))" using assms(1) by simp
  moreover have "v \<notin> snd ` set (take j es)" "v \<notin> snd ` set (drop j es)"
    using assms(2) set_take_subset [of j es] set_drop_subset [of j es] by blast+
  ultimately show ?thesis unfolding map_append distinct_append by auto
qed

lemma distinct_snd_update:
  assumes "distinct (List.map snd es)" and "\<And>j. j < length es \<Longrightarrow> j \<noteq> i \<Longrightarrow> snd (es ! j) \<noteq> v"
  shows "distinct (List.map snd (es[i := (k, v)]))"
proof (cases "i < length es")
  case True
  then show ?thesis using assms unfolding distinct_conv_nth by (simp add: nth_list_update) (metis snd_conv)
qed (use assms(1) in \<open>simp add: list_update_beyond\<close>)

lemma set_update_binding:
  assumes "distinct (List.map fst es)" and "i < length es" and "fst (es ! i) = k"
  shows "set (es[i := (k, v)]) = {(k, v)} \<union> {e \<in> set es. fst e \<noteq> k}"
proof -
  have "set es - {es ! i} = {e \<in> set es. fst e \<noteq> k}"
    using assms by (auto simp: distinct_map dest: inj_onD [OF _ _ _ nth_mem])
  moreover have "distinct es" using assms(1) by (simp add: distinct_map)
  ultimately show ?thesis using set_update_distinct [OF _ assms(2), of "(k, v)"] by simp
qed

lemma covers_content:
  assumes inv: "heap_inv fw P r h" and c: "covers P h l key q"
  shows "content_ok P h (h q)" and "below_fence h (h q)" and "page_has (h q) (entries (h q))"
    and "fw \<longrightarrow> IS_FORWARD (switch_counter (h q))" and "q \<in> P" and "lvl h q = l" and "fence h q \<le> key"
    and "sib h q = 0 \<or> key < fence h (sib h q)" and "q \<noteq> 0"
  using c heap_inv_node [OF inv, of q] heap_inv_addr [OF inv, of q] node_ok_content [of fw P h q] node_ok_below [of fw P h q]
  by (auto simp: covers_def node_ok_def)

lemma ff_inv_change:
  assumes "ff_inv fw t" and "q \<in> ff_pages t" and "same_header (pages t q) p" and "fw \<longrightarrow> IS_FORWARD (switch_counter p)"
    and "content_ok (ff_pages t) (pages t) p" and "below_fence (pages t) p"
  shows "ff_inv fw (on_page q p t)"
proof -
  have "level (if x = q then p else pages t x) = lvl (pages t) x" for x using assms(3) by (simp add: same_header_def)
  then show ?thesis using assms(1) heap_inv_change [OF _ assms(2-6), of "root t"] by (simp add: ff_inv_def on_page_def)
qed

lemma pairs_change:
  assumes inv: "heap_inv fw P r h" and c: "covers P h l key q" and hd: "same_header (h q) p"
    and E: "set (entries p) = X \<union> {e \<in> set (entries (h q)). fst e \<noteq> key}"
  shows "l = 0 \<Longrightarrow> pairs P (h(q := p)) = X \<union> {e \<in> pairs P h. fst e \<noteq> key}" and "l \<noteq> 0 \<Longrightarrow> pairs P (h(q := p)) = pairs P h"
proof -
  show "pairs P (h(q := p)) = X \<union> {e \<in> pairs P h. fst e \<noteq> key}" if "l = 0"
    by (rule pairs_leaf_change [OF inv c [unfolded that] order_refl]) (use E c hd that in \<open>auto simp: leaf_set_def covers_def same_header_def\<close>)
  show "pairs P (h(q := p)) = pairs P h" if "l \<noteq> 0"
    by (rule pairs_same) (use c hd that in \<open>auto simp: leaf_set_def covers_def same_header_def\<close>)
qed

definition stores :: "nat \<Rightarrow> u64 \<Rightarrow> nat \<Rightarrow> btree \<Rightarrow> btree \<Rightarrow> bool" where
  "stores l key right t t' \<longleftrightarrow> ff_pairs t' = (if l = 0 then rebind key right (ff_pairs t) else ff_pairs t)"

lemma stores_change:
  assumes "ff_inv fw t" and "covers (ff_pages t) (pages t) l key q" and "same_header (pages t q) p"
    and "set (entries p) = {(key, right)} \<union> {e \<in> set (entries (pages t q)). fst e \<noteq> key}"
  shows "stores l key right t (on_page q p t)"
proof -
  have "heap_inv fw (ff_pages t) (root t) (pages t)" using assms(1) by (simp add: ff_inv_def)
  note p = pairs_change [OF this assms(2-4)]
  show ?thesis using p unfolding stores_def on_page_def rebind_def by simp
qed

lemma update_ok:
  assumes inv: "ff_inv fw t" and c: "covers (ff_pages t) (pages t) l key q" and pre: "store_pre (ff_pages t) (pages t) l key right"
    and i: "i < length (entries (pages t q))" "fst (entries (pages t q) ! i) = key"
  defines "t' \<equiv> on_page q (set_ptr i right (pages t q)) t"
  shows "ff_inv fw t'" and "stores l key right t t'"
proof -
  let ?P = "ff_pages t" and ?h = "pages t" and ?p = "pages t q" and ?es = "entries (pages t q)"
  have hi: "heap_inv fw ?P (root t) ?h" using inv by (simp add: ff_inv_def)
  note C = covers_content [OF hi c]
  have r0: "right \<noteq> 0" using pre by (simp add: store_pre_def)
  note S = set_ptr_has [OF C(3) i(1) r0, unfolded i(2)]
  note e = page_has_entries [OF S(1)]
  have "snd (?es ! j) \<noteq> right" if "j < length ?es" "j \<noteq> i" "l = 0" for j
  proof
    assume "snd (?es ! j) = right"
    then have "(fst (?es ! j), right) \<in> pairs ?P ?h" using C(5,6) that nth_mem [OF that(1)] by (auto simp: pairs_def intro!: bexI [of _ q])
    then have "fst (?es ! j) = key" using pre that(3) by (simp add: store_pre_def)
    then show False using page_has_fst_inj [OF C(3) that(1) i(1)] i(2) that(2) by simp
  qed
  then have d: "l = 0 \<Longrightarrow> distinct (List.map snd (?es[i := (key, right)]))"
    using C(1,6) by (intro distinct_snd_update) (auto simp: content_ok_def leaf_ok_def)
  have cn: "content_ok ?P ?h (set_ptr i right ?p)"
    by (rule content_new [OF C(1) _ _ _ _ S(1) set_update_subset_insert C(7)])
      (use S(2) C(1,5,6) d pre i(1) in \<open>auto simp: same_header_def content_ok_def store_pre_def\<close>)
  have sub: "set (?es[i := (key, right)]) \<subseteq> insert (key, right) (set ?es)" by (rule set_update_subset_insert)
  have bf: "below_fence ?h (set_ptr i right ?p)"
    unfolding below_fence_def e using sub C(2,8) S(2) by (auto simp: below_fence_def same_header_def)
  show "ff_inv fw t'" unfolding t'_def by (rule ff_inv_change [OF inv C(5) S(2) _ cn bf]) (use C(4) S(3) in simp)
  have "set (?es[i := (key, right)]) = {(key, right)} \<union> {e \<in> set ?es. fst e \<noteq> key}"
    by (rule set_update_binding [OF page_has_distinct [OF C(3)] i])
  then show "stores l key right t t'" unfolding t'_def using stores_change [OF inv c S(2)] e by simp
qed

lemma content_insert:
  assumes c: "content_ok P h p" and p': "page_has p' (take j (entries p) @ (key, right) # drop j (entries p))"
    and hd: "same_header p p'" and k: "fence_key p \<le> key"
    and leaf: "level p = 0 \<Longrightarrow> right < index_base \<and> right \<notin> snd ` set (entries p)"
    and inner: "level p \<noteq> 0 \<Longrightarrow> child_ok P h (level p) key right \<and> fence_key p \<noteq> key"
  shows "content_ok P h p'" and "set (entries p') = insert (key, right) (set (entries p))"
proof -
  let ?es = "take j (entries p) @ (key, right) # drop j (entries p)"
  have s: "set ?es = insert (key, right) (set (entries p))"
    using append_take_drop_id [of j "entries p"] by (metis Un_insert_right list.simps(15) set_append)
  then show "set (entries p') = insert (key, right) (set (entries p))" using page_has_entries [OF p'] by simp
  show "content_ok P h p'"
    by (rule content_new [OF c _ _ _ _ p' _ k])
      (use hd s c leaf inner distinct_snd_insert [of "entries p" right j key] in
        \<open>auto simp: same_header_def content_ok_def leaf_ok_def\<close>)
qed

lemma insert_content:
  assumes c: "content_ok P h p" and k: "key \<notin> fst ` set (entries p)" "fence_key p \<le> key" and r: "right \<noteq> 0"
    and n: "length (entries p) < cardinality - 1"
    and leaf: "level p = 0 \<longrightarrow> right < index_base \<and> right \<notin> snd ` set (entries p)"
    and inner: "level p \<noteq> 0 \<longrightarrow> child_ok P h (level p) key right \<and> fence_key p \<noteq> key"
  defines "p' \<equiv> snd (insert_key key right (length (entries p)) p)"
  shows "content_ok P h p'" and "set (entries p') = insert (key, right) (set (entries p))" and "same_header p p'"
    and "IS_FORWARD (switch_counter p')"
proof -
  have p: "page_has p (entries p)" using c by (simp add: content_ok_def)
  from insert_key_has [OF p k(1) r n] obtain j where
    j: "page_has p' (take j (entries p) @ (key, right) # drop j (entries p))" "same_header p p'" "IS_FORWARD (switch_counter p')"
    unfolding p'_def by metis
  then show "same_header p p'" "IS_FORWARD (switch_counter p')" by blast+
  show "content_ok P h p'" "set (entries p') = insert (key, right) (set (entries p))"
    by (rule content_insert [OF c j(1,2) k(2)]; use leaf inner in blast)+
qed

text \<open>A value that may be stored for a key the leaf does not have is not in the leaf.\<close>

lemma fresh_value:
  assumes "store_pre P h l key right" and "q \<in> P" and "lvl h q = l" and "l = 0" and "key \<notin> fst ` set (entries (h q))"
  shows "right \<notin> snd ` set (entries (h q))"
proof
  assume "right \<in> snd ` set (entries (h q))"
  then obtain k where k: "(k, right) \<in> set (entries (h q))" by auto
  then have "(k, right) \<in> pairs P h" using assms by (auto simp: pairs_def)
  then have "k = key" using assms by (simp add: store_pre_def)
  then show False using k assms(5) by force
qed

lemma store_new_ok:
  assumes inv: "ff_inv fw t" and c: "covers (ff_pages t) (pages t) l key q" and pre: "store_pre (ff_pages t) (pages t) l key right"
    and k: "key \<notin> fst ` set (entries (pages t q))" and n: "length (entries (pages t q)) < cardinality - 1"
  obtains pos t' where "store_new q key right le t = (note_shortcut q pos le, t')" and "ff_inv fw t'" and "stores l key right t t'"
proof -
  let ?P = "ff_pages t" and ?h = "pages t" and ?p = "pages t q" and ?es = "entries (pages t q)"
  have hi: "heap_inv fw ?P (root t) ?h" using inv by (simp add: ff_inv_def)
  note C = covers_content [OF hi c]
  have r0: "right \<noteq> 0" using pre by (simp add: store_pre_def)
  let ?p' = "snd (insert_key key right (length ?es) ?p)"
  have leaf: "level ?p = 0 \<longrightarrow> right < index_base \<and> right \<notin> snd ` set ?es"
    using pre C(5,6) fresh_value [OF pre C(5,6) _ k] by (simp add: store_pre_def)
  have inner: "level ?p \<noteq> 0 \<longrightarrow> child_ok ?P ?h (level ?p) key right \<and> fence_key ?p \<noteq> key"
    using pre C(5,6) by (simp add: store_pre_def)
  note I = insert_content [OF C(1) k C(7) r0 n leaf inner]
  have bf: "below_fence ?h ?p'"
    unfolding below_fence_def I(2) using C(2,8) I(3) by (auto simp: below_fence_def same_header_def)
  have "ff_inv fw (on_page q ?p' t)" using ff_inv_change [OF inv C(5) I(3) _ I(1) bf] I(4) by simp
  moreover have "stores l key right t (on_page q ?p' t)"
    by (rule stores_change [OF inv c I(3)]) (use I(2) k in force)
  moreover have "store_new q key right le t = (note_shortcut q (fst (insert_key key right (length ?es) ?p)) le, on_page q ?p' t)"
    using page_has_count [OF C(3)] by (simp add: store_new_def split_beta)
  ultimately show thesis using that by blast
qed

section \<open>Splitting\<close>

lemma content_subset:
  assumes c: "content_ok P h p" and hd: "level p' = level p" "leftmost_ptr p' = leftmost_ptr p" "fence_key p' = fence_key p" "\<not> is_deleted p'"
    and p': "page_has p' es'" "set es' \<subseteq> set (entries p)" "es' \<noteq> []" "distinct (List.map snd (entries p)) \<Longrightarrow> distinct (List.map snd es')"
  shows "content_ok P h p'"
proof -
  have e: "entries p' = es'" by (rule page_has_entries [OF p'(1)])
  show ?thesis
  proof (cases "level p = 0")
    case True
    then have "\<forall>e \<in> set es'. fence_key p \<le> fst e \<and> snd e < index_base" 
      using c p'(2) by (auto simp: content_ok_def leaf_ok_def)
    then show ?thesis using True c hd p' by (simp add: content_ok_def leaf_ok_def e)
  next
    case False
    then have "\<forall>e \<in> set es'. fence_key p < fst e \<and> child_ok P h (level p) (fst e) (snd e)"
      using c p'(2) by (auto simp: content_ok_def inner_ok_def)
    then show ?thesis using False c hd p' by (simp add: content_ok_def inner_ok_def e)
  qed
qed

lemma split_left_content:
  assumes c: "content_ok P h p" and n: "length (entries p) = 28"
  shows "content_ok P h (split_left s p)" and "entries (split_left s p) = take 14 (entries p)"
proof -
  let ?es = "entries p"
  have p: "page_has p ?es" using c by (simp add: content_ok_def)
  have L: "page_has (split_left s p) (take 14 ?es)" "same_header (p\<lparr>sibling_ptr := s\<rparr>) (split_left s p)"
    using split_left_has [OF p, of s] n by simp_all
  show e: "entries (split_left s p) = take 14 ?es" by (rule page_has_entries [OF L(1)])
  have ne: "take 14 ?es \<noteq> []" using n by auto
  have sub: "set (take 14 ?es) \<subseteq> set ?es" by (rule set_take_subset)
  show "content_ok P h (split_left s p)"
    by (rule content_subset [OF c _ _ _ _ L(1) sub ne])
      (use L(2) c in \<open>auto simp: same_header_def content_ok_def simp flip: take_map\<close>)
qed

lemma split_right_content:
  assumes c: "content_ok P h p" and n: "length (entries p) = 28" and leaf: "is_leaf p \<longleftrightarrow> level p = 0"
  defines "d \<equiv> (if is_leaf p then drop 14 (entries p) else drop 15 (entries p))"
  obtains s where "split_right p = (length (entries s), s)" and "content_ok P h s" and "entries s = d"
    and "IS_FORWARD (switch_counter s)" and "level s = level p" and "fence_key s = fst (entries p ! 14)" and "sibling_ptr s = sibling_ptr p"
proof -
  let ?es = "entries p"
  have p: "page_has p ?es" using c by (simp add: content_ok_def)
  obtain s where s: "split_right p = (length d, s)" "page_has s d" "IS_FORWARD (switch_counter s)" "level s = level p"
      "fence_key s = fst (?es ! 14)" "sibling_ptr s = sibling_ptr p" "\<not> is_deleted s"
      "leftmost_ptr s = (if is_leaf p then 0 else snd (?es ! 14))"
    by (rule split_right_has [OF p n]) (simp add: d_def)
  have e: "entries s = d" by (rule page_has_entries [OF s(2)])
  have sub: "set d \<subseteq> set ?es" unfolding d_def by (auto dest: in_set_dropD)
  have e14: "?es ! 14 \<in> set ?es" using n by simp
  have ge: "fst (?es ! 14) \<le> fst e" "\<not> is_leaf p \<Longrightarrow> fst (?es ! 14) < fst e" if e: "e \<in> set d" for e
  proof -
    obtain a i where a: "a = (if is_leaf p then 14 else 15)" "i < length (drop a ?es)" "e = drop a ?es ! i"
      using e unfolding d_def by (auto simp: in_set_conv_nth split: if_splits)
    then have i: "e = ?es ! (a + i)" "a + i < length ?es" using n by simp_all
    show "fst (?es ! 14) \<le> fst e"
      using page_has_less [OF p, of 14 "a + i"] i a(1) by (cases "a + i = 14") (auto simp: less_imp_le split: if_splits)
    show "fst (?es ! 14) < fst e" if "\<not> is_leaf p"
      using page_has_less [OF p, of 14 "a + i"] i a(1) that by simp
  qed
  have "content_ok P h s"
  proof (cases "level p = 0")
    case True
    have "distinct (List.map snd d)" using c True unfolding d_def by (auto simp: content_ok_def leaf_ok_def simp flip: drop_map)
    then show ?thesis using c True s e ge(1) sub leaf by (auto simp: content_ok_def leaf_ok_def)
  next
    case False
    then have ch: "child_ok P h (level p) (fst x) (snd x)" if "x \<in> set ?es" for x using c that by (simp add: content_ok_def inner_ok_def)
    have "d \<noteq> []" using n unfolding d_def by auto
    moreover have "fst (?es ! 14) < fst x \<and> child_ok P h (level p) (fst x) (snd x)" if "x \<in> set d" for x
      using ge(2) [OF that] subsetD [OF sub that] ch False leaf by simp
    ultimately have "inner_ok P h s" using False s(4,5,8) e ch [OF e14] leaf by (simp add: inner_ok_def)
    then show ?thesis using False s(2,4,7) e by (simp add: content_ok_def)
  qed
  then show thesis using that [of s] s e by simp
qed

text \<open>The two pages that take the place of a full one, with the new record in one of them.\<close>

definition split_pages :: "nat set \<Rightarrow> (nat \<Rightarrow> page) \<Rightarrow> nat \<Rightarrow> nat \<Rightarrow> u64 \<Rightarrow> u64 \<Rightarrow> nat \<Rightarrow> page \<Rightarrow> page \<Rightarrow> bool" where
  "split_pages P h q s sk key right pq ps \<longleftrightarrow>
     same_header ((h q)\<lparr>sibling_ptr := s\<rparr>) pq \<and> content_ok P h pq \<and> IS_FORWARD (switch_counter pq) \<and>
     (\<forall>e \<in> set (entries pq). fst e < sk) \<and> level ps = lvl h q \<and> fence_key ps = sk \<and> sibling_ptr ps = sib h q \<and>
     content_ok P h ps \<and> IS_FORWARD (switch_counter ps) \<and> below_fence h ps \<and>
     (lvl h q = 0 \<longrightarrow> set (entries pq) \<union> set (entries ps) = insert (key, right) (set (entries (h q))))"

lemma split_pages_ok:
  assumes inv: "heap_inv fw P r h" and c: "covers P h l key q" and pre: "store_pre P h l key right"
    and k: "key \<notin> fst ` set (entries (h q))" and n: "length (entries (h q)) = 28"
  defines "sk \<equiv> fst (entries (h q) ! 14)"
  obtains sr where "fst (split_right (h q)) = length (entries sr)" "snd (split_right (h q)) = sr"
    and "fence h q < sk" and "sib h q = 0 \<or> sk < fence h (sib h q)"
    and "key < sk \<Longrightarrow> split_pages P h q s sk key right (snd (insert_key key right 14 (split_left s (h q)))) sr"
    and "\<not> key < sk \<Longrightarrow> split_pages P h q s sk key right (split_left s (h q)) (snd (insert_key key right (length (entries sr)) sr))"
proof -
  let ?p = "h q" and ?es = "entries (h q)"
  note C = covers_content [OF inv c]
  have r0: "right \<noteq> 0" using pre by (simp add: store_pre_def)
  have leaf_iff: "is_leaf ?p \<longleftrightarrow> level ?p = 0" using is_leaf_iff [OF inv C(5)] by simp
  obtain sr where sr: "split_right ?p = (length (entries sr), sr)" "content_ok P h sr"
      "entries sr = (if is_leaf ?p then drop 14 ?es else drop 15 ?es)"
      "IS_FORWARD (switch_counter sr)" "level sr = level ?p" "fence_key sr = sk" "sibling_ptr sr = sibling_ptr ?p"
    by (rule split_right_content [OF C(1) n leaf_iff]) (simp add: sk_def)
  note L = split_left_content [OF C(1) n, of s]
  have LH: "same_header (?p\<lparr>sibling_ptr := s\<rparr>) (split_left s ?p)" "IS_FORWARD (switch_counter (split_left s ?p))"
    using split_left_has [OF C(3), of s] n by simp_all
  have e14: "?es ! 14 \<in> set ?es" "?es ! 0 \<in> set ?es" using n by simp_all
  have f0: "fence h q \<le> fst (?es ! 0)" using C(1) e14(2)
    by (cases "lvl h q = 0") (simp_all add: content_ok_def leaf_ok_def inner_ok_def order_less_imp_le)
  have "fst (?es ! 0) < sk" unfolding sk_def using page_has_less [OF C(3), of 0 14] n by simp
  with f0 have fq: "fence h q < sk" by simp
  have fs: "sib h q = 0 \<or> sk < fence h (sib h q)" using C(2) e14(1) by (auto simp: below_fence_def sk_def)
  have lt: "\<forall>e \<in> set (take 14 ?es). fst e < sk"
  proof
    fix e assume "e \<in> set (take 14 ?es)"
    then obtain i where "i < 14" "e = ?es ! i" using n by (auto simp: in_set_conv_nth)
    then show "fst e < sk" using page_has_less [OF C(3), of i 14] n by (simp add: sk_def)
  qed
  have sub: "set (entries sr) \<subseteq> set ?es" "set (take 14 ?es) \<subseteq> set ?es" unfolding sr(3) by (auto dest: in_set_dropD in_set_takeD)
  have kk: "key \<notin> fst ` set (entries sr)" "key \<notin> fst ` set (take 14 ?es)" using k sub by blast+
  have ne: "key \<noteq> sk" using k e14(1) by (auto simp: sk_def)
  have un: "lvl h q = 0 \<Longrightarrow> set (take 14 ?es) \<union> set (entries sr) = set ?es"
    unfolding sr(3) using leaf_iff by (simp flip: set_append)
  have leaf: "lvl h q = 0 \<longrightarrow> right < index_base \<and> right \<notin> snd ` set ?es"
    using pre C(5,6) fresh_value [OF pre C(5,6) _ k] by (simp add: store_pre_def)
  have inner: "lvl h q \<noteq> 0 \<longrightarrow> child_ok P h (lvl h q) key right \<and> fence h q \<noteq> key" using pre C(5,6) by (simp add: store_pre_def)
  have bf: "below_fence h sr" using C(2) sub(1) sr(7) by (auto simp: below_fence_def)
  let ?l = "split_left s ?p"
  have H: "level ?l = lvl h q" "fence_key ?l = fence h q" "entries ?l = take 14 ?es" "length (entries ?l) = 14"
    using LH(1) L(2) n by (simp_all add: same_header_def)
  have 1: "split_pages P h q s sk key right (snd (insert_key key right 14 ?l)) sr" if lo: "key < sk"
  proof -
    have X: "key \<notin> fst ` set (entries ?l)" "fence_key ?l \<le> key" "length (entries ?l) < cardinality - 1"
        "level ?l = 0 \<longrightarrow> right < index_base \<and> right \<notin> snd ` set (entries ?l)"
        "level ?l \<noteq> 0 \<longrightarrow> child_ok P h (level ?l) key right \<and> fence_key ?l \<noteq> key"
      using kk(2) C(7) leaf inner sub(2) by (auto simp: H cardinality_def)
    note I = insert_content [OF L(1) X(1,2) r0 X(3-5), unfolded H(4)]
    show ?thesis unfolding split_pages_def I(2) H(3)
      using I(1,3,4) LH(1) lt lo sr(2,4-7) bf un by (auto simp: same_header_def)
  qed
  have 2: "split_pages P h q s sk key right ?l (snd (insert_key key right (length (entries sr)) sr))" if hi: "\<not> key < sk"
  proof -
    have X: "fence_key sr \<le> key" "length (entries sr) < cardinality - 1"
        "level sr = 0 \<longrightarrow> right < index_base \<and> right \<notin> snd ` set (entries sr)"
        "level sr \<noteq> 0 \<longrightarrow> child_ok P h (level sr) key right \<and> fence_key sr \<noteq> key"
      using hi ne leaf inner sub(1) n by (auto simp: sr(3,5,6) cardinality_def dest: in_set_dropD)
    note I = insert_content [OF sr(2) kk(1) X(1) r0 X(2-4)]
    have "below_fence h (snd (insert_key key right (length (entries sr)) sr))"
      using bf C(8) I(3) unfolding below_fence_def I(2) by (auto simp: same_header_def sr(7))
    then show ?thesis unfolding split_pages_def I(2) H(3)
      using I(1,3,4) L(1) LH lt sr(4-7) un by (auto simp: same_header_def)
  qed
  show thesis using that [OF _ _ fq fs 1 2] sr(1) by simp
qed

lemma split_page_cases:
  assumes sp: "split_page q key right le t = Some (ret, sk, s, le', t')" and p: "page_has (pages t q) es" and n: "length es = 28"
    and ok: "arena_ok (index_arena t)" and q: "q \<in> ff_pages t"
  obtains pq ps pos where "sk = fst (es ! 14)" and "s \<notin> ff_pages t" and "index_base \<le> s" and "ff_pages t' = insert s (ff_pages t)"
    and "arena_ok (index_arena t')" and "root t' = root t" and "pages t' = (pages t)(q := pq, s := ps)" and "le' = note_shortcut ret pos le"
    and "ret \<in> {q, s}"
    and "key < sk \<and> pq = snd (insert_key key right 14 (split_left s (pages t q))) \<and> ps = snd (split_right (pages t q)) \<or>
      \<not> key < sk \<and> pq = split_left s (pages t q) \<and>
        ps = snd (insert_key key right (fst (split_right (pages t q))) (snd (split_right (pages t q))))"
proof -
  let ?p = "pages t q" and ?sr = "snd (split_right (pages t q))" and ?c = "fst (split_right (pages t q))"
  have m: "count ?p div 2 = 14" "records ?p 14 = es ! 14" using page_has_count [OF p] n page_has_nth [OF p, of 14] by simp_all
  obtain t1 where a: "page_alloc ?sr t = Some (s, t1)"
    using sp by (auto simp: split_page_def Let_def split_beta m split: option.splits if_splits)
  note A = page_alloc_result [OF ok a]
  have qs: "q \<noteq> s" using A(1) q by auto
  have sk: "sk = fst (es ! 14)" using sp a by (auto simp: split_page_def Let_def split_beta m split: if_splits)
  show thesis
  proof (cases "key < fst (es ! 14)")
    case True
    let ?l = "split_left s ?p"
    have r: "ret = q" "le' = note_shortcut q (fst (insert_key key right 14 ?l)) le"
        "t' = on_page q (snd (insert_key key right 14 ?l)) (on_page q ?l t1)"
      using sp a True by (auto simp: split_page_def Let_def split_beta m on_page_def)
    then have "pages t' = (pages t)(q := snd (insert_key key right 14 ?l), s := ?sr)"
      using A(5) qs by (auto simp: on_page_def fun_upd_twist)
    then show ?thesis using that [of _ ?sr] sk A r True by (simp add: on_page_def)
  next
    case False
    have r: "ret = s" "le' = note_shortcut s (fst (insert_key key right ?c ?sr)) le"
        "t' = on_page s (snd (insert_key key right ?c ?sr)) (on_page q (split_left s ?p) t1)"
      using sp a False A(5) qs by (auto simp: split_page_def Let_def split_beta m on_page_def)
    then have "pages t' = (pages t)(q := split_left s ?p, s := snd (insert_key key right ?c ?sr))"
      using A(5) qs by (auto simp: on_page_def fun_upd_twist)
    then show ?thesis using that [of "split_left s ?p"] sk A r False by (simp add: on_page_def)
  qed
qed

lemma split_page_ok:
  assumes inv: "ff_inv fw t" and c: "covers (ff_pages t) (pages t) l key q" and pre: "store_pre (ff_pages t) (pages t) l key right"
    and k: "key \<notin> fst ` set (entries (pages t q))" and n: "length (entries (pages t q)) = 28"
    and sp: "split_page q key right le t = Some (ret, sk, s, le', t')"
  shows "ret \<noteq> 0" and "s \<notin> ff_pages t" and "ff_pages t' = insert s (ff_pages t)" and "arena_ok (index_arena t')" and "root t' = root t"
    and "heap_inv fw (ff_pages t') (root t') (pages t')" and "lvl (pages t') s = l" and "fence (pages t') s = sk"
    and "fence (pages t) q < sk" and "\<And>x. x \<in> ff_pages t \<Longrightarrow> x \<noteq> q \<Longrightarrow> pages t' x = pages t x"
    and "lvl (pages t') q = l" and "fence (pages t') q = fence (pages t) q" and "stores l key right t t'"
    and "\<exists>pos. le' = note_shortcut ret pos le"
proof -
  let ?P = "ff_pages t" and ?h = "pages t" and ?es = "entries (pages t q)"
  have hi: "heap_inv fw ?P (root t) ?h" and ok: "arena_ok (index_arena t)" using inv by (simp_all add: ff_inv_def)
  note C = covers_content [OF hi c]
  obtain pq ps pos where S: "sk = fst (?es ! 14)" "s \<notin> ?P" "index_base \<le> s" "ff_pages t' = insert s ?P" "arena_ok (index_arena t')"
      "root t' = root t" "pages t' = ?h(q := pq, s := ps)" "le' = note_shortcut ret pos le" "ret \<in> {q, s}"
      "key < sk \<and> pq = snd (insert_key key right 14 (split_left s (?h q))) \<and> ps = snd (split_right (?h q)) \<or>
       \<not> key < sk \<and> pq = split_left s (?h q) \<and> ps = snd (insert_key key right (fst (split_right (?h q))) (snd (split_right (?h q))))"
    by (rule split_page_cases [OF sp C(3) n ok C(5)])
  have D: "split_pages ?P ?h q s sk key right pq ps \<and> fence ?h q < sk \<and> (sib ?h q = 0 \<or> sk < fence ?h (sib ?h q))"
    by (rule split_pages_ok [OF hi c pre k n, of s]) (use S(1,10) in auto)
  have qs: "q \<noteq> s" using C(5) S(2) by blast
  show "ret \<noteq> 0" using S(3,9) C(9) by (auto simp: index_base_def)
  show "heap_inv fw (ff_pages t') (root t') (pages t')" unfolding S(4,6,7)
    by (rule heap_inv_split [OF hi C(5) S(2,3), where sk = sk]) (use D in \<open>auto simp: split_pages_def\<close>)
  show "lvl (pages t') s = l" "fence (pages t') s = sk" "lvl (pages t') q = l" "fence (pages t') q = fence ?h q"
    using D qs C(6) by (auto simp: S(7) split_pages_def same_header_def)
  show "pages t' x = pages t x" if "x \<in> ff_pages t" "x \<noteq> q" for x using that S(2) by (auto simp: S(7))
  show "stores l key right t t'"
  proof (cases "l = 0")
    case True
    have u: "leaf_set pq \<union> leaf_set ps = insert (key, right) (set ?es)"
      using D C(6) True by (auto simp: split_pages_def leaf_set_def same_header_def)
    have "insert q (insert s ?P - ?P) = {q, s}" using S(2) by auto
    then have "(\<Union>x \<in> insert q (insert s ?P - ?P). leaf_set ((?h(q := pq, s := ps)) x)) = leaf_set pq \<union> leaf_set ps" using qs by simp
    also have "\<dots> = {(key, right)} \<union> {e \<in> leaf_set (?h q). fst e \<noteq> key}"
      unfolding u using k C(6) True by (force simp: leaf_set_def)
    finally have "pairs (ff_pages t') (pages t') = {(key, right)} \<union> {e \<in> pairs ?P ?h. fst e \<noteq> key}"
      unfolding S(4,7) using S(2) by (intro pairs_leaf_change [OF hi c [unfolded True]]) auto
    then show ?thesis using True by (simp add: stores_def rebind_def)
  next
    case False
    have "pairs (ff_pages t') (pages t') = pairs ?P ?h" unfolding S(4,7)
      by (rule pairs_same) (use D C(6) False S(2) qs in \<open>auto simp: split_pages_def leaf_set_def same_header_def\<close>)
    then show ?thesis using False by (simp add: stores_def)
  qed
  show "s \<notin> ff_pages t" "ff_pages t' = insert s (ff_pages t)" "arena_ok (index_arena t')" "root t' = root t" "fence (pages t) q < sk"
    "\<exists>pos. le' = note_shortcut ret pos le"
    using S D by blast+
qed

section \<open>The calls return\<close>

text \<open>
  What a leaf insertion does to the helper's old value and to the records: with no old value given, the
  record is replaced and the old value reported; with one given (a move by the collector), the
  record is replaced only if it still has that value, and otherwise the new value is reported.
\<close>

definition leaf_spec :: "u64 \<Rightarrow> nat \<Rightarrow> nat \<Rightarrow> (u64 \<times> nat) set \<Rightarrow> nat \<Rightarrow> (u64 \<times> nat) set \<Rightarrow> bool" where
  "leaf_spec key right old S old' S' \<longleftrightarrow>
     (\<forall>v. (key, v) \<in> S \<longrightarrow>
        (if old \<noteq> INVALID_VALUE \<and> v \<noteq> old then old' = right \<and> S' = S else old' = v \<and> S' = rebind key right S)) \<and>
     (key \<notin> fst ` S \<longrightarrow> old' = old \<and> S' = rebind key right S)"

definition store_post :: "bool \<Rightarrow> nat \<Rightarrow> u64 \<Rightarrow> nat \<Rightarrow> le_helper option \<Rightarrow> btree \<Rightarrow> nat \<times> le_helper option \<times> btree \<Rightarrow> bool" where
  "store_post fw l key right le t res \<longleftrightarrow>
     (let (ret, le', t') = res in
      ret \<noteq> 0 \<and> ff_inv fw t' \<and>
      (if l = 0 then \<forall>h. le = Some h \<longrightarrow> (\<exists>h'. le' = Some h' \<and> leaf_spec key right (old_val h) (ff_pairs t) (old_val h') (ff_pairs t'))
       else ff_pairs t' = ff_pairs t))"

abbreviation store_done :: "bool \<Rightarrow> nat \<Rightarrow> u64 \<Rightarrow> nat \<Rightarrow> le_helper option \<Rightarrow> btree \<Rightarrow> nat \<Rightarrow> bool" where
  "store_done fw l key right le t q \<equiv>
     \<exists>res. ff_run (Store q key right le) t = Some res \<and> (\<forall>r. res = Inr r \<longrightarrow> store_post fw l key right le t r) \<and>
       (\<forall>e. res = Inl e \<and> l = 0 \<longrightarrow> key \<notin> fst ` ff_pairs t)"

lemma store_walk:
  assumes inv: "heap_inv fw (ff_pages t) (root t) (pages t)" and "q \<in> ff_pages t" and "fence (pages t) q \<le> key"
  shows "\<exists>c. covers (ff_pages t) (pages t) (lvl (pages t) q) key c \<and> ff_run (Store q key right le) t = ff_run (Store c key right le) t"
  using assms(2,3)
proof (induction "mu (ff_pages t) (pages t) q" arbitrary: q rule: less_induct)
  case less
  show ?case
  proof (cases "covers (ff_pages t) (pages t) (lvl (pages t) q) key q")
    case False
    note n = not_covers [OF inv less.prems False]
    have "mu (ff_pages t) (pages t) (sib (pages t) q) < mu (ff_pages t) (pages t) q"
      using mu_right [OF _ n(2-4)] inv by (simp add: heap_inv_def)
    from less.hyps [OF this n(2,5)] have "\<exists>c. covers (ff_pages t) (pages t) (lvl (pages t) q) key c \<and>
        ff_run (Store (sib (pages t) q) key right le) t = ff_run (Store c key right le) t" unfolding n(3) .
    moreover have "ff_run (Store q key right le) t = ff_run (Store (sib (pages t) q) key right le) t"
      using heap_inv_node [OF inv less.prems(1)] n(1,5) by (subst ff_run.simps) (simp add: node_ok_def)
    ultimately show ?thesis by simp
  qed blast
qed

text \<open>What \<open>store\<close> does at the page that covers the key.\<close>

lemma store_at:
  assumes "ff_inv fw t" and "covers (ff_pages t) (pages t) l key q"
  shows "ff_run (Store q key right le) t =
     (case try_update q key right le t of
        Some (le, t) \<Rightarrow> Some (Inr (q, le, t))
      | None \<Rightarrow>
          if length (entries (pages t q)) < cardinality - 1 then
            (let (le, t) = store_new q key right le t in Some (Inr (q, le, t)))
          else
            (case split_page q key right le t of
               None \<Rightarrow> Some (Inl No_index_space)
             | Some (ret, split_key, s, le, t') \<Rightarrow>
                 if root t' = q then
                   (case page_alloc (page_grow q split_key s (l + 1)) t' of
                      None \<Rightarrow> Some (Inl No_index_space)
                    | Some (r, t) \<Rightarrow> Some (Inr (ret, le, setNewRoot r t)))
                 else
                   Option.bind (ff_run (Insert_internal split_key s (l + 1)) t')
                     (\<lambda>res. case res of Inl e \<Rightarrow> Some (Inl e) | Inr (_, _, t) \<Rightarrow> Some (Inr (ret, le, t)))))"
proof -
  have hi: "heap_inv fw (ff_pages t) (root t) (pages t)" using assms(1) by (simp add: ff_inv_def)
  note C = covers_content [OF hi assms(2)]
  have "\<not> is_deleted (pages t q)" using C(1) by (simp add: content_ok_def)
  then show ?thesis using covers_stays [OF assms(2)]
    unfolding ff_run.simps [of "Store q key right le" t] ff_call.case Let_def C(6) page_has_count [OF C(3)] by auto
qed

lemma ff_inv_heap: "ff_inv fw t \<Longrightarrow> heap_inv fw (ff_pages t) (root t) (pages t)"
  by (simp add: ff_inv_def)

lemma absent_pairs:
  assumes "heap_inv fw P r h" and "covers P h 0 key q" and "key \<notin> fst ` set (entries (h q))"
  shows "key \<notin> fst ` pairs P h"
  using pairs_covered [OF assms(1,2)] assms(3) by force

lemma post_absent:
  assumes "ret \<noteq> 0" and "ff_inv fw t'" and "stores l key right t t'" and "\<exists>pos. le' = note_shortcut p pos le"
    and "l = 0 \<Longrightarrow> key \<notin> fst ` ff_pairs t"
  shows "store_post fw l key right le t (ret, le', t')"
proof -
  have "leaf_spec key right old (ff_pairs t) old (rebind key right (ff_pairs t))" if "l = 0" for old
    using assms(5) [OF that] unfolding leaf_spec_def by (metis fst_conv image_eqI)
  then show ?thesis using assms(1-4) by (auto simp: store_post_def stores_def note_shortcut_def)
qed

lemma store_hit:
  assumes inv: "ff_inv fw t" and c: "covers (ff_pages t) (pages t) l key q" and pre: "store_pre (ff_pages t) (pages t) l key right"
    and k: "key \<in> fst ` set (entries (pages t q))"
  shows "store_done fw l key right le t q"
proof -
  let ?es = "entries (pages t q)"
  note hi = ff_inv_heap [OF inv]
  note C = covers_content [OF hi c]
  obtain i where i: "i < length ?es" "fst (?es ! i) = key" using k by (auto simp: in_set_conv_nth)
  note U = update_ok [OF inv c pre i]
  let ?t = "on_page q (set_ptr i right (pages t q)) t" and ?v = "snd (?es ! i)"
  have v: "rptr (pages t q) i = ?v" using page_has_nth [OF C(3) i(1)] by simp
  have f: "v = ?v" if "(key, v) \<in> ff_pairs t" "l = 0" for v
  proof -
    have "(key, ?v) \<in> set ?es" using nth_mem [OF i(1)] i(2) by (metis prod.collapse)
    then show ?thesis using pairs_functional [OF hi that(1)] pairs_covered [OF hi c [unfolded that(2)]] by blast
  qed
  have kp: "key \<in> fst ` ff_pairs t" if "l = 0" using k C(5,6) that by (force simp: pairs_def)
  have run: "ff_run (Store q key right le) t = Some (Inr (q, update_at q i right le t))"
    unfolding store_at [OF inv c] try_update_hit [OF C(3) i] by (simp add: split_beta)
  have "store_post fw l key right le t (q, update_at q i right le t)"
    using C(9) U inv v f kp
    by (auto simp: store_post_def update_at_def Let_def leaf_spec_def stores_def INVALID_VALUE_def split: option.splits)
  then show ?thesis using run by (intro exI [of _ "Inr (q, update_at q i right le t)"]) simp
qed

lemma store_room:
  assumes inv: "ff_inv fw t" and c: "covers (ff_pages t) (pages t) l key q" and pre: "store_pre (ff_pages t) (pages t) l key right"
    and k: "key \<notin> fst ` set (entries (pages t q))" and n: "length (entries (pages t q)) < cardinality - 1"
  shows "store_done fw l key right le t q"
proof -
  note hi = ff_inv_heap [OF inv]
  note C = covers_content [OF hi c]
  obtain pos t' where s: "store_new q key right le t = (note_shortcut q pos le, t')" "ff_inv fw t'" "stores l key right t t'"
    by (rule store_new_ok [OF inv c pre k n])
  have "ff_run (Store q key right le) t = Some (Inr (q, note_shortcut q pos le, t'))"
    unfolding store_at [OF inv c] try_update_miss [OF C(3) k] using n s(1) by simp
  moreover have "store_post fw l key right le t (q, note_shortcut q pos le, t')"
    by (rule post_absent [OF C(9) s(2,3), of _ q]) (use absent_pairs [OF hi _ k] c in auto)
  ultimately show ?thesis by (intro exI [of _ "Inr (q, note_shortcut q pos le, t')"]) simp
qed

lemma store_full_root:
  assumes inv: "ff_inv fw t" and c: "covers (ff_pages t) (pages t) l key q" and pre: "store_pre (ff_pages t) (pages t) l key right"
    and k: "key \<notin> fst ` set (entries (pages t q))" and n: "length (entries (pages t q)) = 28"
    and sp: "split_page q key right le t = Some (ret, sk, s, le', t1)" and root: "root t = q"
    and al: "page_alloc (page_grow q sk s (l + 1)) t1 = Some (r, t2)"
  shows "store_post fw l key right le t (ret, le', setNewRoot r t2)"
proof -
  note hi = ff_inv_heap [OF inv]
  note C = covers_content [OF hi c]
  note S = split_page_ok [OF inv c pre k n sp]
  note A = page_alloc_result [OF S(4) al]
  have l: "lvl (pages t1) (root t1) = l" "fence (pages t1) (root t1) = 0" "root t1 = q"
    using S(5,11,12) root fence_least [OF hi] inv by (auto simp: ff_inv_def)
  have s: "s \<in> ff_pages t1" "lvl (pages t1) s = lvl (pages t1) (root t1)" "0 < sk" using S(3,7,9) l(1) by (auto simp: word_gt_0)
  have "heap_inv fw (insert r (ff_pages t1)) r ((pages t1)(r := page_grow q sk s (l + 1)))"
    using heap_inv_grow [OF S(6) A(1,2) l(2) s(1,2) S(8) s(3)] l(1,3) by simp
  then have g: "heap_inv fw (ff_pages t2) r (pages t2)" unfolding A(3,5) .
  have lv: "lvl (pages t1) x \<le> l" if "x \<in> ff_pages t1" for x using S(6) that l(1) by (simp add: heap_inv_def)
  have "x = r" if "x \<in> ff_pages t2" "lvl (pages t2) x = lvl (pages t2) r" for x
    using that lv [of x] unfolding A(3,5) by (auto split: if_splits)
  then have i2: "ff_inv fw (setNewRoot r t2)" using g A(4) by (simp add: ff_inv_def setNewRoot_def)
  have "pairs (ff_pages t2) (pages t2) = ff_pairs t1"
    by (rule pairs_same) (use A(1) in \<open>auto simp: A(3,5) leaf_set_def\<close>)
  then have "stores l key right t (setNewRoot r t2)" using S(13) by (simp add: stores_def setNewRoot_def)
  then show ?thesis using S(14) absent_pairs [OF hi _ k] c by (intro post_absent [OF S(1) i2, of _ _ _ _ _ ret]) auto
qed

text \<open>The split key goes to the level above, by induction on the number of levels above.\<close>

lemma store_full_inner:
  assumes inv: "ff_inv fw t" and c: "covers (ff_pages t) (pages t) l key q" and pre: "store_pre (ff_pages t) (pages t) l key right"
    and k: "key \<notin> fst ` set (entries (pages t q))" and n: "length (entries (pages t q)) = 28"
    and sp: "split_page q key right le t = Some (ret, sk, s, le', t1)" and root: "root t \<noteq> q"
    and IH: "\<And>t q key right. ff_inv fw t \<Longrightarrow> q \<in> ff_pages t \<Longrightarrow> lvl (pages t) q = l + 1 \<Longrightarrow> fence (pages t) q \<le> key \<Longrightarrow>
      store_pre (ff_pages t) (pages t) (l + 1) key right \<Longrightarrow> lvl (pages t) (btree.root t) = m \<Longrightarrow> store_done fw (l + 1) key right None t q"
    and m: "lvl (pages t) (btree.root t) = m"
  shows "\<exists>res. ff_run (Insert_internal sk s (l + 1)) t1 = Some res \<and>
      (\<forall>r a t2. res = Inr (r, a, t2) \<longrightarrow> store_post fw l key right le t (ret, le', t2))"
proof -
  let ?P = "ff_pages t" and ?P1 = "ff_pages t1" and ?h = "pages t" and ?h1 = "pages t1"
  note hi = ff_inv_heap [OF inv]
  note C = covers_content [OF hi c]
  note S = split_page_ok [OF inv c pre k n sp]
  have rt: "btree.root t \<in> ?P" using hi by (simp add: heap_inv_def)
  have r1: "?h1 (btree.root t1) = ?h (btree.root t)" using S(5) S(10) [OF rt] root by simp
  have lq: "l < m" using inv C(5,6) hi root m by (fastforce simp: ff_inv_def heap_inv_def)
  have old: "lvl ?h1 x = lvl ?h x" if "x \<in> ?P" for x using S(10) [OF that] S(11) C(6) by (cases "x = q") auto
  have i1: "ff_inv fw t1" using inv S(3-7) old r1 lq m unfolding ff_inv_def by auto
  have f0: "fence ?h1 (btree.root t1) = 0" using r1 fence_least [OF hi] inv by (simp add: ff_inv_def)
  have nofence: "fence ?h1 x \<noteq> sk" if x: "x \<in> ?P1" "lvl ?h1 x = l + 1" for x
  proof
    assume fx: "fence ?h1 x = sk"
    have xp: "x \<in> ?P" "x \<noteq> q" using x S(3,7,11) by auto
    then have "?h1 x = ?h x" by (rule S(10))
    then have "inner_ok ?P ?h (?h1 x)" using heap_inv_node [OF hi xp(1)] x(2) by (simp add: node_ok_def)
    then have cp: "leftmost_ptr (?h1 x) \<in> ?P" by (simp add: inner_ok_def child_ok_def)
    have "inner_ok ?P1 ?h1 (?h1 x)" using heap_inv_node [OF S(6) x(1)] x(2) by (simp add: node_ok_def)
    then have "lvl ?h1 (leftmost_ptr (?h1 x)) = l" "fence ?h1 (leftmost_ptr (?h1 x)) = sk" "leftmost_ptr (?h1 x) \<in> ?P1"
      using x(2) fx by (simp_all add: inner_ok_def child_ok_def)
    then have "leftmost_ptr (?h1 x) = s" using heap_inv_inj [OF S(6), of _ s] S(3,7,8) by auto
    then show False using cp S(2) by simp
  qed
  have s0: "s \<noteq> 0" using heap_inv_addr [OF S(6), of s] S(3) by simp
  have pre1: "store_pre ?P1 ?h1 (l + 1) sk s" using S(3,7,8) s0 nofence by (simp add: store_pre_def child_ok_def)
  have "\<exists>d. descend ?h1 (\<lambda>p. level p \<le> l + 1) sk (btree.root t1) = Some d \<and> d \<in> ?P1 \<and> lvl ?h1 d = l + 1 \<and> fence ?h1 d \<le> sk"
    by (rule descend_ends [OF S(6)]) (use S(6) f0 lq m r1 in \<open>auto simp: heap_inv_def\<close>)
  then obtain d where d: "descend ?h1 (\<lambda>p. level p \<le> l + 1) sk (btree.root t1) = Some d" "d \<in> ?P1" "lvl ?h1 d = l + 1" "fence ?h1 d \<le> sk"
    by blast
  from IH [OF i1 d(2-4) pre1] r1 m obtain res where
    res: "ff_run (Store d sk s None) t1 = Some res" "\<And>r. res = Inr r \<Longrightarrow> store_post fw (l + 1) sk s None t1 r" by auto
  have "\<not> l + 1 > lvl ?h1 (btree.root t1)" using lq m r1 by simp
  then have run: "ff_run (Insert_internal sk s (l + 1)) t1 =
      (case res of Inl e \<Rightarrow> Some (Inl e)
       | Inr (r, _, t) \<Rightarrow> if r = 0 then ff_run (Insert_internal sk s (l + 1)) t else Some (Inr (r, None, t)))"
    using d(1) res(1) by (subst ff_run.simps) (simp del: add_0_right One_nat_def Nat.add_Suc_right)
  show ?thesis
  proof (cases res)
    case (Inr r)
    obtain r0 a t2 where r: "r = (r0, a, t2)" by (cases r) auto
    have p: "r0 \<noteq> 0" "ff_inv fw t2" "ff_pairs t2 = ff_pairs t1" using res(2) [OF Inr] by (simp_all add: store_post_def r)
    have "stores l key right t t2" using S(13) p(3) by (simp add: stores_def)
    then have "store_post fw l key right le t (ret, le', t2)"
      using S(14) absent_pairs [OF hi _ k] c by (intro post_absent [OF S(1) p(2), of _ _ _ _ _ ret]) auto
    then show ?thesis using run Inr r p(1) by simp
  qed (use run in simp)
qed

lemma store_full:
  assumes inv: "ff_inv fw t" and c: "covers (ff_pages t) (pages t) l key q" and pre: "store_pre (ff_pages t) (pages t) l key right"
    and k: "key \<notin> fst ` set (entries (pages t q))" and full: "\<not> length (entries (pages t q)) < cardinality - 1"
    and IH: "\<And>t q key right. l < m \<Longrightarrow> ff_inv fw t \<Longrightarrow> q \<in> ff_pages t \<Longrightarrow> lvl (pages t) q = l + 1 \<Longrightarrow> fence (pages t) q \<le> key \<Longrightarrow>
      store_pre (ff_pages t) (pages t) (l + 1) key right \<Longrightarrow> lvl (pages t) (root t) = m \<Longrightarrow> store_done fw (l + 1) key right None t q"
    and m: "lvl (pages t) (root t) = m"
  shows "store_done fw l key right le t q"
proof -
  note hi = ff_inv_heap [OF inv]
  note C = covers_content [OF hi c]
  have n: "length (entries (pages t q)) = 28" using full C(3) by (simp add: page_has_def cardinality_def)
  have nk: "l = 0 \<Longrightarrow> key \<notin> fst ` ff_pairs t" using absent_pairs [OF hi _ k] c by blast
  note run = store_at [OF inv c, of right le, unfolded try_update_miss [OF C(3) k] option.case if_not_P [OF full]]
  show ?thesis
  proof (cases "split_page q key right le t")
    case (Some a)
    obtain ret sk s le' t1 where a: "a = (ret, sk, s, le', t1)" by (cases a)
    note sp = Some [unfolded a]
    have root: "root t1 = root t" by (rule split_page_ok(5) [OF inv c pre k n sp])
    show ?thesis
    proof (cases "root t = q")
      case True
      show ?thesis
      proof (cases "page_alloc (page_grow q sk s (l + 1)) t1")
        case al: (Some b)
        obtain r t2 where b: "b = (r, t2)" by (cases b)
        have "store_post fw l key right le t (ret, le', setNewRoot r t2)"
          by (rule store_full_root [OF inv c pre k n sp True al [unfolded b]])
        then show ?thesis unfolding run sp using True root al b by simp
      qed (unfold run sp, use True root nk in auto)
    next
      case False
      have "l < m" using inv C(5,6) hi False m by (fastforce simp: ff_inv_def heap_inv_def)
      note I = IH [OF this]
      obtain res where "ff_run (Insert_internal sk s (l + 1)) t1 = Some res"
          "\<And>r a t2. res = Inr (r, a, t2) \<Longrightarrow> store_post fw l key right le t (ret, le', t2)"
        using store_full_inner [OF inv c pre k n sp False I m] by blast
      then show ?thesis unfolding run sp using False root nk by (cases res) auto
    qed
  qed (unfold run, use nk in auto)
qed

lemma store_returns:
  assumes "ff_inv fw t" and "q \<in> ff_pages t" and "lvl (pages t) q = l" and "fence (pages t) q \<le> key"
    and "store_pre (ff_pages t) (pages t) l key right" and "lvl (pages t) (root t) = m"
  shows "store_done fw l key right le t q"
  using assms
proof (induction "m - l" arbitrary: t q l key right le rule: less_induct)
  case less
  note hi = ff_inv_heap [OF less.prems(1)]
  obtain c where c: "covers (ff_pages t) (pages t) l key c" and w: "ff_run (Store q key right le) t = ff_run (Store c key right le) t"
    using store_walk [OF hi less.prems(2,4), of right le] less.prems(3) by auto
  have "store_done fw l key right le t c"
  proof (cases "key \<in> fst ` set (entries (pages t c))")
    case k: False
    show ?thesis
    proof (cases "length (entries (pages t c)) < cardinality - 1")
      case full: False
      show ?thesis
        by (rule store_full [OF less.prems(1) c less.prems(5) k full _ less.prems(6)], rule less.hyps) (assumption | simp)+
    qed (rule store_room [OF less.prems(1) c less.prems(5) k])
  qed (rule store_hit [OF less.prems(1) c less.prems(5)])
  then show ?case unfolding w .
qed

end
