(* ===== verification/FF_Index.thy ===== *)
theory FF_Index
  imports FF_Insert
begin

text \<open>
  The operations of \<open>btree\<close> on a well-formed tree: searches, insertions, deletions and scans, with the
  records of the leaves as a set of pairs.
\<close>

section \<open>Searching and inserting\<close>

lemma root_leaf:
  assumes "ff_inv fw t"
  shows "\<exists>q. descend (pages t) is_leaf key (root t) = Some q \<and> q \<in> ff_pages t \<and> lvl (pages t) q = 0 \<and> fence (pages t) q \<le> key"
proof -
  note hi = ff_inv_heap [OF assms]
  have r: "root t \<in> ff_pages t" "fence (pages t) (root t) = 0"
    using hi fence_least [OF hi] assms by (auto simp: ff_inv_def heap_inv_def)
  show ?thesis by (rule descend_ends [OF hi is_leaf_iff [OF hi] r(1)]) (use r(2) in auto)
qed

lemma btree_search_ok:
  assumes inv: "ff_inv fw t"
  shows "(key, v) \<in> ff_pairs t \<Longrightarrow> btree_search key t = Some v"
    and "key \<notin> fst ` ff_pairs t \<Longrightarrow> btree_search key t = Some 0"
proof -
  obtain q where q: "descend (pages t) is_leaf key (root t) = Some q" "q \<in> ff_pages t" "lvl (pages t) q = 0" "fence (pages t) q \<le> key"
    using root_leaf [OF inv, of key] by blast
  obtain c where "\<And>v. (key, v) \<in> ff_pairs t \<Longrightarrow> search_leaves (pages t) key q = Some (c, v)"
      "key \<notin> fst ` ff_pairs t \<Longrightarrow> search_leaves (pages t) key q = Some (if sib (pages t) c = 0 then 0 else c, 0)"
    using search_leaves_ends [OF ff_inv_heap [OF inv] q(2-4)] by blast
  then show "(key, v) \<in> ff_pairs t \<Longrightarrow> btree_search key t = Some v" "key \<notin> fst ` ff_pairs t \<Longrightarrow> btree_search key t = Some 0"
    using q(1) by (auto simp: btree_search_def)
qed

lemma btree_search_total: "ff_inv fw t \<Longrightarrow> \<exists>v. btree_search key t = Some v"
  using btree_search_ok [of fw t key] by force

lemma btree_search_Some:
  assumes "ff_inv fw t" and "v \<noteq> 0"
  shows "btree_search key t = Some v \<longleftrightarrow> (key, v) \<in> ff_pairs t"
proof (cases "key \<in> fst ` ff_pairs t")
  case True
  then obtain w where w: "(key, w) \<in> ff_pairs t" by force
  have "(key, v) \<in> ff_pairs t \<longleftrightarrow> v = w" using pairs_functional [OF ff_inv_heap [OF assms(1)] w, of v] w by blast
  then show ?thesis using btree_search_ok(1) [OF assms(1) w] by auto
next
  case False
  then show ?thesis using btree_search_ok(2) [OF assms(1) False] assms(2) by force
qed

lemma btree_insert_ok:
  assumes inv: "ff_inv fw t" and pre: "store_pre (ff_pages t) (pages t) 0 key v"
  shows "\<exists>res. btree_insert key v le t = Some res \<and>
    (\<forall>le' t'. res = Inr (le', t') \<longrightarrow>
       ff_inv fw t' \<and> (\<exists>h. le' = Some h \<and> leaf_spec key v (old_val le) (ff_pairs t) (old_val h) (ff_pairs t'))) \<and>
    (\<forall>e. res = Inl e \<longrightarrow> key \<notin> fst ` ff_pairs t)"
proof -
  obtain q where q: "descend (pages t) is_leaf key (root t) = Some q" "q \<in> ff_pages t" "lvl (pages t) q = 0" "fence (pages t) q \<le> key"
    using root_leaf [OF inv, of key] by blast
  obtain res where r: "ff_run (Store q key v (Some le)) t = Some res"
      "\<And>x. res = Inr x \<Longrightarrow> store_post fw 0 key v (Some le) t x" "\<And>e. res = Inl e \<Longrightarrow> key \<notin> fst ` ff_pairs t"
    using store_returns [OF inv q(2-4) pre refl, of "Some le"] by auto
  have run: "btree_insert key v le t =
      (case res of Inl e \<Rightarrow> Some (Inl e)
       | Inr (ret, le', t) \<Rightarrow> if ret = 0 then btree_insert key v (case le' of None \<Rightarrow> le | Some h \<Rightarrow> h) t else Some (Inr (le', t)))"
    using q(1) r(1) by (subst btree_insert.simps) simp
  show ?thesis
  proof (cases res)
    case (Inr x)
    obtain ret le' t' where x: "x = (ret, le', t')" by (cases x)
    have "ret \<noteq> 0" "ff_inv fw t'" "\<exists>h. le' = Some h \<and> leaf_spec key v (old_val le) (ff_pairs t) (old_val h) (ff_pairs t')"
      using r(2) [OF Inr] by (simp_all add: store_post_def x)
    then show ?thesis using run Inr x by auto
  qed (use run r(3) in auto)
qed

lemma btree_new_ok:
  assumes "arena_ok a" and "cur_alloc_addr a = idx_start_addr a" and "btree_new a h = Some t"
  shows "ff_inv True t" and "ff_pairs t = {}"
proof -
  let ?t0 = "\<lparr>root = 0, height = 1, pages = h, index_arena = a\<rparr>"
  obtain q t1 where al: "page_alloc (page_new 0) ?t0 = Some (q, t1)" and t: "t = t1\<lparr>root := q\<rparr>"
    using assms(3) by (auto simp: btree_new_def split: option.splits)
  have ok: "arena_ok (index_arena ?t0)" using assms(1) by simp
  note A = page_alloc_result [OF ok al]
  have "pages_of a = {}" using assms(2) by (auto simp: pages_of_def)
  then have P: "ff_pages t = {q}" using A(3) t by simp
  have pg: "pages t q = page_new 0" using A(5) t by simp
  have e: "entries (page_new 0) = []" by (rule page_has_entries [OF page_has_new])
  have "node_ok True {q} (pages t) q"
    using page_has_new [of 0] by (auto simp: node_ok_def pg links_ok_def leaf_ok_def e) (simp_all add: page_new_def IS_FORWARD_def)
  then have "heap_inv True {q} q (pages t)" using A(2) by (auto simp: heap_inv_def pg page_new_def)
  then show "ff_inv True t" using A(4) P t by (simp add: ff_inv_def)
  show "ff_pairs t = {}" using P pg e by (simp add: pairs_def)
qed

section \<open>Deleting\<close>

lemma heap_inv_weaken: "heap_inv fw P r h \<Longrightarrow> heap_inv False P r h"
  by (auto simp: heap_inv_def node_ok_def)

lemma ff_inv_weaken: "ff_inv fw t \<Longrightarrow> ff_inv False t"
  using heap_inv_weaken by (auto simp: ff_inv_def)

text \<open>Removing a record of a leaf.\<close>

lemma remove_ok:
  assumes inv: "ff_inv fw t" and c: "covers (ff_pages t) (pages t) 0 key q"
  defines "t' \<equiv> on_page q (snd (remove_key key (pages t q))) t"
  shows "ff_inv False t'" and "ff_pairs t' = {e \<in> ff_pairs t. fst e \<noteq> key}" and "fst (remove_key key (pages t q)) \<longleftrightarrow> key \<in> fst ` ff_pairs t"
    and "sib (pages t') x = sib (pages t) x" and "fence (pages t') x = fence (pages t) x" and "lvl (pages t') x = lvl (pages t) x"
proof -
  let ?p = "pages t q" and ?es = "entries (pages t q)" and ?p' = "snd (remove_key key (pages t q))"
  have inv': "ff_inv False t" by (rule ff_inv_weaken [OF inv])
  note hi = ff_inv_heap [OF inv']
  note C = covers_content [OF hi c]
  have R: "page_has ?p' (filter (\<lambda>e. fst e \<noteq> key) ?es) \<and> same_header ?p ?p' \<and> (fst (remove_key key ?p) \<longleftrightarrow> key \<in> fst ` set ?es)"
  proof (cases "key \<in> fst ` set ?es")
    case True
    then obtain v as bs where es: "?es = as @ (key, v) # bs" by (force dest: split_list)
    have d: "distinct (List.map fst ?es)" by (rule page_has_distinct [OF C(3)])
    have "filter (\<lambda>e. fst e \<noteq> key) ?es = as @ bs"
      using d unfolding es by (simp add: image_iff) (metis (mono_tags, lifting) filter_True)
    then show ?thesis using remove_key_has [OF C(3) [unfolded es]] True by simp
  next
    case False
    then have "filter (\<lambda>e. fst e \<noteq> key) ?es = ?es" by (force simp: filter_id_conv)
    then show ?thesis using remove_key_absent [OF C(3) False] False by simp
  qed
  then have e: "entries ?p' = filter (\<lambda>e. fst e \<noteq> key) ?es" by (simp add: page_has_entries)
  have "leaf_ok ?p" using C(1,6) by (simp add: content_ok_def)
  then have "leaf_ok ?p'" using R by (auto simp: leaf_ok_def e same_header_def distinct_map_filter)
  then have cn: "content_ok (ff_pages t) (pages t) ?p'" using C(1,6) R by (simp add: content_ok_def e same_header_def)
  have bf: "below_fence (pages t) ?p'" using C(2) R by (auto simp: below_fence_def e same_header_def)
  show "ff_inv False t'" unfolding t'_def by (rule ff_inv_change [OF inv' C(5) _ _ cn bf]) (use R in auto)
  have "pairs (ff_pages t) ((pages t)(q := ?p')) = {} \<union> {e \<in> pairs (ff_pages t) (pages t). fst e \<noteq> key}"
    by (rule pairs_change(1) [OF hi c]) (use R e in auto)
  then show "ff_pairs t' = {e \<in> ff_pairs t. fst e \<noteq> key}" by (simp add: t'_def on_page_def)
  have "key \<in> fst ` set ?es \<longleftrightarrow> key \<in> fst ` ff_pairs t" using pairs_covered [OF hi c] by force
  then show "fst (remove_key key ?p) \<longleftrightarrow> key \<in> fst ` ff_pairs t" using R by simp
  show "sib (pages t') x = sib (pages t) x" "fence (pages t') x = fence (pages t) x" "lvl (pages t') x = lvl (pages t) x"
    using R by (auto simp: t'_def on_page_def same_header_def)
qed

lemma delete_search:
  assumes inv: "ff_inv fw t"
  obtains q c where "descend (pages t) is_leaf key (root t) = Some q" and "covers (ff_pages t) (pages t) 0 key c" and "c \<noteq> 0"
    and "key \<in> fst ` ff_pairs t \<Longrightarrow> \<exists>v. search_leaves (pages t) key q = Some (c, v)"
    and "key \<notin> fst ` ff_pairs t \<Longrightarrow> search_leaves (pages t) key q = Some (if sib (pages t) c = 0 then 0 else c, 0)"
proof -
  obtain q where q: "descend (pages t) is_leaf key (root t) = Some q" "q \<in> ff_pages t" "lvl (pages t) q = 0" "fence (pages t) q \<le> key"
    using root_leaf [OF inv, of key] by blast
  obtain c where c: "covers (ff_pages t) (pages t) 0 key c" "\<And>v. (key, v) \<in> ff_pairs t \<Longrightarrow> search_leaves (pages t) key q = Some (c, v)"
      "key \<notin> fst ` ff_pairs t \<Longrightarrow> search_leaves (pages t) key q = Some (if sib (pages t) c = 0 then 0 else c, 0)"
    using search_leaves_ends [OF ff_inv_heap [OF inv] q(2-4)] by blast
  have "\<exists>v. search_leaves (pages t) key q = Some (c, v)" if "key \<in> fst ` ff_pairs t" using that c(2) by force
  then show thesis using that [OF q(1) c(1) covers_content(9) [OF ff_inv_heap [OF inv] c(1)]] c(3) by blast
qed

lemma btree_delete_found:
  assumes inv: "ff_inv fw t" and k: "key \<in> fst ` ff_pairs t"
  shows "\<exists>t'. btree_delete key t = Some t' \<and> ff_inv False t' \<and> ff_pairs t' = {e \<in> ff_pairs t. fst e \<noteq> key}"
proof -
  obtain q c v where d: "descend (pages t) is_leaf key (root t) = Some q" "covers (ff_pages t) (pages t) 0 key c" "c \<noteq> 0"
      "search_leaves (pages t) key q = Some (c, v)"
    using delete_search [OF inv, of key] k by metis
  note R = remove_ok [OF inv d(2)]
  have "btree_delete key t = Some (on_page c (snd (remove_key key (pages t c))) t)"
    using d R(3) k by (subst btree_delete.simps) (simp add: split_beta Let_def)
  then show ?thesis using R(1,2) by blast
qed

lemma btree_delete_last:
  assumes inv: "ff_inv fw t" and k: "key \<notin> fst ` ff_pairs t" and c: "covers (ff_pages t) (pages t) 0 key c" "sib (pages t) c = 0"
  shows "btree_delete key t = Some t"
proof -
  obtain q c' where d: "descend (pages t) is_leaf key (root t) = Some q" "covers (ff_pages t) (pages t) 0 key c'"
      "search_leaves (pages t) key q = Some (if sib (pages t) c' = 0 then 0 else c', 0)"
    using delete_search [OF inv, of key] k by metis
  have "c' = c" by (rule covers_unique [OF ff_inv_heap [OF inv] d(2) c(1)])
  then show ?thesis using d c(2) by (subst btree_delete.simps) simp
qed

text \<open>
  An absent key in a leaf that has a right sibling: the search stops at the leaf with nothing found, the
  removal fails, and the call starts again on a tree that holds the same records.
\<close>

lemma btree_delete_retries:
  assumes inv: "ff_inv fw t" and k: "key \<notin> fst ` ff_pairs t" and c: "covers (ff_pages t) (pages t) 0 key c" "sib (pages t) c \<noteq> 0"
  obtains q t' where "descend (pages t) is_leaf key (root t) = Some q" and "search_leaves (pages t) key q = Some (c, 0)" and "c \<noteq> 0"
    and "\<not> fst (remove_key key (pages t c))" and "t' = on_page c (snd (remove_key key (pages t c))) t"
    and "ff_inv False t'" and "key \<notin> fst ` ff_pairs t'" and "covers (ff_pages t') (pages t') 0 key c" and "sib (pages t') c \<noteq> 0"
proof -
  obtain q c' where d: "descend (pages t) is_leaf key (root t) = Some q" "covers (ff_pages t) (pages t) 0 key c'" "c' \<noteq> 0"
      "search_leaves (pages t) key q = Some (if sib (pages t) c' = 0 then 0 else c', 0)"
    using delete_search [OF inv, of key] k by metis
  have c': "c' = c" by (rule covers_unique [OF ff_inv_heap [OF inv] d(2) c(1)])
  note R = remove_ok [OF inv c(1)]
  have "ff_pages (on_page c (snd (remove_key key (pages t c))) t) = ff_pages t" by (simp add: on_page_def)
  then have "covers (ff_pages (on_page c (snd (remove_key key (pages t c))) t)) (pages (on_page c (snd (remove_key key (pages t c))) t)) 0 key c"
    using c(1) R(4-6) by (simp add: covers_def)
  then show thesis using that [OF d(1) _ _ _ refl R(1)] d(3,4) c' c(2) R(2-4) k by auto
qed

definition stuck :: "u64 \<Rightarrow> nat \<Rightarrow> btree \<Rightarrow> bool" where
  "stuck key c t \<longleftrightarrow> ff_inv False t \<and> key \<notin> fst ` ff_pairs t \<and> covers (ff_pages t) (pages t) 0 key c \<and> sib (pages t) c \<noteq> 0"

lemma btree_delete_stuck: "btree_delete key t = Some t' \<Longrightarrow> \<not> stuck key c t"
proof (rule btree_delete.raw_induct [where P = "\<lambda>key t t'. \<not> stuck key c t"])
  fix f key t t'
  assume IH: "\<And>key t t'. f key t = Some t' \<Longrightarrow> \<not> stuck key c t"
    and body: "Option.bind (descend (pages t) is_leaf key (root t))
      (\<lambda>q. Option.bind (search_leaves (pages t) key q)
        (\<lambda>(q, _). if q = 0 then Some t
          else let (found, p) = remove_key key (pages t q); t = on_page q p t in if found then Some t else f key t)) = Some t'"
  show "\<not> stuck key c t"
  proof
    assume "stuck key c t"
    then have a: "ff_inv False t" "key \<notin> fst ` ff_pairs t" "covers (ff_pages t) (pages t) 0 key c" "sib (pages t) c \<noteq> 0"
      by (simp_all add: stuck_def)
    obtain q t'' where r: "descend (pages t) is_leaf key (root t) = Some q" "search_leaves (pages t) key q = Some (c, 0)" "c \<noteq> 0"
        "\<not> fst (remove_key key (pages t c))" "t'' = on_page c (snd (remove_key key (pages t c))) t"
        "ff_inv False t''" "key \<notin> fst ` ff_pairs t''" "covers (ff_pages t'') (pages t'') 0 key c" "sib (pages t'') c \<noteq> 0"
      by (rule btree_delete_retries [OF a])
    have "f key t'' = Some t'" using body r(1-5) by (simp add: split_beta Let_def)
    then show False using IH [of key t'' t'] r(6-9) by (simp add: stuck_def)
  qed
qed

lemma btree_delete_diverges:
  assumes "ff_inv fw t" and "key \<notin> fst ` ff_pairs t" and "covers (ff_pages t) (pages t) 0 key c" and "sib (pages t) c \<noteq> 0"
  shows "btree_delete key t = None"
  using btree_delete_stuck [of key t _ c] ff_inv_weaken [OF assms(1)] assms(2-4) by (cases "btree_delete key t") (auto simp: stuck_def)

section \<open>Scanning\<close>

definition after :: "u64 \<Rightarrow> (u64 \<times> nat) list \<Rightarrow> nat list" where
  "after lo es = List.map snd (filter (\<lambda>e. lo < fst e) es)"

lemma after_append [simp]: "after lo (es @ fs) = after lo es @ after lo fs" by (simp add: after_def)

lemma range_loop_collects:
  assumes p: "page_has p es" and d: "distinct (List.map snd es)" and "n = length es" and "i \<le> n" and "length vec \<le> cnt"
  shows "\<exists>go. range_loop (\<lambda>k vec. length vec < cnt) lo p [i..<n] vec = (vec @ take (cnt - length vec) (after lo (drop i es)), go) \<and>
     (\<not> go \<longrightarrow> cnt \<le> length vec + length (after lo (drop i es)))"
  using assms(3-5)
proof (induction "n - i" arbitrary: i vec)
  case (Suc m)
  have i: "i < n" "[i..<n] = i # [i + 1..<n]" using Suc.hyps(2) by (simp_all add: upt_rec [of i n])
  have r: "records p i = es ! i" "snd (es ! i) \<noteq> 0" using page_has_nth [OF p, of i] i Suc.prems(1) by auto
  have ne: "rptr p i \<noteq> (if i = 0 then 0 else rptr p (i - 1))"
    using r page_has_nth [OF p, of "i - 1"] nth_eq_iff_index_eq [OF d, of i "i - 1"] i(1) Suc.prems(1) by auto
  have dr: "drop i es = es ! i # drop (i + 1) es" using i(1) Suc.prems(1) by (simp add: Cons_nth_drop_Suc)
  have "m = n - (i + 1)" "i + 1 \<le> n" using Suc.hyps(2) by simp_all
  note IH = Suc.hyps(1) [OF this(1) Suc.prems(1) this(2)]
  show ?case
  proof (cases "lo < fst (es ! i)")
    case True
    then have a: "after lo (drop i es) = snd (es ! i) # after lo (drop (i + 1) es)" by (simp add: after_def dr)
    show ?thesis
    proof (cases "length vec < cnt")
      case len: True
      from IH [of "vec @ [snd (es ! i)]"] len obtain go where
        g: "range_loop (\<lambda>k vec. length vec < cnt) lo p [i + 1..<n] (vec @ [snd (es ! i)]) =
            ((vec @ [snd (es ! i)]) @ take (cnt - length (vec @ [snd (es ! i)])) (after lo (drop (i + 1) es)), go)"
          "\<not> go \<longrightarrow> cnt \<le> length (vec @ [snd (es ! i)]) + length (after lo (drop (i + 1) es))" by auto
      have "take (cnt - length vec) (snd (es ! i) # after lo (drop (i + 1) es)) =
          snd (es ! i) # take (cnt - length (vec @ [snd (es ! i)])) (after lo (drop (i + 1) es))"
        using len by (simp add: take_Cons' diff_Suc)
      then show ?thesis using g True len r ne unfolding i(2) a by simp
    qed (use True r i(2) Suc.prems(3) a in \<open>auto intro!: exI [of _ False]\<close>)
  next
    case False
    then have "after lo (drop i es) = after lo (drop (i + 1) es)" by (simp add: after_def dr)
    then show ?thesis using IH [of vec] i Suc.prems(3) False r by simp
  qed
qed (auto simp: after_def)

lemma range_page:
  assumes p: "page_has p es" and d: "distinct (List.map snd es)" and fw: "IS_FORWARD (switch_counter p)" and n: "length vec \<le> cnt"
  shows "\<exists>go. range_loop (\<lambda>k vec. length vec < cnt) lo p (range_order p) vec = (vec @ take (cnt - length vec) (after lo es), go) \<and>
     (\<not> go \<longrightarrow> cnt \<le> length vec + length (after lo es))"
proof (cases "es = []")
  case True
  then have "range_order p = [0]" "rptr p 0 = 0"
    using fw page_has_first_null_1 [OF p] p by (simp_all add: range_order_def page_has_def)
  then show ?thesis using n True by (auto simp: after_def)
next
  case False
  then have "range_order p = 0 # [1..<length es]" "0 < length es"
    using fw page_has_first_null_1 [OF p] by (auto simp: range_order_def max_def Suc_le_eq)
  then have "range_order p = [0..<length es]" by (simp add: upt_conv_Cons)
  then show ?thesis using range_loop_collects [OF p d refl _ n, of 0 lo] by simp
qed

lemma leaf_records:
  assumes inv: "heap_inv True P r h" and q: "q \<in> P" "lvl h q = 0"
  shows "{e \<in> pairs P h. fence h q \<le> fst e} =
    set (entries (h q)) \<union> (if sib h q = 0 then {} else {e \<in> pairs P h. fence h (sib h q) \<le> fst e})"
proof -
  have n: "links_ok P h q" "leaf_ok (h q)" using heap_inv_node [OF inv q(1)] q(2) by (simp_all add: node_ok_def)
  have A: "e \<in> set (entries (h q))" if e: "e \<in> pairs P h" "fence h q \<le> fst e" "sib h q = 0 \<or> fst e < fence h (sib h q)" for e
  proof -
    have "covers P h 0 (fst e) q" using e(2,3) q by (auto simp: covers_def)
    from pairs_covered [OF inv this, of "snd e"] show ?thesis using e(1) by simp
  qed
  have B: "e \<in> pairs P h \<and> fence h q \<le> fst e" if "e \<in> set (entries (h q))" for e
    using that q n(2) by (auto simp: pairs_def leaf_ok_def)
  have D: "fence h q \<le> x" if "sib h q \<noteq> 0" "fence h (sib h q) \<le> x" for x
    using n(1) that by (auto simp: links_ok_def)
  show ?thesis
  proof (cases "sib h q = 0")
    case True
    then show ?thesis using A B by auto
  next
    case False
    have "e \<in> set (entries (h q)) \<or> fence h (sib h q) \<le> fst e" if "e \<in> pairs P h" "fence h q \<le> fst e" for e
      using A [OF that] by (cases "fst e < fence h (sib h q)") (simp_all add: not_less)
    then show ?thesis using B D [OF False] False by auto
  qed
qed

lemma linear_search_range_collects:
  assumes inv: "heap_inv True P r h" and "q \<in> P" and "lvl h q = 0" and "length vec \<le> cnt"
  shows "\<exists>es. sorted_wrt (<) (List.map fst es) \<and> set es = {e \<in> pairs P h. fence h q \<le> fst e} \<and>
      linear_search_range (\<lambda>k vec. length vec < cnt) h lo q vec = Some (vec @ take (cnt - length vec) (after lo es))"
  using assms(2-4)
proof (induction "mu P h q" arbitrary: q vec rule: less_induct)
  case less
  have n: "page_has (h q) (entries (h q))" "IS_FORWARD (switch_counter (h q))" "links_ok P h q" "leaf_ok (h q)"
    using heap_inv_node [OF inv less.prems(1)] less.prems(2) by (simp_all add: node_ok_def)
  let ?es = "entries (h q)"
  have sd: "sorted_wrt (<) (List.map fst ?es)" using n(1) by (simp add: page_has_def)
  have d: "distinct (List.map snd ?es)" using n(4) by (simp add: leaf_ok_def)
  let ?v = "vec @ take (cnt - length vec) (after lo ?es)"
  obtain go where g: "range_loop (\<lambda>k vec. length vec < cnt) lo (h q) (range_order (h q)) vec = (?v, go)"
      "\<not> go \<longrightarrow> cnt \<le> length vec + length (after lo ?es)"
    using range_page [OF n(1) d n(2) less.prems(3)] by blast
  have q0: "q \<noteq> 0" using heap_inv_addr [OF inv less.prems(1)] by simp
  have run: "linear_search_range (\<lambda>k vec. length vec < cnt) h lo q vec =
      (if go then linear_search_range (\<lambda>k vec. length vec < cnt) h lo (sib h q) ?v else Some ?v)"
    using g(1) q0 by (subst linear_search_range.simps) simp
  note L = leaf_records [OF inv less.prems(1,2)]
  show ?case
  proof (cases "sib h q = 0")
    case True
    have "linear_search_range (\<lambda>k vec. length vec < cnt) h lo 0 ?v = Some ?v" by (subst linear_search_range.simps) simp
    then show ?thesis using run True L sd by (intro exI [of _ ?es]) simp
  next
    case False
    then have s: "sib h q \<in> P" "lvl h (sib h q) = 0" "fence h q < fence h (sib h q)" "\<forall>e \<in> set ?es. fst e < fence h (sib h q)"
      using n(3) less.prems(2) by (simp_all add: links_ok_def)
    have "mu P h (sib h q) < mu P h q" using mu_right [OF _ s(1) _ s(3)] s(2) less.prems(2) inv by (simp add: heap_inv_def)
    moreover have "length ?v \<le> cnt" using less.prems(3) by simp
    ultimately obtain fs where fs: "sorted_wrt (<) (List.map fst fs)" "set fs = {e \<in> pairs P h. fence h (sib h q) \<le> fst e}"
        "linear_search_range (\<lambda>k vec. length vec < cnt) h lo (sib h q) ?v = Some (?v @ take (cnt - length ?v) (after lo fs))"
      using less.hyps s(1,2) by blast
    have "sorted_wrt (<) (List.map fst (?es @ fs))"
      using sd fs(1,2) s(4) by (auto simp: sorted_wrt_append)
    moreover have "set (?es @ fs) = {e \<in> pairs P h. fence h q \<le> fst e}" using L False fs(2) by simp
    moreover have "linear_search_range (\<lambda>k vec. length vec < cnt) h lo q vec = Some (vec @ take (cnt - length vec) (after lo (?es @ fs)))"
      using run fs(3) g(2) less.prems(3) by (cases go) (auto simp: min_def)
    ultimately show ?thesis by blast
  qed
qed

lemma btree_search_range_ok:
  assumes inv: "ff_inv True t"
  shows "\<exists>es. sorted_wrt (<) (List.map fst es) \<and> set es = {e \<in> ff_pairs t. lo < fst e} \<and>
     btree_search_range lo cnt t = Some (List.map snd (take cnt es))"
proof -
  obtain q where q: "descend (pages t) is_leaf lo (root t) = Some q" "q \<in> ff_pages t" "lvl (pages t) q = 0" "fence (pages t) q \<le> lo"
    using root_leaf [OF inv, of lo] by blast
  obtain es where es: "sorted_wrt (<) (List.map fst es)" "set es = {e \<in> ff_pairs t. fence (pages t) q \<le> fst e}"
      "linear_search_range (\<lambda>k vec. length vec < cnt) (pages t) lo q [] = Some (take cnt (after lo es))"
    using linear_search_range_collects [OF ff_inv_heap [OF inv] q(2,3), of "[]" cnt lo] by auto
  let ?es = "filter (\<lambda>e. lo < fst e) es"
  have "sorted_wrt (<) (List.map fst ?es)" using es(1) unfolding sorted_wrt_map by (rule sorted_wrt_filter)
  moreover have "fence (pages t) q \<le> k" if "lo < k" for k using q(4) that by (meson order_less_imp_le order_trans)
  then have "set ?es = {e \<in> ff_pairs t. lo < fst e}" unfolding set_filter es(2) by blast
  moreover have "btree_search_range lo cnt t = Some (List.map snd (take cnt ?es))"
    using q(1) es(3) by (simp add: btree_search_range_def after_def take_map)
  ultimately show ?thesis by blast
qed

end
