(* ===== verification/FF_Shortcut.thy ===== *)
theory FF_Shortcut
  imports FF_Index
begin

text \<open>
  The fast path of the collector in the FAST and FAIR tree (\<open>btree_try_update\<close>, used with \<open>GC_SHORTCUT\<close>): the
  helper's shortcut names a leaf and a position; the key may have moved in that leaf or to its
  right sibling since.
\<close>

section \<open>Operations\<close>

text \<open>The swap of the value at one position: only the expected old value is replaced.\<close>

definition swap_at :: "nat \<Rightarrow> nat \<Rightarrow> nat \<Rightarrow> le_helper \<Rightarrow> btree \<Rightarrow> le_helper \<times> btree" where
  "swap_at q i right le t =
     (let p = pages t q in
      if rptr p i = old_val le then (le, on_page q (set_ptr i right p) t) else (le\<lparr>old_val := right\<rparr>, t))"

text \<open>The key is still in the page, at another position.\<close>

definition find_in_page :: "nat \<Rightarrow> u64 \<Rightarrow> nat \<Rightarrow> le_helper \<Rightarrow> btree \<Rightarrow> bool \<times> le_helper \<times> btree" where
  "find_in_page q key right le t =
     (let p = pages t q; n = nat (last_index p + 1) in
      if rkey p 0 \<le> key \<and> key \<le> rkey p (n - 1) then
        (case List.find (\<lambda>i. rkey p i = key) [0..<n] of
           None \<Rightarrow> (False, le, t)
         | Some i \<Rightarrow> (True, swap_at q i right (le\<lparr>shortcut := (q, i), fast_path := True\<rparr>) t))
      else (False, le, t))"

definition btree_try_update ::
  "u64 \<Rightarrow> nat \<Rightarrow> le_helper \<Rightarrow> btree \<Rightarrow> (ff_error + (bool \<times> le_helper \<times> btree)) option" where
  "btree_try_update key new_val le t =
     (let (q, pos) = shortcut le; p = pages t q in
      if is_deleted p then Some (Inr (False, le, t))
      else if pos < nat (last_index p + 1) \<and> rkey p pos = key then
        Some (Inr (True, swap_at q pos new_val (le\<lparr>fast_path := True\<rparr>) t))
      else
        let (ret, le, t) = find_in_page q key new_val le t; s = sibling_ptr p; sp = pages t s in
        if s \<noteq> 0 \<and> rkey sp 0 \<le> key \<and> key \<le> rkey sp (nat (last_index sp + 1) - 1) then
          map_option (\<lambda>res. case res of
              Inl e \<Rightarrow> Inl e
            | Inr (_, le', t) \<Rightarrow> Inr (True, (case le' of None \<Rightarrow> le | Some h \<Rightarrow> h), t))
            (ff_run (Store s key new_val (Some (le\<lparr>fast_path := True\<rparr>))) t)
        else Some (Inr (ret, le, t)))"

section \<open>It does what an insertion does\<close>

lemma leaf_covers:
  assumes inv: "ff_inv fw t" and q: "q \<in> ff_pages t" "lvl (pages t) q = 0" and e: "e \<in> set (entries (pages t q))"
  shows "covers (ff_pages t) (pages t) 0 (fst e) q"
  using heap_inv_node [OF ff_inv_heap [OF inv] q(1)] q e
  by (auto simp: node_ok_def leaf_ok_def links_ok_def covers_def split: if_splits)

lemma swap_at_ok:
  assumes inv: "ff_inv fw t" and q: "q \<in> ff_pages t" "lvl (pages t) q = 0" and i: "i < length (entries (pages t q))"
    and k: "fst (entries (pages t q) ! i) = key" and pre: "store_pre (ff_pages t) (pages t) 0 key right" and old: "old_val le \<noteq> INVALID_VALUE"
  defines "r \<equiv> swap_at q i right le t"
  shows "ff_inv fw (snd r)" and "leaf_spec key right (old_val le) (ff_pairs t) (old_val (fst r)) (ff_pairs (snd r))"
proof -
  let ?es = "entries (pages t q)"
  note hi = ff_inv_heap [OF inv]
  have c: "covers (ff_pages t) (pages t) 0 key q" using leaf_covers [OF inv q nth_mem [OF i]] k by simp
  note C = covers_content [OF hi c]
  note U = update_ok [OF inv c pre i k]
  have v: "rptr (pages t q) i = snd (?es ! i)" using page_has_nth [OF C(3) i] by simp
  have p: "(key, snd (?es ! i)) \<in> ff_pairs t" using q nth_mem [OF i] k by (auto simp: pairs_def)
  have u: "w = snd (?es ! i)" if "(key, w) \<in> ff_pairs t" for w using pairs_functional [OF hi that p] .
  show "ff_inv fw (snd r)" using U(1) inv by (simp add: r_def swap_at_def Let_def)
  have s: "ff_pairs (on_page q (set_ptr i right (pages t q)) t) = rebind key right (ff_pairs t)" using U(2) by (simp add: stores_def)
  have n: "key \<in> fst ` ff_pairs t" using p by force
  show "leaf_spec key right (old_val le) (ff_pairs t) (old_val (fst r)) (ff_pairs (snd r))"
  proof (cases "rptr (pages t q) i = old_val le")
    case True
    then have "r = (le, on_page q (set_ptr i right (pages t q)) t)" by (simp add: r_def swap_at_def)
    then show ?thesis using n u v s True by (auto simp: leaf_spec_def)
  next
    case False
    then have "r = (le\<lparr>old_val := right\<rparr>, t)" by (simp add: r_def swap_at_def)
    then show ?thesis using n u [THEN sym] v old False by (auto simp: leaf_spec_def)
  qed
qed

lemma find_in_page_found:
  assumes p: "page_has (pages t q) es" and r: "find_in_page q key right le t = (True, le', t')"
  shows "\<exists>i < length es. fst (es ! i) = key \<and> (le', t') = swap_at q i right (le\<lparr>shortcut := (q, i), fast_path := True\<rparr>) t"
proof -
  have n: "nat (last_index (pages t q) + 1) = length es" using p by (simp add: page_has_def)
  obtain i where i: "List.find (\<lambda>i. rkey (pages t q) i = key) [0..<length es] = Some i"
      "(le', t') = swap_at q i right (le\<lparr>shortcut := (q, i), fast_path := True\<rparr>) t"
    using r by (auto simp: find_in_page_def Let_def n split: if_splits option.splits)
  then have "i < length es" "rkey (pages t q) i = key" by (auto simp: find_Some_iff)
  then show ?thesis using i(2) page_has_nth [OF p, of i] by (intro exI [of _ i]) auto
qed

lemma find_in_page_missed: "find_in_page q key right le t = (False, le', t') \<Longrightarrow> le' = le \<and> t' = t"
  by (auto simp: find_in_page_def Let_def split: if_splits option.splits)

lemma try_update_correct:
  assumes inv: "ff_inv fw t" and q: "q \<in> ff_pages t" "lvl (pages t) q = 0" and sc: "shortcut le = (q, pos)"
    and old: "old_val le \<noteq> INVALID_VALUE" and pre: "store_pre (ff_pages t) (pages t) 0 key v" and bound: "key \<in> fst ` ff_pairs t"
    and sib: "sib (pages t) q \<noteq> 0 \<longrightarrow> entries (pages t (sib (pages t) q)) \<noteq> []"
  shows "\<exists>ok le' t'. btree_try_update key v le t = Some (Inr (ok, le', t')) \<and>
    (if ok then ff_inv fw t' \<and> leaf_spec key v (old_val le) (ff_pairs t) (old_val le') (ff_pairs t') else t' = t \<and> old_val le' = old_val le)"
proof -
  let ?p = "pages t q" and ?es = "entries (pages t q)" and ?s = "sib (pages t) q"
  note hi = ff_inv_heap [OF inv]
  have nd: "node_ok fw (ff_pages t) (pages t) q" by (rule heap_inv_node [OF hi q(1)])
  then have p: "page_has ?p ?es" "\<not> is_deleted ?p" by (simp_all add: node_ok_def)
  have n: "nat (last_index ?p + 1) = length ?es" using p(1) by (simp add: page_has_def)
  consider (hit) "pos < length ?es" "rkey ?p pos = key" | (find) "\<not> (pos < length ?es \<and> rkey ?p pos = key)" by blast
  then show ?thesis
  proof cases
    case hit
    then have "fst (?es ! pos) = key" using page_has_nth [OF p(1)] by auto
    note S = swap_at_ok [OF inv q hit(1) this pre, of "le\<lparr>fast_path := True\<rparr>"]
    have "btree_try_update key v le t = Some (Inr (True, swap_at q pos v (le\<lparr>fast_path := True\<rparr>) t))"
      using hit p(2) by (simp add: btree_try_update_def sc n)
    then show ?thesis using S old by (cases "swap_at q pos v (le\<lparr>fast_path := True\<rparr>) t") auto
  next
    case find
    obtain ret le1 t1 where f: "find_in_page q key v le t = (ret, le1, t1)" by (cases "find_in_page q key v le t") auto
    let ?sp = "pages t1 ?s"
    let ?c = "?s \<noteq> 0 \<and> rkey ?sp 0 \<le> key \<and> key \<le> rkey ?sp (nat (last_index ?sp + 1) - 1)"
    have run: "btree_try_update key v le t = (if ?c
        then map_option (\<lambda>res. case res of Inl e \<Rightarrow> Inl e | Inr (_, le', t) \<Rightarrow> Inr (True, (case le' of None \<Rightarrow> le1 | Some h \<Rightarrow> h), t))
            (ff_run (Store ?s key v (Some (le1\<lparr>fast_path := True\<rparr>))) t1)
        else Some (Inr (ret, le1, t1)))"
    proof -
      have nf: "(pos < length ?es \<and> rkey ?p pos = key) = False" using find by simp
      show ?thesis unfolding btree_try_update_def sc Let_def prod.case n nf f using p(2) by simp
    qed
    show ?thesis
    proof (cases ret)
      case True
      obtain i where i: "i < length ?es" "fst (?es ! i) = key" "(le1, t1) = swap_at q i v (le\<lparr>shortcut := (q, i), fast_path := True\<rparr>) t"
        using find_in_page_found [OF p(1), of key v le le1 t1] f True by auto
      note S = swap_at_ok [OF inv q i(1,2) pre, of "le\<lparr>shortcut := (q, i), fast_path := True\<rparr>", folded i(3)]
      have "\<not> ?c"
      proof
        assume c: ?c
        have lk: "?s \<in> ff_pages t" "lvl (pages t) ?s = 0" "key < fence (pages t) ?s"
          using nd c q(2) nth_mem [OF i(1)] i(2) by (auto simp: node_ok_def links_ok_def split: if_splits)
        then have "?s \<noteq> q" using nd c by (auto simp: node_ok_def links_ok_def split: if_splits)
        then have sp: "?sp = pages t ?s" using i(3) by (auto simp: swap_at_def Let_def on_page_def split: if_splits)
        have s: "page_has (pages t ?s) (entries (pages t ?s))" "leaf_ok (pages t ?s)"
          using heap_inv_node [OF hi lk(1)] lk(2) by (simp_all add: node_ok_def)
        have "entries (pages t ?s) ! 0 \<in> set (entries (pages t ?s))" using sib c by (intro nth_mem) simp
        then have "fence (pages t) ?s \<le> rkey (pages t ?s) 0"
          using s(2) page_has_nth [OF s(1), of 0] sib c by (auto simp: leaf_ok_def)
        then show False using c lk(3) unfolding sp by (meson leD order_trans)
      qed
      then show ?thesis using run True S old by auto
    next
      case False
      then have e: "le1 = le" "t1 = t" using find_in_page_missed [of q key v le t le1 t1] f by simp_all
      show ?thesis
      proof (cases ?c)
        case c: True
        have lk: "?s \<in> ff_pages t" "lvl (pages t) ?s = 0" using nd c q(2) by (auto simp: node_ok_def links_ok_def split: if_splits)
        have s: "page_has (pages t ?s) (entries (pages t ?s))" "leaf_ok (pages t ?s)"
          using heap_inv_node [OF hi lk(1)] lk(2) by (simp_all add: node_ok_def)
        have "entries (pages t ?s) ! 0 \<in> set (entries (pages t ?s))" using sib c by (intro nth_mem) simp
        then have "fence (pages t) ?s \<le> rkey (pages t ?s) 0"
          using s(2) page_has_nth [OF s(1), of 0] sib c by (auto simp: leaf_ok_def)
        then have "fence (pages t) ?s \<le> key" using c e(2) by (meson order_trans)
        from store_returns [OF inv lk this pre refl, of "Some (le\<lparr>fast_path := True\<rparr>)"] obtain res where
          res: "ff_run (Store ?s key v (Some (le\<lparr>fast_path := True\<rparr>))) t = Some res"
            "\<forall>r. res = Inr r \<longrightarrow> store_post fw 0 key v (Some (le\<lparr>fast_path := True\<rparr>)) t r" "\<forall>x. res = Inl x \<longrightarrow> key \<notin> fst ` ff_pairs t"
          by blast
        obtain a le' t' where r: "res = Inr (a, le', t')" using res(3) bound by (cases res) auto
        have "store_post fw 0 key v (Some (le\<lparr>fast_path := True\<rparr>)) t (a, le', t')" using res(2) r by blast
        then obtain h where h: "le' = Some h" "ff_inv fw t'" "leaf_spec key v (old_val le) (ff_pairs t) (old_val h) (ff_pairs t')"
          by (auto simp: store_post_def)
        have "btree_try_update key v le t = Some (Inr (True, h, t'))" using run c res(1) r h(1) unfolding e by simp
        then show ?thesis using h(2,3) by auto
      next
        case False
        then show ?thesis using run \<open>\<not> ret\<close> e by auto
      qed
    qed
  qed
qed

end
