(* ===== verification/Fair_Store.thy ===== *)
theory Fair_Store
  imports FF_Shortcut Flat_Store
begin

text \<open>
  FlatStore with the index of the default build: \<open>FastFairIndex\<close> (\<^verbatim>\<open>db/index_fastfair.h\<close>) over the B+-tree,
  its laws as an interpretation of \<open>flat_index\<close>, and the theorems about the store opened with it.
  The code compares page pointers with values only for equality, and the mapping of the index is
  disjoint from the log, so the model places the index pool at \<open>index_base\<close> and above, out of
  reach of log addresses.
\<close>

section \<open>The index\<close>

text \<open>\<open>exited\<close>: an insertion ran out of index space and ended the process.\<close>

record fair_index =
  ff_tree :: btree
  exited :: bool

definition fair_Get :: "u64 \<Rightarrow> fair_index \<Rightarrow> nat" where
  "fair_Get key s = (case btree_search key (ff_tree s) of None \<Rightarrow> INVALID_VALUE | Some v \<Rightarrow> v)"

text \<open>\<open>Put\<close> and \<open>GCMove\<close> are both \<open>btree_insert\<close>; they differ in the old value of the helper.\<close>

definition fair_upsert :: "u64 \<Rightarrow> nat \<Rightarrow> nat \<Rightarrow> fair_index \<Rightarrow> nat \<times> fair_index" where
  "fair_upsert key old v s =
     (case btree_insert key v \<lparr>old_val = old, shortcut = (0, 0), fast_path = False\<rparr> (ff_tree s) of
        Some (Inr (Some le, t)) \<Rightarrow> (old_val le, s\<lparr>ff_tree := t\<rparr>)
      | _ \<Rightarrow> (INVALID_VALUE, s\<lparr>exited := True\<rparr>))"

definition fair_Put :: "u64 \<Rightarrow> nat \<Rightarrow> fair_index \<Rightarrow> nat \<times> fair_index" where
  "fair_Put key v s = fair_upsert key INVALID_VALUE v s"

definition fair_GCMove :: "u64 \<Rightarrow> nat \<Rightarrow> nat \<Rightarrow> fair_index \<Rightarrow> nat \<times> fair_index" where
  "fair_GCMove key old v s = fair_upsert key old v s"

text \<open>\<open>GCMove\<close> in the build with \<open>GC_SHORTCUT\<close>: the insertion runs when there is no shortcut or it is of no use.\<close>

definition fair_GCMove_shortcut :: "u64 \<Rightarrow> nat \<Rightarrow> nat \<Rightarrow> (nat \<times> nat) option \<Rightarrow> fair_index \<Rightarrow> nat \<times> fair_index" where
  "fair_GCMove_shortcut key old v sc s =
     (case sc of
        None \<Rightarrow> fair_upsert key old v s
      | Some sc \<Rightarrow>
          (case btree_try_update key v \<lparr>old_val = old, shortcut = sc, fast_path = False\<rparr> (ff_tree s) of
             Some (Inr (True, le, t)) \<Rightarrow> (old_val le, s\<lparr>ff_tree := t\<rparr>)
           | Some (Inr (False, le, t)) \<Rightarrow> fair_upsert key (old_val le) v (s\<lparr>ff_tree := t\<rparr>)
           | _ \<Rightarrow> (INVALID_VALUE, s\<lparr>exited := True\<rparr>)))"

definition fair_Scan :: "u64 \<Rightarrow> nat \<Rightarrow> fair_index \<Rightarrow> nat list option" where
  "fair_Scan key cnt s = btree_search_range key cnt (ff_tree s)"

definition fair_ops :: "fair_index index_ops" where
  "fair_ops = \<lparr>ix_get = fair_Get, ix_put = fair_Put, ix_gc = fair_GCMove, ix_scan = fair_Scan\<rparr>"

definition fair_new :: "arena \<Rightarrow> (nat \<Rightarrow> page) \<Rightarrow> fair_index option" where
  "fair_new a h = map_option (\<lambda>t. \<lparr>ff_tree = t, exited = False\<rparr>) (btree_new a h)"

section \<open>Its laws\<close>

lemmas fair_sel = fair_ops_def fair_Put_def fair_GCMove_def

abbreviation fair_inv :: "fair_index \<Rightarrow> bool" where "fair_inv s \<equiv> ff_inv True (ff_tree s)"
abbreviation any_key :: "u64 \<Rightarrow> bool" where "any_key \<equiv> \<lambda>_. True"
abbreviation running :: "fair_index \<Rightarrow> bool" where "running s \<equiv> \<not> exited s"

lemma fair_Get_iff:
  assumes "fair_inv s"
  shows "v \<noteq> INVALID_VALUE \<Longrightarrow> fair_Get k s = v \<longleftrightarrow> (k, v) \<in> ff_pairs (ff_tree s)"
    and "fair_Get k s = INVALID_VALUE \<longleftrightarrow> k \<notin> fst ` ff_pairs (ff_tree s)"
proof -
  obtain w where w: "btree_search k (ff_tree s) = Some w" using btree_search_total [OF assms] by blast
  show b: "fair_Get k s = v \<longleftrightarrow> (k, v) \<in> ff_pairs (ff_tree s)" if "v \<noteq> INVALID_VALUE" for v
    using btree_search_Some [OF assms, of v k] w that by (auto simp: fair_Get_def INVALID_VALUE_def)
  show "fair_Get k s = INVALID_VALUE \<longleftrightarrow> k \<notin> fst ` ff_pairs (ff_tree s)"
  proof
    assume "fair_Get k s = INVALID_VALUE"
    then have "btree_search k (ff_tree s) = Some 0" using w by (simp add: fair_Get_def INVALID_VALUE_def)
    then show "k \<notin> fst ` ff_pairs (ff_tree s)" using btree_search_ok(1) [OF assms, of k] pairs_value [OF ff_inv_heap [OF assms], of k] by force
  qed (use btree_search_ok(2) [OF assms, of k] in \<open>simp add: fair_Get_def INVALID_VALUE_def\<close>)
qed

lemma new_value_pre:
  assumes "fair_inv s" and "new_value fair_ops any_key k v s"
  shows "store_pre (ff_pages (ff_tree s)) (pages (ff_tree s)) 0 k v"
  using assms(2) fair_Get_iff(1) [OF assms(1), of v]
  by (auto simp: store_pre_def new_value_def fair_sel index_base_def INVALID_VALUE_def)

lemma fair_upsert_spec:
  fixes old :: nat
  assumes inv: "fair_inv s" and nv: "new_value fair_ops any_key k v s"
  defines "r \<equiv> fair_upsert k old v s"
  shows "running (snd r) \<Longrightarrow> fair_inv (snd r) \<and>
      leaf_spec k v old (ff_pairs (ff_tree s)) (fst r) (ff_pairs (ff_tree (snd r))) \<and> running s"
    and "fair_Get k s \<noteq> INVALID_VALUE \<Longrightarrow> running (snd r) \<longleftrightarrow> running s"
    and "fair_Get k s \<noteq> INVALID_VALUE \<Longrightarrow> fair_inv (snd r) \<and>
      leaf_spec k v old (ff_pairs (ff_tree s)) (fst r) (ff_pairs (ff_tree (snd r)))"
proof -
  let ?t = "ff_tree s"
  from btree_insert_ok [OF inv new_value_pre [OF inv nv], of "\<lparr>old_val = old, shortcut = (0, 0), fast_path = False\<rparr>"] obtain res where
    res: "btree_insert k v \<lparr>old_val = old, shortcut = (0, 0), fast_path = False\<rparr> ?t = Some res"
      "\<And>le' t'. res = Inr (le', t') \<Longrightarrow> ff_inv True t' \<and>
         (\<exists>h. le' = Some h \<and> leaf_spec k v old (ff_pairs ?t) (old_val h) (ff_pairs t'))"
      "\<And>e. res = Inl e \<Longrightarrow> k \<notin> fst ` ff_pairs ?t" by auto
  have c: "(\<exists>e. res = Inl e \<and> r = (INVALID_VALUE, s\<lparr>exited := True\<rparr>) \<and> fair_Get k s = INVALID_VALUE) \<or>
      (\<exists>x t'. r = (x, s\<lparr>ff_tree := t'\<rparr>) \<and> ff_inv True t' \<and> leaf_spec k v old (ff_pairs ?t) x (ff_pairs t'))"
  proof (cases res)
    case (Inl e)
    then show ?thesis using res(1,3) fair_Get_iff(2) [OF inv] by (simp add: r_def fair_upsert_def)
  next
    case (Inr x)
    obtain le' t' where x: "x = (le', t')" by fastforce
    then obtain h where h: "le' = Some h" "ff_inv True t'" "leaf_spec k v old (ff_pairs ?t) (old_val h) (ff_pairs t')"
      using res(2) Inr by blast
    then have "r = (old_val h, s\<lparr>ff_tree := t'\<rparr>)" using res(1) Inr x by (simp add: r_def fair_upsert_def)
    then show ?thesis using h by blast
  qed
  show "running (snd r) \<Longrightarrow> fair_inv (snd r) \<and> leaf_spec k v old (ff_pairs ?t) (fst r) (ff_pairs (ff_tree (snd r))) \<and> running s"
    "fair_Get k s \<noteq> INVALID_VALUE \<Longrightarrow> running (snd r) \<longleftrightarrow> running s"
    "fair_Get k s \<noteq> INVALID_VALUE \<Longrightarrow> fair_inv (snd r) \<and> leaf_spec k v old (ff_pairs ?t) (fst r) (ff_pairs (ff_tree (snd r)))"
    using c by auto
qed

lemma leaf_spec_get:
  assumes "fair_inv s" and "fair_inv s'" and "v \<noteq> INVALID_VALUE" and "leaf_spec k v old (ff_pairs (ff_tree s)) old' (ff_pairs (ff_tree s'))"
  shows "fair_Get k' s' = (if k' = k \<and> (old = INVALID_VALUE \<or> fair_Get k s \<in> {old, INVALID_VALUE}) then v else fair_Get k' s)"
    and "old' = (if fair_Get k s \<in> {old, INVALID_VALUE} then old else if old = INVALID_VALUE then fair_Get k s else v)"
proof -
  let ?S = "ff_pairs (ff_tree s)" and ?S' = "ff_pairs (ff_tree s')"
  note g = fair_Get_iff [OF assms(1)] and g' = fair_Get_iff [OF assms(2)]
  have new: "fair_Get k' s' = (if k' = k then v else fair_Get k' s)" if S': "?S' = rebind k v ?S"
  proof (cases "k' = k")
    case True
    then show ?thesis using g'(1) [OF assms(3), of k] S' by (simp add: rebind_def)
  next
    case False
    show ?thesis
    proof (cases "fair_Get k' s = INVALID_VALUE")
      case True
      then have "k' \<notin> fst ` ?S'" using g(2) [of k'] False S' by (auto simp: rebind_def)
      then show ?thesis using True False g'(2) [of k'] by simp
    next
      case nz: False
      then have "(k', fair_Get k' s) \<in> ?S'" using g(1) [OF nz, of k'] False S' by (simp add: rebind_def)
      then show ?thesis using False g'(1) [OF nz, of k'] by simp
    qed
  qed
  have same: "fair_Get k' s' = fair_Get k' s" if S': "?S' = ?S"
  proof (cases "fair_Get k' s = INVALID_VALUE")
    case True
    then show ?thesis using g(2) [of k'] g'(2) [of k'] S' by simp
  next
    case nz: False
    then show ?thesis using g(1) [OF nz, of k'] g'(1) [OF nz, of k'] S' by simp
  qed
  show "fair_Get k' s' = (if k' = k \<and> (old = INVALID_VALUE \<or> fair_Get k s \<in> {old, INVALID_VALUE}) then v else fair_Get k' s)"
    "old' = (if fair_Get k s \<in> {old, INVALID_VALUE} then old else if old = INVALID_VALUE then fair_Get k s else v)"
  proof -
    consider "fair_Get k s = INVALID_VALUE" "old' = old" "?S' = rebind k v ?S"
      | "fair_Get k s \<noteq> INVALID_VALUE" "old \<noteq> INVALID_VALUE" "fair_Get k s \<noteq> old" "old' = v" "?S' = ?S"
      | "fair_Get k s \<noteq> INVALID_VALUE" "old = INVALID_VALUE \<or> fair_Get k s = old" "old' = fair_Get k s" "?S' = rebind k v ?S"
      using assms(4) g(1) [of "fair_Get k s" k] g(2) [of k] unfolding leaf_spec_def by metis
    then show "fair_Get k' s' = (if k' = k \<and> (old = INVALID_VALUE \<or> fair_Get k s \<in> {old, INVALID_VALUE}) then v else fair_Get k' s)"
      "old' = (if fair_Get k s \<in> {old, INVALID_VALUE} then old else if old = INVALID_VALUE then fair_Get k s else v)"
      using new same by (cases, auto)+
  qed
qed

text \<open>
  C15: the collector's fast path in the tree has the effect of the insertion. For every shortcut to a leaf,
  however stale its position, moving the entry of a bound key with \<open>GC_SHORTCUT\<close> returns the same
  old value as without and leaves an index in which every key has the same value, provided that
  the right sibling of the leaf has a record.
\<close>

theorem fair_GCMove_shortcut_same:
  assumes inv: "fair_inv s" and nv: "new_value fair_ops any_key key v s" and old: "old \<noteq> INVALID_VALUE"
    and bound: "fair_Get key s \<noteq> INVALID_VALUE" and q: "q \<in> ff_pages (ff_tree s)" "lvl (pages (ff_tree s)) q = 0"
    and sib: "sib (pages (ff_tree s)) q \<noteq> 0 \<longrightarrow> FF_Page.entries (pages (ff_tree s) (sib (pages (ff_tree s)) q)) \<noteq> []"
  shows "fst (fair_GCMove_shortcut key old v (Some (q, pos)) s) = fst (fair_GCMove key old v s) \<and>
    fair_Get k (snd (fair_GCMove_shortcut key old v (Some (q, pos)) s)) = fair_Get k (snd (fair_GCMove key old v s)) \<and>
    fair_inv (snd (fair_GCMove_shortcut key old v (Some (q, pos)) s)) \<and>
    exited (snd (fair_GCMove_shortcut key old v (Some (q, pos)) s)) = exited s"
proof -
  let ?t = "ff_tree s" and ?le = "\<lparr>old_val = old, shortcut = (q, pos), fast_path = False\<rparr>"
  have v: "v \<noteq> INVALID_VALUE" using nv by (simp add: new_value_def)
  have b: "key \<in> fst ` ff_pairs ?t" using bound fair_Get_iff(2) [OF inv] by simp
  have oldv: "old_val ?le \<noteq> INVALID_VALUE" using old by simp
  have scl: "shortcut ?le = (q, pos)" by simp
  from try_update_correct [OF inv q scl oldv new_value_pre [OF inv nv] b sib, simplified le_helper.simps] obtain ok le' t' where
    u: "btree_try_update key v ?le ?t = Some (Inr (ok, le', t'))"
      "if ok then ff_inv True t' \<and> leaf_spec key v old (ff_pairs ?t) (old_val le') (ff_pairs t') else t' = ?t \<and> old_val le' = old" by blast
  note U = fair_upsert_spec(2,3) [OF inv nv bound, of old]
  note slow = leaf_spec_get [OF inv _ v, of "snd (fair_upsert key old v s)" key old "fst (fair_upsert key old v s)"]
  show ?thesis
  proof (cases ok)
    case True
    then have r: "fair_GCMove_shortcut key old v (Some (q, pos)) s = (old_val le', s\<lparr>ff_tree := t'\<rparr>)" using u(1) by (simp add: fair_GCMove_shortcut_def)
    have i: "fair_inv (s\<lparr>ff_tree := t'\<rparr>)" "leaf_spec key v old (ff_pairs ?t) (old_val le') (ff_pairs (ff_tree (s\<lparr>ff_tree := t'\<rparr>)))"
      using u(2) True by simp_all
    note fast = leaf_spec_get [OF inv i(1) v i(2)]
    show ?thesis using fast slow U(2) i(1) unfolding r by (simp add: fair_GCMove_def)
  next
    case False
    then have "fair_GCMove_shortcut key old v (Some (q, pos)) s = fair_upsert key old v s"
      using u by (simp add: fair_GCMove_shortcut_def)
    then show ?thesis using U by (simp add: fair_GCMove_def)
  qed
qed

section \<open>Room\<close>

text \<open>While the root is the only page, it takes 28 records without a split.\<close>

definition fair_room :: "fair_index \<Rightarrow> nat \<Rightarrow> bool" where
  "fair_room s n \<longleftrightarrow> (let t = ff_tree s in lvl (pages t) (root t) = 0 \<and> card (ff_pairs t) + n \<le> 28)"

lemma sole_leaf:
  assumes inv: "ff_inv fw t" and l: "lvl (pages t) (root t) = 0"
  shows "covers (ff_pages t) (pages t) 0 key (root t)" and "ff_pairs t = set (FF_Page.entries (pages t (root t)))"
    and "descend (pages t) is_leaf key (root t) = Some (root t)" and "card (ff_pairs t) = length (FF_Page.entries (pages t (root t)))"
proof -
  note hi = ff_inv_heap [OF inv]
  have P: "ff_pages t = {root t}" using inv hi l by (auto simp: ff_inv_def heap_inv_def)
  have n: "node_ok fw (ff_pages t) (pages t) (root t)" by (rule heap_inv_node [OF hi]) (simp add: P)
  then have s: "sib (pages t) (root t) = 0" by (auto simp: node_ok_def links_ok_def P split: if_splits)
  have "fence (pages t) (root t) = 0" using fence_least [OF hi] inv by (simp add: ff_inv_def)
  then show "covers (ff_pages t) (pages t) 0 key (root t)" using s l by (simp add: covers_def P)
  show p: "ff_pairs t = set (FF_Page.entries (pages t (root t)))" using l by (auto simp: pairs_def P)
  have "is_leaf (pages t (root t))" using n l by (simp add: node_ok_def leaf_ok_def)
  then show "descend (pages t) is_leaf key (root t) = Some (root t)" by (subst descend.simps) simp
  have "distinct (List.map snd (FF_Page.entries (pages t (root t))))" using n l by (simp add: node_ok_def leaf_ok_def)
  then show "card (ff_pairs t) = length (FF_Page.entries (pages t (root t)))" by (simp add: p distinct_card distinct_map)
qed

lemma sole_leaf_insert:
  assumes inv: "ff_inv fw t" and pre: "store_pre (ff_pages t) (pages t) 0 key v"
    and l: "lvl (pages t) (root t) = 0" and n: "card (ff_pairs t) < 28"
  shows "\<exists>le' t'. btree_insert key v le t = Some (Inr (le', t')) \<and> lvl (pages t') (root t') = 0"
proof -
  let ?q = "root t" and ?es = "FF_Page.entries (pages t (root t))"
  note c = sole_leaf(1) [OF inv l, of key]
  note C = covers_content [OF ff_inv_heap [OF inv] c]
  have n': "length ?es < cardinality - 1" using n sole_leaf(4) [OF inv l] by (simp add: cardinality_def)
  have "\<exists>le' t'. ff_run (Store ?q key v (Some le)) t = Some (Inr (?q, le', t')) \<and> lvl (pages t') (root t') = 0"
  proof (cases "key \<in> fst ` set ?es")
    case True
    then obtain i where i: "i < length ?es" "fst (?es ! i) = key" by (auto simp: in_set_conv_nth)
    have "ff_run (Store ?q key v (Some le)) t = Some (Inr (?q, update_at ?q i v (Some le) t))"
      unfolding store_at [OF inv c] try_update_hit [OF C(3) i] by (simp add: split_beta)
    then show ?thesis using l by (auto simp: update_at_def Let_def on_page_def set_ptr_def)
  next
    case False
    have "same_header (pages t ?q) (snd (insert_key key v (length ?es) (pages t ?q)))"
      using insert_key_has [OF C(3) False _ n', of v] pre by (auto simp: store_pre_def)
    then have "level (snd (insert_key key v (length ?es) (pages t ?q))) = 0" using l by (simp add: same_header_def)
    moreover have "ff_run (Store ?q key v (Some le)) t = Some (Inr (?q, store_new ?q key v (Some le) t))"
      unfolding store_at [OF inv c] try_update_miss [OF C(3) False] using n' by (simp add: split_beta)
    ultimately show ?thesis using page_has_count [OF C(3)] by (auto simp: store_new_def split_beta on_page_def)
  qed
  then obtain le' t' where r: "ff_run (Store ?q key v (Some le)) t = Some (Inr (?q, le', t'))" "lvl (pages t') (root t') = 0" by blast
  then show ?thesis using sole_leaf(3) [OF inv l, of key] C(9) by (subst btree_insert.simps) simp
qed

lemma fair_Put_room:
  assumes inv: "fair_inv s" and nv: "new_value fair_ops any_key k v s" and run: "running s" and room: "fair_room s (Suc n)"
  defines "s' \<equiv> snd (fair_upsert k INVALID_VALUE v s)"
  shows "running s' \<and> fair_room s' n"
proof -
  let ?t = "ff_tree s" and ?h = "\<lparr>old_val = INVALID_VALUE, shortcut = (0, 0), fast_path = False\<rparr>"
  have l: "lvl (pages ?t) (root ?t) = 0" "card (ff_pairs ?t) < 28" using room by (simp_all add: fair_room_def Let_def)
  note pre = new_value_pre [OF inv nv]
  obtain le' t' where r: "btree_insert k v ?h ?t = Some (Inr (le', t'))" "lvl (pages t') (root t') = 0"
    using sole_leaf_insert [OF inv pre l] by blast
  then obtain h where h: "le' = Some h" "leaf_spec k v INVALID_VALUE (ff_pairs ?t) (old_val h) (ff_pairs t')"
    using btree_insert_ok [OF inv pre, of ?h] by auto
  have s': "s' = s\<lparr>ff_tree := t'\<rparr>" using r(1) h(1) by (simp add: s'_def fair_upsert_def)
  have fin: "finite (ff_pairs ?t)" using sole_leaf(2) [OF inv l(1)] by simp
  have "ff_pairs t' = rebind k v (ff_pairs ?t)" using h(2) by (auto simp: leaf_spec_def)
  then have "card (ff_pairs t') \<le> Suc (card (ff_pairs ?t))"
    using fin card_mono [OF fin, of "{e \<in> ff_pairs ?t. fst e \<noteq> k}"] by (simp add: rebind_def card_insert_if)
  then show ?thesis using room r(2) run by (simp add: s' fair_room_def Let_def)
qed

interpretation fair: flat_index_room fair_ops fair_inv any_key running fair_room now
  for now :: "fair_index fs_store \<Rightarrow> nat"
proof unfold_locales
  fix s k k' v old n
  show before: "running s" if "running (snd (ix_gc fair_ops k old v s))" for old
    using that by (auto simp: fair_sel fair_upsert_def split: option.splits sum.splits)
  show "running s" if "running (snd (ix_put fair_ops k v s))" using before that by (simp add: fair_sel)
  assume inv: "fair_inv s" and nv: "new_value fair_ops any_key k v s"
  note U = fair_upsert_spec [OF inv nv]
  have v: "v \<noteq> INVALID_VALUE" using nv by (simp add: new_value_def)
  show "ix_get fair_ops k' (snd (ix_put fair_ops k v s)) = (if k' = k then v else ix_get fair_ops k' s)"
    "fst (ix_put fair_ops k v s) = ix_get fair_ops k s" "fair_inv (snd (ix_put fair_ops k v s))"
    if "running (snd (ix_put fair_ops k v s))"
  proof -
    have P: "fair_inv (snd (fair_upsert k INVALID_VALUE v s))" "leaf_spec k v INVALID_VALUE (ff_pairs (ff_tree s))
        (fst (fair_upsert k INVALID_VALUE v s)) (ff_pairs (ff_tree (snd (fair_upsert k INVALID_VALUE v s))))"
      using U(1) that by (simp_all add: fair_sel)
    show "ix_get fair_ops k' (snd (ix_put fair_ops k v s)) = (if k' = k then v else ix_get fair_ops k' s)"
      "fst (ix_put fair_ops k v s) = ix_get fair_ops k s" "fair_inv (snd (ix_put fair_ops k v s))"
      using leaf_spec_get [OF inv P(1) v P(2)] P(1) by (simp_all add: fair_sel)
  qed
  show "running (snd (ix_put fair_ops k v s)) \<and> fair_room (snd (ix_put fair_ops k v s)) n" if "running s" "fair_room s (Suc n)"
    using fair_Put_room [OF inv nv that] by (simp add: fair_sel)
  assume g: "ix_get fair_ops k s \<noteq> INVALID_VALUE"
  then have g': "fair_Get k s \<noteq> INVALID_VALUE" by (simp add: fair_sel)
  show "running (snd (ix_gc fair_ops k old v s)) \<longleftrightarrow> running s" using U(2) [OF g', of old] by (simp add: fair_sel)
  assume o: "old \<noteq> INVALID_VALUE"
  show "ix_get fair_ops k' (snd (ix_gc fair_ops k old v s)) =
      (if k' = k \<and> ix_get fair_ops k s = old then v else ix_get fair_ops k' s)"
    "fst (ix_gc fair_ops k old v s) = (if ix_get fair_ops k s = old then old else v)" "fair_inv (snd (ix_gc fair_ops k old v s))"
    using U(3) [OF g', of old] leaf_spec_get [OF inv _ v, of "snd (fair_upsert k old v s)" k old] g' o by (auto simp: fair_sel)
qed

section \<open>Opening the store\<close>

text \<open>
  \<open>DB::DB\<close> in the default build: the index pool is as large as the log, and its pages hold whatever the
  mapping held. \<open>None\<close> when the root page does not fit.
\<close>

definition fair_db_new :: "nat \<Rightarrow> nat \<Rightarrow> nat \<Rightarrow> nat \<Rightarrow> nat \<Rightarrow> (nat \<Rightarrow> page) \<Rightarrow> pool \<Rightarrow> fair_index db option" where
  "fair_db_new workers cleaners start log_size idx_addr h pm =
     map_option (\<lambda>i. \<lparr>db_index = i, db_log = log_new workers cleaners start log_size pm, epoch_map = (\<lambda>_. 0), cur_num_workers = 0\<rparr>)
       (fair_new (arena_new idx_addr log_size) h)"

abbreviation fairstore_new :: "nat \<Rightarrow> nat \<Rightarrow> nat \<Rightarrow> (nat \<Rightarrow> page) \<Rightarrow> pool \<Rightarrow> fair_index db option" where
  "fairstore_new start sz idx h pm \<equiv> fair_db_new 1 1 start sz idx h pm"

abbreviation fairstore_api :: "(fair_index fs_store \<Rightarrow> nat) \<Rightarrow> nat \<Rightarrow> fair_index fs_state client_api" where
  "fairstore_api now \<equiv> fs_api fair_ops now"

lemma arena_new_ok: "index_base \<le> idx \<Longrightarrow> 64 dvd idx \<Longrightarrow> arena_ok (arena_new idx sz) \<and> cur_alloc_addr (arena_new idx sz) = idx_start_addr (arena_new idx sz)"
  by (auto simp: arena_ok_def arena_new_def Initialize_def intro: exI [of _ 0])

lemma fair_new_exists: "64 dvd idx \<Longrightarrow> sizeof_page \<le> sz \<Longrightarrow> \<exists>db. fairstore_new start sz idx h pm = Some db"
  by (simp add: fair_db_new_def fair_new_def btree_new_def page_alloc_def Alloc_def arena_new_def Initialize_def Let_def
      align_line_aligned pool_end_addr_def)

lemma fair_new_empty:
  assumes "index_base \<le> idx" and "64 dvd idx" and "fairstore_new start sz idx h pm = Some db"
  shows "db_log db = log_new 1 1 start sz pm" and "fair_inv (db_index db)" and "ff_pairs (ff_tree (db_index db)) = {}"
    and "\<forall>k. any_key k \<longrightarrow> ix_get fair_ops k (db_index db) = INVALID_VALUE" and "running (db_index db)"
    and "fair_room (db_index db) 28"
proof -
  obtain t where t: "btree_new (arena_new idx sz) h = Some t" and db: "db_index db = \<lparr>ff_tree = t, exited = False\<rparr>"
      "db_log db = log_new 1 1 start sz pm"
    using assms(3) by (auto simp: fair_db_new_def fair_new_def)
  note T = btree_new_ok [OF conjunct1 [OF arena_new_ok] conjunct2 [OF arena_new_ok] t, OF assms(1,2) assms(1,2)]
  show "db_log db = log_new 1 1 start sz pm" by (rule db(2))
  show i: "fair_inv (db_index db)" and p: "ff_pairs (ff_tree (db_index db)) = {}" using T by (simp_all add: db)
  show "running (db_index db)" by (simp add: db)
  show "\<forall>k. any_key k \<longrightarrow> ix_get fair_ops k (db_index db) = INVALID_VALUE"
    using fair_Get_iff(2) [OF i] p by (simp add: fair_ops_def)
  have "lvl (pages t) (root t) = 0"
    using t by (auto simp: btree_new_def page_alloc_def on_page_def page_new_def split: option.splits)
  then show "fair_room (db_index db) 28" using p by (simp add: fair_room_def db)
qed

lemma fair_open_ok:
  assumes "SEGMENT_SIZE \<le> sz" and "0 < start" and "start + sz \<le> 2 ^ 48" and "index_base \<le> idx" and "64 dvd idx"
    and "fairstore_new start sz idx h pm = Some db"
  shows "fs_inv fair_ops fair_inv any_key (Inr (fs_open T db))" and "fs_ok running (Inr (fs_open T db))"
    and "fs_contents fair_ops any_key (Inr (fs_open T db)) = Map.empty"
    and "n \<le> 28 \<Longrightarrow> n < sz div SEGMENT_SIZE \<Longrightarrow> fs_room fair_room (Inr (fs_open T db)) n"
proof -
  note N = fair_new_empty [OF assms(4-6)]
  note E = fs_open_empty [where T = T and iinv = fair_inv and ikey_ok = any_key and ix = fair_ops, OF assms(1-3) N(1,2,4)]
  show "fs_inv fair_ops fair_inv any_key (Inr (fs_open T db))" "fs_ok running (Inr (fs_open T db))"
    "fs_contents fair_ops any_key (Inr (fs_open T db)) = Map.empty" using E N(5) by blast+
  show "fs_room fair_room (Inr (fs_open T db)) n" if "n \<le> 28" "n < sz div SEGMENT_SIZE"
    using E(4) [where iroom = fair_room] N(6) that by (simp add: fair_room_def Let_def)
qed

text \<open>Arguments: eight-byte keys, values below 64 KiB.\<close>

definition fair_write_ok :: "nat \<times> byte list \<times> byte list \<Rightarrow> bool" where
  "fair_write_ok w = (case w of (t, k, v) \<Rightarrow> length k = 8 \<and> length v < 2 ^ 16)"

lemma fair_write_ok_all: "list_all fair_write_ok ws \<Longrightarrow> \<forall>(t, k, v) \<in> set ws. fs_key_ok any_key k \<and> fs_value_ok v"
  by (auto simp: list_all_iff fair_write_ok_def fs_key_ok_def fs_value_ok_def)


lemma fairstore_accepts:
  assumes "SEGMENT_SIZE \<le> sz" and "0 < start" and "start + sz \<le> 2 ^ 48" and "index_base \<le> idx" and "64 dvd idx"
    and "fairstore_new start sz idx h pm = Some db" and "list_all fair_write_ok ws" and "length ws \<le> 28" and "length ws < sz div SEGMENT_SIZE"
  shows "fs_ok running (snd (insert_all (fairstore_api now) ws (Inr (fs_open T db))))"
proof -
  note o = fair_open_ok [OF assms(1-6), where T = T]
  show ?thesis
    by (rule fair.fs.insert_all_room [OF o(1,2) fair_write_ok_all [OF assms(7)], where n = 0]) (use o(4) assms(8,9) in simp)
qed

lemma demo_fair:
  obtains db where "fairstore_new SEGMENT_SIZE (8 * SEGMENT_SIZE) index_base (\<lambda>_. page_new 0) demo_pool = Some db"
    and "fs_ok running (snd (insert_all (fairstore_api (\<lambda>_. 0)) demo_writes (Inr (fs_open 2 db))))"
proof -
  have i: "index_base \<le> index_base" "64 dvd index_base" by (simp_all add: index_base_def)
  have sz: "sizeof_page \<le> 8 * SEGMENT_SIZE" by (simp add: sizeof_page_def SEGMENT_SIZE_def)
  obtain db where db: "fairstore_new SEGMENT_SIZE (8 * SEGMENT_SIZE) index_base (\<lambda>_. page_new 0) demo_pool = Some db"
    using fair_new_exists [OF i(2)] sz by blast
  have w: "list_all fair_write_ok demo_writes" by (simp add: demo_writes_def fair_write_ok_def)
  show thesis using that [OF db fairstore_accepts [OF demo_size i db w]] by (simp add: demo_writes_def SEGMENT_SIZE_def)
qed


section \<open>A shortcut into a small tree\<close>

lemma demo_fair_index:
  obtains s q where "fair_inv s" "new_value fair_ops any_key 7 8192 s" "fair_Get 7 s = 4096"
    "q \<in> ff_pages (ff_tree s)" "lvl (pages (ff_tree s)) q = 0" "sib (pages (ff_tree s)) q = 0"
proof -
  have b: "index_base \<le> index_base" "64 dvd index_base" by (simp_all add: index_base_def)
  obtain db where db: "fairstore_new SEGMENT_SIZE (8 * SEGMENT_SIZE) index_base (\<lambda>_. page_new 0) demo_pool = Some db" by (rule demo_fair)
  note N = fair_new_empty [OF b db]
  let ?s0 = "db_index db"
  have g0: "ix_get fair_ops k ?s0 = 0" for k using N(4) by (simp add: INVALID_VALUE_def)
  then have nv: "new_value fair_ops any_key 7 4096 ?s0" by (simp add: new_value_def INVALID_VALUE_def)
  define s where "s = snd (ix_put fair_ops 7 4096 ?s0)"
  have room: "fair_room ?s0 (Suc 27)" using N(6) by simp
  have R: "running s \<and> fair_room s 27" unfolding s_def by (rule fair.iroom_ok [OF N(2,5) room TrueI nv])
  then have ok: "running (snd (ix_put fair_ops 7 4096 ?s0))" by (simp add: s_def)
  have inv: "fair_inv s" unfolding s_def by (rule fair.put_inv [OF N(2) TrueI ok nv])
  have g: "ix_get fair_ops k s = (if k = 7 then 4096 else 0)" for k
    using fair.put_get [OF N(2) TrueI TrueI ok nv, of k] g0 by (simp add: s_def)
  let ?t = "ff_tree s"
  have l: "lvl (pages ?t) (root ?t) = 0" using R by (simp add: fair_room_def Let_def)
  note c = sole_leaf(1) [OF inv l, of "- 1"]
  show thesis
  proof (rule that [OF inv])
    show "new_value fair_ops any_key 7 8192 s" using g by (simp add: new_value_def INVALID_VALUE_def)
    show "fair_Get 7 s = 4096" using g [of 7] by (simp add: fair_ops_def)
    show "root ?t \<in> ff_pages ?t" "lvl (pages ?t) (root ?t) = 0" using c by (simp_all add: covers_def)
    show "sib (pages ?t) (root ?t) = 0" using c by (auto simp: covers_def)
  qed
qed

theorem fair_GCMove_shortcut_same_witness:
  "\<exists>s q. fair_inv s \<and> fair_Get 7 s = 4096 \<and>
     fst (fair_GCMove_shortcut 7 4096 8192 (Some (q, 3)) s) = fst (fair_GCMove 7 4096 8192 s) \<and>
     fair_Get 7 (snd (fair_GCMove_shortcut 7 4096 8192 (Some (q, 3)) s)) = fair_Get 7 (snd (fair_GCMove 7 4096 8192 s))"
proof -
  obtain s q where s: "fair_inv s" "new_value fair_ops any_key 7 8192 s" "fair_Get 7 s = 4096"
    "q \<in> ff_pages (ff_tree s)" "lvl (pages (ff_tree s)) q = 0" "sib (pages (ff_tree s)) q = 0" by (rule demo_fair_index)
  have "(4096 :: nat) \<noteq> INVALID_VALUE" "fair_Get 7 s \<noteq> INVALID_VALUE"
    "sib (pages (ff_tree s)) q \<noteq> 0 \<longrightarrow> FF_Page.entries (pages (ff_tree s) (sib (pages (ff_tree s)) q)) \<noteq> []"
    using s(3,6) by (simp_all add: INVALID_VALUE_def)
  from fair_GCMove_shortcut_same [OF s(1,2) this(1,2) s(4,5) this(3), of 3 7] show ?thesis using s(1,3) by blast
qed

section \<open>Scanning the store\<close>

lemma fair_Scan_ok:
  assumes "fair_inv s"
  shows "\<exists>ks. sorted_wrt (<) ks \<and> set ks = {k. fair_Get k s \<noteq> INVALID_VALUE \<and> lo < k} \<and>
     fair_Scan lo cnt s = Some (map (\<lambda>k. fair_Get k s) (take cnt ks))"
proof -
  obtain es where es: "sorted_wrt (<) (map fst es)" "set es = {e \<in> ff_pairs (ff_tree s). lo < fst e}"
      "btree_search_range lo cnt (ff_tree s) = Some (map snd (take cnt es))"
    using btree_search_range_ok [OF assms] by blast
  have g: "fair_Get (fst e) s = snd e" if "e \<in> set es" for e
    using that es(2) fair_Get_iff(1) [OF assms, of "snd e" "fst e"] pairs_value [OF ff_inv_heap [OF assms], of "fst e" "snd e"]
    by (simp add: INVALID_VALUE_def)
  have "map snd (take cnt es) = map (\<lambda>k. fair_Get k s) (take cnt (map fst es))"
    using g in_set_takeD by (fastforce simp: take_map)
  moreover have "set (map fst es) = {k. fair_Get k s \<noteq> INVALID_VALUE \<and> lo < k}"
    using es(2) fair_Get_iff(2) [OF assms] by auto
  ultimately show ?thesis using es(1,3) by (intro exI [of _ "map fst es"]) (simp add: fair_Scan_def)
qed

lemma index_key_bytes: "index_key (le_bytes 8 k) = k"
  by (simp add: index_key_def le_word_le_bytes_full)

text \<open>
  C5: a scan of the store returns the records that follow its start key. After any writes that reported no
  failure, there is the ascending list of the written keys above the start key, as little-endian
  integers; the scan visits the first \<open>cnt\<close> of them, the entries it reads hold the last values
  written to them, and the client gets their number. The record of the start key itself is not among them.
\<close>

theorem fairstore_scan:
  assumes "SEGMENT_SIZE \<le> sz" and "0 < start" and "start + sz \<le> 2 ^ 48" and "index_base \<le> idx" and "64 dvd idx"
    and "fairstore_new start sz idx h pm = Some db" and "list_all fair_write_ok ws"
    and "snd (insert_all (fairstore_api now) ws (Inr (fs_open T db))) = Inr st" and "running (db_index (fs_db st))"
  shows "\<exists>ks. sorted_wrt (<) ks \<and> set ks = {index_key k |k. map_after ws Map.empty k \<noteq> None \<and> index_key lo < index_key k} \<and>
    map_option (map (\<lambda>a. kv_GetValue (pm_bytes (lpool (db_log (fs_db st)))) (tp_GetAddr a)))
        (fair_Scan (index_key lo) cnt (db_index (fs_db st)))
      = Some (map (\<lambda>k. the (map_after ws Map.empty (le_bytes 8 k))) (take cnt ks)) \<and>
    fst (api_scan (fairstore_api now t) lo cnt (Inr st)) = int (min cnt (length ks))"
proof -
  let ?i = "db_index (fs_db st)" and ?m = "pm_bytes (lpool (db_log (fs_db st)))" and ?M = "map_after ws Map.empty"
  note o = fair_open_ok [OF assms(1-6), where T = T]
  have ok: "fs_ok running (snd (insert_all (fairstore_api now) ws (Inr (fs_open T db))))" using assms(8,9) by (simp add: fs_ok_def)
  note C = fair.fs.insert_all_contents [OF o(1) fair_write_ok_all [OF assms(7)] ok, unfolded assms(8) o(3)]
  have di: "db_inv fair_ops fair_inv any_key (fs_heads st) (fs_db st)" using C by (simp add: fs_inv_def)
  have M: "?M k = (if length k = 8 then db_contents fair_ops (fs_db st) (index_key k) else None)" for k
    using fun_cong [OF conjunct1 [OF C], of k] by (simp add: fs_contents_def fs_key_ok_def)
  have val: "kv_GetValue ?m (tp_GetAddr (fair_Get k ?i)) = the (?M (le_bytes 8 k))" if "fair_Get k ?i \<noteq> INVALID_VALUE" for k
    using that di live_address(2) [of "fs_heads st" "db_log (fs_db st)" k "fair_Get k ?i"]
    by (auto simp: M index_key_bytes db_contents_def fair_ops_def db_inv_def Let_def)
  obtain ks where ks: "sorted_wrt (<) ks" "set ks = {k. fair_Get k ?i \<noteq> INVALID_VALUE \<and> index_key lo < k}"
      "fair_Scan (index_key lo) cnt ?i = Some (map (\<lambda>k. fair_Get k ?i) (take cnt ks))"
    using fair_Scan_ok di by (fastforce simp: db_inv_def)
  have bound: "(fair_Get k ?i \<noteq> INVALID_VALUE) = (?M (le_bytes 8 k) \<noteq> None)" for k
    by (simp add: M index_key_bytes db_contents_def fair_ops_def Let_def)
  have "set ks = {index_key k |k. ?M k \<noteq> None \<and> index_key lo < index_key k}"
  proof -
    have "\<exists>k. x = index_key k \<and> ?M k \<noteq> None" if "?M (le_bytes 8 x) \<noteq> None" for x
      using that index_key_bytes [of x] by (intro exI [of _ "le_bytes 8 x"]) simp
    moreover have "?M (le_bytes 8 (index_key k)) \<noteq> None" if "?M k \<noteq> None" for k
      using that M [of k] index_key_le_bytes [of k] by (auto split: if_splits)
    ultimately show ?thesis unfolding ks(2) bound by blast
  qed
  moreover have "kv_GetValue ?m (tp_GetAddr (fair_Get k ?i)) = the (?M (le_bytes 8 k))" if "k \<in> set (take cnt ks)" for k
    using val in_set_takeD [OF that] ks(2) by simp
  ultimately show ?thesis using ks(1,3)
    by (intro exI [of _ ks]) (simp add: fs_api_def fs_scan_def worker_Scan_def fair_ops_def)
qed

theorem fairstore_scan_witness:
  "\<exists>db st. fairstore_new SEGMENT_SIZE (8 * SEGMENT_SIZE) index_base (\<lambda>_. page_new 0) demo_pool = Some db \<and>
     snd (insert_all (fairstore_api (\<lambda>_. 0)) demo_writes (Inr (fs_open 2 db))) = Inr st \<and>
     fst (api_scan (fairstore_api (\<lambda>_. 0) 0) [1, 0, 0, 0, 0, 0, 0, 0] 10 (Inr st)) = 1"
proof -
  obtain db where db: "fairstore_new SEGMENT_SIZE (8 * SEGMENT_SIZE) index_base (\<lambda>_. page_new 0) demo_pool = Some db"
    "fs_ok running (snd (insert_all (fairstore_api (\<lambda>_. 0)) demo_writes (Inr (fs_open 2 db))))" by (rule demo_fair)
  then obtain st where st: "snd (insert_all (fairstore_api (\<lambda>_. 0)) demo_writes (Inr (fs_open 2 db))) = Inr st" "running (db_index (fs_db st))"
    by (auto simp: fs_ok_def split: sum.splits)
  have p: "index_base \<le> index_base" "64 dvd index_base" "list_all fair_write_ok demo_writes"
    by (simp_all add: index_base_def demo_writes_def fair_write_ok_def)
  obtain ks where ks: "sorted_wrt (<) ks" "set ks = {index_key k |k. map_after demo_writes Map.empty k \<noteq> None \<and> index_key [1, 0, 0, 0, 0, 0, 0, 0] < index_key k}"
      "fst (api_scan (fairstore_api (\<lambda>_. 0) 0) [1, 0, 0, 0, 0, 0, 0, 0] 10 (Inr st)) = int (min 10 (length ks))"
    using fairstore_scan [OF demo_size p(1,2) db(1) p(3) st, of "[1, 0, 0, 0, 0, 0, 0, 0]" 10 0] by blast
  have "set ks = {2}" unfolding ks(2) by (auto simp: demo_writes_def index_key_def split: if_splits)
  then have "length ks = 1" using ks(1) distinct_card [of ks] by (simp add: strict_sorted_iff)
  then show ?thesis using db(1) st(1) ks(3) by auto
qed

section \<open>With the cleaner\<close>



end
