(* ===== verification/CCEH_Extra.thy ===== *)
theory CCEH_Extra
  imports CCEH
begin

text \<open>
  The rest of the CCEH table: the collector's fast path through a shortcut (\<open>TryGCUpdate\<close> and \<open>GCMove\<close> of
  the build with \<open>GC_SHORTCUT\<close>), the counters, the directory recovery and the debugging search.
\<close>

section \<open>The fast path of the collector\<close>

text \<open>
  A shortcut names a segment and the distance of the slot from the first one probed. The result says
  whether the shortcut was good, with the helper's old value afterwards. No segment is deleted in
  the in-place build, and a lock is granted at once here.
\<close>

definition TryGCUpdate :: "(u64 \<Rightarrow> u64) \<Rightarrow> u64 \<Rightarrow> nat \<Rightarrow> nat \<Rightarrow> (nat \<times> nat) option \<Rightarrow> cceh \<Rightarrow> bool \<times> nat \<times> cceh" where
  "TryGCUpdate h key new_val old shortcut t =
     (case shortcut of
        None \<Rightarrow> (False, old, t)
      | Some (tg, pos) \<Rightarrow>
          let loc = (f_idx h key + pos) mod kNumSlot; sg = sg_heap t tg in
          if tg \<noteq> target h key t then (False, old, t)
          else if fst (sg_slots sg loc) = key then
            (if snd (sg_slots sg loc) = old then (True, old, on_target tg (set_slot loc (key, new_val) sg) t)
             else (True, new_val, t))
          else (False, old, t))"

definition GCMove_shortcut :: "(u64 \<Rightarrow> u64) \<Rightarrow> u64 \<Rightarrow> nat \<Rightarrow> nat \<Rightarrow> (nat \<times> nat) option \<Rightarrow> cceh \<Rightarrow> nat \<times> cceh" where
  "GCMove_shortcut h key old new_val shortcut t =
     (let (hit, old', t') = TryGCUpdate h key new_val old shortcut t in
      if shortcut = None \<or> \<not> hit then ix_gc (cceh_ops h) key old new_val t else (old', t'))"

text \<open>
  C14: the collector's fast path through a shortcut does exactly what the insertion does. For every
  shortcut, also one that is stale because its segment was split or its slot reused, moving an entry
  with \<open>GC_SHORTCUT\<close> gives the same table and the same old value as without.
\<close>

theorem GCMove_shortcut_same:
  assumes inv: "cceh_inv h t" and k: "key_valid key" and old: "old \<noteq> INVALID_VALUE"
  shows "GCMove_shortcut h key old new_val sc t = ix_gc (cceh_ops h) key old new_val t"
proof (cases "fst (TryGCUpdate h key new_val old sc t)")
  case True
  then obtain pos where sc: "sc = Some (target h key t, pos)"
    by (auto simp: TryGCUpdate_def Let_def split: option.splits if_splits)
  let ?sg = "sg_heap t (target h key t)" and ?loc = "(f_idx h key + pos) mod kNumSlot"
  have loc: "fst (sg_slots ?sg ?loc) = key" using True by (auto simp: sc TryGCUpdate_def Let_def split: if_splits)
  have "?loc < kNumSlot" by (simp add: kNumSlot_def)
  then have "probe (\<lambda>i. fst (sg_slots ?sg i) = key) (f_idx h key) = Some ?loc"
    using seg_probe [OF target_seg_inv [OF inv] k] loc by blast
  then have "cceh_Insert insert_rounds h key new_val old t = (if snd (sg_slots ?sg ?loc) = old
      then Some (old, on_target (target h key t) (set_slot ?loc (key, new_val) ?sg) t) else Some (new_val, t))"
    unfolding insert_rounds_Suc cceh_Insert.simps using old by (simp add: Let_def)
  then show ?thesis using loc by (simp add: GCMove_shortcut_def sc TryGCUpdate_def Let_def cceh_ops_sel)
next
  case False
  then show ?thesis by (simp add: GCMove_shortcut_def split_beta Let_def)
qed

theorem GCMove_shortcut_same_witness:
  "GCMove_shortcut key_hash 7 4096 8192 (Some (0, 3)) (cceh_new 17) = ix_gc (cceh_ops key_hash) 7 4096 8192 (cceh_new 17)"
  by (rule GCMove_shortcut_same [OF cceh_new_inv])
    (simp_all add: key_valid_def INVALID_KEY_def SENTINEL_def INVALID_VALUE_def)

section \<open>Counters\<close>

definition stride :: "cceh \<Rightarrow> nat \<Rightarrow> nat" where
  "stride t i = 2 ^ (dir_depth t - local_depth (sg_heap t (dir_ptr t i)))"

lemma stride_pos [simp]: "0 < stride t i" by (simp add: stride_def)

text \<open>The loops over the directory visit every segment once: the entries at which they stop.\<close>

function visited :: "cceh \<Rightarrow> nat \<Rightarrow> nat list" where
  "visited t i = (if i < 2 ^ dir_depth t then i # visited t (i + stride t i) else [])"
  by pat_completeness auto
termination by (relation "measure (\<lambda>(t, i). 2 ^ dir_depth t - i)") (auto intro: diff_less_mono2)

declare visited.simps [simp del]

definition Capacity :: "cceh \<Rightarrow> nat" where
  "Capacity t = length (visited t 0) * kNumSlot"

definition numElem :: "cceh_seg \<Rightarrow> nat" where
  "numElem sg = length (filter (\<lambda>i. fst (sg_slots sg i) \<noteq> INVALID_KEY) [0..<kNumSlot])"

definition util_segment :: "(u64 \<Rightarrow> u64) \<Rightarrow> cceh \<Rightarrow> nat \<Rightarrow> nat" where
  "util_segment h t i =
     (let sg = sg_heap t (dir_ptr t i); pattern = i div stride t i in
      length (filter (\<lambda>j. unat (drop_bit (64 - local_depth sg) (h (fst (sg_slots sg j)))) = pattern \<and> fst (sg_slots sg j) \<noteq> INVALID_KEY)
        [0..<kNumSlot]))"

definition Utilization :: "(u64 \<Rightarrow> u64) \<Rightarrow> cceh \<Rightarrow> real" where
  "Utilization h t =
     real (sum_list (map (util_segment h t) (visited t 0))) / (real (length (visited t 0)) * real kNumSlot) * 100"

lemma div_eq_block: "0 < (s :: nat) \<Longrightarrow> j div s = q \<longleftrightarrow> q * s \<le> j \<and> j < q * s + s"
proof
  assume s: "0 < s" and q: "j div s = q"
  then show "q * s \<le> j \<and> j < q * s + s" using div_times_less_eq_dividend [of j s] dividend_less_div_times [OF s, of j] by simp
qed (auto intro!: div_nat_eqI simp: algebra_simps)

text \<open>From an entry that begins a block, the block is exactly the entries that share its segment.\<close>

lemma same_segment:
  assumes "dir_ok t" and "i < 2 ^ dir_depth t" and "j < 2 ^ dir_depth t"
  shows "dir_ptr t i = dir_ptr t j \<longleftrightarrow> i div stride t i = j div stride t i"
  using assms unfolding dir_ok_def stride_def by blast

lemma block:
  assumes ok: "dir_ok t" and i: "i < 2 ^ dir_depth t" "stride t i dvd i" and j: "j < 2 ^ dir_depth t"
  shows "dir_ptr t i = dir_ptr t j \<longleftrightarrow> i \<le> j \<and> j < i + stride t i"
proof -
  have "i div stride t i * stride t i = i" using i(2) by simp
  moreover have "j div stride t i = i div stride t i \<longleftrightarrow>
      i div stride t i * stride t i \<le> j \<and> j < i div stride t i * stride t i + stride t i"
    by (rule div_eq_block) simp
  ultimately show ?thesis using same_segment [OF ok i(1) j] by auto
qed

lemma next_block:
  assumes ok: "dir_ok t" and i: "stride t i dvd i" and m: "i + stride t i < 2 ^ dir_depth t"
  shows "stride t (i + stride t i) dvd i + stride t i"
proof (rule ccontr)
  let ?m = "i + stride t i"
  let ?s = "stride t i" and ?s' = "stride t ?m"
  assume no: "\<not> ?s' dvd ?m"
  have sm: "?s dvd ?m" using i by simp
  obtain a b where ab: "?s = 2 ^ a" "?s' = 2 ^ b" by (simp add: stride_def)
  have "a < b"
  proof (rule ccontr)
    assume "\<not> a < b"
    then have "?s' dvd ?s" unfolding ab(2) by (simp add: ab(1) le_imp_power_dvd)
    then show False using sm no dvd_trans by blast
  qed
  then have ss: "?s dvd ?s'" unfolding ab(2) by (simp add: ab(1) le_imp_power_dvd)
  define x where "x = ?m div ?s' * ?s'"
  have "?s' dvd x" by (simp add: x_def)
  then have "x \<noteq> ?m" using no by metis
  then have x: "x \<le> ?m" "x \<noteq> ?m" by (simp_all add: x_def)
  have "?s dvd x" using ss by (simp add: x_def)
  then have "?s dvd ?m - x" using sm dvd_diff_nat by blast
  then have "?s \<le> ?m - x" using x dvd_imp_le by (metis diff_is_0_eq le_antisym neq0_conv)
  then have "x \<le> i" using x(1) by linarith
  moreover have "i < x + ?s'" using dividend_less_div_times [of ?s' ?m] unfolding x_def by (simp add: stride_def)
  ultimately have "i div ?s' = ?m div ?s'" unfolding x_def by (subst div_eq_block) simp_all
  then have "dir_ptr t ?m = dir_ptr t i" using same_segment [OF ok m, of i] m by simp
  then show False using block [OF ok _ i m] m by simp
qed

lemma visited_card:
  assumes "dir_ok t" and "i < 2 ^ dir_depth t \<Longrightarrow> stride t i dvd i"
  shows "length (visited t i) = card (dir_ptr t ` {i..<2 ^ dir_depth t})"
  using assms
proof (induction t i rule: visited.induct)
  case (1 t i)
  show ?case
  proof (cases "i < 2 ^ dir_depth t")
    case True
    let ?m = "i + stride t i" and ?c = "2 ^ dir_depth t"
    note b = block [OF 1(2) True 1(3) [OF True]]
    have "length (visited t ?m) = card (dir_ptr t ` {?m..<?c})" using 1(1) [OF True 1(2)] next_block [OF 1(2) 1(3) [OF True]] by blast
    moreover have "dir_ptr t i \<notin> dir_ptr t ` {?m..<?c}"
    proof
      assume "dir_ptr t i \<in> dir_ptr t ` {?m..<?c}"
      then obtain j where "dir_ptr t i = dir_ptr t j" "?m \<le> j" "j < ?c" by auto
      then show False using b [of j] by simp
    qed
    moreover have "dir_ptr t ` {i..<?c} = insert (dir_ptr t i) (dir_ptr t ` {?m..<?c})"
    proof
      show "dir_ptr t ` {i..<?c} \<subseteq> insert (dir_ptr t i) (dir_ptr t ` {?m..<?c})"
      proof
        fix y assume "y \<in> dir_ptr t ` {i..<?c}"
        then obtain j where j: "y = dir_ptr t j" "i \<le> j" "j < ?c" by auto
        then show "y \<in> insert (dir_ptr t i) (dir_ptr t ` {?m..<?c})" using b [of j] by (cases "j < ?m") auto
      qed
    qed (use True in auto)
    ultimately show ?thesis using True by (subst visited.simps) simp
  qed (simp add: visited.simps)
qed

section \<open>Recovery of the directory\<close>

text \<open>
  \<open>Recovery\<close> repairs the entries of a block from its first one; the inner loop runs downwards. It
  stops at the block that ends the directory. The flag it returns is never set.
\<close>

fun repair :: "nat \<Rightarrow> nat \<Rightarrow> nat \<Rightarrow> cceh \<Rightarrow> cceh" where
  "repair i depth_cur 0 t = t"
| "repair i depth_cur (Suc n) t =
     (let j = i + Suc n;
          t = (if local_depth (sg_heap t (dir_ptr t j)) \<noteq> depth_cur then t\<lparr>dir_ptr := (dir_ptr t)(j := dir_ptr t i)\<rparr> else t)
      in repair i depth_cur n t)"

lemma repair_depth [simp]: "dir_depth (repair i d n t) = dir_depth t"
  by (induction n arbitrary: t) (simp_all add: Let_def)

function recovery_loop :: "nat \<Rightarrow> cceh \<Rightarrow> cceh" where
  "recovery_loop i t =
     (if i < 2 ^ dir_depth t then
        let depth_cur = local_depth (sg_heap t (dir_ptr t i)); s = stride t i in
        if i + s = 2 ^ dir_depth t then t else recovery_loop (i + s) (repair i depth_cur (s - 1) t)
      else t)"
  by pat_completeness auto
termination by (relation "measure (\<lambda>(i, t). 2 ^ dir_depth t - i)") (auto intro: diff_less_mono2)

declare recovery_loop.simps [simp del]

definition Recovery :: "cceh \<Rightarrow> bool \<times> cceh" where
  "Recovery t = (False, recovery_loop 0 t)"

lemma repair_same:
  assumes "\<And>j. i < j \<Longrightarrow> j \<le> i + n \<Longrightarrow> local_depth (sg_heap t (dir_ptr t j)) = d"
  shows "repair i d n t = t"
  using assms by (induction n) (simp_all add: Let_def)

lemma recovery_loop_same:
  assumes "dir_ok t" and "i < 2 ^ dir_depth t \<Longrightarrow> stride t i dvd i"
  shows "recovery_loop i t = t"
  using assms
proof (induction t i rule: visited.induct)
  case (1 t i)
  show ?case
  proof (cases "i < 2 ^ dir_depth t")
    case True
    let ?m = "i + stride t i" and ?c = "2 ^ dir_depth t"
    have le: "?m \<le> ?c"
    proof -
      obtain a where a: "stride t i = 2 ^ a" "a \<le> dir_depth t" by (simp add: stride_def)
      have "stride t i dvd ?c" using a by (simp add: le_imp_power_dvd)
      then have "stride t i dvd ?c - i" using 1(3) [OF True] dvd_diff_nat by blast
      then have "stride t i \<le> ?c - i" using True by (simp add: dvd_imp_le)
      then show ?thesis using True by linarith
    qed
    have "dir_ptr t j = dir_ptr t i" if "i < j" "j \<le> i + (stride t i - 1)" for j
    proof -
      have "j < ?m" using that stride_pos [of t i] by linarith
      then show ?thesis using block [OF 1(2) True 1(3) [OF True], of j] that(1) le by simp
    qed
    then have "repair i (local_depth (sg_heap t (dir_ptr t i))) (stride t i - 1) t = t" by (intro repair_same) simp
    moreover have "recovery_loop ?m t = t" using 1(1) [OF True 1(2)] next_block [OF 1(2) 1(3) [OF True]] by blast
    ultimately show ?thesis by (subst recovery_loop.simps) (simp add: Let_def)
  qed (simp add: recovery_loop.simps)
qed



section \<open>The debugging search\<close>

text \<open>\<open>FindAnyway\<close> looks at every slot of every directory entry, without hashing; it prints where it found the key.\<close>

definition FindAnyway :: "u64 \<Rightarrow> cceh \<Rightarrow> nat" where
  "FindAnyway key t =
     (case List.find (\<lambda>(i, j). fst (sg_slots (sg_heap t (dir_ptr t i)) j) = key)
             (List.product [0..<2 ^ dir_depth t] [0..<kNumSlot]) of
        None \<Rightarrow> NONE_VALUE | Some (i, j) \<Rightarrow> snd (sg_slots (sg_heap t (dir_ptr t i)) j))"

text \<open>A key no slot of the table holds is found by neither search.\<close>

lemma FindAnyway_none:
  assumes "dir_ok t" and "\<And>i j. i < 2 ^ dir_depth t \<Longrightarrow> j < kNumSlot \<Longrightarrow> fst (sg_slots (sg_heap t (dir_ptr t i)) j) \<noteq> key"
  shows "FindAnyway key t = NONE_VALUE" and "cceh_Get h key t = NONE_VALUE"
proof -
  have "List.find (\<lambda>(i, j). fst (sg_slots (sg_heap t (dir_ptr t i)) j) = key)
      (List.product [0..<2 ^ dir_depth t] [0..<kNumSlot]) = None" using assms(2) by (auto simp: find_None_iff)
  then show "FindAnyway key t = NONE_VALUE" by (simp add: FindAnyway_def)
  show "cceh_Get h key t = NONE_VALUE"
    unfolding cceh_Get_seg by (rule seg_get_none) (use assms(2) target_facts(1) [OF assms(1), of h key] in \<open>simp add: target_def\<close>)
qed

end
