(* ===== verification/Locks.thy ===== *)
theory Locks
  imports Prelude
begin

text \<open>
  The synchronisation of FlatStore as state machines: the spin lock and the read-write lock of
  \<^verbatim>\<open>util/lock.h\<close>, the semaphore of a CCEH segment or directory (\<open>suspend\<close>, \<open>lock\<close>, \<open>unlock\<close> in \<^verbatim>\<open>CCEH.h\<close>)
  and the epochs of \<^verbatim>\<open>util/thread_status.h\<close>. A step is one atomic access of one thread; a thread's program
  counter holds what it has read so far, so that the accesses of different threads interleave
  freely. Memory is sequentially consistent here.
\<close>

section \<open>Threads in a set of program points\<close>

lemma reachable_inv:
  assumes "R\<^sup>*\<^sup>* s0 s" and "I s0" and "\<And>s s'. R s s' \<Longrightarrow> I s \<Longrightarrow> I s'"
  shows "I s"
  using assms(1,2) by (induction rule: rtranclp_induct) (auto intro: assms(3))

lemma card_at_update:
  assumes "finite {t. P (pc t)}"
  shows "card {u. P ((pc(t := x)) u)} =
      card {u. P (pc u)} - (if P (pc t) then 1 else 0) + (if P x then 1 else 0)"
    and "finite {u. P ((pc(t := x)) u)}"
proof -
  have e: "{u. P ((pc(t := x)) u)} = (if P x then insert t ({u. P (pc u)} - {t}) else {u. P (pc u)} - {t})" by auto
  show "finite {u. P ((pc(t := x)) u)}" unfolding e using assms by simp
  show "card {u. P ((pc(t := x)) u)} =
      card {u. P (pc u)} - (if P (pc t) then 1 else 0) + (if P x then 1 else 0)"
    unfolding e using assms card_Suc_Diff1 [OF assms, of t] by (auto simp: card_Diff_singleton_if card_insert_if)
qed

lemma card_at_pos: "finite {t. P (pc t)} \<Longrightarrow> P (pc t) \<Longrightarrow> 0 < card {t. P (pc t)}"
  by (auto simp: card_gt_0_iff)

section \<open>Spin lock\<close>

text \<open>\<open>lock\<close> repeats the compare-and-swap until it succeeds; \<open>try_lock\<close> does it once.\<close>

datatype spin_pc = Spin_idle | Spin_trying | Spin_held

record spin_state =
  spin_mutex :: bool
  spin_pcs :: "nat \<Rightarrow> spin_pc"

definition spin_cas :: "nat \<Rightarrow> spin_state \<Rightarrow> bool \<times> spin_state" where
  "spin_cas t s =
     (if spin_mutex s then (False, s) else (True, s\<lparr>spin_mutex := True, spin_pcs := (spin_pcs s)(t := Spin_held)\<rparr>))"

definition spin_unlock :: "nat \<Rightarrow> spin_state \<Rightarrow> spin_state" where
  "spin_unlock t s = s\<lparr>spin_mutex := False, spin_pcs := (spin_pcs s)(t := Spin_idle)\<rparr>"

inductive spin_step :: "spin_state \<Rightarrow> spin_state \<Rightarrow> bool" where
  spin_try_lock: "spin_pcs s t = Spin_idle \<Longrightarrow> spin_step s (snd (spin_cas t s))"
| spin_lock: "spin_pcs s t = Spin_idle \<Longrightarrow> spin_step s (s\<lparr>spin_pcs := (spin_pcs s)(t := Spin_trying)\<rparr>)"
| spin_again: "spin_pcs s t = Spin_trying \<Longrightarrow> spin_step s (snd (spin_cas t s))"
| spin_release: "spin_pcs s t = Spin_held \<Longrightarrow> spin_step s (spin_unlock t s)"

definition spin_inv :: "spin_state \<Rightarrow> bool" where
  "spin_inv s \<longleftrightarrow> (\<exists>t. spin_pcs s t = Spin_held) = spin_mutex s \<and>
     (\<forall>t u. spin_pcs s t = Spin_held \<and> spin_pcs s u = Spin_held \<longrightarrow> t = u)"

lemma spin_step_inv: "spin_step s s' \<Longrightarrow> spin_inv s \<Longrightarrow> spin_inv s'"
proof (induction rule: spin_step.induct)
  case (spin_lock s t)
  then have "((spin_pcs s)(t := Spin_trying)) u = Spin_held \<longleftrightarrow> spin_pcs s u = Spin_held" for u by simp
  then show ?case using spin_lock(2) by (simp add: spin_inv_def)
next
  case (spin_release s t)
  then show ?case by (auto simp: spin_inv_def spin_unlock_def)
qed (auto simp: spin_inv_def spin_cas_def split: if_splits)

section \<open>Read-write lock\<close>

text \<open>
  The lowest bit of the value belongs to the writer, every reader adds 2. A compare-and-swap may
  fail although the value is the one expected (the code uses the weak one), and loads the value again.
\<close>

datatype rw_pc = RW_idle | Read_try u64 | Reading | Read_release u64 | Write_try u64 | Write_drain | Writing

record rw_state =
  lock_value :: u64
  rw_pcs :: "nat \<Rightarrow> rw_pc"

definition rw_at :: "nat \<Rightarrow> rw_pc \<Rightarrow> rw_state \<Rightarrow> rw_state" where
  "rw_at t p s = s\<lparr>rw_pcs := (rw_pcs s)(t := p)\<rparr>"

definition rw_new :: rw_state where
  "rw_new = \<lparr>lock_value = 0, rw_pcs = (\<lambda>_. RW_idle)\<rparr>"

inductive rw_step :: "rw_state \<Rightarrow> rw_state \<Rightarrow> bool" where
  rw_load: "rw_pcs s t = RW_idle \<Longrightarrow> rw_step s (rw_at t (Read_try (lock_value s)) s)"
| rw_busy: "rw_pcs s t = Read_try old \<Longrightarrow> odd old \<or> 1024 < old \<Longrightarrow> rw_step s (rw_at t RW_idle s)"
| rw_read: "rw_pcs s t = Read_try old \<Longrightarrow> \<not> (odd old \<or> 1024 < old) \<Longrightarrow> lock_value s = old \<Longrightarrow>
    rw_step s (rw_at t Reading (s\<lparr>lock_value := old + 2\<rparr>))"
| rw_read_fail: "rw_pcs s t = Read_try old \<Longrightarrow> \<not> (odd old \<or> 1024 < old) \<Longrightarrow> rw_step s (rw_at t (Read_try (lock_value s)) s)"
| rw_unlock_load: "rw_pcs s t = Reading \<Longrightarrow> rw_step s (rw_at t (Read_release (lock_value s)) s)"
| rw_unlock_none: "rw_pcs s t = Read_release old \<Longrightarrow> old \<le> 1 \<Longrightarrow> rw_step s (rw_at t RW_idle s)"
| rw_unlock: "rw_pcs s t = Read_release old \<Longrightarrow> \<not> old \<le> 1 \<Longrightarrow> lock_value s = old \<Longrightarrow>
    rw_step s (rw_at t RW_idle (s\<lparr>lock_value := old - 2\<rparr>))"
| rw_unlock_fail: "rw_pcs s t = Read_release old \<Longrightarrow> \<not> old \<le> 1 \<Longrightarrow> rw_step s (rw_at t (Read_release (lock_value s)) s)"
| rw_wload: "rw_pcs s t = RW_idle \<Longrightarrow> rw_step s (rw_at t (Write_try (lock_value s)) s)"
| rw_wbusy: "rw_pcs s t = Write_try old \<Longrightarrow> odd old \<Longrightarrow> rw_step s (rw_at t RW_idle s)"
| rw_wcas: "rw_pcs s t = Write_try old \<Longrightarrow> \<not> odd old \<Longrightarrow> lock_value s = old \<Longrightarrow>
    rw_step s (rw_at t Write_drain (s\<lparr>lock_value := old OR 1\<rparr>))"
| rw_wfail: "rw_pcs s t = Write_try old \<Longrightarrow> \<not> odd old \<Longrightarrow> rw_step s (rw_at t (Write_try (lock_value s)) s)"
| rw_drained: "rw_pcs s t = Write_drain \<Longrightarrow> lock_value s = 1 \<Longrightarrow> rw_step s (rw_at t Writing s)"
| rw_wunlock: "rw_pcs s t = Writing \<Longrightarrow> rw_step s (rw_at t RW_idle (s\<lparr>lock_value := 0\<rparr>))"

definition has_read :: "rw_pc \<Rightarrow> bool" where
  "has_read p = (case p of Reading \<Rightarrow> True | Read_release _ \<Rightarrow> True | _ \<Rightarrow> False)"

definition has_write :: "rw_pc \<Rightarrow> bool" where
  "has_write p = (p = Write_drain \<or> p = Writing)"

lemma has_simps [simp]:
  "\<not> has_read RW_idle" "\<not> has_read (Read_try v)" "has_read Reading" "has_read (Read_release v)" "\<not> has_read (Write_try v)"
  "\<not> has_read Write_drain" "\<not> has_read Writing" "\<not> has_write RW_idle" "\<not> has_write (Read_try v)" "\<not> has_write Reading"
  "\<not> has_write (Read_release v)" "\<not> has_write (Write_try v)" "has_write Write_drain" "has_write Writing"
  by (simp_all add: has_read_def has_write_def)

definition readers :: "rw_state \<Rightarrow> nat" where
  "readers s = card {t. has_read (rw_pcs s t)}"

text \<open>The value counts the readers and the writer; a release never finds a value without a reader.\<close>

definition rw_inv :: "rw_state \<Rightarrow> bool" where
  "rw_inv s \<longleftrightarrow> finite {t. has_read (rw_pcs s t)} \<and> readers s \<le> 513 \<and>
     unat (lock_value s) = 2 * readers s + (if \<exists>t. has_write (rw_pcs s t) then 1 else 0) \<and>
     (\<forall>t u. has_write (rw_pcs s t) \<and> has_write (rw_pcs s u) \<longrightarrow> t = u) \<and>
     (\<forall>t. rw_pcs s t = Writing \<longrightarrow> readers s = 0) \<and> (\<forall>t old. rw_pcs s t = Read_release old \<longrightarrow> 2 \<le> unat old)"

lemma even_unat: "even (w :: u64) \<longleftrightarrow> even (unat w)"
  by transfer (simp add: even_nat_iff)

lemma rw_even: "rw_inv s \<Longrightarrow> even (lock_value s) \<longleftrightarrow> (\<forall>t. \<not> has_write (rw_pcs s t))"
  by (auto simp: even_unat rw_inv_def)

lemma readers_at:
  assumes "rw_inv s"
  shows "readers (rw_at t p s) = readers s - (if has_read (rw_pcs s t) then 1 else 0) + (if has_read p then 1 else 0)"
    and "finite {u. has_read (rw_pcs (rw_at t p s) u)}" and "has_read (rw_pcs s t) \<Longrightarrow> 0 < readers s"
  using card_at_update [of has_read "rw_pcs s" t p] card_at_pos [of has_read "rw_pcs s" t] assms
  by (simp_all add: readers_def rw_at_def rw_inv_def)

lemma rw_move:
  assumes "rw_inv s" and "has_read p = has_read (rw_pcs s t)" and "has_write p = has_write (rw_pcs s t)"
    and "p = Writing \<Longrightarrow> readers s = 0" and "\<And>old. p = Read_release old \<Longrightarrow> 2 \<le> unat old"
  shows "rw_inv (rw_at t p s)"
proof -
  have w: "has_write (rw_pcs (rw_at t p s) u) = has_write (rw_pcs s u)" for u using assms(3) by (simp add: rw_at_def)
  have r: "readers (rw_at t p s) = readers s" using readers_at(1,3) [OF assms(1), of t] assms(2) by (cases "has_read p") auto
  show ?thesis using assms readers_at(2) [OF assms(1), of t p] unfolding rw_inv_def r w by (auto simp: rw_at_def)
qed

lemma rw_value: "rw_inv s \<Longrightarrow> has_read (rw_pcs s t) \<Longrightarrow> 2 \<le> unat (lock_value s)"
  using readers_at(3) [of s t] by (simp add: rw_inv_def)

lemma rw_step_inv: "rw_step s s' \<Longrightarrow> rw_inv s \<Longrightarrow> rw_inv s'"
proof (induction rule: rw_step.induct)
  case (rw_read s t old)
  have e: "\<not> has_write (rw_pcs s u)" for u using rw_even [OF rw_read.prems] rw_read.hyps by simp
  have n: "unat old = 2 * readers s" "unat old \<le> 1024" using rw_read.prems rw_read.hyps e by (simp_all add: rw_inv_def word_le_nat_alt not_less)
  then have v: "unat (old + 2) = 2 * (readers s + 1)" by (simp add: unat_plus_if')
  have r: "readers (rw_at t Reading (s\<lparr>lock_value := old + 2\<rparr>)) = readers s + 1"
    using readers_at(1) [OF rw_read.prems, of t Reading] rw_read.hyps(1) by (simp add: readers_def rw_at_def)
  have "rw_pcs s u \<noteq> Writing" for u using e [of u] by auto
  then show ?case using rw_read.prems readers_at(2) [OF rw_read.prems, of t Reading] v n e unfolding rw_inv_def r
    by (auto simp: rw_at_def)
next
  case (rw_unlock s t old)
  let ?s = "rw_at t RW_idle (s\<lparr>lock_value := old - 2\<rparr>)"
  have n: "0 < readers s" using readers_at(3) [OF rw_unlock.prems, of t] rw_unlock.hyps(1) by simp
  then have w: "rw_pcs s u \<noteq> Writing" for u using rw_unlock.prems by (auto simp: rw_inv_def)
  have r: "readers ?s = readers s - 1"
    using readers_at(1) [OF rw_unlock.prems, of t RW_idle] rw_unlock.hyps(1) by (simp add: readers_def rw_at_def)
  have v: "unat (old - 2) = unat old - 2" "2 \<le> unat old"
    using rw_unlock.prems rw_unlock.hyps(1) by (auto simp: rw_inv_def unat_sub_if')
  have "has_write (rw_pcs ?s u) = has_write (rw_pcs s u)" for u using rw_unlock.hyps(1) by (simp add: rw_at_def)
  then show ?case using rw_unlock.prems rw_unlock.hyps readers_at(2) [OF rw_unlock.prems, of t RW_idle] v n w
    unfolding rw_inv_def r by (auto simp: rw_at_def)
next
  case (rw_wcas s t old)
  let ?s = "rw_at t Write_drain (s\<lparr>lock_value := old OR 1\<rparr>)"
  have e: "\<not> has_write (rw_pcs s u)" for u using rw_even [OF rw_wcas.prems] rw_wcas.hyps by simp
  have n: "unat old = 2 * readers s" "readers s \<le> 513" using rw_wcas.prems rw_wcas.hyps e by (simp_all add: rw_inv_def)
  then have v: "unat (old OR 1) = 2 * readers s + 1" using rw_wcas.hyps(2) by (simp add: or_one_eq unat_plus_if')
  have r: "readers ?s = readers s"
    using readers_at(1) [OF rw_wcas.prems, of t Write_drain] rw_wcas.hyps(1) by (simp add: readers_def rw_at_def)
  have w: "has_write (rw_pcs ?s u) \<longleftrightarrow> u = t" "rw_pcs s u \<noteq> Writing" for u using e [of u] by (auto simp: rw_at_def)
  show ?case using rw_wcas.prems readers_at(2) [OF rw_wcas.prems, of t Write_drain] v n w(2)
    unfolding rw_inv_def r w(1) by (auto simp: rw_at_def)
next
  case (rw_wunlock s t)
  let ?s = "rw_at t RW_idle (s\<lparr>lock_value := 0\<rparr>)"
  have n: "readers s = 0" using rw_wunlock by (auto simp: rw_inv_def)
  have r: "readers ?s = 0"
    using readers_at(1) [OF rw_wunlock.prems, of t RW_idle] rw_wunlock.hyps(1) n by (simp add: readers_def rw_at_def)
  have "has_write (rw_pcs s u) \<Longrightarrow> u = t" for u using rw_wunlock by (auto simp: rw_inv_def)
  then have w: "\<not> has_write (rw_pcs ?s u)" for u by (auto simp: rw_at_def)
  then have "rw_pcs ?s u \<noteq> Writing" for u by (metis has_simps(14))
  then show ?case using rw_wunlock.prems readers_at(2) [OF rw_wunlock.prems, of t RW_idle] w
    unfolding rw_inv_def r by (auto simp: rw_at_def)
next
  case (rw_unlock_load s t)
  then show ?case using rw_value [of s t] by (intro rw_move) auto
next
  case (rw_unlock_fail s t old)
  then show ?case using rw_value [of s t] by (intro rw_move) auto
next
  case (rw_unlock_none s t old)
  then have "2 \<le> unat old" by (auto simp: rw_inv_def)
  then show ?case using rw_unlock_none.hyps(2) by (simp add: word_le_nat_alt)
next
  case (rw_drained s t)
  then have "readers s = 0" by (auto simp: rw_inv_def split: if_splits)
  then show ?case by (intro rw_move) (use rw_drained in auto)
qed (auto intro: rw_move)

lemma rw_new_inv: "rw_inv rw_new"
  by (simp add: rw_inv_def rw_new_def readers_def)

lemma rw_reachable_inv: "rw_step\<^sup>*\<^sup>* rw_new s \<Longrightarrow> rw_inv s"
  by (erule reachable_inv [where I = rw_inv]) (auto intro: rw_new_inv rw_step_inv)

text \<open>
  C18: the read-write lock excludes. In every reachable state a thread that holds the write lock is alone:
  no other thread holds the read or the write lock, however their loads and compare-and-swaps
  interleave; there are never more than 513 readers, so the counter does not overflow; and a
  reader that unlocks never finds a value without readers, so the branch that gives up is unreachable.
\<close>

theorem rw_lock_excludes:
  assumes "rw_step\<^sup>*\<^sup>* rw_new s"
  shows "(rw_pcs s t = Writing \<and> u \<noteq> t \<longrightarrow> \<not> has_read (rw_pcs s u) \<and> \<not> has_write (rw_pcs s u)) \<and>
    readers s \<le> 513 \<and> (rw_pcs s t = Read_release old \<longrightarrow> 2 \<le> old)"
proof -
  note i = rw_reachable_inv [OF assms]
  have "\<not> has_read (rw_pcs s u)" if "rw_pcs s t = Writing"
  proof -
    have "readers s = 0" using i that unfolding rw_inv_def by blast
    then show ?thesis using readers_at(3) [OF i, where t = u] by auto
  qed
  moreover have "\<not> has_write (rw_pcs s u)" if "rw_pcs s t = Writing" "u \<noteq> t"
  proof -
    have "\<forall>t u. has_write (rw_pcs s t) \<and> has_write (rw_pcs s u) \<longrightarrow> t = u" using i unfolding rw_inv_def by blast
    moreover have "has_write (rw_pcs s t)" using that(1) by simp
    ultimately show ?thesis using that(2) by blast
  qed
  moreover have "2 \<le> old" if "rw_pcs s t = Read_release old" using i that by (simp add: rw_inv_def word_le_nat_alt)
  ultimately show ?thesis using i by (simp add: rw_inv_def)
qed

lemma rw_write_run: "rw_step\<^sup>*\<^sup>* rw_new (rw_at 1 Writing (rw_at 1 Write_drain ((rw_at 1 (Write_try 0) rw_new)\<lparr>lock_value := 1\<rparr>)))"
proof -
  let ?a = "rw_at 1 (Write_try 0) rw_new" and ?b = "rw_at 1 Write_drain ((rw_at 1 (Write_try 0) rw_new)\<lparr>lock_value := 1\<rparr>)"
  have "rw_step rw_new ?a" using rw_wload [of rw_new 1] by (simp add: rw_new_def)
  moreover have "rw_step ?a ?b" using rw_wcas [of ?a 1 0] by (simp add: rw_at_def rw_new_def)
  moreover have "rw_step ?b (rw_at 1 Writing ?b)" by (rule rw_drained) (simp_all add: rw_at_def)
  ultimately show ?thesis by (meson converse_rtranclp_into_rtranclp rtranclp.rtrancl_refl)
qed

theorem rw_lock_excludes_witness:
  "\<exists>s. rw_step\<^sup>*\<^sup>* rw_new s \<and> rw_pcs s 1 = Writing \<and> \<not> has_read (rw_pcs s 2)"
proof -
  let ?s = "rw_at 1 Writing (rw_at 1 Write_drain ((rw_at 1 (Write_try 0) rw_new)\<lparr>lock_value := 1\<rparr>))"
  have w: "rw_pcs ?s 1 = Writing" by (simp add: rw_at_def)
  show ?thesis using rw_lock_excludes [OF rw_write_run, of 1 2] rw_write_run w by (intro exI [of _ ?s]) simp
qed

section \<open>Semaphore of a CCEH segment or directory\<close>

text \<open>
  Non-negative: the number of shared holders. \<open>suspend\<close> sets it to -1 and waits until each of the
  \<open>val\<close> holders it found has counted it down by one. The suspender releases by storing 0.
\<close>

datatype sema_pc = Sema_idle | Lock_try int | Shared | Unlock_try int | Suspend_try int | Suspend_wait int | Exclusive

record sema_state =
  sema :: int
  sema_pcs :: "nat \<Rightarrow> sema_pc"

definition sema_at :: "nat \<Rightarrow> sema_pc \<Rightarrow> sema_state \<Rightarrow> sema_state" where
  "sema_at t p s = s\<lparr>sema_pcs := (sema_pcs s)(t := p)\<rparr>"

definition sema_new :: sema_state where
  "sema_new = \<lparr>sema = 0, sema_pcs = (\<lambda>_. Sema_idle)\<rparr>"

inductive sema_step :: "sema_state \<Rightarrow> sema_state \<Rightarrow> bool" where
  s_lock: "sema_pcs s t = Sema_idle \<Longrightarrow> sema_step s (sema_at t (Lock_try (sema s)) s)"
| s_lock_false: "sema_pcs s t = Lock_try val \<Longrightarrow> \<not> val > -1 \<Longrightarrow> sema_step s (sema_at t Sema_idle s)"
| s_locked: "sema_pcs s t = Lock_try val \<Longrightarrow> val > -1 \<Longrightarrow> sema s = val \<Longrightarrow>
    sema_step s (sema_at t Shared (s\<lparr>sema := val + 1\<rparr>))"
| s_lock_fail: "sema_pcs s t = Lock_try val \<Longrightarrow> val > -1 \<Longrightarrow> sema s \<noteq> val \<Longrightarrow> sema_step s (sema_at t (Lock_try (sema s)) s)"
| s_unlock: "sema_pcs s t = Shared \<Longrightarrow> sema_step s (sema_at t (Unlock_try (sema s)) s)"
| s_unlocked: "sema_pcs s t = Unlock_try val \<Longrightarrow> sema s = val \<Longrightarrow> sema_step s (sema_at t Sema_idle (s\<lparr>sema := val - 1\<rparr>))"
| s_unlock_fail: "sema_pcs s t = Unlock_try val \<Longrightarrow> sema s \<noteq> val \<Longrightarrow> sema_step s (sema_at t (Unlock_try (sema s)) s)"
| s_suspend: "sema_pcs s t = Sema_idle \<Longrightarrow> sema_step s (sema_at t (Suspend_try (sema s)) s)"
| s_suspend_false: "sema_pcs s t = Suspend_try val \<Longrightarrow> val < 0 \<Longrightarrow> sema_step s (sema_at t Sema_idle s)"
| s_suspended: "sema_pcs s t = Suspend_try val \<Longrightarrow> \<not> val < 0 \<Longrightarrow> sema s = val \<Longrightarrow>
    sema_step s (sema_at t (Suspend_wait val) (s\<lparr>sema := -1\<rparr>))"
| s_suspend_fail: "sema_pcs s t = Suspend_try val \<Longrightarrow> \<not> val < 0 \<Longrightarrow> sema s \<noteq> val \<Longrightarrow>
    sema_step s (sema_at t (Suspend_try (sema s)) s)"
| s_exclusive: "sema_pcs s t = Suspend_wait val \<Longrightarrow> val = 0 \<or> sema s = 0 - val - 1 \<Longrightarrow> sema_step s (sema_at t Exclusive s)"
| s_release: "sema_pcs s t = Exclusive \<Longrightarrow> sema_step s (sema_at t Sema_idle (s\<lparr>sema := 0\<rparr>))"

definition shares :: "sema_pc \<Rightarrow> bool" where
  "shares p = (case p of Shared \<Rightarrow> True | Unlock_try _ \<Rightarrow> True | _ \<Rightarrow> False)"

definition suspends :: "sema_pc \<Rightarrow> bool" where
  "suspends p = (case p of Suspend_wait _ \<Rightarrow> True | Exclusive \<Rightarrow> True | _ \<Rightarrow> False)"

lemma shares_simps [simp]:
  "\<not> shares Sema_idle" "\<not> shares (Lock_try v)" "shares Shared" "shares (Unlock_try v)" "\<not> shares (Suspend_try v)"
  "\<not> shares (Suspend_wait v)" "\<not> shares Exclusive" "\<not> suspends Sema_idle" "\<not> suspends (Lock_try v)" "\<not> suspends Shared"
  "\<not> suspends (Unlock_try v)" "\<not> suspends (Suspend_try v)" "suspends (Suspend_wait v)" "suspends Exclusive"
  by (simp_all add: shares_def suspends_def)

definition sharers :: "sema_state \<Rightarrow> nat" where
  "sharers s = card {t. shares (sema_pcs s t)}"

definition sema_inv :: "sema_state \<Rightarrow> bool" where
  "sema_inv s \<longleftrightarrow> finite {t. shares (sema_pcs s t)} \<and>
     (\<forall>t u. suspends (sema_pcs s t) \<and> suspends (sema_pcs s u) \<longrightarrow> t = u) \<and>
     ((\<forall>t. \<not> suspends (sema_pcs s t)) \<longrightarrow> sema s = int (sharers s)) \<and>
     (\<forall>t val. sema_pcs s t = Suspend_wait val \<longrightarrow> sema s = int (sharers s) - val - 1 \<and> int (sharers s) \<le> val) \<and>
     (\<forall>t. sema_pcs s t = Exclusive \<longrightarrow> sharers s = 0 \<and> sema s < 0)"

lemma sharers_at:
  assumes "sema_inv s"
  shows "sharers (sema_at t p s) = sharers s - (if shares (sema_pcs s t) then 1 else 0) + (if shares p then 1 else 0)"
    and "finite {u. shares (sema_pcs (sema_at t p s) u)}" and "shares (sema_pcs s t) \<Longrightarrow> 0 < sharers s"
  using card_at_update [of shares "sema_pcs s" t p] card_at_pos [of shares "sema_pcs s" t] assms
  by (simp_all add: sharers_def sema_at_def sema_inv_def)

lemma suspends_cases: "suspends p \<Longrightarrow> p = Exclusive \<or> (\<exists>v. p = Suspend_wait v)"
  by (auto simp: suspends_def split: sema_pc.splits)

lemma sema_sign: "sema_inv s \<Longrightarrow> 0 \<le> sema s \<longleftrightarrow> (\<forall>t. \<not> suspends (sema_pcs s t))"
  using suspends_cases by (fastforce simp: sema_inv_def)

lemma sema_move:
  assumes inv: "sema_inv s" and "shares p = shares (sema_pcs s t)" and sus: "suspends p = suspends (sema_pcs s t)"
    and "\<not> suspends p \<or> (p = Exclusive \<and> sharers s = 0 \<and> sema s < 0)"
  shows "sema_inv (sema_at t p s)"
proof -
  have w: "suspends (sema_pcs (sema_at t p s) u) = suspends (sema_pcs s u)" for u using sus by (simp add: sema_at_def)
  have r: "sharers (sema_at t p s) = sharers s" using sharers_at(1,3) [OF inv, of t] assms(2) by (cases "shares p") auto
  have "sema s = int (sharers s) - v - 1 \<and> int (sharers s) \<le> v" if "sema_pcs (sema_at t p s) u = Suspend_wait v" for u v
    using that assms(4) inv by (auto simp: sema_inv_def sema_at_def split: if_splits)
  moreover have "sharers s = 0 \<and> sema s < 0" if "sema_pcs (sema_at t p s) u = Exclusive" for u
    using that assms(4) inv by (auto simp: sema_inv_def sema_at_def split: if_splits)
  moreover have "sema (sema_at t p s) = sema s" by (simp add: sema_at_def)
  moreover have "(\<forall>t u. suspends (sema_pcs s t) \<and> suspends (sema_pcs s u) \<longrightarrow> t = u)"
    "(\<forall>t. \<not> suspends (sema_pcs s t)) \<longrightarrow> sema s = int (sharers s)" using inv by (simp_all add: sema_inv_def)
  ultimately show ?thesis using sharers_at(2) [OF inv, of t p] unfolding sema_inv_def r w by simp
qed

lemma sema_step_inv: "sema_step s s' \<Longrightarrow> sema_inv s \<Longrightarrow> sema_inv s'"
proof (induction rule: sema_step.induct)
  case (s_locked s t val)
  let ?s = "sema_at t Shared (s\<lparr>sema := val + 1\<rparr>)"
  have e: "\<not> suspends (sema_pcs s u)" for u using sema_sign [OF s_locked.prems] s_locked.hyps by simp
  have r: "sharers ?s = sharers s + 1"
    using sharers_at(1) [OF s_locked.prems, of t Shared] s_locked.hyps(1) by (simp add: sharers_def sema_at_def)
  have w: "\<not> suspends (sema_pcs ?s u)" for u using e by (simp add: sema_at_def)
  then have "sema_pcs ?s u \<noteq> Exclusive" "sema_pcs ?s u \<noteq> Suspend_wait v" for u v by (metis shares_simps(13,14))+
  then show ?case using s_locked.prems s_locked.hyps sharers_at(2) [OF s_locked.prems, of t Shared] e w
    unfolding sema_inv_def r by (simp add: sema_at_def)
next
  case (s_unlocked s t val)
  let ?s = "sema_at t Sema_idle (s\<lparr>sema := val - 1\<rparr>)"
  have n: "0 < sharers s" using sharers_at(3) [OF s_unlocked.prems, of t] s_unlocked.hyps(1) by simp
  have r: "sharers ?s = sharers s - 1"
    using sharers_at(1) [OF s_unlocked.prems, of t Sema_idle] s_unlocked.hyps(1) by (simp add: sharers_def sema_at_def)
  have w: "suspends (sema_pcs ?s u) = suspends (sema_pcs s u)" for u using s_unlocked.hyps(1) by (simp add: sema_at_def)
  have wait: "sema s = int (sharers s) - v - 1 \<and> int (sharers s) \<le> v" if "sema_pcs ?s u = Suspend_wait v" for u v
    using that s_unlocked.prems by (auto simp: sema_inv_def sema_at_def split: if_splits)
  have "sema_pcs ?s u \<noteq> Exclusive" for u using s_unlocked.prems n by (auto simp: sema_inv_def sema_at_def)
  moreover have "sema ?s = sema s - 1" using s_unlocked.hyps by (simp add: sema_at_def)
  moreover have "(\<forall>t u. suspends (sema_pcs s t) \<and> suspends (sema_pcs s u) \<longrightarrow> t = u)"
    "(\<forall>t. \<not> suspends (sema_pcs s t)) \<longrightarrow> sema s = int (sharers s)" using s_unlocked.prems by (simp_all add: sema_inv_def)
  ultimately show ?case using sharers_at(2) [OF s_unlocked.prems, of t Sema_idle] n wait
    unfolding sema_inv_def r w by (fastforce simp: sema_at_def)
next
  case (s_suspended s t val)
  let ?s = "sema_at t (Suspend_wait val) (s\<lparr>sema := -1\<rparr>)"
  have e: "\<not> suspends (sema_pcs s u)" for u using sema_sign [OF s_suspended.prems] s_suspended.hyps by simp
  have r: "sharers ?s = sharers s"
    using sharers_at(1) [OF s_suspended.prems, of t "Suspend_wait val"] s_suspended.hyps(1) by (simp add: sharers_def sema_at_def)
  have w: "suspends (sema_pcs ?s u) \<longleftrightarrow> u = t" for u using e [of u] by (auto simp: sema_at_def)
  have x: "sema_pcs s u \<noteq> Exclusive" "sema_pcs s u \<noteq> Suspend_wait v" for u v using e [of u] by auto
  have "int (sharers s) = val" using s_suspended e by (simp add: sema_inv_def)
  then show ?case using s_suspended.prems sharers_at(2) [OF s_suspended.prems, of t "Suspend_wait val"] x
    unfolding sema_inv_def r w by (auto simp: sema_at_def)
next
  case (s_release s t)
  let ?s = "sema_at t Sema_idle (s\<lparr>sema := 0\<rparr>)"
  have n: "sharers s = 0" using s_release by (auto simp: sema_inv_def)
  have r: "sharers ?s = 0"
    using sharers_at(1) [OF s_release.prems, of t Sema_idle] s_release.hyps(1) n by (simp add: sharers_def sema_at_def)
  have "suspends (sema_pcs s u) \<Longrightarrow> u = t" for u using s_release by (auto simp: sema_inv_def)
  then have w: "\<not> suspends (sema_pcs ?s u)" for u by (auto simp: sema_at_def)
  then have "sema_pcs ?s u \<noteq> Exclusive" "sema_pcs ?s u \<noteq> Suspend_wait v" for u v by (metis shares_simps(13,14))+
  then show ?case using s_release.prems sharers_at(2) [OF s_release.prems, of t Sema_idle] w
    unfolding sema_inv_def r by (simp add: sema_at_def)
next
  case (s_exclusive s t val)
  have "sema s = int (sharers s) - val - 1" "int (sharers s) \<le> val" using s_exclusive.prems s_exclusive.hyps(1) by (simp_all add: sema_inv_def)
  then have "sharers s = 0" "sema s < 0" using s_exclusive.hyps(2) by linarith+
  then show ?case by (intro sema_move) (use s_exclusive in auto)
qed (auto intro: sema_move)

lemma sema_new_inv: "sema_inv sema_new"
  by (simp add: sema_inv_def sema_new_def sharers_def)

lemma sema_reachable_inv: "sema_step\<^sup>*\<^sup>* sema_new s \<Longrightarrow> sema_inv s"
  by (erule reachable_inv [where I = sema_inv]) (auto intro: sema_new_inv sema_step_inv)

text \<open>
  C17: a CCEH segment or directory that was suspended is held by nobody else. In every reachable state,
  when \<open>suspend\<close> has returned \<open>true\<close> to one thread, no thread is between \<open>lock\<close> and the end of
  \<open>unlock\<close>, no other thread has suspended it, and the semaphore is negative, so that \<open>lock\<close> and
  \<open>suspend\<close> of every other thread return \<open>false\<close>.
\<close>

theorem suspend_excludes:
  assumes "sema_step\<^sup>*\<^sup>* sema_new s" and "sema_pcs s t = Exclusive"
  shows "sema s < 0 \<and> \<not> shares (sema_pcs s u) \<and> (suspends (sema_pcs s u) \<longrightarrow> u = t)"
proof -
  note i = sema_reachable_inv [OF assms(1)]
  have "sharers s = 0" "sema s < 0" using i assms(2) by (auto simp: sema_inv_def)
  moreover have "\<not> shares (sema_pcs s u)" using sharers_at(3) [OF i, where t = u] calculation by auto
  moreover have "u = t" if "suspends (sema_pcs s u)"
  proof -
    have "\<forall>t u. suspends (sema_pcs s t) \<and> suspends (sema_pcs s u) \<longrightarrow> t = u" using i unfolding sema_inv_def by blast
    moreover have "suspends (sema_pcs s t)" using assms(2) by simp
    ultimately show ?thesis using that by blast
  qed
  ultimately show ?thesis by simp
qed

lemma suspend_run: "\<exists>s. sema_step\<^sup>*\<^sup>* sema_new s \<and> sema_pcs s 1 = Exclusive"
proof -
  let ?a = "sema_at 1 (Suspend_try 0) sema_new"
  let ?b = "sema_at 1 (Suspend_wait 0) (?a\<lparr>sema := -1\<rparr>)"
  have "sema_step sema_new ?a" using s_suspend [of sema_new 1] by (simp add: sema_new_def)
  moreover have "sema_step ?a ?b" by (rule s_suspended) (simp_all add: sema_at_def sema_new_def)
  moreover have "sema_step ?b (sema_at 1 Exclusive ?b)" by (rule s_exclusive [of _ _ 0]) (simp_all add: sema_at_def)
  ultimately have "sema_step\<^sup>*\<^sup>* sema_new (sema_at 1 Exclusive ?b)" by (meson converse_rtranclp_into_rtranclp rtranclp.rtrancl_refl)
  then show ?thesis by (intro exI [of _ "sema_at 1 Exclusive ?b"]) (simp add: sema_at_def)
qed

theorem suspend_excludes_witness:
  "\<exists>s. sema_step\<^sup>*\<^sup>* sema_new s \<and> sema_pcs s 1 = Exclusive \<and> sema s < 0 \<and> \<not> shares (sema_pcs s 2)"
proof -
  obtain s where s: "sema_step\<^sup>*\<^sup>* sema_new s" "sema_pcs s 1 = Exclusive" using suspend_run by blast
  show ?thesis using suspend_excludes [OF s, of 2] s by (intro exI [of _ s]) simp
qed

section \<open>Epochs\<close>

text \<open>
  \<open>rcu_progress\<close> is two writes, so a worker is between them for a while. The barrier reads all epochs
  and then waits for one worker after the other. \<open>stale\<close> is the set of workers that were in a
  section when the barrier began and have not left it.
\<close>

record status =
  epoch :: u64
  running :: bool
  safe_waiting :: bool

record thread_status =
  num_threads :: nat
  status_set :: "nat \<Rightarrow> status"

definition ThreadStatus_new :: "nat \<Rightarrow> thread_status" where
  "ThreadStatus_new n = \<lparr>num_threads = n, status_set = (\<lambda>_. \<lparr>epoch = 0, running = False, safe_waiting = False\<rparr>)\<rparr>"

definition set_running :: "nat \<Rightarrow> thread_status \<Rightarrow> thread_status" where
  "set_running w ts = ts\<lparr>status_set := (status_set ts)(w := (status_set ts w)\<lparr>running := True\<rparr>)\<rparr>"

definition bump_epoch :: "nat \<Rightarrow> thread_status \<Rightarrow> thread_status" where
  "bump_epoch w ts = ts\<lparr>status_set := (status_set ts)(w := (status_set ts w)\<lparr>epoch := epoch (status_set ts w) + 1\<rparr>)\<rparr>"

definition rcu_progress :: "nat \<Rightarrow> thread_status \<Rightarrow> thread_status" where
  "rcu_progress w ts = bump_epoch w (set_running w ts)"

definition rcu_exit :: "nat \<Rightarrow> thread_status \<Rightarrow> thread_status" where
  "rcu_exit w ts = ts\<lparr>status_set := (status_set ts)(w := (status_set ts w)\<lparr>running := False\<rparr>)\<rparr>"

definition get_epoch :: "nat \<Rightarrow> thread_status \<Rightarrow> u64" where
  "get_epoch w ts = epoch (status_set ts w)"

datatype worker_pc = Outside | Entering | Inside

datatype barrier_pc = Snapshot nat | Waiting nat | Passed

record rcu_state =
  rcu :: thread_status
  worker_pcs :: "nat \<Rightarrow> worker_pc"
  barrier :: barrier_pc
  prev_status :: "nat \<Rightarrow> u64"
  stale :: "nat set"

definition barrier_waits :: "nat \<Rightarrow> rcu_state \<Rightarrow> bool" where
  "barrier_waits w s \<longleftrightarrow> running (status_set (rcu s) w) \<and> prev_status s w = get_epoch w (rcu s)"

inductive rcu_step :: "rcu_state \<Rightarrow> rcu_state \<Rightarrow> bool" where
  r_enter: "worker_pcs s w = Outside \<Longrightarrow>
    rcu_step s (s\<lparr>rcu := set_running w (rcu s), worker_pcs := (worker_pcs s)(w := Entering)\<rparr>)"
| r_bump: "worker_pcs s w = Entering \<Longrightarrow>
    rcu_step s (s\<lparr>rcu := bump_epoch w (rcu s), worker_pcs := (worker_pcs s)(w := Inside)\<rparr>)"
| r_exit: "worker_pcs s w = Inside \<Longrightarrow>
    rcu_step s (s\<lparr>rcu := rcu_exit w (rcu s), worker_pcs := (worker_pcs s)(w := Outside), stale := stale s - {w}\<rparr>)"
| r_snapshot: "barrier s = Snapshot i \<Longrightarrow> i < num_threads (rcu s) \<Longrightarrow>
    rcu_step s (s\<lparr>prev_status := (prev_status s)(i := get_epoch i (rcu s)), barrier := Snapshot (Suc i)\<rparr>)"
| r_all_read: "barrier s = Snapshot i \<Longrightarrow> \<not> i < num_threads (rcu s) \<Longrightarrow> rcu_step s (s\<lparr>barrier := Waiting 0\<rparr>)"
| r_next: "barrier s = Waiting i \<Longrightarrow> i < num_threads (rcu s) \<Longrightarrow> \<not> barrier_waits i s \<Longrightarrow> rcu_step s (s\<lparr>barrier := Waiting (Suc i)\<rparr>)"
| r_passed: "barrier s = Waiting i \<Longrightarrow> \<not> i < num_threads (rcu s) \<Longrightarrow> rcu_step s (s\<lparr>barrier := Passed\<rparr>)"

text \<open>The barrier begins.\<close>

definition barrier_start :: "rcu_state \<Rightarrow> rcu_state" where
  "barrier_start s = s\<lparr>barrier := Snapshot 0, stale := {w. worker_pcs s w = Inside}\<rparr>"

text \<open>A worker inside a section is marked running; the snapshot of a stale worker is its current epoch.\<close>

definition marked :: "rcu_state \<Rightarrow> bool" where
  "marked s \<longleftrightarrow> (\<forall>w. running (status_set (rcu s) w) \<longleftrightarrow> worker_pcs s w \<noteq> Outside)"

definition rcu_inv :: "nat \<Rightarrow> rcu_state \<Rightarrow> bool" where
  "rcu_inv n s \<longleftrightarrow> num_threads (rcu s) = n \<and> marked s \<and> (\<forall>w \<in> stale s. worker_pcs s w = Inside) \<and>
     (\<forall>w \<in> stale s. w < n \<and> (case barrier s of Snapshot i \<Rightarrow> w < i | _ \<Rightarrow> True) \<longrightarrow> prev_status s w = get_epoch w (rcu s)) \<and>
     (\<forall>w \<in> stale s. w < n \<longrightarrow> (case barrier s of Snapshot i \<Rightarrow> True | Waiting i \<Rightarrow> i \<le> w | Passed \<Rightarrow> False))"

lemmas rcu_ops = set_running_def bump_epoch_def rcu_exit_def get_epoch_def

lemma rcu_step_inv: "rcu_step s s' \<Longrightarrow> rcu_inv n s \<Longrightarrow> rcu_inv n s'"
proof (induction rule: rcu_step.induct)
  case (r_next s i)
  have "i \<notin> stale s"
  proof
    assume "i \<in> stale s"
    then have "barrier_waits i s" using r_next by (simp add: rcu_inv_def marked_def barrier_waits_def)
    then show False using r_next.hyps(3) by simp
  qed
  moreover have "Suc i \<le> w" if "i \<le> w" "w \<noteq> i" for w using that by simp
  ultimately show ?case using r_next by (auto simp: rcu_inv_def marked_def le_eq_less_or_eq)
next
  case (r_snapshot s i)
  then show ?case by (auto simp: rcu_inv_def marked_def less_Suc_eq)
qed (auto simp: rcu_inv_def marked_def rcu_ops split: barrier_pc.splits if_splits)

lemma rcu_run_inv: "rcu_step\<^sup>*\<^sup>* s s' \<Longrightarrow> rcu_inv n s \<Longrightarrow> rcu_inv n s'"
  by (erule reachable_inv [where I = "rcu_inv n"]) (auto intro: rcu_step_inv)

lemma barrier_moves:
  assumes "\<not> (\<exists>i. barrier s = Waiting i \<and> i < num_threads (rcu s) \<and> barrier_waits i s)" and "barrier s \<noteq> Passed"
  shows "\<exists>s'. rcu_step s s' \<and> worker_pcs s' = worker_pcs s \<and> barrier s' \<noteq> barrier s"
proof -
  obtain b p where "rcu_step s (s\<lparr>prev_status := p, barrier := b\<rparr>)" "b \<noteq> barrier s"
  proof (cases "barrier s")
    case (Snapshot i)
    show thesis
    proof (cases "i < num_threads (rcu s)")
      case True
      then show thesis using that [OF r_snapshot [OF Snapshot True]] Snapshot by simp
    next
      case False
      then show thesis using that [where p = "prev_status s" and b = "Waiting 0"] r_all_read [OF Snapshot False] Snapshot by simp
    qed
  next
    case (Waiting i)
    show thesis
    proof (cases "i < num_threads (rcu s)")
      case True
      then show thesis using that [where p = "prev_status s" and b = "Waiting (Suc i)"] r_next [OF Waiting True] assms(1) Waiting by auto
    next
      case False
      then show thesis using that [where p = "prev_status s" and b = Passed] r_passed [OF Waiting False] Waiting by simp
    qed
  qed (use assms(2) in simp)
  then show ?thesis by (intro exI [of _ "s\<lparr>prev_status := p, barrier := b\<rparr>"]) simp
qed


text \<open>One worker leaves the section it was in, another enters one, and the barrier passes.\<close>

definition demo_rcu :: rcu_state where
  "demo_rcu = \<lparr>rcu = rcu_progress 0 (ThreadStatus_new 1), worker_pcs = (\<lambda>_. Outside)(0 := Inside), barrier = Passed,
     prev_status = (\<lambda>_. 0), stale = {}\<rparr>"


end
