(* ===== verification/Hot_Keys.thy ===== *)
theory Hot_Keys
  imports Prelude "HOL-Library.Multiset"
begin

text \<open>
  The set of hot keys (\<^verbatim>\<open>db/hotkeyset.h\<close>, \<^verbatim>\<open>hotkeyset.cpp\<close>, compiled with \<open>HOT_COLD_SEPARATE\<close>): workers count how often
  the set contains the key they write; when it does so for less than half of a batch, the keys of
  further writes are recorded, and a thread computes a new set from them. The order in which the
  hash map of counts is iterated is unspecified and an argument here.
\<close>

section \<open>State\<close>

definition HOT_NUM :: nat where "HOT_NUM = 128 * 1024"
definition RECORD_BATCH_CNT :: nat where "RECORD_BATCH_CNT = 4096"
definition RECORD_BUFFER_SIZE :: nat where "RECORD_BUFFER_SIZE = 16 * 1024"

record update_record =
  hit_cnt :: nat
  total_cnt :: nat
  records_list :: "u64 list list"
  recorded :: "u64 list"

record hot_set =
  hot_workers :: nat
  current_set :: "u64 set option"
  update_records :: "nat \<Rightarrow> update_record"
  update_schedule_flag :: bool
  need_record :: bool
  need_count_hit :: bool

definition update_record_new :: update_record where
  "update_record_new = \<lparr>hit_cnt = 0, total_cnt = 0, records_list = [], recorded = []\<rparr>"

definition HotKeySet_new :: "nat \<Rightarrow> hot_set" where
  "HotKeySet_new n = \<lparr>hot_workers = n, current_set = None, update_records = (\<lambda>_. update_record_new),
     update_schedule_flag = False, need_record = False, need_count_hit = True\<rparr>"

section \<open>Operations of the workers\<close>

text \<open>The update thread is started here; what it does follows below.\<close>

definition BeginUpdateHotKeySet :: "hot_set \<Rightarrow> hot_set" where
  "BeginUpdateHotKeySet s = s\<lparr>need_record := True, need_count_hit := False\<rparr>"

definition record_key :: "u64 \<Rightarrow> update_record \<Rightarrow> update_record" where
  "record_key key r =
     (let r = r\<lparr>recorded := recorded r @ [key]\<rparr> in
      if length (recorded r) \<ge> RECORD_BUFFER_SIZE then r\<lparr>records_list := records_list r @ [recorded r], recorded := []\<rparr> else r)"

definition Record :: "u64 \<Rightarrow> nat \<Rightarrow> bool \<Rightarrow> hot_set \<Rightarrow> hot_set" where
  "Record key w hit s =
     (let r = update_records s w; put = (\<lambda>r s. s\<lparr>update_records := (update_records s)(w := r)\<rparr>) in
      if need_record s then put (record_key key r) s
      else if need_count_hit s then
        let r = r\<lparr>hit_cnt := hit_cnt r + (if hit then 1 else 0), total_cnt := total_cnt r + 1\<rparr> in
        if total_cnt r = RECORD_BATCH_CNT then
          let s = (if 2 * hit_cnt r < RECORD_BATCH_CNT \<and> \<not> update_schedule_flag s
                   then BeginUpdateHotKeySet (s\<lparr>update_schedule_flag := True\<rparr>) else s)
          in put (r\<lparr>hit_cnt := 0, total_cnt := 0\<rparr>) s
        else put r s
      else s)"

definition Exist :: "u64 \<Rightarrow> hot_set \<Rightarrow> bool" where
  "Exist key s = (case current_set s of None \<Rightarrow> False | Some S \<Rightarrow> key \<in> S)"

section \<open>The update thread\<close>

text \<open>The hash map of counts: the counts and the keys that have one, in the order of their insertion.\<close>

record key_counts =
  counts :: "u64 \<Rightarrow> nat"
  counted :: "u64 list"

definition count_key :: "u64 \<Rightarrow> key_counts \<Rightarrow> key_counts" where
  "count_key k c = c\<lparr>counts := (counts c)(k := counts c k + 1), counted := (if k \<in> set (counted c) then counted c else counted c @ [k])\<rparr>"

definition enough :: "key_counts \<Rightarrow> nat \<Rightarrow> bool" where
  "enough c update_cnt \<longleftrightarrow> length (counted c) > HOT_NUM * 4 \<or> update_cnt > HOT_NUM * 16"

text \<open>One round of its first loop: the full buffers of all workers are taken, and their keys counted.\<close>

definition collect :: "hot_set \<Rightarrow> key_counts \<Rightarrow> nat \<Rightarrow> hot_set \<times> key_counts \<times> nat" where
  "collect s c update_cnt =
     (let lists = concat (map (\<lambda>i. records_list (update_records s i)) [0..<hot_workers s]);
          s = s\<lparr>update_records := (\<lambda>i. if i < hot_workers s then (update_records s i)\<lparr>records_list := []\<rparr> else update_records s i)\<rparr>
      in (s, fold count_key (concat lists) c, update_cnt + length lists * RECORD_BUFFER_SIZE))"

text \<open>
  The queue \<open>topK\<close> gives out an entry with the smallest count; which one among equals is unspecified,
  here the first.
\<close>

definition coldest :: "(u64 \<Rightarrow> nat) \<Rightarrow> u64 list \<Rightarrow> u64" where
  "coldest cnt q = hd (filter (\<lambda>k. \<forall>k' \<in> set q. cnt k \<le> cnt k') q)"

definition top_step :: "nat \<Rightarrow> (u64 \<Rightarrow> nat) \<Rightarrow> u64 \<Rightarrow> u64 list \<Rightarrow> u64 list" where
  "top_step n cnt k q =
     (if cnt k > 1 then
        if length q < n then q @ [k]
        else if cnt k > cnt (coldest cnt q) then remove1 (coldest cnt q) q @ [k]
        else q
      else q)"

definition topK :: "nat \<Rightarrow> (u64 \<Rightarrow> nat) \<Rightarrow> u64 list \<Rightarrow> u64 list" where
  "topK n cnt keys = fold (top_step n cnt) keys []"

definition max_count :: "(u64 \<Rightarrow> nat) \<Rightarrow> u64 list \<Rightarrow> nat" where
  "max_count cnt keys = fold (\<lambda>k m. if cnt k > 1 then max m (cnt k) else m) keys 0"

definition new_hot_set :: "(u64 \<Rightarrow> nat) \<Rightarrow> u64 list \<Rightarrow> u64 set option" where
  "new_hot_set cnt keys =
     (let q = topK HOT_NUM cnt keys in
      if q \<noteq> [] \<and> max_count cnt keys > 3 * cnt (coldest cnt q) then Some (set q) else None)"

text \<open>What the thread does after its loop; \<open>keys\<close> are the keys counted, in the order of the iteration.\<close>

definition UpdateHotSet_finish :: "(u64 \<Rightarrow> nat) \<Rightarrow> u64 list \<Rightarrow> hot_set \<Rightarrow> hot_set" where
  "UpdateHotSet_finish cnt keys s =
     s\<lparr>need_record := False, current_set := new_hot_set cnt keys,
       update_records := (\<lambda>i. if i < hot_workers s then update_record_new else update_records s i),
       update_schedule_flag := False, need_count_hit := True\<rparr>"

section \<open>The hottest keys\<close>

lemma coldest_least: "q \<noteq> [] \<Longrightarrow> coldest cnt q \<in> set q \<and> (\<forall>k \<in> set q. cnt (coldest cnt q) \<le> cnt k)"
proof -
  assume q: "q \<noteq> []"
  let ?P = "\<lambda>k. \<forall>k' \<in> set q. cnt k \<le> cnt k'"
  obtain k where "k \<in> set q" "?P k" using arg_min_least [of "set q" _ cnt] arg_min_if_finite(1) [of "set q" cnt] q
    by (metis List.finite_set set_empty)
  then have "filter ?P q \<noteq> []" by (auto simp: filter_empty_conv)
  then have "coldest cnt q \<in> set (filter ?P q)" unfolding coldest_def by (rule hd_in_set)
  then show ?thesis by simp
qed

text \<open>The queue holds the \<open>n\<close> most frequent of the keys seen that occur more than once.\<close>

definition top_inv :: "nat \<Rightarrow> (u64 \<Rightarrow> nat) \<Rightarrow> u64 set \<Rightarrow> u64 list \<Rightarrow> bool" where
  "top_inv n cnt seen q \<longleftrightarrow> distinct q \<and> length q \<le> n \<and> set q \<subseteq> {k \<in> seen. 1 < cnt k} \<and>
     (\<forall>k \<in> seen. 1 < cnt k \<and> k \<notin> set q \<longrightarrow> length q = n \<and> (\<forall>h \<in> set q. cnt k \<le> cnt h))"

lemma top_step_inv:
  assumes inv: "top_inv n cnt seen q" and k: "k \<notin> seen" and n: "0 < n"
  shows "top_inv n cnt (insert k seen) (top_step n cnt k q)"
proof -
  have kq: "k \<notin> set q" using inv k by (auto simp: top_inv_def)
  consider "\<not> 1 < cnt k" | "1 < cnt k" "length q < n" | "1 < cnt k" "\<not> length q < n" "cnt (coldest cnt q) < cnt k"
    | "1 < cnt k" "\<not> length q < n" "\<not> cnt (coldest cnt q) < cnt k" by blast
  then show ?thesis
  proof cases
    case 3
    let ?c = "coldest cnt q"
    have q: "q \<noteq> []" "length q = n" using 3(2) n inv by (auto simp: top_inv_def)
    note c = coldest_least [OF q(1), of cnt]
    have s: "set (remove1 ?c q @ [k]) = insert k (set q - {?c})" using inv by (simp add: top_inv_def set_remove1_eq)
    have len: "length (remove1 ?c q @ [k]) = n" using c q n by (simp add: length_remove1)
    have low: "cnt x \<le> cnt h" if x: "x \<in> insert k seen" "1 < cnt x" "x \<notin> insert k (set q - {?c})" and h: "h \<in> insert k (set q - {?c})" for x h
    proof -
      have "x = ?c \<or> x \<in> seen \<and> x \<notin> set q" using x by auto
      then have "cnt x \<le> cnt ?c" "\<forall>h \<in> set q. cnt x \<le> cnt h" using c inv x(2) by (auto simp: top_inv_def)
      then show ?thesis using h 3(3) by auto
    qed
    have "top_step n cnt k q = remove1 ?c q @ [k]" using 3 by (simp add: top_step_def)
    then show ?thesis using inv kq s len low 3(1) unfolding top_inv_def by (auto simp: distinct_remove1 dest: notin_set_remove1)
  next
    case 4
    have q: "q \<noteq> []" "length q = n" using 4(2) n inv by (auto simp: top_inv_def)
    have "cnt k \<le> cnt h" if "h \<in> set q" for h using coldest_least [OF q(1), of cnt] that 4(3) by (meson linorder_le_less_linear order_trans)
    then show ?thesis using inv 4 q(2) by (auto simp: top_step_def top_inv_def)
  qed (use inv kq in \<open>auto simp: top_step_def top_inv_def\<close>)
qed

lemma topK_top: "distinct keys \<Longrightarrow> 0 < n \<Longrightarrow> top_inv n cnt (set keys) (topK n cnt keys)"
proof (induction keys rule: rev_induct)
  case (snoc k keys)
  then show ?case using top_step_inv [of n cnt "set keys" "topK n cnt keys" k] by (simp add: topK_def insert_commute)
qed (simp add: topK_def top_inv_def)

lemma max_count_Max:
  assumes "k \<in> set keys" and "1 < cnt k"
  shows "cnt k \<le> max_count cnt keys"
  using assms by (induction keys rule: rev_induct) (auto simp: max_count_def)

lemma max_count_witness: "0 < max_count cnt keys \<Longrightarrow> \<exists>k \<in> set keys. cnt k = max_count cnt keys \<and> 1 < cnt k"
  by (induction keys rule: rev_induct) (auto simp: max_count_def max_def split: if_splits)

section \<open>Workers and the update thread together\<close>

datatype update_thread = No_update | Collecting key_counts nat

record hot_state =
  hot :: hot_set
  updater :: update_thread

definition hot_new :: "nat \<Rightarrow> hot_state" where
  "hot_new n = \<lparr>hot = HotKeySet_new n, updater = No_update\<rparr>"

definition started :: "hot_set \<Rightarrow> hot_set \<Rightarrow> update_thread \<Rightarrow> update_thread" where
  "started s s' u = (if update_schedule_flag s' \<and> \<not> update_schedule_flag s then Collecting \<lparr>counts = (\<lambda>_. 0), counted = []\<rparr> 0 else u)"

inductive hot_step :: "hot_state \<Rightarrow> hot_state \<Rightarrow> bool" where
  hot_record: "w < hot_workers (hot s) \<Longrightarrow> s' = Record key w (Exist key (hot s)) (hot s) \<Longrightarrow>
    hot_step s (s\<lparr>hot := s', updater := started (hot s) s' (updater s)\<rparr>)"
| hot_collect: "updater s = Collecting c n \<Longrightarrow> \<not> enough c n \<Longrightarrow> collect (hot s) c n = (s', c', n') \<Longrightarrow>
    hot_step s (s\<lparr>hot := s', updater := Collecting c' n'\<rparr>)"
| hot_finish: "updater s = Collecting c n \<Longrightarrow> enough c n \<or> stopped \<Longrightarrow> mset keys = mset (counted c) \<Longrightarrow>
    hot_step s (s\<lparr>hot := UpdateHotSet_finish (counts c) keys (hot s), updater := No_update\<rparr>)"

text \<open>The types of the fields, and that there is one update thread at a time which loses no key.\<close>

definition record_ok :: "update_record \<Rightarrow> bool" where
  "record_ok r \<longleftrightarrow> length (recorded r) < RECORD_BUFFER_SIZE \<and> (\<forall>l \<in> set (records_list r). length l = RECORD_BUFFER_SIZE) \<and>
     total_cnt r < RECORD_BATCH_CNT \<and> hit_cnt r \<le> total_cnt r"

definition counts_ok :: "key_counts \<Rightarrow> nat \<Rightarrow> bool" where
  "counts_ok c n \<longleftrightarrow> distinct (counted c) \<and> (\<forall>k. k \<in> set (counted c) \<longleftrightarrow> 0 < counts c k) \<and> sum_list (map (counts c) (counted c)) = n"

definition hot_inv :: "nat \<Rightarrow> hot_state \<Rightarrow> bool" where
  "hot_inv n s \<longleftrightarrow> hot_workers (hot s) = n \<and> (\<forall>w < n. record_ok (update_records (hot s) w)) \<and>
     (case current_set (hot s) of None \<Rightarrow> True | Some S \<Rightarrow> finite S \<and> card S \<le> HOT_NUM) \<and>
     (case updater s of
        No_update \<Rightarrow> \<not> update_schedule_flag (hot s) \<and> \<not> need_record (hot s) \<and> need_count_hit (hot s)
      | Collecting c m \<Rightarrow> update_schedule_flag (hot s) \<and> need_record (hot s) \<and> \<not> need_count_hit (hot s) \<and> counts_ok c m)"

lemma record_ok_new [simp]: "record_ok update_record_new"
  by (simp add: record_ok_def update_record_new_def RECORD_BUFFER_SIZE_def RECORD_BATCH_CNT_def)

lemma record_key_ok: "record_ok r \<Longrightarrow> record_ok (record_key key r)"
  by (auto simp: record_ok_def record_key_def Let_def RECORD_BUFFER_SIZE_def)

lemma count_key_ok: "counts_ok c n \<Longrightarrow> counts_ok (count_key k c) (Suc n)"
proof -
  assume c: "counts_ok c n"
  show ?thesis
  proof (cases "k \<in> set (counted c)")
    case True
    have "sum_list (map (counts (count_key k c)) (counted c)) = Suc n"
    proof -
      have "sum_list (map ((counts c)(k := counts c k + 1)) ks) = (if k \<in> set ks then 1 else 0) + sum_list (map (counts c) ks)"
        if "distinct ks" for ks using that by (induction ks) auto
      then show ?thesis using c True by (simp add: counts_ok_def count_key_def)
    qed
    then show ?thesis using c True by (auto simp: counts_ok_def count_key_def)
  next
    case False
    then have z: "counts c k = 0" using c by (auto simp: counts_ok_def)
    have "map ((counts c)(k := counts c k + 1)) (counted c) = map (counts c) (counted c)" using False by simp
    then show ?thesis using c False z by (auto simp: counts_ok_def count_key_def)
  qed
qed

lemma count_keys_ok: "counts_ok c n \<Longrightarrow> counts_ok (fold count_key ks c) (n + length ks)"
proof (induction ks arbitrary: c n)
  case (Cons k ks)
  then show ?case using Cons.IH [OF count_key_ok [OF Cons.prems, of k]] by simp
qed simp

lemma full_buffers: "\<forall>l \<in> set ls. length l = b \<Longrightarrow> length (concat ls) = length ls * b"
  by (induction ls) auto

lemma new_hot_set_size: "distinct keys \<Longrightarrow> new_hot_set cnt keys = Some S \<Longrightarrow> finite S \<and> card S \<le> HOT_NUM"
  using topK_top [of keys HOT_NUM cnt] distinct_card [of "topK HOT_NUM cnt keys"]
  by (auto simp: new_hot_set_def Let_def top_inv_def HOT_NUM_def split: if_splits)

lemma Record_cases:
  assumes "record_ok (update_records s w)"
  obtains r where "Record key w hit s = s\<lparr>update_records := (update_records s)(w := r)\<rparr>" "record_ok r"
    | r where "Record key w hit s = BeginUpdateHotKeySet (s\<lparr>update_schedule_flag := True\<rparr>)\<lparr>update_records := (update_records s)(w := r)\<rparr>"
        "record_ok r" "\<not> update_schedule_flag s" "\<not> need_record s" "need_count_hit s"
    | "Record key w hit s = s"
proof -
  let ?r = "(update_records s w)\<lparr>hit_cnt := hit_cnt (update_records s w) + (if hit then 1 else 0), total_cnt := total_cnt (update_records s w) + 1\<rparr>"
  have r: "record_ok (?r\<lparr>hit_cnt := 0, total_cnt := 0\<rparr>)" "total_cnt ?r \<noteq> RECORD_BATCH_CNT \<Longrightarrow> record_ok ?r"
    using assms by (auto simp: record_ok_def RECORD_BATCH_CNT_def)
  consider "need_record s" | "\<not> need_record s" "\<not> need_count_hit s" | "\<not> need_record s" "need_count_hit s" by blast
  then show thesis
  proof cases
    case 1
    then show thesis using that(1) record_key_ok [OF assms] by (simp add: Record_def Let_def)
  next
    case 2
    then show thesis using that(3) by (simp add: Record_def)
  next
    case 3
    show thesis
    proof (cases "total_cnt ?r = RECORD_BATCH_CNT")
      case True
      then show thesis
        using 3 that(1) [OF _ r(1)] that(2) [OF _ r(1)] by (cases "2 * hit_cnt ?r < RECORD_BATCH_CNT \<and> \<not> update_schedule_flag s")
          (auto simp: Record_def Let_def BeginUpdateHotKeySet_def)
    next
      case False
      then show thesis using 3 that(1) [OF _ r(2)] by (simp add: Record_def Let_def)
    qed
  qed
qed

lemma hot_step_inv: "hot_step s s' \<Longrightarrow> hot_inv n s \<Longrightarrow> hot_inv n s'"
proof (induction rule: hot_step.induct)
  case (hot_record w s s' key)
  have "record_ok (update_records (hot s) w)" using hot_record by (simp add: hot_inv_def)
  then show ?case using hot_record
    by (cases rule: Record_cases [where key = key and hit = "Exist key (hot s)"])
      (auto simp: hot_inv_def started_def BeginUpdateHotKeySet_def counts_ok_def split: update_thread.splits)
next
  case (hot_collect s c m s' c' m')
  let ?L = "concat (map (\<lambda>i. records_list (update_records (hot s) i)) [0..<hot_workers (hot s)])"
  have "length (concat ?L) = length ?L * RECORD_BUFFER_SIZE"
    by (rule full_buffers) (use hot_collect.prems in \<open>auto simp: hot_inv_def record_ok_def\<close>)
  moreover have "counts_ok c m" using hot_collect.prems hot_collect.hyps(1) by (simp add: hot_inv_def)
  ultimately have "counts_ok c' m'" using hot_collect.hyps(3) count_keys_ok [of c m "concat ?L"] by (auto simp: collect_def Let_def)
  moreover have "record_ok (r\<lparr>records_list := []\<rparr>)" if "record_ok r" for r using that by (simp add: record_ok_def)
  ultimately show ?case using hot_collect by (auto simp: hot_inv_def collect_def Let_def)
next
  case (hot_finish s c m stopped keys)
  have "distinct keys"
    using hot_finish.hyps(1,3) hot_finish.prems mset_eq_imp_distinct_iff by (auto simp: hot_inv_def counts_ok_def)
  then show ?case using hot_finish new_hot_set_size [of keys "counts c"]
    by (auto simp: hot_inv_def UpdateHotSet_finish_def split: option.splits)
qed



text \<open>
  C23: the new hot set is the set of the most frequent keys. When the update thread finishes with distinct
  counted keys, in whatever order it iterates over them, every hot key was written more than once,
  no key outside the set was written more often than one inside unless the set is full, the most
  frequent key is hot and was written more than three times as often as the least frequent hot key;
  when there is no such spread, no key is hot. The counters start again and recording ends.
\<close>

theorem hot_keys_are_hottest:
  fixes cnt :: "u64 \<Rightarrow> nat" and s :: hot_set
  assumes keys: "distinct keys"
  defines "s' \<equiv> UpdateHotSet_finish cnt keys s"
  shows "(Exist a s' \<longrightarrow> a \<in> set keys \<and> 1 < cnt a) \<and>
    (Exist a s' \<and> b \<in> set keys \<and> \<not> Exist b s' \<longrightarrow> cnt b \<le> cnt a) \<and>
    (Exist a s' \<longrightarrow> (\<exists>h c. Exist h s' \<and> Exist c s' \<and> (\<forall>k \<in> set keys. cnt k \<le> cnt h) \<and> 3 * cnt c < cnt h)) \<and>
    \<not> need_record s' \<and> need_count_hit s'"
proof -
  let ?q = "topK HOT_NUM cnt keys"
  have n: "0 < HOT_NUM" by (simp add: HOT_NUM_def)
  note T = topK_top [OF keys n, of cnt, unfolded top_inv_def]
  have flags: "\<not> need_record s'" "need_count_hit s'" by (simp_all add: s'_def UpdateHotSet_finish_def)
  have set: "current_set s' = new_hot_set cnt keys" by (simp add: s'_def UpdateHotSet_finish_def)
  have "?q \<noteq> [] \<and> 3 * cnt (coldest cnt ?q) < max_count cnt keys" and e: "Exist x s' \<longleftrightarrow> x \<in> set ?q" if "Exist a s'" for x
    using that set by (auto simp: Exist_def new_hot_set_def Let_def split: if_splits)
  note spread = this(1)
  have low: "cnt b \<le> cnt a" if "a \<in> set ?q" "b \<in> set keys" "b \<notin> set ?q" for a b
  proof (cases "1 < cnt b")
    case False
    then show ?thesis using T that(1) by fastforce
  qed (use T that in blast)
  have top: "\<exists>h c. h \<in> set ?q \<and> c \<in> set ?q \<and> (\<forall>k \<in> set keys. cnt k \<le> cnt h) \<and> 3 * cnt c < cnt h" if a: "Exist a s'"
  proof -
    note c = coldest_least [OF conjunct1 [OF spread [OF a]], of cnt]
    have "0 < max_count cnt keys" using spread [OF a] by linarith
    then obtain h where h: "h \<in> set keys" "cnt h = max_count cnt keys" "1 < cnt h" using max_count_witness [of cnt keys] by blast
    have "h \<in> set ?q"
    proof (rule ccontr)
      assume "h \<notin> set ?q"
      then have "cnt h \<le> cnt (coldest cnt ?q)" using low c h(1) by blast
      then show False using spread [OF a] h(2) by linarith
    qed
    moreover have "cnt k \<le> cnt h" if "k \<in> set keys" for k
      using max_count_Max [OF that, of cnt] h(2,3) by (cases "1 < cnt k") auto
    moreover have "3 * cnt (coldest cnt ?q) < cnt h" using spread [OF a] h(2) by linarith
    ultimately show ?thesis using c by blast
  qed
  show ?thesis using flags e low top T by blast
qed

text \<open>Two keys, one of them written four times as often.\<close>

theorem hot_keys_are_hottest_witness:
  "Exist 5 (UpdateHotSet_finish ((\<lambda>_. 0)(5 := 8, 6 := 2, 7 := 0)) [6, 5, 7] (HotKeySet_new 1)) \<and>
   (5 :: u64) \<in> set [6, 5, 7] \<and> 1 < (((\<lambda>_. 0)(5 := 8, 6 := 2, 7 := 0)) (5 :: u64) :: nat)"
proof -
  let ?c = "(\<lambda>_. 0)(5 := 8, 6 := 2, 7 := 0) :: u64 \<Rightarrow> nat"
  have q: "topK HOT_NUM ?c [6, 5, 7] = [6, 5]" by (simp add: topK_def top_step_def HOT_NUM_def)
  have c: "coldest ?c [6, 5] = 6" by (simp add: coldest_def)
  have m: "max_count ?c [6, 5, 7] = 8" by (simp add: max_count_def)
  have e: "Exist 5 (UpdateHotSet_finish ?c [6, 5, 7] (HotKeySet_new 1))"
    unfolding UpdateHotSet_finish_def Exist_def new_hot_set_def Let_def q c m by simp
  have "distinct [6, 5, 7 :: u64]" by simp
  note H = hot_keys_are_hottest [OF this, where cnt = ?c and s = "HotKeySet_new 1" and a = 5]
  show ?thesis by (rule conjI [OF e mp [OF conjunct1 [OF H] e]])
qed

end
