(* ===== verification/Flat_Tombstone.thy ===== *)
theory Flat_Tombstone
  imports Flat_Segment Index_Arena Locks
begin

text \<open>
  What \<open>REDUCE_PM_ACCESS\<close> and \<open>GC_SHORTCUT\<close> change in the data of FlatStore: the pointers of the index carry the
  size of their entry and garbage is marked in a volatile bitmap of one bit for 32 bytes (\<^verbatim>\<open>db/segment.h\<close>), which several
  workers update at once; shortcuts to the place of a key in the index are packed into six bytes
  (\<^verbatim>\<open>include/db_common.h\<close>).
\<close>

section \<open>Pointers with a size\<close>

definition TaggedPointer_sized :: "nat \<Rightarrow> nat \<Rightarrow> nat" where
  "TaggedPointer_sized ptr sz = ptr mod 2 ^ 48 + 2 ^ 48 * (if sz \<le> 65535 then sz else 0)"

definition tp_size :: "nat \<Rightarrow> nat" where
  "tp_size v = v div 2 ^ 48 mod 2 ^ 16"

text \<open>Size and address that \<open>MarkGarbage\<close> of a worker or a cleaner uses; a size of 0 ends the program.\<close>

definition garbage_extent :: "nat \<Rightarrow> (nat \<times> nat) option" where
  "garbage_extent v = (if tp_size v = 0 then None else Some (tp_GetAddr v, tp_size v))"

lemma garbage_extent_sized:
  assumes "ptr < 2 ^ 48"
  shows "garbage_extent (TaggedPointer_sized ptr sz) = (if 0 < sz \<and> sz \<le> 65535 then Some (ptr, sz) else None)"
  using assms by (auto simp: garbage_extent_def tp_size_def tp_GetAddr_def TaggedPointer_sized_def)

section \<open>Shortcuts\<close>

text \<open>The address field has 43 bits, the position 5.\<close>

record shortcut_bits =
  sc_addr :: "43 word"
  sc_pos :: "5 word"

definition Shortcut_none :: shortcut_bits where
  "Shortcut_none = \<lparr>sc_addr = 0, sc_pos = 0\<rparr>"

text \<open>With a volatile index the field holds the address without its low four bits, with a persistent one the pool offset.\<close>

definition Shortcut_new :: "arena option \<Rightarrow> nat \<Rightarrow> nat \<Rightarrow> shortcut_bits" where
  "Shortcut_new pa node pos =
     \<lparr>sc_addr = of_nat (case pa of None \<Rightarrow> node div 16 | Some a \<Rightarrow> ToPoolOffset node a), sc_pos = of_nat pos\<rparr>"

definition GetNodeAddr :: "arena option \<Rightarrow> shortcut_bits \<Rightarrow> nat" where
  "GetNodeAddr pa sc =
     (case pa of
        None \<Rightarrow> unat (sc_addr sc) * 16
      | Some a \<Rightarrow> if sc_addr sc \<noteq> 0 then ToDirectPointer (unat (sc_addr sc)) a else 0)"

definition GetPos :: "shortcut_bits \<Rightarrow> nat" where
  "GetPos sc = unat (sc_pos sc)"

definition sc_None :: "shortcut_bits \<Rightarrow> bool" where
  "sc_None sc \<longleftrightarrow> sc_addr sc = 0"

text \<open>
  C28: a shortcut survives its packing into six bytes. With a volatile index, for a node on a sixteen-byte boundary below
  \<open>2 ^ 47\<close> and one of 32 positions; with a persistent one, for a node in the first \<open>2 ^ 43\<close> bytes of the pool,
  except for the node at the very beginning of the pool, whose shortcut counts as none.
\<close>

theorem shortcut_roundtrip:
  assumes "pos < 32"
  shows "(16 dvd node \<and> node < 2 ^ 47 \<longrightarrow>
      GetNodeAddr None (Shortcut_new None node pos) = node \<and> GetPos (Shortcut_new None node pos) = pos \<and>
      (sc_None (Shortcut_new None node pos) \<longleftrightarrow> node = 0)) \<and>
    (idx_start_addr a \<le> node \<and> node < idx_start_addr a + 2 ^ 43 \<longrightarrow>
      GetNodeAddr (Some a) (Shortcut_new (Some a) node pos) = (if node = idx_start_addr a then 0 else node) \<and>
      GetPos (Shortcut_new (Some a) node pos) = pos \<and> (sc_None (Shortcut_new (Some a) node pos) \<longleftrightarrow> node = idx_start_addr a))"
proof -
  have fit: "unat (of_nat n :: 43 word) = n" "(of_nat n :: 43 word) = 0 \<longleftrightarrow> n = 0" if "n < 2 ^ 43" for n
    using that by (simp_all add: unat_of_nat word_of_nat_eq_0_iff nat_dvd_not_less) (use that in \<open>auto dest: dvd_imp_le\<close>)
  have p: "unat (of_nat pos :: 5 word) = pos" using assms by (simp add: unat_of_nat)
  have "GetNodeAddr None (Shortcut_new None node pos) = node \<and> GetPos (Shortcut_new None node pos) = pos \<and>
      (sc_None (Shortcut_new None node pos) \<longleftrightarrow> node = 0)" if n: "16 dvd node \<and> node < 2 ^ 47"
  proof -
    have "node div 16 < 2 ^ 43" using n by (intro less_mult_imp_div_less) simp
    note f = fit [OF this]
    show ?thesis using n by (auto simp: Shortcut_new_def GetNodeAddr_def GetPos_def sc_None_def f p)
  qed
  moreover have "GetNodeAddr (Some a) (Shortcut_new (Some a) node pos) = (if node = idx_start_addr a then 0 else node) \<and>
      GetPos (Shortcut_new (Some a) node pos) = pos \<and> (sc_None (Shortcut_new (Some a) node pos) \<longleftrightarrow> node = idx_start_addr a)"
    if n: "idx_start_addr a \<le> node \<and> node < idx_start_addr a + 2 ^ 43"
  proof -
    have "node - idx_start_addr a < 2 ^ 43" using n by (simp add: less_diff_conv2)
    note f = fit [OF this]
    show ?thesis using n
      by (auto simp: Shortcut_new_def GetNodeAddr_def GetPos_def sc_None_def ToPoolOffset_def ToDirectPointer_def f p simp del: of_nat_diff)
  qed
  ultimately show ?thesis by blast
qed

theorem shortcut_roundtrip_witness:
  "GetNodeAddr None (Shortcut_new None 4096 31) = 4096 \<and> GetPos (Shortcut_new None 4096 31) = 31"
  using shortcut_roundtrip [of 31 4096] by simp

section \<open>The bitmap\<close>

definition BYTES_PER_BIT :: nat where "BYTES_PER_BIT = 32"

definition BITMAP_SIZE :: nat where
  "BITMAP_SIZE = (SEGMENT_DATA_SIZE div BYTES_PER_BIT + 7) div 8"

definition InitBitmap :: "byte list" where
  "InitBitmap = replicate BITMAP_SIZE 0"

definition granule :: "nat \<Rightarrow> nat \<Rightarrow> nat" where
  "granule ds p = (p - ds) div BYTES_PER_BIT"

definition bitmap_IsGarbage :: "nat \<Rightarrow> byte list \<Rightarrow> nat \<Rightarrow> bool" where
  "bitmap_IsGarbage ds bm p = (drop_bit (granule ds p mod 8) (bm ! (granule ds p div 8)) AND 1 = 1)"

text \<open>The byte a mark writes over the old one.\<close>

definition mark_byte :: "nat \<Rightarrow> nat \<Rightarrow> byte \<Rightarrow> byte" where
  "mark_byte ds p old = old OR push_bit (granule ds p mod 8) 1"

text \<open>One successful compare-and-swap.\<close>

definition bitmap_MarkGarbage :: "nat \<Rightarrow> nat \<Rightarrow> byte list \<Rightarrow> byte list" where
  "bitmap_MarkGarbage ds p bm = bm[granule ds p div 8 := mark_byte ds p (bm ! (granule ds p div 8))]"

text \<open>
  Workers marking entries at the same time: each loads a byte and swaps it, loading it again when
  the swap fails (the weak swap may also fail for no reason). \<open>marked_entries\<close> collects the entries
  whose mark is done.
\<close>

datatype mark_pc = Mark_idle | Mark_try nat byte

record mark_state =
  tombstone :: "byte list"
  mark_pcs :: "nat \<Rightarrow> mark_pc"
  marked_entries :: "nat set"

definition mark_new :: mark_state where
  "mark_new = \<lparr>tombstone = InitBitmap, mark_pcs = (\<lambda>_. Mark_idle), marked_entries = {}\<rparr>"

inductive mark_step :: "nat \<Rightarrow> mark_state \<Rightarrow> mark_state \<Rightarrow> bool" for ds where
  mark_load: "mark_pcs s t = Mark_idle \<Longrightarrow> ds \<le> p \<Longrightarrow> p < ds + SEGMENT_DATA_SIZE \<Longrightarrow>
    mark_step ds s (s\<lparr>mark_pcs := (mark_pcs s)(t := Mark_try p (tombstone s ! (granule ds p div 8)))\<rparr>)"
| mark_swap: "mark_pcs s t = Mark_try p old \<Longrightarrow> tombstone s ! (granule ds p div 8) = old \<Longrightarrow>
    mark_step ds s (s\<lparr>tombstone := (tombstone s)[granule ds p div 8 := mark_byte ds p old],
      mark_pcs := (mark_pcs s)(t := Mark_idle), marked_entries := insert p (marked_entries s)\<rparr>)"
| mark_fail: "mark_pcs s t = Mark_try p old \<Longrightarrow>
    mark_step ds s (s\<lparr>mark_pcs := (mark_pcs s)(t := Mark_try p (tombstone s ! (granule ds p div 8)))\<rparr>)"

lemma BITMAP_SIZE_val: "BITMAP_SIZE = 16383"
  by (simp add: BITMAP_SIZE_def SEGMENT_DATA_SIZE_def SEGMENT_SIZE_def HEADERS_SIZE_def BYTES_PER_BIT_def)

lemma granule_bound: "p < ds + SEGMENT_DATA_SIZE \<Longrightarrow> granule ds p div 8 < BITMAP_SIZE"
  by (simp add: granule_def BITMAP_SIZE_val SEGMENT_DATA_SIZE_def SEGMENT_SIZE_def HEADERS_SIZE_def BYTES_PER_BIT_def div_mult2_eq [symmetric]
      less_mult_imp_div_less)

lemma bitmap_IsGarbage_bit: "bitmap_IsGarbage ds bm p \<longleftrightarrow> bit (bm ! (granule ds p div 8)) (granule ds p mod 8)"
  by (simp add: bitmap_IsGarbage_def and_one_eq bit_iff_odd_drop_bit odd_iff_mod_2_eq_one)

lemma bitmap_mark:
  assumes "granule ds p div 8 < length bm"
  shows "bitmap_IsGarbage ds (bitmap_MarkGarbage ds p bm) q \<longleftrightarrow> bitmap_IsGarbage ds bm q \<or> granule ds p = granule ds q"
proof (cases "granule ds p div 8 = granule ds q div 8")
  case True
  have "granule ds p mod 8 = granule ds q mod 8 \<longleftrightarrow> granule ds p = granule ds q"
    using True by (metis mult_div_mod_eq)
  moreover have "granule ds q mod 8 < 8" by simp
  ultimately show ?thesis using True assms
    by (auto simp: bitmap_IsGarbage_bit bitmap_MarkGarbage_def mark_byte_def bit_simps)
next
  case False
  then show ?thesis by (auto simp: bitmap_IsGarbage_bit bitmap_MarkGarbage_def)
qed

lemma InitBitmap_clean: "p < ds + SEGMENT_DATA_SIZE \<Longrightarrow> \<not> bitmap_IsGarbage ds InitBitmap p"
  using granule_bound by (simp add: bitmap_IsGarbage_bit InitBitmap_def)

definition mark_inv :: "nat \<Rightarrow> mark_state \<Rightarrow> bool" where
  "mark_inv ds s \<longleftrightarrow> length (tombstone s) = BITMAP_SIZE \<and>
     (\<forall>t p old. mark_pcs s t = Mark_try p old \<longrightarrow> ds \<le> p \<and> p < ds + SEGMENT_DATA_SIZE) \<and>
     (\<forall>p \<in> marked_entries s. ds \<le> p) \<and>
     (\<forall>q < ds + SEGMENT_DATA_SIZE. bitmap_IsGarbage ds (tombstone s) q \<longleftrightarrow> (\<exists>p \<in> marked_entries s. granule ds p = granule ds q))"

lemma mark_step_inv: "mark_step ds s s' \<Longrightarrow> mark_inv ds s \<Longrightarrow> mark_inv ds s'"
proof (induction rule: mark_step.induct)
  case (mark_swap s t p old)
  have p: "ds \<le> p" "p < ds + SEGMENT_DATA_SIZE" using mark_swap by (auto simp: mark_inv_def)
  have "(tombstone s)[granule ds p div 8 := mark_byte ds p old] = bitmap_MarkGarbage ds p (tombstone s)"
    using mark_swap(2) by (simp add: bitmap_MarkGarbage_def)
  moreover have "granule ds p div 8 < length (tombstone s)" using mark_swap(3) granule_bound [OF p(2)] by (simp add: mark_inv_def)
  ultimately show ?case using mark_swap(3) p bitmap_mark by (auto simp: mark_inv_def bitmap_MarkGarbage_def)
qed (auto simp: mark_inv_def)

lemma mark_reachable_inv: "(mark_step ds)\<^sup>*\<^sup>* mark_new s \<Longrightarrow> mark_inv ds s"
proof (erule reachable_inv [where I = "mark_inv ds"])
  show "mark_inv ds mark_new" by (simp add: mark_inv_def mark_new_def InitBitmap_clean) (simp add: InitBitmap_def)
qed (rule mark_step_inv)

text \<open>
  C20: the bitmap tells live entries from garbage when entries are at least 32 bytes apart. In every
  interleaving of the workers' loads and swaps, an entry of the segment is garbage in the bitmap
  exactly when its mark is complete: no mark is lost and none hits another entry.
\<close>

theorem tombstones_exact:
  assumes "(mark_step ds)\<^sup>*\<^sup>* mark_new s" and "marked_entries s \<subseteq> E" and "q \<in> E" and "ds \<le> q" and "q < ds + SEGMENT_DATA_SIZE"
    and apart: "\<forall>p \<in> E. \<forall>r \<in> E. p < r \<longrightarrow> p + BYTES_PER_BIT \<le> r"
  shows "bitmap_IsGarbage ds (tombstone s) q \<longleftrightarrow> q \<in> marked_entries s"
proof -
  have i: "mark_inv ds s" by (rule mark_reachable_inv [OF assms(1)])
  have far: "granule ds p \<noteq> granule ds r" if "p \<in> E" "r \<in> E" "ds \<le> p" "p < r" for p r
  proof -
    have "p - ds + 32 \<le> r - ds" using apart that by (fastforce simp: BYTES_PER_BIT_def)
    then have "(p - ds) div 32 + 1 \<le> (r - ds) div 32" using div_le_mono [of "p - ds + 32" "r - ds" 32] by simp
    then show ?thesis by (simp add: granule_def BYTES_PER_BIT_def)
  qed
  have "p = q" if "p \<in> marked_entries s" "granule ds p = granule ds q" for p
  proof -
    have "p \<in> E" "ds \<le> p" using that(1) assms(2) i by (auto simp: mark_inv_def)
    then show ?thesis using far [of p q] far [of q p] assms(3,4) that(2) by (cases p q rule: linorder_cases) auto
  qed
  then show ?thesis using i assms(5) unfolding mark_inv_def by blast
qed

lemma mark_one_run:
  assumes "ds \<le> p" and "p < ds + SEGMENT_DATA_SIZE"
  shows "\<exists>s. (mark_step ds)\<^sup>*\<^sup>* mark_new s \<and> marked_entries s = {p} \<and> tombstone s = bitmap_MarkGarbage ds p InitBitmap"
proof -
  let ?a = "mark_new\<lparr>mark_pcs := (mark_pcs mark_new)(0 := Mark_try p (tombstone mark_new ! (granule ds p div 8)))\<rparr>"
  have "mark_step ds mark_new ?a" by (rule mark_load) (simp_all add: assms, simp add: mark_new_def)
  moreover have "mark_step ds ?a (?a\<lparr>tombstone := (tombstone ?a)[granule ds p div 8 := mark_byte ds p (tombstone mark_new ! (granule ds p div 8))],
      mark_pcs := (mark_pcs ?a)(0 := Mark_idle), marked_entries := insert p (marked_entries ?a)\<rparr>)" (is "mark_step ds ?a ?b")
    by (rule mark_swap) simp_all
  ultimately have "(mark_step ds)\<^sup>*\<^sup>* mark_new ?b" by (meson converse_rtranclp_into_rtranclp rtranclp.rtrancl_refl)
  then show ?thesis by (intro exI [of _ ?b]) (simp add: mark_new_def bitmap_MarkGarbage_def)
qed

theorem tombstones_exact_witness:
  "\<exists>s. (mark_step 256)\<^sup>*\<^sup>* mark_new s \<and> marked_entries s = {256} \<and> \<not> bitmap_IsGarbage 256 (tombstone s) 288"
proof -
  have n: "SEGMENT_DATA_SIZE = 4194048" by (simp add: SEGMENT_DATA_SIZE_def SEGMENT_SIZE_def HEADERS_SIZE_def)
  obtain s where s: "(mark_step 256)\<^sup>*\<^sup>* mark_new s" "marked_entries s = {256}" using mark_one_run [of 256 256] n by auto
  have "bitmap_IsGarbage 256 (tombstone s) 288 \<longleftrightarrow> 288 \<in> marked_entries s"
    by (rule tombstones_exact [OF s(1), of "{256, 288}"]) (auto simp: s(2) n BYTES_PER_BIT_def)
  then show ?thesis using s by (intro exI [of _ s]) simp
qed

text \<open>
  C37: with keys and values of eight bytes, the default of the benchmark, the bitmap confuses live entries with garbage.
  Such an entry has 24 bytes, so in a segment filled with them the entries number \<open>4 * n\<close> and \<open>4 * n + 1\<close> share a bit: when the
  first becomes garbage the second, which nobody marked, is garbage for the cleaner as well.
\<close>

theorem tombstone_collision:
  fixes e :: u32
  assumes "length key = 8" and "length val = 8" and "length bm = BITMAP_SIZE"
  defines "sz \<equiv> length (kv_image key val e)"
  assumes "sz * (4 * n + 2) \<le> SEGMENT_DATA_SIZE"
  shows "bitmap_IsGarbage ds (bitmap_MarkGarbage ds (ds + sz * (4 * n)) bm) (ds + sz * (4 * n + 1))"
proof -
  have sz: "sz = 24" using assms(1,2) by (simp add: sz_def length_kv_image sizeof_KVItem_def)
  have "96 * n div 32 = 3 * n" "(96 * n + 24) div 32 = 3 * n" by simp_all
  then have "granule ds (ds + sz * (4 * n)) = granule ds (ds + sz * (4 * n + 1))"
    by (simp add: granule_def BYTES_PER_BIT_def sz add.commute)
  moreover have "granule ds (ds + sz * (4 * n)) div 8 < length bm"
    unfolding assms(3) by (rule granule_bound) (use assms(5) sz in simp)
  ultimately show ?thesis by (simp add: bitmap_mark)
qed

theorem tombstone_collision_witness:
  "bitmap_IsGarbage 256 (bitmap_MarkGarbage 256 256 InitBitmap) 280 \<and> \<not> bitmap_IsGarbage 256 InitBitmap 280"
proof -
  have n: "SEGMENT_DATA_SIZE = 4194048" by (simp add: SEGMENT_DATA_SIZE_def SEGMENT_SIZE_def HEADERS_SIZE_def)
  have sz: "length (kv_image (replicate 8 0) (replicate 8 0) 0) = 24" by (simp add: length_kv_image sizeof_KVItem_def)
  have "bitmap_IsGarbage 256 (bitmap_MarkGarbage 256 256 InitBitmap) 280"
    using tombstone_collision [of "replicate 8 0" "replicate 8 0" InitBitmap 0 0 256] sz n by (simp add: InitBitmap_def)
  then show ?thesis using InitBitmap_clean [of 280 256] n by simp
qed

end
