(* ===== verification/Flat_Batching.thy ===== *)
theory Flat_Batching
  imports Flat_Segment
begin

text \<open>
  Batched persistence of the log (\<open>LOG_BATCHING\<close>, \<^verbatim>\<open>db/segment.h\<close> and \<^verbatim>\<open>util/persist.h\<close>): appended entries are written back in units of
  512 bytes, and \<open>AppendBatchFlush\<close> tells its caller how many more entries are persistent now; only those may be
  entered in the index. \<open>durable\<close> is the set of addresses whose current byte has been written back.
\<close>

section \<open>Writing back cache lines\<close>

function clwb_loop :: "nat \<Rightarrow> nat \<Rightarrow> nat set \<Rightarrow> nat set" where
  "clwb_loop uptr e durable = (if uptr < e then clwb_loop (uptr + 64) e (durable \<union> {uptr..<uptr + 64}) else durable)"
  by pat_completeness auto
termination by (relation "measure (\<lambda>(p, e, _). e - p)") auto

declare clwb_loop.simps [simp del]

text \<open>The end of the range is computed in 64 bits.\<close>

definition clwb_fence :: "nat \<Rightarrow> nat \<Rightarrow> nat set \<Rightarrow> nat set" where
  "clwb_fence addr len durable = clwb_loop (addr div 64 * 64) ((addr + len) mod 2 ^ 64) durable"

text \<open>The difference of two pointers, converted to \<open>size_t\<close>.\<close>

definition ptr_diff :: "nat \<Rightarrow> nat \<Rightarrow> nat" where
  "ptr_diff a b = nat ((int a - int b) mod 2 ^ 64)"

section \<open>Appending\<close>

definition LOG_BATCHING_SIZE :: nat where "LOG_BATCHING_SIZE = 512"

record batch_segment =
  bseg :: log_segment
  not_flushed_cnt :: nat
  flush_tail :: nat
  bpool :: pool
  durable :: "nat set"

text \<open>
  The count of newly persistent entries is \<open>None\<close> when the entry does not fit and the caller's variable stays
  as it is. Writing the entry makes its bytes volatile until they are written back.
\<close>

definition AppendBatchFlush :: "byte list \<Rightarrow> byte list \<Rightarrow> u32 \<Rightarrow> batch_segment \<Rightarrow> nat \<times> nat option \<times> batch_segment" where
  "AppendBatchFlush key val epoch b =
     (let (v, s, pm) = seg_Append key val epoch (bseg b, bpool b) in
      if v = INVALID_VALUE then (INVALID_VALUE, None, b)
      else
        let b = b\<lparr>bseg := s, bpool := pm, not_flushed_cnt := not_flushed_cnt b + 1,
                  durable := durable b - {seg_tail (bseg b)..<seg_tail s}\<rparr>;
            align_addr = seg_tail s div LOG_BATCHING_SIZE * LOG_BATCHING_SIZE;
            len = ptr_diff align_addr (flush_tail b)
        in if LOG_BATCHING_SIZE \<le> len then
             let b = b\<lparr>durable := clwb_fence (flush_tail b) len (durable b), flush_tail := align_addr\<rparr> in
             if seg_tail s = align_addr then (v, Some (not_flushed_cnt b), b\<lparr>not_flushed_cnt := 0\<rparr>)
             else (v, Some (not_flushed_cnt b - 1), b\<lparr>not_flushed_cnt := 1\<rparr>)
           else (v, Some 0, b))"

definition FlushRemain :: "batch_segment \<Rightarrow> nat \<times> batch_segment" where
  "FlushRemain b =
     (not_flushed_cnt b,
      b\<lparr>durable := clwb_fence (flush_tail b) (ptr_diff (seg_tail (bseg b)) (flush_tail b)) (durable b),
        flush_tail := seg_tail (bseg b), not_flushed_cnt := 0\<rparr>)"

text \<open>A segment just taken into use.\<close>

definition batch_new :: "nat \<Rightarrow> pool \<Rightarrow> nat set \<Rightarrow> batch_segment" where
  "batch_new addr pm d =
     (let s = fst (seg_Init (segment_object addr 0, pm)) in
      \<lparr>bseg = s, not_flushed_cnt = 0, flush_tail = data_start s, bpool = pm, durable = d\<rparr>)"

text \<open>Appending records one after the other: their addresses, how many of them are persistent, and the segment. \<open>None\<close> when one does not fit.\<close>

fun append_run :: "(byte list \<times> byte list \<times> u32) list \<Rightarrow> batch_segment \<Rightarrow> (nat list \<times> nat \<times> batch_segment) option" where
  "append_run [] b = Some ([], 0, b)"
| "append_run ((key, val, epoch) # kvs) b =
     (case AppendBatchFlush key val epoch b of
        (v, None, b) \<Rightarrow> None
      | (v, Some n, b) \<Rightarrow>
          (case append_run kvs b of None \<Rightarrow> None | Some (vs, m, b) \<Rightarrow> Some (v # vs, n + m, b)))"

definition record_size :: "byte list \<times> byte list \<times> u32 \<Rightarrow> nat" where
  "record_size kv = sizeof_KVItem + length (fst kv) + length (fst (snd kv))"

section \<open>What is persistent\<close>

lemma clwb_loop_covers: "D \<union> {uptr..<e} \<subseteq> clwb_loop uptr e D"
proof (induction uptr e D rule: clwb_loop.induct)
  case (1 uptr e D)
  show ?case
  proof (cases "uptr < e")
    case True
    then show ?thesis using "1" [OF True] by (subst clwb_loop.simps) force
  qed (subst clwb_loop.simps, auto)
qed

lemma clwb_fence_covers: "addr + len < 2 ^ 64 \<Longrightarrow> D \<union> {addr..<addr + len} \<subseteq> clwb_fence addr len D"
proof -
  assume "addr + len < 2 ^ 64"
  then have "clwb_fence addr len D = clwb_loop (addr div 64 * 64) (addr + len) D" by (simp add: clwb_fence_def)
  moreover have "{addr..<addr + len} \<subseteq> {addr div 64 * 64..<addr + len}" using div_times_less_eq_dividend [of addr 64] by auto
  ultimately show ?thesis using clwb_loop_covers [of D "addr div 64 * 64" "addr + len"] by blast
qed

lemma ptr_diff_ge: "b \<le> a \<Longrightarrow> a < 2 ^ 64 \<Longrightarrow> ptr_diff a b = a - b"
  by (simp add: ptr_diff_def nat_mod_distrib flip: of_nat_diff)

text \<open>With the flush pointer above the aligned address the length wraps around, and no line is written back.\<close>

lemma ptr_diff_less:
  assumes "a < b" and "b < 2 ^ 48"
  shows "LOG_BATCHING_SIZE \<le> ptr_diff a b" and "(b + ptr_diff a b) mod 2 ^ 64 = a"
proof -
  have "(int a - int b + 2 ^ 64) mod 2 ^ 64 = int a - int b + 2 ^ 64" using assms by (intro mod_pos_pos_trivial) auto
  then have "(int a - int b) mod 2 ^ 64 = int a - int b + 2 ^ 64" by (simp only: mod_add_self2)
  then have "ptr_diff a b = a + 2 ^ 64 - b" using assms by (simp add: ptr_diff_def)
  then show "LOG_BATCHING_SIZE \<le> ptr_diff a b" "(b + ptr_diff a b) mod 2 ^ 64 = a"
    using assms by (simp_all add: LOG_BATCHING_SIZE_def)
qed

lemma clwb_fence_empty: "a < b \<Longrightarrow> b < 2 ^ 48 \<Longrightarrow> 64 dvd a \<Longrightarrow> clwb_fence b (ptr_diff a b) D = D"
proof -
  assume a: "a < b" "b < 2 ^ 48" "64 dvd a"
  have "a div 64 * 64 \<le> b div 64 * 64" using a(1) by (intro mult_le_mono1 div_le_mono) simp
  then have "a \<le> b div 64 * 64" using a(3) by simp
  then show ?thesis unfolding clwb_fence_def ptr_diff_less(2) [OF a(1,2)] by (subst clwb_loop.simps) simp
qed

text \<open>
  The entries \<open>es\<close> of the segment, addresses with sizes, of which the first \<open>p\<close> are persistent. After the
  first append the flush pointer is less than one unit below the last unit boundary.
\<close>

definition entries_upto :: "nat \<Rightarrow> (nat \<times> nat) list \<Rightarrow> nat \<Rightarrow> nat" where
  "entries_upto ds es k = ds + sum_list (map snd (take k es))"

abbreviation aligned_tail :: "nat \<Rightarrow> nat" where
  "aligned_tail t \<equiv> t div LOG_BATCHING_SIZE * LOG_BATCHING_SIZE"

definition batch_inv :: "(nat \<times> nat) list \<Rightarrow> nat \<Rightarrow> batch_segment \<Rightarrow> bool" where
  "batch_inv es p b \<longleftrightarrow>
     (let s = bseg b; ds = data_start s; t = seg_tail s in
      LOG_BATCHING_SIZE dvd segment_start s \<and> 0 < segment_start s \<and> seg_end s < 2 ^ 48 \<and> t \<le> seg_end s \<and>
      t = entries_upto ds es (length es) \<and> (\<forall>j < length es. fst (es ! j) = entries_upto ds es j) \<and>
      p \<le> length es \<and> not_flushed_cnt b = length es - p \<and>
      {ds..<entries_upto ds es p} \<subseteq> durable b \<and> {ds..<flush_tail b} \<subseteq> durable b \<and> flush_tail b \<le> t \<and>
      (es = [] \<and> flush_tail b = ds \<or> flush_tail b \<le> aligned_tail t \<and> aligned_tail t < flush_tail b + LOG_BATCHING_SIZE))"

lemma entries_upto_snoc:
  "k \<le> length es \<Longrightarrow> entries_upto ds (es @ [e]) k = entries_upto ds es k"
  "entries_upto ds (es @ [e]) (Suc (length es)) = entries_upto ds es (length es) + snd e"
  by (simp_all add: entries_upto_def)

lemma entries_upto_mono: "j \<le> k \<Longrightarrow> entries_upto ds es j \<le> entries_upto ds es k"
proof -
  assume "j \<le> k"
  then have "take k es = take j es @ take (k - j) (drop j es)" by (metis le_add_diff_inverse take_add)
  then show ?thesis by (simp add: entries_upto_def)
qed

lemma aligned_tail_bounds: "aligned_tail t \<le> t" "t < aligned_tail t + LOG_BATCHING_SIZE"
proof -
  show "aligned_tail t \<le> t" by simp
  have "t mod LOG_BATCHING_SIZE < LOG_BATCHING_SIZE" by (simp add: LOG_BATCHING_SIZE_def)
  then show "t < aligned_tail t + LOG_BATCHING_SIZE" using div_mult_mod_eq [of t LOG_BATCHING_SIZE] by linarith
qed

lemma aligned_tail_mono: "t \<le> t' \<Longrightarrow> aligned_tail t \<le> aligned_tail t'"
  by (intro mult_le_mono1 div_le_mono)

lemma aligned_tail_step: "aligned_tail t < aligned_tail t' \<Longrightarrow> t \<le> aligned_tail t'"
proof -
  assume "aligned_tail t < aligned_tail t'"
  then have "t div LOG_BATCHING_SIZE < t' div LOG_BATCHING_SIZE" by simp
  then have "Suc (t div LOG_BATCHING_SIZE) * LOG_BATCHING_SIZE \<le> aligned_tail t'" by (intro mult_le_mono1) simp
  then show ?thesis using aligned_tail_bounds(2) [of t] by (simp add: add.commute)
qed

lemma batch_new_inv:
  assumes "LOG_BATCHING_SIZE dvd addr" and "0 < addr" and "addr + SEGMENT_SIZE < 2 ^ 48"
  shows "batch_inv [] 0 (batch_new addr pm d)"
  using assms by (auto simp: batch_inv_def batch_new_def seg_Init_def segment_object_def Let_def data_start_def seg_end_def entries_upto_def
      SEGMENT_SIZE_def HEADERS_SIZE_def)

text \<open>The invariant after an append, for the new flush pointer \<open>ft\<close>, durable set \<open>D\<close> and count of persistent entries \<open>q\<close>.\<close>

lemma batch_inv_snoc:
  assumes inv: "batch_inv es p b" and sz: "seg_tail (bseg b) + sz \<le> seg_end (bseg b)" and q: "q \<le> Suc (length es)"
    and d: "{data_start (bseg b)..<entries_upto (data_start (bseg b)) (es @ [(seg_tail (bseg b), sz)]) q} \<subseteq> D"
      "{data_start (bseg b)..<ft} \<subseteq> D"
    and ft: "ft \<le> aligned_tail (seg_tail (bseg b) + sz)" "aligned_tail (seg_tail (bseg b) + sz) < ft + LOG_BATCHING_SIZE"
  shows "batch_inv (es @ [(seg_tail (bseg b), sz)]) q
    (b\<lparr>bseg := (bseg b)\<lparr>seg_tail := seg_tail (bseg b) + sz, cur_cnt := c\<rparr>, bpool := pm,
       not_flushed_cnt := Suc (length es) - q, durable := D, flush_tail := ft\<rparr>)"
proof -
  have f: "data_start (bseg b) = entries_upto (data_start (bseg b)) es 0" by (simp add: entries_upto_def)
  have "ft \<le> seg_tail (bseg b) + sz" using ft(1) aligned_tail_bounds(1) by (rule order_trans)
  then show ?thesis using inv sz q d ft unfolding batch_inv_def Let_def
    by (auto simp: data_start_def seg_end_def entries_upto_snoc nth_append less_Suc_eq)
qed

lemma append_step:
  assumes inv: "batch_inv es p b" and a: "AppendBatchFlush key val epoch b = (v, Some n, b')"
  shows "v = seg_tail (bseg b)" and "batch_inv (es @ [(v, record_size (key, val, epoch))]) (p + n) b'"
proof -
  define t where "t = seg_tail (bseg b)"
  define sz where "sz = record_size (key, val, epoch)"
  define ds where "ds = data_start (bseg b)"
  define al where "al = aligned_tail (t + sz)"
  define D where "D = durable b - {t..<t + sz}"
  let ?len = "ptr_diff al (flush_tail b)" and ?pm = "(bpool b)\<lparr>pm_bytes := mem_write (pm_bytes (bpool b)) t (kv_image key val epoch)\<rparr>"
  let ?b = "\<lambda>nf D ft. b\<lparr>bseg := (bseg b)\<lparr>seg_tail := t + sz, cur_cnt := cur_cnt (bseg b) + 1\<rparr>, bpool := ?pm,
       not_flushed_cnt := nf, durable := D, flush_tail := ft\<rparr>"
  have I: "LOG_BATCHING_SIZE dvd segment_start (bseg b)" "0 < segment_start (bseg b)" "seg_end (bseg b) < 2 ^ 48"
      "t = entries_upto ds es (length es)" "p \<le> length es" "not_flushed_cnt b = length es - p"
      "{ds..<entries_upto ds es p} \<subseteq> durable b" "{ds..<flush_tail b} \<subseteq> durable b" "flush_tail b \<le> t"
      "es = [] \<and> flush_tail b = ds \<or> flush_tail b \<le> aligned_tail t \<and> aligned_tail t < flush_tail b + LOG_BATCHING_SIZE"
    using inv unfolding batch_inv_def Let_def t_def ds_def by blast+
  have ds0: "0 < ds" by (simp add: ds_def data_start_def HEADERS_SIZE_def)
  have t0: "ds \<le> t" unfolding I(4) by (simp add: entries_upto_def)
  have fits: "t + sz \<le> seg_end (bseg b)" and v: "v = t"
    using a ds0 t0 by (auto simp: AppendBatchFlush_def seg_Append_def HasSpaceFor_def tagged_pointer_def INVALID_VALUE_def Let_def
        t_def sz_def record_size_def split: if_splits)
  have b': "(Some n, b') = (if LOG_BATCHING_SIZE \<le> ?len then
       if t + sz = al then (Some (Suc (length es - p)), ?b 0 (clwb_fence (flush_tail b) ?len D) al)
       else (Some (length es - p), ?b 1 (clwb_fence (flush_tail b) ?len D) al)
     else (Some 0, ?b (Suc (length es - p)) D (flush_tail b)))"
    using a fits ds0 t0 by (auto simp: AppendBatchFlush_def seg_Append_def HasSpaceFor_def tagged_pointer_def INVALID_VALUE_def Let_def
        t_def sz_def record_size_def al_def D_def I(6) split: if_splits)
  show "v = seg_tail (bseg b)" using v by (simp add: t_def)
  have "al \<le> t + sz" unfolding al_def by (rule aligned_tail_bounds(1))
  then have small: "t + sz < 2 ^ 48" "flush_tail b < 2 ^ 48" "al < 2 ^ 64" using fits I(3,9) by simp_all
  have keep: "{ds..<entries_upto ds es p} \<subseteq> D" "{ds..<flush_tail b} \<subseteq> D"
    using I(7-9) entries_upto_mono [OF I(5), of ds es] by (auto simp: D_def I(4))
  note snoc = batch_inv_snoc [OF inv, folded t_def ds_def, OF fits, folded al_def]
  have le: "{ds..<entries_upto ds (es @ [(t, sz)]) p} \<subseteq> D" using keep(1) I(5) by (simp add: entries_upto_snoc)
  show "batch_inv (es @ [(v, record_size (key, val, epoch))]) (p + n) b'"
  proof (cases "al < flush_tail b")
    case True
    have "\<not> flush_tail b \<le> aligned_tail t"
      using True order_trans [OF _ aligned_tail_mono [of t "t + sz"], of "flush_tail b"] unfolding al_def by linarith
    then have e: "es = []" "flush_tail b = ds" "p = 0" using I(5,10) by auto
    note c = ptr_diff_less(1) [OF True small(2)]
    have "64 dvd al" by (simp add: al_def LOG_BATCHING_SIZE_def)
    then have "clwb_fence (flush_tail b) ?len D = D" by (rule clwb_fence_empty [OF True small(2)])
    moreover have "t + sz \<noteq> al" using True I(9) by simp
    ultimately have r: "n = 0" "b' = ?b 1 D al" using b' c e by simp_all
    show ?thesis unfolding r v sz_def [symmetric]
      using snoc [of p D al ?pm "cur_cnt (bseg b) + 1"] le True e by (simp add: LOG_BATCHING_SIZE_def)
  next
    case False
    then have len: "?len = al - flush_tail b" by (intro ptr_diff_ge) (use small in auto)
    show ?thesis
    proof (cases "LOG_BATCHING_SIZE \<le> ?len")
      case True
      have "flush_tail b + ?len = al" using False len by simp
      then have cov: "D \<union> {flush_tail b..<al} \<subseteq> clwb_fence (flush_tail b) ?len D"
        using clwb_fence_covers [of "flush_tail b" ?len D] small(3) by simp
      then have up: "{ds..<al} \<subseteq> clwb_fence (flush_tail b) ?len D" using keep(2) by (auto simp: subset_iff) (meson not_le)
      have tal: "t \<le> al"
      proof (cases "es = [] \<and> flush_tail b = ds")
        case fresh: True
        then have "t = ds" using I(4) by (simp add: entries_upto_def)
        then show ?thesis using fresh False by simp
      next
        case used: False
        then have "aligned_tail t < al" using I(10) True len by auto
        then show ?thesis unfolding al_def by (rule aligned_tail_step)
      qed
      show ?thesis
      proof (cases "t + sz = al")
        case eq: True
        have r: "n = Suc (length es - p)" "b' = ?b 0 (clwb_fence (flush_tail b) ?len D) al" using b' True eq by simp_all
        have "entries_upto ds (es @ [(t, sz)]) (Suc (length es)) = al" using eq I(4) by (simp add: entries_upto_snoc)
        then show ?thesis unfolding r v sz_def [symmetric]
          using snoc [of "Suc (length es)" "clwb_fence (flush_tail b) ?len D" al ?pm "cur_cnt (bseg b) + 1"] up I(5)
          by (simp add: LOG_BATCHING_SIZE_def)
      next
        case ne: False
        have r: "n = length es - p" "b' = ?b 1 (clwb_fence (flush_tail b) ?len D) al" using b' True ne by simp_all
        have "{ds..<t} \<subseteq> clwb_fence (flush_tail b) ?len D" using up tal by (auto simp: subset_iff)
        moreover have "entries_upto ds (es @ [(t, sz)]) (length es) = t" using I(4) by (simp add: entries_upto_snoc)
        ultimately show ?thesis unfolding r v sz_def [symmetric]
          using snoc [of "length es" "clwb_fence (flush_tail b) ?len D" al ?pm "cur_cnt (bseg b) + 1"] up I(5)
          by (simp add: LOG_BATCHING_SIZE_def)
      qed
    next
      case short: False
      have r: "n = 0" "b' = ?b (Suc (length es - p)) D (flush_tail b)" using b' short by simp_all
      show ?thesis unfolding r v sz_def [symmetric]
        using snoc [of p D "flush_tail b" ?pm "cur_cnt (bseg b) + 1"] le keep(2) False short len I(5) by (simp add: Suc_diff_le)
    qed
  qed
qed

lemma append_run_inv:
  assumes "batch_inv es p b" and "append_run kvs b = Some (vs, n, b')"
  shows "batch_inv (es @ zip vs (map record_size kvs)) (p + n) b' \<and> length vs = length kvs"
  using assms
proof (induction kvs arbitrary: es p b vs n)
  case (Cons kv kvs)
  obtain key val epoch where kv: "kv = (key, val, epoch)" by (cases kv)
  obtain v m b1 where a: "AppendBatchFlush key val epoch b = (v, Some m, b1)"
    using Cons.prems(2) by (auto simp: kv split: prod.splits option.splits)
  obtain vs' n' where r: "append_run kvs b1 = Some (vs', n', b')" "vs = v # vs'" "n = m + n'"
    using Cons.prems(2) by (auto simp: kv a split: prod.splits option.splits)
  from Cons.IH [OF append_step(2) [OF Cons.prems(1) a] r(1)] show ?case by (simp add: r kv add.assoc)
qed simp

lemma FlushRemain_inv:
  assumes inv: "batch_inv es p b"
  shows "fst (FlushRemain b) = length es - p" and "{data_start (bseg b)..<seg_tail (bseg b)} \<subseteq> durable (snd (FlushRemain b))"
proof -
  let ?t = "seg_tail (bseg b)"
  have I: "seg_end (bseg b) < 2 ^ 48" "?t \<le> seg_end (bseg b)" "not_flushed_cnt b = length es - p"
      "{data_start (bseg b)..<flush_tail b} \<subseteq> durable b" "flush_tail b \<le> ?t"
    using inv unfolding batch_inv_def Let_def by blast+
  show "fst (FlushRemain b) = length es - p" using I(3) by (simp add: FlushRemain_def)
  have "?t < 2 ^ 64" using I(1,2) by simp
  then have "durable b \<union> {flush_tail b..<?t} \<subseteq> clwb_fence (flush_tail b) (ptr_diff ?t (flush_tail b)) (durable b)"
    using clwb_fence_covers [of "flush_tail b" "?t - flush_tail b" "durable b"] I(5) by (simp add: ptr_diff_ge)
  moreover have "{data_start (bseg b)..<?t} \<subseteq> {data_start (bseg b)..<flush_tail b} \<union> {flush_tail b..<?t}" by auto
  ultimately show "{data_start (bseg b)..<?t} \<subseteq> durable (snd (FlushRemain b))" using I(4) by (simp add: FlushRemain_def) blast
qed

text \<open>An entry among the first \<open>p\<close> ends below the persistent boundary.\<close>

lemma batch_inv_durable:
  assumes inv: "batch_inv es p b" and j: "j < p"
  shows "{fst (es ! j)..<fst (es ! j) + snd (es ! j)} \<subseteq> durable b"
proof -
  let ?ds = "data_start (bseg b)"
  have I: "\<forall>j < length es. fst (es ! j) = entries_upto ?ds es j" "p \<le> length es" "{?ds..<entries_upto ?ds es p} \<subseteq> durable b"
    using inv unfolding batch_inv_def Let_def by blast+
  have "fst (es ! j) + snd (es ! j) = entries_upto ?ds es (Suc j)" using I(1,2) j by (simp add: entries_upto_def take_Suc_conv_app_nth)
  then have "fst (es ! j) + snd (es ! j) \<le> entries_upto ?ds es p" using entries_upto_mono [of "Suc j" p ?ds es] j by simp
  moreover have "?ds \<le> fst (es ! j)" using I(1,2) j by (simp add: entries_upto_def)
  ultimately show ?thesis using I(3) by (auto simp: subset_iff)
qed

text \<open>
  C21: batching never reports an entry as persistent before all its bytes are written back. For any records appended to
  a segment just taken into use, the counts returned so far add up to some \<open>n\<close> such that the first \<open>n\<close>
  entries are durable and the others are those still counted as not flushed; \<open>FlushRemain\<close> returns exactly the
  number of the others and makes them durable, too. This includes the first append, where the
  difference of the pointers is negative and wraps around to a huge length.
\<close>

theorem batch_persisted:
  assumes addr: "LOG_BATCHING_SIZE dvd addr" "0 < addr" "addr + SEGMENT_SIZE < 2 ^ 48"
    and run: "append_run kvs (batch_new addr pm d) = Some (vs, n, b)"
  shows "n \<le> length kvs \<and> length vs = length kvs \<and> not_flushed_cnt b = length kvs - n \<and>
    (\<forall>j. j < n \<longrightarrow> {vs ! j..<vs ! j + record_size (kvs ! j)} \<subseteq> durable b) \<and>
    fst (FlushRemain b) = length kvs - n \<and>
    (\<forall>j. j < length kvs \<longrightarrow> {vs ! j..<vs ! j + record_size (kvs ! j)} \<subseteq> durable (snd (FlushRemain b)))"
proof -
  let ?es = "zip vs (map record_size kvs)"
  have i: "batch_inv ?es n b" and len: "length vs = length kvs"
    using append_run_inv [OF batch_new_inv [OF addr] run] by simp_all
  have n: "length ?es = length kvs" using len by simp
  have I: "n \<le> length ?es" "not_flushed_cnt b = length ?es - n" "seg_tail (bseg b) = entries_upto (data_start (bseg b)) ?es (length ?es)"
      "\<forall>j < length ?es. fst (?es ! j) = entries_upto (data_start (bseg b)) ?es j"
    using i unfolding batch_inv_def Let_def by blast+
  have d: "{vs ! j..<vs ! j + record_size (kvs ! j)} \<subseteq> durable b" if "j < n" for j
    using batch_inv_durable [OF i that] that I(1) len by simp
  have "{vs ! j..<vs ! j + record_size (kvs ! j)} \<subseteq> durable (snd (FlushRemain b))" if "j < length kvs" for j
  proof -
    let ?ds = "data_start (bseg b)"
    have "vs ! j = entries_upto ?ds ?es j" using I(4) that len by simp
    moreover have "entries_upto ?ds ?es (Suc j) = entries_upto ?ds ?es j + record_size (kvs ! j)"
      using that len by (simp add: entries_upto_def take_Suc_conv_app_nth)
    moreover have "entries_upto ?ds ?es (Suc j) \<le> seg_tail (bseg b)"
      unfolding I(3) using that n by (intro entries_upto_mono) simp
    moreover have "?ds \<le> entries_upto ?ds ?es j" by (simp add: entries_upto_def)
    ultimately have "{vs ! j..<vs ! j + record_size (kvs ! j)} \<subseteq> {?ds..<seg_tail (bseg b)}" by auto
    then show ?thesis using FlushRemain_inv(2) [OF i] by (rule order_trans)
  qed
  then show ?thesis using I(1,2) len n d FlushRemain_inv(1) [OF i] by simp
qed

text \<open>Two records of 616 bytes: the second append writes back the first.\<close>

definition batch_pool :: pool where
  "batch_pool = \<lparr>pm_bytes = (\<lambda>_. 0), pm_hdr = (\<lambda>_. \<lparr>h_offset = 0, h_status = StatusAvailable, h_objects_tail_offset = 0, h_has_shortcut = False\<rparr>)\<rparr>"

theorem batch_persisted_witness:
  "\<exists>vs b. append_run [(replicate 8 1, replicate 600 2, 0), (replicate 8 3, replicate 600 4, 0)] (batch_new 4194304 batch_pool {}) = Some (vs, 1, b) \<and>
     vs = [4194560, 4195176] \<and> {4194560..<4195176} \<subseteq> durable b"
proof -
  let ?kvs = "[(replicate 8 1, replicate 600 2, 0), (replicate 8 3, replicate 600 4, 0)]"
  have d: "ptr_diff 4194816 4194560 = 256" "ptr_diff 4195328 4194560 = 768" by (simp_all add: ptr_diff_def)
  obtain b where r: "append_run ?kvs (batch_new 4194304 batch_pool {}) = Some ([4194560, 4195176], 1, b)"
    by (simp add: AppendBatchFlush_def seg_Append_def batch_new_def seg_Init_def segment_object_def data_start_def seg_end_def HasSpaceFor_def
        SEGMENT_SIZE_def HEADERS_SIZE_def sizeof_KVItem_def tagged_pointer_def INVALID_VALUE_def LOG_BATCHING_SIZE_def d Let_def)
  have "LOG_BATCHING_SIZE dvd 4194304" "0 < (4194304 :: nat)" "4194304 + SEGMENT_SIZE < 2 ^ 48"
    by (simp_all add: LOG_BATCHING_SIZE_def SEGMENT_SIZE_def)
  from batch_persisted [OF this r] have "{[4194560, 4195176] ! 0..<[4194560, 4195176] ! 0 + record_size (?kvs ! 0)} \<subseteq> durable b"
    by blast
  then have "{4194560..<4195176} \<subseteq> durable b" by (simp add: record_size_def sizeof_KVItem_def)
  then show ?thesis using r by blast
qed

end
