(* ===== verification/Flat_Batch_GC.thy ===== *)
theory Flat_Batch_GC
  imports Flat_Compact
begin

text \<open>
  Compaction through a volatile buffer (\<open>BATCH_COMPACTION\<close>, \<^verbatim>\<open>db/log_cleaner.cpp\<close>): live entries are first copied to a
  buffer of the size of a segment, which mirrors the reserved segment; the new part of the buffer is then
  copied to the reserved segment at once, and the index is updated for all of its entries. The
  theory shows that it does to the store what the entry-by-entry compaction of \<^verbatim>\<open>Flat_Cleaner\<close> does.
\<close>

section \<open>State\<close>

text \<open>\<open>VirtualSegment\<close>: a segment in ordinary memory, with an address space of its own.\<close>

record virtual_segment =
  vs_seg :: log_segment
  vs_mem :: memory

definition VirtualSegment_new :: "nat \<Rightarrow> memory \<Rightarrow> virtual_segment" where
  "VirtualSegment_new addr m =
     (let s = segment_object addr 0 in \<lparr>vs_seg = s\<lparr>seg_tail := data_start s\<rparr>, vs_mem = m\<rparr>)"

definition vs_Clear :: "virtual_segment \<Rightarrow> virtual_segment" where
  "vs_Clear v = v\<lparr>vs_seg := (vs_seg v)\<lparr>seg_tail := data_start (vs_seg v), cur_cnt := 0\<rparr>\<rparr>"

text \<open>The key of an item is a slice of the buffer: its address there and its length.\<close>

record valid_item =
  vi_key :: "nat \<times> nat"
  vi_old :: nat
  vi_new :: nat
  vi_size :: nat

record 'i batch =
  bt_cl :: cleaner
  bt_vs :: virtual_segment
  bt_items :: "valid_item list"
  bt_db :: "'i db"

abbreviation bt_log :: "'i batch \<Rightarrow> log" where "bt_log b \<equiv> db_log (bt_db b)"

definition set_log :: "log \<Rightarrow> 'i batch \<Rightarrow> 'i batch" where
  "set_log l b = b\<lparr>bt_db := (bt_db b)\<lparr>db_log := l\<rparr>\<rparr>"

section \<open>Operations\<close>

text \<open>The difference of the offsets is taken in 32 bits; copying to a null pointer is an error.\<close>

definition BatchFlush :: "'i batch \<Rightarrow> fs_error + 'i batch" where
  "BatchFlush b =
     (case reserved_segment (bt_cl b) of
        None \<Rightarrow> Inl Null_segment
      | Some r \<Rightarrow>
          let l = bt_log b; s = segs l r; v = bt_vs b;
              sz = nat ((int (get_offset (vs_seg v)) - int (get_offset s)) mod 2 ^ 32);
              volatile_start = data_start (vs_seg v) + get_offset s
          in case AllocSpace sz s of
               (None, _) \<Rightarrow> Inl Null_segment
             | (Some reserved_start, s') \<Rightarrow>
                 Inr (set_log (l\<lparr>segs := (segs l)(r := s'),
                        lpool := (lpool l)\<lparr>pm_bytes := mem_write (pm_bytes (lpool l)) reserved_start (mem_read (vs_mem v) volatile_start sz)\<rparr>\<rparr>) b))"

text \<open>The index is updated for one item after the other; the values that lost against a concurrent write are collected with their sizes.\<close>

fun update_items :: "'i index_ops \<Rightarrow> memory \<Rightarrow> valid_item list \<Rightarrow> 'i \<Rightarrow> 'i \<times> nat list" where
  "update_items ix m [] idx = (idx, [])"
| "update_items ix m (it # items) idx =
     (let (old, idx) = ix_gc ix (index_key (mem_read m (fst (vi_key it)) (snd (vi_key it)))) (vi_old it) (vi_new it) idx;
          (idx, garbage) = update_items ix m items idx
      in (idx, if old = vi_new it then (tp_GetAddr (vi_new it) + 2 ^ 48 * (vi_size it mod 2 ^ 16)) # garbage else garbage))"

definition mark_new_garbage :: "nat \<Rightarrow> nat \<Rightarrow> cleaner \<times> log \<Rightarrow> cleaner \<times> log" where
  "mark_new_garbage r tp cll =
     (let (cl, l) = cll; sz = tp div 2 ^ 48 mod 2 ^ 16; c = GetSegmentCleanerID l (segment_start (segs l r)) in
      (cl\<lparr>cl_tmp := (cl_tmp cl)[c := cl_tmp cl ! c + sz]\<rparr>,
       l\<lparr>segs := (segs l)(r := seg_MarkGarbage (tp_GetAddr tp) sz (segs l r))\<rparr>))"

definition BatchIndexUpdate :: "'i index_ops \<Rightarrow> 'i batch \<Rightarrow> fs_error + 'i batch" where
  "BatchIndexUpdate ix b =
     (case reserved_segment (bt_cl b) of
        None \<Rightarrow> Inl Null_segment
      | Some r \<Rightarrow>
          let (idx, garbage) = update_items ix (vs_mem (bt_vs b)) (bt_items b) (db_index (bt_db b));
              (cl, l) = fold (mark_new_garbage r) garbage (bt_cl b, bt_log b)
          in Inr (b\<lparr>bt_cl := cl, bt_items := [], bt_db := (bt_db b)\<lparr>db_index := idx, db_log := l\<rparr>\<rparr>))"

text \<open>The count of the reserved segment is brought up to date before it is frozen.\<close>

definition count_entries :: "virtual_segment \<Rightarrow> cleaner \<Rightarrow> log \<Rightarrow> log" where
  "count_entries v cl l =
     (case reserved_segment cl of
        None \<Rightarrow> l
      | Some r \<Rightarrow> l\<lparr>segs := (segs l)(r := (segs l r)\<lparr>cur_cnt := cur_cnt (segs l r) + cur_cnt (vs_seg v)\<rparr>)\<rparr>)"

definition flush_and_freeze :: "'i index_ops \<Rightarrow> nat \<Rightarrow> 'i batch \<Rightarrow> fs_error + 'i batch" where
  "flush_and_freeze ix now b =
     (case BatchFlush b of
        Inl e \<Rightarrow> Inl e
      | Inr b \<Rightarrow>
          (case BatchIndexUpdate ix b of
             Inl e \<Rightarrow> Inl e
           | Inr b \<Rightarrow>
               (case FreezeReservedAndGetNew now (bt_cl b) (count_entries (bt_vs b) (bt_cl b) (bt_log b)) of
                  Inl e \<Rightarrow> Inl e
                | Inr (cl, l) \<Rightarrow> Inr (set_log l (b\<lparr>bt_cl := cl, bt_vs := vs_Clear (bt_vs b)\<rparr>)))))"

text \<open>Copying one entry to the buffer, with its place in the reserved segment.\<close>

definition buffer_item :: "nat \<Rightarrow> 'i batch \<Rightarrow> fs_error + 'i batch" where
  "buffer_item p b =
     (let m = pm_bytes (lpool (bt_log b)); sz = kv_size m p; v = bt_vs b in
      case (AllocOne sz (vs_seg v), reserved_segment (bt_cl b)) of
        ((Some cur, s), Some r) \<Rightarrow>
          let vm = mem_write (vs_mem v) cur (mem_read m p sz);
              new_addr = data_start (segs (bt_log b) r) + (cur - data_start s);
              it = \<lparr>vi_key = (cur + sizeof_KVItem, kv_key_size vm cur), vi_old = tagged_pointer p sz,
                    vi_new = tagged_pointer new_addr sz, vi_size = sz\<rparr>
          in Inr (b\<lparr>bt_vs := \<lparr>vs_seg = s, vs_mem = vm\<rparr>, bt_items := bt_items b @ [it]\<rparr>)
      | _ \<Rightarrow> Inl Null_segment)"

definition copy_entry :: "'i index_ops \<Rightarrow> nat \<Rightarrow> nat \<Rightarrow> 'i batch \<Rightarrow> fs_error + 'i batch" where
  "copy_entry ix now p b =
     (case (if HasSpaceFor (vs_seg (bt_vs b)) (kv_size (pm_bytes (lpool (bt_log b))) p) then Inr b else flush_and_freeze ix now b) of
        Inl e \<Rightarrow> Inl e
      | Inr b \<Rightarrow> if IsGarbage ix p (bt_db b) then Inr b else buffer_item p b)"

function CopyValidItemToBuffer :: "'i index_ops \<Rightarrow> nat \<Rightarrow> nat \<Rightarrow> nat \<Rightarrow> 'i batch \<Rightarrow> fs_error + 'i batch" where
  "CopyValidItemToBuffer ix now p tail b =
     (let sz = kv_size (pm_bytes (lpool (bt_log b))) p in
      if p < tail \<and> sz \<noteq> sizeof_KVItem then
        (case copy_entry ix now p b of
           Inl e \<Rightarrow> Inl e
         | Inr b \<Rightarrow> CopyValidItemToBuffer ix now (p + sz) tail b)
      else Inr b)"
  by pat_completeness auto
termination
  by (relation "measure (\<lambda>(_, _, p, tail, _). tail - p)") (auto intro!: diff_less_mono2)

declare CopyValidItemToBuffer.simps [simp del]

text \<open>The bytes of garbage in the segment are taken off the cleaner's count, an unsigned 64-bit number.\<close>

definition drop_garbage :: "nat \<Rightarrow> nat \<Rightarrow> log \<Rightarrow> log" where
  "drop_garbage c g l =
     l\<lparr>cleaner_garbage := (cleaner_garbage l)(c := nat ((int (cleaner_garbage l c) - int g) mod 2 ^ 64))\<rparr>"

definition BatchCompactSegment :: "'i index_ops \<Rightarrow> nat \<Rightarrow> nat \<Rightarrow> 'i batch \<Rightarrow> fs_error + 'i batch" where
  "BatchCompactSegment ix now seg b =
     (let s = segs (bt_log b) seg in
      case CopyValidItemToBuffer ix now (data_start s) (seg_tail s) b of
        Inl e \<Rightarrow> Inl e
      | Inr b \<Rightarrow>
          (case BatchFlush b of
             Inl e \<Rightarrow> Inl e
           | Inr b \<Rightarrow>
               (case BatchIndexUpdate ix b of
                  Inl e \<Rightarrow> Inl e
                | Inr b \<Rightarrow>
                    let l = drop_garbage (cleaner_id (bt_cl b)) (garbage_bytes (segs (bt_log b) seg)) (bt_log b);
                        (cl, l) = finish_compaction seg (bt_cl b) l
                    in Inr (set_log l (b\<lparr>bt_cl := cl\<rparr>)))))"


section \<open>Settling the buffer\<close>

text \<open>
  What the store becomes once the buffer is flushed, its items are entered in the index and its
  entries are counted.
\<close>

definition settle_log :: "'i batch \<Rightarrow> log" where
  "settle_log b =
     (case reserved_segment (bt_cl b) of
        None \<Rightarrow> bt_log b
      | Some r \<Rightarrow>
          let l = bt_log b; s = segs l r; v = bt_vs b; n = get_offset (vs_seg v) - get_offset s in
          l\<lparr>segs := (segs l)(r := s\<lparr>seg_tail := seg_tail s + n, cur_cnt := cur_cnt s + cur_cnt (vs_seg v)\<rparr>),
            lpool := (lpool l)\<lparr>pm_bytes := mem_write (pm_bytes (lpool l)) (seg_tail s)
              (mem_read (vs_mem v) (data_start (vs_seg v) + get_offset s) n)\<rparr>\<rparr>)"

abbreviation updated :: "'i index_ops \<Rightarrow> 'i batch \<Rightarrow> 'i \<times> nat list" where
  "updated ix b \<equiv> update_items ix (vs_mem (bt_vs b)) (bt_items b) (db_index (bt_db b))"

definition settle :: "'i index_ops \<Rightarrow> 'i batch \<Rightarrow> 'i db" where
  "settle ix b = (bt_db b)\<lparr>db_index := fst (updated ix b), db_log := settle_log b\<rparr>"

lemma settle_simps [simp]: "db_log (settle ix b) = settle_log b" "db_index (settle ix b) = fst (updated ix b)"
  by (simp_all add: settle_def)

text \<open>The buffer is at least as full as the reserved segment.\<close>

definition mirrors :: "'i batch \<Rightarrow> nat \<Rightarrow> bool" where
  "mirrors b r \<longleftrightarrow> reserved_segment (bt_cl b) = Some r \<and> seg_wf (vs_seg (bt_vs b)) \<and> seg_wf (segs (bt_log b) r) \<and>
     get_offset (segs (bt_log b) r) \<le> get_offset (vs_seg (bt_vs b))"

lemma seg_wf_offset:
  assumes "seg_wf s"
  shows "seg_tail s = data_start s + get_offset s" "get_offset s \<le> SEGMENT_DATA_SIZE" "seg_end s = data_start s + SEGMENT_DATA_SIZE"
  using assms by (auto simp: seg_wf_def get_offset_def data_start_def seg_end_def SEGMENT_DATA_SIZE_def SEGMENT_SIZE_def HEADERS_SIZE_def)

lemma settle_reserved:
  assumes "mirrors b r"
  shows "segment_start (segs (settle_log b) r) = segment_start (segs (bt_log b) r)"
    and "data_start (segs (settle_log b) r) = data_start (segs (bt_log b) r)"
    and "get_offset (segs (settle_log b) r) = get_offset (vs_seg (bt_vs b))"
    and "seg_tail (segs (settle_log b) r) = data_start (segs (bt_log b) r) + get_offset (vs_seg (bt_vs b))"
    and "i \<noteq> r \<Longrightarrow> segs (settle_log b) i = segs (bt_log b) i"
    and "HasSpaceFor (segs (settle_log b) r) n = HasSpaceFor (vs_seg (bt_vs b)) n"
proof -
  note w = seg_wf_offset [of "segs (bt_log b) r"] seg_wf_offset [of "vs_seg (bt_vs b)"]
  have e: "segs (settle_log b) r = (segs (bt_log b) r)\<lparr>seg_tail := data_start (segs (bt_log b) r) + get_offset (vs_seg (bt_vs b)),
      cur_cnt := cur_cnt (segs (bt_log b) r) + cur_cnt (vs_seg (bt_vs b))\<rparr>"
    using assms w(1) by (simp add: settle_log_def mirrors_def Let_def)
  show "segment_start (segs (settle_log b) r) = segment_start (segs (bt_log b) r)"
    "data_start (segs (settle_log b) r) = data_start (segs (bt_log b) r)"
    "get_offset (segs (settle_log b) r) = get_offset (vs_seg (bt_vs b))"
    "seg_tail (segs (settle_log b) r) = data_start (segs (bt_log b) r) + get_offset (vs_seg (bt_vs b))"
    by (simp_all add: e data_start_def get_offset_def)
  show "i \<noteq> r \<Longrightarrow> segs (settle_log b) i = segs (bt_log b) i"
    using assms by (simp add: settle_log_def mirrors_def Let_def)
  have "seg_end (segs (settle_log b) r) = data_start (segs (bt_log b) r) + SEGMENT_DATA_SIZE"
    using assms w(3) by (simp add: e seg_end_def mirrors_def)
  then show "HasSpaceFor (segs (settle_log b) r) n = HasSpaceFor (vs_seg (bt_vs b)) n"
    using assms w(4,6) by (simp add: HasSpaceFor_def e mirrors_def)
qed

text \<open>Flushing and updating succeed, and leave the settled store up to the count.\<close>

lemma flush_update:
  assumes m: "mirrors b r" and g: "snd (updated ix b) = []"
  obtains l' where "BatchFlush b = Inr (set_log l' b)"
    "BatchIndexUpdate ix (set_log l' b) = Inr (b\<lparr>bt_items := [], bt_db := (settle ix b)\<lparr>db_log := l'\<rparr>\<rparr>)"
    "count_entries (bt_vs b) (bt_cl b) l' = settle_log b" "get_offset (segs l' r) = get_offset (vs_seg (bt_vs b))"
    "seg_wf (segs l' r)" "\<forall>i. i \<noteq> r \<longrightarrow> segs l' i = segs (bt_log b) i"
proof -
  let ?l = "bt_log b" and ?v = "bt_vs b"
  let ?s = "segs ?l r" and ?n = "get_offset (vs_seg ?v) - get_offset (segs ?l r)"
  have r: "reserved_segment (bt_cl b) = Some r" using m by (simp add: mirrors_def)
  have w: "seg_wf ?s" "seg_wf (vs_seg ?v)" "get_offset ?s \<le> get_offset (vs_seg ?v)" using m by (simp_all add: mirrors_def)
  note o = seg_wf_offset [OF w(1)] seg_wf_offset [OF w(2)]
  have "SEGMENT_DATA_SIZE < 2 ^ 32" by (simp add: SEGMENT_DATA_SIZE_def SEGMENT_SIZE_def)
  then have n: "nat ((int (get_offset (vs_seg ?v)) - int (get_offset ?s)) mod 2 ^ 32) = ?n"
    using w(3) o(5) by (simp add: of_nat_diff [symmetric] nat_mod_distrib del: of_nat_diff)
  define l' where "l' = ?l\<lparr>segs := (segs ?l)(r := ?s\<lparr>seg_tail := seg_tail ?s + ?n\<rparr>),
      lpool := (lpool ?l)\<lparr>pm_bytes := mem_write (pm_bytes (lpool ?l)) (seg_tail ?s)
        (mem_read (vs_mem ?v) (data_start (vs_seg ?v) + get_offset ?s) ?n)\<rparr>\<rparr>"
  have a: "AllocSpace ?n ?s = (Some (seg_tail ?s), ?s\<lparr>seg_tail := seg_tail ?s + ?n\<rparr>)"
    using o w(3) by (simp add: AllocSpace_def)
  show thesis
  proof (rule that)
    show "BatchFlush b = Inr (set_log l' b)" unfolding BatchFlush_def r Let_def option.case n a l'_def by simp
    show "BatchIndexUpdate ix (set_log l' b) = Inr (b\<lparr>bt_items := [], bt_db := (settle ix b)\<lparr>db_log := l'\<rparr>\<rparr>)"
      using g by (simp add: BatchIndexUpdate_def set_log_def r split_beta settle_def)
    show "count_entries (bt_vs b) (bt_cl b) l' = settle_log b"
      by (simp add: count_entries_def settle_log_def r l'_def Let_def)
    show "get_offset (segs l' r) = get_offset (vs_seg ?v)" using o(1) w(3) by (simp add: l'_def get_offset_def data_start_def)
    show "seg_wf (segs l' r)" using o w(3) by (simp add: l'_def seg_wf_def data_start_def seg_end_def)
    show "\<forall>i. i \<noteq> r \<longrightarrow> segs l' i = segs ?l i" by (simp add: l'_def)
  qed
qed

lemma flush_and_freeze_settled:
  assumes m: "mirrors b r" and g: "snd (updated ix b) = []"
  shows "flush_and_freeze ix now b =
    (case FreezeReservedAndGetNew now (bt_cl b) (settle_log b) of
       Inl e \<Rightarrow> Inl e
     | Inr (cl, l) \<Rightarrow> Inr (b\<lparr>bt_cl := cl, bt_vs := vs_Clear (bt_vs b), bt_items := [], bt_db := (settle ix b)\<lparr>db_log := l\<rparr>\<rparr>))"
proof -
  obtain l' where "BatchFlush b = Inr (set_log l' b)"
    "BatchIndexUpdate ix (set_log l' b) = Inr (b\<lparr>bt_items := [], bt_db := (settle ix b)\<lparr>db_log := l'\<rparr>\<rparr>)"
    "count_entries (bt_vs b) (bt_cl b) l' = settle_log b" by (rule flush_update [OF m g])
  then show ?thesis by (simp add: flush_and_freeze_def set_log_def split: sum.splits prod.splits)
qed

text \<open>A buffer without entries beyond those of the reserved segment leaves everything as it is.\<close>

lemma settle_empty:
  assumes "bt_items b = []" and "get_offset (vs_seg (bt_vs b)) = get_offset (segs (bt_log b) r)" and "reserved_segment (bt_cl b) = Some r"
  shows "settle ix b = (bt_db b)\<lparr>db_log := count_entries (bt_vs b) (bt_cl b) (bt_log b)\<rparr>"
    and "cur_cnt (vs_seg (bt_vs b)) = 0 \<Longrightarrow> settle ix b = bt_db b"
proof -
  have w: "mem_write m p [] = m" for m p by (auto simp: mem_write_def fun_eq_iff)
  have e: "mem_read m p 0 = []" for m p by (simp add: mem_read_def)
  show "settle ix b = (bt_db b)\<lparr>db_log := count_entries (bt_vs b) (bt_cl b) (bt_log b)\<rparr>"
    using assms by (simp add: settle_def settle_log_def count_entries_def Let_def w e)
  then show "cur_cnt (vs_seg (bt_vs b)) = 0 \<Longrightarrow> settle ix b = bt_db b"
    using assms by (simp add: count_entries_def)
qed


section \<open>Entries and their images\<close>

text \<open>An entry whose garbage bit is clear is copied byte by byte as \<open>Append\<close> would write it.\<close>

lemma mem_read_image:
  assumes "\<not> kv_is_garbage m p"
  shows "mem_read m p (kv_size m p) = kv_image (kv_GetKey m p) (kv_GetValue m p) (kv_epoch m p)"
proof -
  let ?k = "le_word (mem_read m p 2) :: u16" and ?v = "le_word (mem_read m (p + 2) 2) :: u16"
  have "take_bit 15 ?k = ?k"
  proof (rule bit_word_eqI)
    fix n assume "n < LENGTH(16)"
    then show "bit (take_bit 15 ?k) n = bit ?k n"
      using assms by (cases "n = 15") (auto simp: bit_take_bit_iff kv_is_garbage_def)
  qed
  then have "unat ?k mod 2 ^ 15 = unat ?k" by (metis take_bit_eq_mod unsigned_take_bit_eq)
  then have ks: "kv_key_size m p = unat ?k" by (simp add: kv_key_size_def)
  have vs: "kv_val_size m p = unat ?v" by (simp add: kv_val_size_def)
  have bytes: "le_bytes 2 ?k = mem_read m p 2" "le_bytes 2 ?v = mem_read m (p + 2) 2" "le_bytes 4 (kv_epoch m p) = mem_read m (p + 4) 4"
    using le_bytes_le_word [of "mem_read m p 2", where 'a = 16] le_bytes_le_word [of "mem_read m (p + 2) 2", where 'a = 16]
      le_bytes_le_word [of "mem_read m (p + 4) 4", where 'a = 32] by (simp_all add: kv_epoch_def)
  have lt: "kv_key_size m p < 2 ^ 15" "kv_val_size m p < 2 ^ 16"
    using unsigned_less [of ?v, where 'a = nat] by (simp_all add: kv_key_size_def vs)
  have e: "kv_size m p = 2 + (2 + (4 + (kv_key_size m p + kv_val_size m p)))" by (simp add: kv_size_def sizeof_KVItem_def)
  have a: "p + 2 + 2 = p + 4" "p + 4 + 4 = p + 8" by simp_all
  have "mem_read m p (kv_size m p) = mem_read m p 2 @ mem_read m (p + 2) 2 @ mem_read m (p + 4) 4 @ kv_GetKey m p @ kv_GetValue m p"
    unfolding e mem_read_append a by (simp add: kv_GetKey_def kv_GetValue_def sizeof_KVItem_def)
  also have "\<dots> = kv_image (kv_GetKey m p) (kv_GetValue m p) (kv_epoch m p)"
    using lt bytes by (simp add: kv_image_def Let_def length_kv_fields) (simp add: ks vs)
  finally show ?thesis .
qed

lemma kv_field_lengths: "length (kv_GetKey m p) < 2 ^ 15" "length (kv_GetValue m p) < 2 ^ 16"
  using unsigned_less [of "le_word (mem_read m (p + 2) 2) :: u16", where 'a = nat]
  by (simp_all add: length_kv_fields kv_key_size_def kv_val_size_def)

lemma kv_copy_key:
  assumes "\<not> kv_is_garbage m p" and "mem_read m' q (kv_size m p) = mem_read m p (kv_size m p)"
  shows "kv_key_size m' q = kv_key_size m p" "kv_GetKey m' q = kv_GetKey m p"
  using kv_image_read(1,4) [OF kv_field_lengths [of m p], of m' q] assms mem_read_image [OF assms(1)]
  by (simp_all add: kv_size_def length_kv_fields)

lemma gc_append_explicit:
  assumes r: "reserved_segment cl = Some r" and room: "HasSpaceFor (segs l r) (kv_size (pm_bytes (lpool l)) p)"
  defines "m \<equiv> pm_bytes (lpool l)" and "t \<equiv> seg_tail (segs l r)"
  shows "gc_append p cl l = Inr (t, l\<lparr>
     segs := (segs l)(r := (segs l r)\<lparr>seg_tail := t + kv_size m p, cur_cnt := cur_cnt (segs l r) + 1\<rparr>),
     lpool := (lpool l)\<lparr>pm_bytes := mem_write m t (kv_image (kv_GetKey m p) (kv_GetValue m p) (kv_epoch m p))\<rparr>\<rparr>)"
  using room by (simp add: gc_append_def r seg_Append_def Let_def length_kv_fields kv_size_def m_def t_def tagged_pointer_def)

lemma freeze_segs:
  assumes "FreezeReservedAndGetNew now cl l = Inr (cl', l')" and "reserved_segment cl \<noteq> Some i" and "backup_segment cl \<noteq> Some i"
  shows "segs l' i = segs l i"
  using assms by (auto simp: FreezeReservedAndGetNew_def FreezeSegment_def SyncCleanerGarbageBytes_def AddClosedSegment_def on_seg_def Let_def
      split: option.splits prod.splits if_splits)

text \<open>Entries of different segments lie apart.\<close>

lemma segments_apart:
  assumes "seg_ok l i" and "seg_ok l j" and "i \<noteq> j" and "data_start (segs l i) \<le> a" and "a < seg_tail (segs l i)"
  shows "a < data_start (segs l j) \<or> seg_tail (segs l j) \<le> a" "a < data_start (segs l j) \<or> seg_end (segs l j) \<le> a"
proof -
  have e: "seg_end (segs l j) = seg_addr l j + SEGMENT_SIZE" using assms(2) by (simp add: seg_ok_def seg_end_def)
  note bi = seg_ok_bounds [OF assms(1)] and bj = seg_ok_bounds [OF assms(2)]
  show 1: "a < data_start (segs l j) \<or> seg_end (segs l j) \<le> a"
  proof (cases i j rule: linorder_cases)
    case less then show ?thesis using seg_addr_apart [of i j l] bi bj assms(5) by simp
  next
    case greater then show ?thesis using seg_addr_apart [of j i l] bi e assms(4) by simp
  qed (use assms(3) in simp)
  then show "a < data_start (segs l j) \<or> seg_tail (segs l j) \<le> a" using bj(3) e by auto
qed

context flat_index
begin

lemma gc_move_live:
  assumes inv: "gc_inv ix iinv ikey_ok W cl db" and c: "compacting ix ikey_ok W seg p q cl db" and cp: "copied ix seg p v cl db"
  defines "k0 \<equiv> index_key (kv_GetKey (pm_bytes (lpool (db_log db))) p)"
  assumes g: "tp_GetAddr (ix_get ix k0 (db_index db)) = p"
  shows "gc_move ix p v cl db = Inr (cl, db\<lparr>db_index := snd (ix_gc ix k0 p v (db_index db))\<rparr>)"
    and "fst (ix_gc ix k0 p v (db_index db)) \<noteq> v"
    and "ikey_ok k \<Longrightarrow> ix_get ix k (snd (ix_gc ix k0 p v (db_index db))) = (if k = k0 then v else ix_get ix k (db_index db))"
    and "tp_GetAddr v = v" and "\<not> (data_start (segs (db_log db) seg) \<le> v \<and> v < seg_tail (segs (db_log db) seg))"
proof -
  let ?l = "db_log db" and ?m = "pm_bytes (lpool (db_log db))"
  have C: "p < seg_tail (segs ?l seg)" "kv_size ?m p \<noteq> sizeof_KVItem" "kv_GetKey ?m v = kv_GetKey ?m p"
      "ix_get ix k0 (db_index db) \<noteq> INVALID_VALUE"
    using cp by (auto simp: copied_def Let_def k0_def)
  obtain r where r: "reserved_segment cl = Some r" "v \<in> set (seg_entries ?l r)" using cp by (auto simp: copied_def Let_def)
  obtain k1 where k: "ikey_ok k1" "kv_GetKey ?m p = le_bytes 8 k1" "k0 = k1" "p \<in> set (seg_entries ?l seg)" "p \<noteq> INVALID_VALUE"
    unfolding k0_def by (rule entry_key [OF inv c C(1,2)])
  have li: "log_inv (gc_heads W cl) ?l" and ii: "iinv (db_index db)"
    and lv: "\<And>k. ikey_ok k \<Longrightarrow> ix_get ix k (db_index db) \<noteq> INVALID_VALUE \<Longrightarrow> live ?l k (ix_get ix k (db_index db))"
    using inv by (auto simp: gc_inv_def db_inv_def)
  have rn: "r < num_segments ?l" "r \<notin> set (free_segments ?l)" using li r by (auto simp: log_inv_def gc_heads_def)
  have seg: "seg < num_segments ?l" "seg \<noteq> r" using c r by (auto simp: compacting_def gc_heads_def)
  have ok: "seg_ok ?l seg" "seg_ok ?l r" using li seg rn by (auto simp: log_inv_def)
  have nv: "live ?l k0 v" using rn r C(3) k by (auto simp: live_def)
  show "tp_GetAddr v = v" by (rule live_address(2) [OF li nv])
  have nw: "new_value ix ikey_ok k0 v (db_index db)" by (rule live_new_value [OF li nv lv])
  have gp: "ix_get ix k0 (db_index db) = p" using live_address(2) [OF li lv [OF _ C(4)]] k(1,3) g by simp
  have "data_start (segs ?l r) \<le> v \<and> v < seg_tail (segs ?l r)"
    using r(2) seg_ok_bounds(4) [OF ok(2)] entries_inside [of ?m "data_start (segs ?l r)" "seg_tail (segs ?l r)" "seg_tail (segs ?l r)" v]
    by (simp add: seg_entries_def seg_walk_end_def)
  then show "\<not> (data_start (segs ?l seg) \<le> v \<and> v < seg_tail (segs ?l seg))"
    using segments_apart(1) [OF ok(2,1) seg(2) [symmetric], of v] by auto
  have "v \<noteq> p" using entries_apart [OF li seg(1) rn(1)] r(2) seg(2) k(4) by blast
  then show old: "fst (ix_gc ix k0 p v (db_index db)) \<noteq> v" using gc_old [OF ii _ C(4) k(5) nw] k(1,3) gp by auto
  then show "gc_move ix p v cl db = Inr (cl, db\<lparr>db_index := snd (ix_gc ix k0 p v (db_index db))\<rparr>)"
    by (simp add: gc_move_def Let_def split_beta tagged_pointer_def k0_def)
  show "ikey_ok k \<Longrightarrow> ix_get ix k (snd (ix_gc ix k0 p v (db_index db))) = (if k = k0 then v else ix_get ix k (db_index db))"
    using gc_get [OF ii _ _ C(4) k(5) nw, of k] k(1,3) gp by simp
qed

end


section \<open>The simulation\<close>

text \<open>
  The invariant of the copying: the settled store is one the other compaction could be in; all
  items will be moved; the buffer holds their keys; and the index agrees with the settled one on the entries
  still to visit. \<open>s0\<close> and \<open>m0\<close> are the segment and the bytes at the start.
\<close>

definition batching :: "'i index_ops \<Rightarrow> ('i \<Rightarrow> bool) \<Rightarrow> (u64 \<Rightarrow> bool) \<Rightarrow> nat set \<Rightarrow> nat \<Rightarrow> log_segment \<Rightarrow> memory \<Rightarrow> nat \<Rightarrow> 'i batch \<Rightarrow> bool" where
  "batching ix iinv ikey_ok W seg s0 m0 p b \<longleftrightarrow>
     (\<exists>r. mirrors b r) \<and> gc_inv ix iinv ikey_ok W (bt_cl b) (settle ix b) \<and> compacting ix ikey_ok W seg p p (bt_cl b) (settle ix b) \<and>
     snd (updated ix b) = [] \<and>
     (\<forall>it \<in> set (bt_items b). fst (vi_key it) + snd (vi_key it) \<le> seg_tail (vs_seg (bt_vs b))) \<and>
     (\<forall>k a. ikey_ok k \<and> p \<le> a \<and> a < seg_tail s0 \<longrightarrow>
        (tp_GetAddr (ix_get ix k (fst (updated ix b))) = a) = (tp_GetAddr (ix_get ix k (db_index (bt_db b))) = a)) \<and>
     segs (bt_log b) seg = s0 \<and> (\<forall>a. data_start s0 \<le> a \<and> a < seg_tail s0 \<longrightarrow> pm_bytes (lpool (bt_log b)) a = m0 a)"

lemma batchingD:
  assumes B: "batching ix iinv ikey_ok W seg s0 m0 p b" and r: "reserved_segment (bt_cl b) = Some r"
  shows "mirrors b r" "seg \<noteq> r" "seg_ok (settle_log b) seg" "seg_ok (settle_log b) r" "segs (settle_log b) seg = s0"
    and "data_start s0 \<le> a \<Longrightarrow> a < seg_tail s0 \<Longrightarrow> pm_bytes (lpool (settle_log b)) a = m0 a"
    and "seg_entries (settle_log b) seg = entries m0 (data_start s0) (seg_tail s0)"
proof -
  show m: "mirrors b r" using B r by (auto simp: batching_def mirrors_def)
  have li: "log_inv (gc_heads W (bt_cl b)) (settle_log b)" and n: "seg < num_segments (settle_log b)"
    using B by (auto simp: batching_def gc_inv_def db_inv_def compacting_def)
  show sr: "seg \<noteq> r" using B r by (auto simp: batching_def compacting_def gc_heads_def)
  show ok: "seg_ok (settle_log b) seg" "seg_ok (settle_log b) r" using li n r by (auto simp: log_inv_def gc_heads_def)
  show s: "segs (settle_log b) seg = s0" using settle_reserved(5) [OF m sr] B by (simp add: batching_def)
  have byt: "pm_bytes (lpool (settle_log b)) a = m0 a" if "data_start s0 \<le> a" "a < seg_tail s0" for a
  proof -
    have w: "seg_wf (segs (bt_log b) r)" using m by (simp add: mirrors_def)
    have "a < data_start (segs (bt_log b) r) \<or> data_start (segs (bt_log b) r) + get_offset (vs_seg (bt_vs b)) \<le> a"
      using segments_apart(1) [OF ok sr, of a] that settle_reserved(2,4) [OF m] s by simp
    then have "pm_bytes (lpool (settle_log b)) a = pm_bytes (lpool (bt_log b)) a"
      using m seg_wf_offset(1) [OF w] by (auto simp: settle_log_def mirrors_def Let_def mem_write_def)
    then show ?thesis using B that by (simp add: batching_def)
  qed
  then show "data_start s0 \<le> a \<Longrightarrow> a < seg_tail s0 \<Longrightarrow> pm_bytes (lpool (settle_log b)) a = m0 a" by blast
  have "entries m0 (data_start s0) (seg_tail s0) = entries (pm_bytes (lpool (settle_log b))) (data_start s0) (seg_tail s0)"
    using seg_ok_bounds(4) [OF ok(1)] ok(1) by (intro walk_cong [THEN conjunct1]) (auto simp: s seg_walk_end_def seg_ok_def byt)
  then show "seg_entries (settle_log b) seg = entries m0 (data_start s0) (seg_tail s0)" by (simp add: seg_entries_def s)
qed

lemma batching_header:
  assumes B: "batching ix iinv ikey_ok W seg s0 m0 p b" and p: "p < seg_tail s0"
  defines "m \<equiv> pm_bytes (lpool (bt_log b))" and "m' \<equiv> pm_bytes (lpool (settle_log b))"
  shows "kv_size m' p = kv_size m p" "kv_size m0 p = kv_size m p" "kv_is_garbage m' p = kv_is_garbage m0 p"
    and "data_start s0 \<le> p" "\<And>a. p \<le> a \<Longrightarrow> a < seg_tail s0 \<Longrightarrow> m' a = m a"
proof -
  obtain r where r: "reserved_segment (bt_cl b) = Some r" using B by (auto simp: batching_def mirrors_def)
  note D = batchingD [OF B r]
  have w: "on_walk ix ikey_ok seg p (settle ix b)" using B by (simp add: batching_def compacting_def)
  then show dp: "data_start s0 \<le> p" by (simp add: on_walk_def Let_def D(5))
  have bt: "m a = m0 a" "m' a = m0 a" if "p \<le> a" "a < seg_tail s0" for a
    using B D(6) that dp by (auto simp: batching_def m_def m'_def)
  then show "m' a = m a" if "p \<le> a" "a < seg_tail s0" for a using that by simp
  have "walk_end m' p (seg_tail s0) = seg_walk_end (settle_log b) seg" using w by (simp add: on_walk_def Let_def D(5) m'_def)
  moreover have "seg_walk_end (settle_log b) seg = seg_tail s0 \<or> seg_walk_end (settle_log b) seg + sizeof_KVItem \<le> seg_tail s0"
    using D(3,5) by (simp add: seg_ok_def)
  moreover have "walk_end m' p (seg_tail s0) = p \<or> p + sizeof_KVItem \<le> walk_end m' p (seg_tail s0)"
    using walk_end_ge [of "p + kv_size m' p" m' "seg_tail s0"] by (subst (1 2) walk_end.simps) (auto simp: kv_size_def)
  ultimately have tl: "p + sizeof_KVItem \<le> seg_tail s0" using p walk_end_ge [of p m' "seg_tail s0"] by linarith
  have rd: "mem_read x (p + i) n = mem_read m (p + i) n" if "i + n \<le> 8" "x = m0 \<or> x = m'" for x i n
    using that bt tl by (intro mem_read_cong) (auto simp: sizeof_KVItem_def)
  have sz: "kv_key_size x p = kv_key_size m p \<and> kv_val_size x p = kv_val_size m p \<and> kv_is_garbage x p = kv_is_garbage m p" if "x = m0 \<or> x = m'" for x
    using rd [OF _ that, of 0 2] rd [OF _ that, of 2 2] by (simp add: kv_key_size_def kv_val_size_def kv_is_garbage_def)
  then show "kv_size m' p = kv_size m p" "kv_size m0 p = kv_size m p" "kv_is_garbage m' p = kv_is_garbage m0 p" by (auto simp: kv_size_def)
qed

lemma batching_entry:
  assumes B: "batching ix iinv ikey_ok W seg s0 m0 p b" and p: "p < seg_tail s0" "kv_size (pm_bytes (lpool (bt_log b))) p \<noteq> sizeof_KVItem"
  defines "m \<equiv> pm_bytes (lpool (bt_log b))" and "m' \<equiv> pm_bytes (lpool (settle_log b))"
  shows "kv_GetKey m' p = kv_GetKey m p" "p \<in> set (seg_entries (settle_log b) seg)"
    and "mem_read m' p (kv_size m p) = mem_read m p (kv_size m p)"
    and "p < seg_tail (segs (db_log (settle ix b)) seg)" "kv_size (pm_bytes (lpool (db_log (settle ix b)))) p \<noteq> sizeof_KVItem"
proof -
  obtain r where r: "reserved_segment (bt_cl b) = Some r" using B by (auto simp: batching_def mirrors_def)
  note D = batchingD [OF B r] and H = batching_header [OF B p(1), folded m_def m'_def]
  have w: "on_walk ix ikey_ok seg p (settle ix b)" using B by (simp add: batching_def compacting_def)
  show q: "p < seg_tail (segs (db_log (settle ix b)) seg)" "kv_size (pm_bytes (lpool (db_log (settle ix b)))) p \<noteq> sizeof_KVItem"
    using p H(1) D(5) by (simp_all add: m_def m'_def)
  show "p \<in> set (seg_entries (settle_log b) seg)" using on_walk_entry(1) [OF w _ q] D(3) by simp
  have e: "p + kv_size m p \<le> seg_tail s0" using on_walk_entry(2) [OF w _ q] D(3,5) H(1) by (simp add: m'_def)
  show "mem_read m' p (kv_size m p) = mem_read m p (kv_size m p)" using H(5) e by (intro mem_read_cong) auto
  show "kv_GetKey m' p = kv_GetKey m p" using kv_fields_cong(4) [of p m m'] H(5) e by simp
qed

text \<open>Making room: flushing and freezing is what the other compaction does when its reserved segment is full.\<close>

lemma batch_reserve:
  assumes B: "batching ix iinv ikey_ok W seg s0 m0 p b" and p: "p < seg_tail s0" "kv_size (pm_bytes (lpool (bt_log b))) p \<noteq> sizeof_KVItem"
  defines "sz \<equiv> kv_size (pm_bytes (lpool (bt_log b))) p"
  obtains b' where "(if HasSpaceFor (vs_seg (bt_vs b)) sz then Inr b else flush_and_freeze ix now b) = Inr b'"
    "reserve_space now sz (bt_cl b) (settle_log b) = Inr (bt_cl b', settle_log b')" "settle ix b' = (settle ix b)\<lparr>db_log := settle_log b'\<rparr>"
    "batching ix iinv ikey_ok W seg s0 m0 p b'" "HasSpaceFor (vs_seg (bt_vs b')) sz"
    "kv_size (pm_bytes (lpool (bt_log b'))) p = sz"
proof -
  obtain r where r: "reserved_segment (bt_cl b) = Some r" using B by (auto simp: batching_def mirrors_def)
  note D = batchingD [OF B r] and H = batching_header [OF B p(1)] and E = batching_entry [OF B p]
  have gi: "gc_inv ix iinv ikey_ok W (bt_cl b) (settle ix b)" and c: "compacting ix ikey_ok W seg p p (bt_cl b) (settle ix b)"
    and g: "snd (updated ix b) = []" using B by (simp_all add: batching_def)
  note hs = settle_reserved(6) [OF D(1)]
  show thesis
  proof (cases "HasSpaceFor (vs_seg (bt_vs b)) sz")
    case True
    show thesis
    proof (rule that [of b])
      show "settle ix b = (settle ix b)\<lparr>db_log := settle_log b\<rparr>" by (simp add: settle_def)
      show "reserve_space now sz (bt_cl b) (settle_log b) = Inr (bt_cl b, settle_log b)" using True hs r by (simp add: reserve_space_def)
    qed (use True B in \<open>simp_all add: sz_def\<close>)
  next
    case False
    from reserve_space_ok [OF gi c E(4,5), of now] obtain cl' l' where
      R: "reserve_space now sz (bt_cl b) (settle_log b) = Inr (cl', l')" "gc_inv ix iinv ikey_ok W cl' ((settle ix b)\<lparr>db_log := l'\<rparr>)"
        "compacting ix ikey_ok W seg p p cl' ((settle ix b)\<lparr>db_log := l'\<rparr>)" "gc_keeps {} seg W (bt_cl b) (settle_log b) cl' l'"
        "\<And>r. reserved_segment cl' = Some r \<Longrightarrow> HasSpaceFor (segs l' r) sz"
      using H(1) by (auto simp: sz_def)
    have fz: "FreezeReservedAndGetNew now (bt_cl b) (settle_log b) = Inr (cl', l')"
      using R(1) False hs r by (simp add: reserve_space_def)
    then obtain bk where bk: "backup_segment (bt_cl b) = Some bk" by (auto simp: FreezeReservedAndGetNew_def split: option.splits prod.splits)
    from freeze_reserved [OF gi c bk, of now] fz have
      F: "cl' = (bt_cl b)\<lparr>reserved_segment := Some bk, backup_segment := None, cl_tmp := cl_tmp cl'\<rparr>"
        "log_step {} (insert seg (insert bk W)) (settle_log b) l'" by auto
    have rb: "reserved_segment cl' = Some bk" by (subst F(1)) simp
    have bo: "bk < num_segments (settle_log b)" "seg_tail (segs (settle_log b) bk) = data_start (segs (settle_log b) bk)"
        "seg < num_segments (settle_log b)" "backup_segment (bt_cl b) \<noteq> Some seg"
      using gi c bk by (auto simp: gc_inv_def gc_own_def compacting_def)
    have st: "still bk (settle_log b) l'" "still seg (settle_log b) l'" using F(2) bo(1,3) by (auto simp: log_step_def)
    define b' where "b' = b\<lparr>bt_cl := cl', bt_vs := vs_Clear (bt_vs b), bt_items := [], bt_db := (settle ix b)\<lparr>db_log := l'\<rparr>\<rparr>"
    have ff: "flush_and_freeze ix now b = Inr b'" using flush_and_freeze_settled [OF D(1) g, of now] fz by (simp add: b'_def)
    have tb: "seg_tail (segs l' bk) = data_start (segs l' bk)" using st(1) bo(2) by (simp add: still_def data_start_def)
    then have ob: "get_offset (segs l' bk) = 0" by (simp add: get_offset_def)
    have wv: "seg_wf (vs_seg (bt_vs b'))" "get_offset (vs_seg (bt_vs b')) = 0" "cur_cnt (vs_seg (bt_vs b')) = 0"
      by (simp_all add: b'_def vs_Clear_def seg_wf_def get_offset_def data_start_def seg_end_def SEGMENT_SIZE_def HEADERS_SIZE_def)
    have se: "settle ix b' = bt_db b'" using settle_empty(2) [of b' bk] rb ob wv by (simp add: b'_def)
    then have sl: "settle_log b' = l'" using settle_simps(1) [of ix b'] by (simp add: b'_def)
    have mi: "mirrors b' bk" using rb wv ob tb by (simp add: mirrors_def b'_def seg_wf_def data_start_def seg_end_def SEGMENT_SIZE_def HEADERS_SIZE_def)
    have s': "segs l' seg = s0" using freeze_segs [OF fz, of seg] r D(2,5) bo(4) by simp
    have "pm_bytes (lpool l') a = m0 a" if "data_start s0 \<le> a" "a < seg_tail s0" for a
      using st(2) D(5) D(6) [OF that] that by (simp add: still_def)
    then have B': "batching ix iinv ikey_ok W seg s0 m0 p b'"
      using mi R(2,3) se s' unfolding batching_def by (auto simp: b'_def)
    have "HasSpaceFor (vs_seg (bt_vs b')) sz" using settle_reserved(6) [OF mi] R(5) [OF rb] sl by simp
    moreover have "settle ix b' = (settle ix b)\<lparr>db_log := settle_log b'\<rparr>" using se sl by (simp add: b'_def)
    moreover have "kv_size (pm_bytes (lpool (bt_log b'))) p = sz"
      using entry_fields_frame [OF D(3) E(2), of "pm_bytes (lpool l')"] st(2) H(1) by (simp add: b'_def sz_def still_def)
    ultimately show thesis using that [of b'] False ff R(1) sl B' by (simp add: b'_def)
  qed
qed

lemma update_items_append:
  "update_items ix m (xs @ ys) idx =
     (let (idx1, g1) = update_items ix m xs idx; (idx2, g2) = update_items ix m ys idx1 in (idx2, g1 @ g2))"
  by (induction xs arbitrary: idx) (simp_all add: split_beta Let_def)

lemma update_items_cong:
  "(\<And>it. it \<in> set items \<Longrightarrow> mem_read m' (fst (vi_key it)) (snd (vi_key it)) = mem_read m (fst (vi_key it)) (snd (vi_key it))) \<Longrightarrow>
   update_items ix m' items idx = update_items ix m items idx"
  by (induction items arbitrary: idx) (simp_all add: split_beta Let_def)

lemma mem_write_append: "mem_write (mem_write m p xs) (p + length xs) ys = mem_write m p (xs @ ys)"
  by (auto simp: mem_write_def fun_eq_iff nth_append)


text \<open>Putting an entry into the buffer adds to the settled log what appending it there would add.\<close>

lemma buffer_item_settled:
  assumes m: "mirrors b r" and room: "HasSpaceFor (vs_seg (bt_vs b)) (kv_size (pm_bytes (lpool (bt_log b))) p)"
    and same: "mem_read (pm_bytes (lpool (settle_log b))) p (kv_size (pm_bytes (lpool (bt_log b))) p) = mem_read (pm_bytes (lpool (bt_log b))) p (kv_size (pm_bytes (lpool (bt_log b))) p)"
      "kv_size (pm_bytes (lpool (settle_log b))) p = kv_size (pm_bytes (lpool (bt_log b))) p"
    and live: "\<not> kv_is_garbage (pm_bytes (lpool (settle_log b))) p"
    and slices: "\<And>it. it \<in> set (bt_items b) \<Longrightarrow> fst (vi_key it) + snd (vi_key it) \<le> seg_tail (vs_seg (bt_vs b))"
  defines "v \<equiv> seg_tail (segs (settle_log b) r)"
  obtains b' where "buffer_item p b = Inr b'" "gc_append p (bt_cl b) (settle_log b) = Inr (v, settle_log b')" "mirrors b' r" "bt_cl b' = bt_cl b"
    "bt_db b' = bt_db b" "updated ix b' = (let (old, idx) = ix_gc ix (index_key (kv_GetKey (pm_bytes (lpool (settle_log b))) p)) p v (fst (updated ix b))
      in (idx, snd (updated ix b) @ (if old = v then [tp_GetAddr v + 2 ^ 48 * (kv_size (pm_bytes (lpool (bt_log b))) p mod 2 ^ 16)] else [])))"
    "\<forall>it \<in> set (bt_items b'). fst (vi_key it) + snd (vi_key it) \<le> seg_tail (vs_seg (bt_vs b'))"
proof -
  let ?l = "bt_log b" and ?v = "bt_vs b" and ?s' = "segs (settle_log b) r"
  let ?s = "segs ?l r" and ?m = "pm_bytes (lpool ?l)" and ?m' = "pm_bytes (lpool (settle_log b))"
  define sz where "sz = kv_size ?m p"
  define cur where "cur = seg_tail (vs_seg ?v)"
  define vs' where "vs' = (vs_seg ?v)\<lparr>seg_tail := cur + sz, cur_cnt := cur_cnt (vs_seg ?v) + 1\<rparr>"
  define vm where "vm = mem_write (vs_mem ?v) cur (mem_read ?m p sz)"
  define it where "it = \<lparr>vi_key = (cur + sizeof_KVItem, kv_key_size vm cur), vi_old = p, vi_new = v, vi_size = sz\<rparr>"
  define b' where "b' = b\<lparr>bt_vs := \<lparr>vs_seg = vs', vs_mem = vm\<rparr>, bt_items := bt_items b @ [it]\<rparr>"
  have r: "reserved_segment (bt_cl b) = Some r" and w: "seg_wf (vs_seg ?v)" "seg_wf ?s" and le: "get_offset ?s \<le> get_offset (vs_seg ?v)"
    using m by (simp_all add: mirrors_def)
  note o = seg_wf_offset [OF w(1)] seg_wf_offset [OF w(2)]
  have al: "AllocOne sz (vs_seg ?v) = (Some cur, vs')" using room by (simp add: AllocOne_def HasSpaceFor_def sz_def cur_def vs'_def)
  have v: "v = data_start ?s + get_offset (vs_seg ?v)" using settle_reserved(4) [OF m] by (simp add: v_def)
  have ds: "data_start vs' = data_start (vs_seg ?v)" by (simp add: vs'_def data_start_def)
  have na: "data_start ?s + (cur - data_start vs') = v" using o(1) by (simp add: v ds cur_def)
  have bi: "buffer_item p b = Inr b'"
    unfolding buffer_item_def Let_def sz_def [symmetric] al r prod.case option.case na by (simp add: vm_def it_def b'_def tagged_pointer_def)
  have img: "mem_read ?m p sz = kv_image (kv_GetKey ?m' p) (kv_GetValue ?m' p) (kv_epoch ?m' p)"
    using mem_read_image [OF live] same by (simp add: sz_def)
  have rd: "mem_read vm cur sz = mem_read ?m p sz" using mem_read_write_same [of "vs_mem ?v" cur "mem_read ?m p sz"] by (simp add: vm_def)
  have key: "kv_key_size vm cur = kv_key_size ?m' p" "kv_GetKey vm cur = kv_GetKey ?m' p"
    using kv_copy_key [OF live, of vm cur] rd same by (simp_all add: sz_def)
  have off: "get_offset vs' = get_offset (vs_seg ?v) + sz" using o(1) by (simp add: get_offset_def ds) (simp add: vs'_def cur_def)
  have wf': "seg_wf vs'" using w(1) room by (auto simp: seg_wf_def vs'_def data_start_def seg_end_def HasSpaceFor_def cur_def sz_def)
  have mi: "mirrors b' r" using r w(2) wf' off le by (simp add: mirrors_def b'_def)
  define n where "n = get_offset (vs_seg ?v) - get_offset ?s"
  have ap: "data_start (vs_seg ?v) + get_offset ?s + n = cur" using o(1) le by (simp add: n_def cur_def)
  have nn: "get_offset vs' - get_offset ?s = n + sz" using off le by (simp add: n_def)
  have "mem_read vm (data_start (vs_seg ?v) + get_offset ?s) n = mem_read (vs_mem ?v) (data_start (vs_seg ?v) + get_offset ?s) n"
    unfolding vm_def by (rule mem_read_write_disjoint) (use ap in simp)
  then have pend: "mem_read vm (data_start vs' + get_offset ?s) (n + sz) =
      mem_read (vs_mem ?v) (data_start (vs_seg ?v) + get_offset ?s) n @ mem_read ?m p sz"
    unfolding mem_read_append ds ap rd by simp
  have vt: "v = seg_tail ?s + n" using v o(4) le by (simp add: n_def)
  have sl: "settle_log b = ?l\<lparr>segs := (segs ?l)(r := ?s\<lparr>seg_tail := seg_tail ?s + n, cur_cnt := cur_cnt ?s + cur_cnt (vs_seg ?v)\<rparr>),
      lpool := (lpool ?l)\<lparr>pm_bytes := mem_write ?m (seg_tail ?s) (mem_read (vs_mem ?v) (data_start (vs_seg ?v) + get_offset ?s) n)\<rparr>\<rparr>"
    by (simp add: settle_log_def r Let_def n_def)
  have hs: "HasSpaceFor ?s' (kv_size ?m' p)" using settle_reserved(6) [OF m] room same(2) by simp
  have mw: "mem_write ?m' v (mem_read ?m p sz) =
      mem_write ?m (seg_tail ?s) (mem_read (vs_mem ?v) (data_start (vs_seg ?v) + get_offset ?s) n @ mem_read ?m p sz)"
    using mem_write_append [of ?m "seg_tail ?s" "mem_read (vs_mem ?v) (data_start (vs_seg ?v) + get_offset ?s) n"] by (simp add: sl vt)
  have f: "bt_cl b' = bt_cl b" "bt_db b' = bt_db b" "bt_vs b' = \<lparr>vs_seg = vs', vs_mem = vm\<rparr>" by (simp_all add: b'_def)
  have sl': "settle_log b' = ?l\<lparr>segs := (segs ?l)(r := ?s\<lparr>seg_tail := seg_tail ?s + (n + sz), cur_cnt := cur_cnt ?s + cur_cnt vs'\<rparr>),
      lpool := (lpool ?l)\<lparr>pm_bytes := mem_write ?m (seg_tail ?s) (mem_read (vs_mem ?v) (data_start (vs_seg ?v) + get_offset ?s) n @ mem_read ?m p sz)\<rparr>\<rparr>"
    unfolding settle_log_def f r option.case Let_def virtual_segment.simps nn pend ..
  have "settle_log b' = (settle_log b)\<lparr>segs := (segs (settle_log b))(r := ?s'\<lparr>seg_tail := v + kv_size ?m' p, cur_cnt := cur_cnt ?s' + 1\<rparr>),
      lpool := (lpool (settle_log b))\<lparr>pm_bytes := mem_write ?m' v (kv_image (kv_GetKey ?m' p) (kv_GetValue ?m' p) (kv_epoch ?m' p))\<rparr>\<rparr>"
    unfolding img [symmetric] mw same(2) sz_def [symmetric]
    unfolding sl' by (simp add: sl vt vs'_def add.assoc)
  then have ga: "gc_append p (bt_cl b) (settle_log b) = Inr (v, settle_log b')"
    using gc_append_explicit [OF r hs] by (simp add: v_def)
  have old: "update_items ix vm (bt_items b) (db_index (bt_db b)) = updated ix b"
    by (rule update_items_cong) (use slices in \<open>simp add: vm_def mem_read_write_disjoint cur_def\<close>)
  have "mem_read vm (cur + sizeof_KVItem) (kv_key_size vm cur) = kv_GetKey ?m' p" using key(2) by (simp add: kv_GetKey_def)
  then have up: "updated ix b' = (let (old, idx) = ix_gc ix (index_key (kv_GetKey ?m' p)) p v (fst (updated ix b))
      in (idx, snd (updated ix b) @ (if old = v then [tp_GetAddr v + 2 ^ 48 * (sz mod 2 ^ 16)] else [])))"
    by (simp add: b'_def update_items_append old split_beta Let_def it_def)
  show thesis
    by (rule that [OF bi ga mi _ _ up [unfolded sz_def]]) (use slices key(1) same(2) in \<open>auto simp: b'_def it_def vs'_def cur_def sz_def kv_size_def intro: trans_le_add1\<close>)
qed


context flat_index
begin

lemma buffer_item_sim:
  assumes B: "batching ix iinv ikey_ok W seg s0 m0 p b" and p: "p < seg_tail s0" "kv_size (pm_bytes (lpool (bt_log b))) p \<noteq> sizeof_KVItem"
    and room: "HasSpaceFor (vs_seg (bt_vs b)) (kv_size (pm_bytes (lpool (bt_log b))) p)"
    and unmarked: "\<not> kv_is_garbage m0 p" and live: "\<not> IsGarbage ix p (settle ix b)"
  obtains b' v l where "buffer_item p b = Inr b'" "gc_append p (bt_cl b) (settle_log b) = Inr (v, l)"
    "gc_move ix p v (bt_cl b) ((settle ix b)\<lparr>db_log := l\<rparr>) = Inr (bt_cl b', settle ix b')"
    "batching ix iinv ikey_ok W seg s0 m0 (p + kv_size (pm_bytes (lpool (bt_log b))) p) b'"
proof -
  let ?m' = "pm_bytes (lpool (settle_log b))" and ?sz = "kv_size (pm_bytes (lpool (bt_log b))) p"
  obtain r where r: "reserved_segment (bt_cl b) = Some r" using B by (auto simp: batching_def mirrors_def)
  note D = batchingD [OF B r] and H = batching_header [OF B p(1)] and E = batching_entry [OF B p]
  have gi: "gc_inv ix iinv ikey_ok W (bt_cl b) (settle ix b)" and c: "compacting ix ikey_ok W seg p p (bt_cl b) (settle ix b)"
    and g: "snd (updated ix b) = []" and sl: "\<And>it. it \<in> set (bt_items b) \<Longrightarrow> fst (vi_key it) + snd (vi_key it) \<le> seg_tail (vs_seg (bt_vs b))"
    and agree: "\<And>k a. ikey_ok k \<Longrightarrow> p \<le> a \<Longrightarrow> a < seg_tail s0 \<Longrightarrow>
      (tp_GetAddr (ix_get ix k (fst (updated ix b))) = a) = (tp_GetAddr (ix_get ix k (db_index (bt_db b))) = a)"
    using B by (auto simp: batching_def)
  define v where "v = seg_tail (segs (settle_log b) r)"
  define k0 where "k0 = index_key (kv_GetKey ?m' p)"
  have un: "\<not> kv_is_garbage ?m' p" using unmarked H(3) by simp
  obtain b' where b': "buffer_item p b = Inr b'" "gc_append p (bt_cl b) (settle_log b) = Inr (v, settle_log b')" "mirrors b' r"
      "bt_cl b' = bt_cl b" "bt_db b' = bt_db b" "updated ix b' = (let (old, idx) = ix_gc ix k0 p v (fst (updated ix b))
        in (idx, snd (updated ix b) @ (if old = v then [tp_GetAddr v + 2 ^ 48 * (?sz mod 2 ^ 16)] else [])))"
      "\<forall>it \<in> set (bt_items b'). fst (vi_key it) + snd (vi_key it) \<le> seg_tail (vs_seg (bt_vs b'))"
    by (rule buffer_item_settled [where ix = ix, OF D(1) room E(3) H(1) un sl, folded v_def k0_def])
  note q = E(4,5)
  let ?db1 = "(settle ix b)\<lparr>db_log := settle_log b'\<rparr>"
  have rm: "HasSpaceFor (segs (db_log (settle ix b)) r') (kv_size (pm_bytes (lpool (db_log (settle ix b)))) p)"
    if "reserved_segment (bt_cl b) = Some r'" for r'
    using that r settle_reserved(6) [OF D(1)] room H(1) by simp
  from gc_append_ok [OF gi c q rm live] b'(2) have
    A: "gc_inv ix iinv ikey_ok W (bt_cl b) ?db1" "compacting ix ikey_ok W seg p (p + kv_size (pm_bytes (lpool (db_log ?db1))) p) (bt_cl b) ?db1"
      "copied ix seg p v (bt_cl b) ?db1" "gc_keeps {v} seg W (bt_cl b) (settle_log b) (bt_cl b) (settle_log b')"
      "kv_size (pm_bytes (lpool (settle_log b'))) p = kv_size ?m' p" by auto
  have "still seg (settle_log b) (settle_log b')" using A(4) c by (auto simp: gc_keeps_def log_step_def compacting_def)
  then have kk: "kv_GetKey (pm_bytes (lpool (settle_log b'))) p = kv_GetKey ?m' p" and s1: "seg_tail (segs (settle_log b') seg) = seg_tail s0"
      "data_start (segs (settle_log b') seg) = data_start s0"
    using entry_fields_frame [OF D(3) E(2), of "pm_bytes (lpool (settle_log b'))"] D(5) by (auto simp: still_def data_start_def)
  have gp: "tp_GetAddr (ix_get ix k0 (fst (updated ix b))) = p" using live by (simp add: IsGarbage_def k0_def)
  have k0': "index_key (kv_GetKey (pm_bytes (lpool (db_log ?db1))) p) = k0" using kk by (simp add: k0_def)
  have gp': "tp_GetAddr (ix_get ix k0 (db_index ?db1)) = p" using gp by simp
  note M = gc_move_live [OF A(1-3), unfolded k0', OF gp']
  have u: "updated ix b' = (snd (ix_gc ix k0 p v (fst (updated ix b))), [])" using b'(6) M(2) g by (simp add: split_beta)
  have mv: "gc_move ix p v (bt_cl b) ?db1 = Inr (bt_cl b', settle ix b')" using M(1) b'(4,5) u by (simp add: settle_def)
  from gc_move_ok [OF A(1,3,2)] mv b'(4) have G: "gc_inv ix iinv ikey_ok W (bt_cl b') (settle ix b')"
      "compacting ix ikey_ok W seg (p + ?sz) (p + ?sz) (bt_cl b') (settle ix b')"
    using A(5) H(1) by auto
  obtain k1 where k1: "ikey_ok k1" "k0 = k1"
    using entry_key [OF gi c q] by (metis k0_def settle_simps(1))
  have gpi: "tp_GetAddr (ix_get ix k0 (db_index (bt_db b))) = p" using agree [of k0 p] k1 gp p(1) by simp
  have "(tp_GetAddr (ix_get ix k (fst (updated ix b'))) = a) = (tp_GetAddr (ix_get ix k (db_index (bt_db b'))) = a)"
    if "ikey_ok k" "p + ?sz \<le> a" "a < seg_tail s0" for k a
  proof (cases "k = k0")
    case True
    have "p < a" using that(2) kv_size_pos [of "pm_bytes (lpool (bt_log b))" p] by linarith
    then show ?thesis using True M(3) [OF that(1)] M(4,5) u gpi b'(5) that(3) H(4) s1 by auto
  next
    case False
    then show ?thesis using M(3) [OF that(1)] u agree [of k a] that b'(5) by simp
  qed
  then have "batching ix iinv ikey_ok W seg s0 m0 (p + ?sz) b'"
    using B G b'(3,7) u unfolding batching_def b'(5) by auto
  then show thesis using that b'(1,2) mv by blast
qed

lemma copy_entry_sim:
  assumes B: "batching ix iinv ikey_ok W seg s0 m0 p b" and p: "p < seg_tail s0" "kv_size (pm_bytes (lpool (bt_log b))) p \<noteq> sizeof_KVItem"
    and unmarked: "\<forall>a \<in> set (entries m0 (data_start s0) (seg_tail s0)). \<not> kv_is_garbage m0 a"
  obtains b' where "copy_entry ix now p b = Inr b'" "compact_entry ix now p (bt_cl b) (settle ix b) = Inr (bt_cl b', settle ix b')"
    "batching ix iinv ikey_ok W seg s0 m0 (p + kv_size (pm_bytes (lpool (bt_log b))) p) b'"
proof -
  let ?sz = "kv_size (pm_bytes (lpool (bt_log b))) p"
  obtain r where r: "reserved_segment (bt_cl b) = Some r" using B by (auto simp: batching_def mirrors_def)
  note H = batching_header [OF B p(1)] and E = batching_entry [OF B p]
  have um: "\<not> kv_is_garbage m0 p" using unmarked E(2) batchingD(7) [OF B r] by simp
  obtain b1 where R: "(if HasSpaceFor (vs_seg (bt_vs b)) ?sz then Inr b else flush_and_freeze ix now b) = Inr b1"
      "reserve_space now ?sz (bt_cl b) (settle_log b) = Inr (bt_cl b1, settle_log b1)" "settle ix b1 = (settle ix b)\<lparr>db_log := settle_log b1\<rparr>"
      "batching ix iinv ikey_ok W seg s0 m0 p b1" "HasSpaceFor (vs_seg (bt_vs b1)) ?sz" "kv_size (pm_bytes (lpool (bt_log b1))) p = ?sz"
    by (rule batch_reserve [OF B p])
  have p1: "kv_size (pm_bytes (lpool (bt_log b1))) p \<noteq> sizeof_KVItem" using R(6) p(2) by simp
  note H1 = batching_header [OF R(4) p(1)] and E1 = batching_entry [OF R(4) p(1) p1]
  have gi: "gc_inv ix iinv ikey_ok W (bt_cl b1) (settle ix b1)" and c: "compacting ix ikey_ok W seg p p (bt_cl b1) (settle ix b1)"
    and agree: "\<And>k. ikey_ok k \<Longrightarrow> (tp_GetAddr (ix_get ix k (fst (updated ix b1))) = p) = (tp_GetAddr (ix_get ix k (db_index (bt_db b1))) = p)"
    using R(4) p(1) by (auto simp: batching_def)
  note q = E1(4,5)
  obtain k where k: "ikey_ok k" "index_key (kv_GetKey (pm_bytes (lpool (settle_log b1))) p) = k"
    using entry_key [OF gi c q] by (metis settle_simps(1))
  have same: "IsGarbage ix p (bt_db b1) = IsGarbage ix p (settle ix b1)" using agree [OF k(1)] k(2) E1(1) by (simp add: IsGarbage_def)
  show thesis
  proof (cases "IsGarbage ix p (settle ix b1)")
    case True
    have "compacting ix ikey_ok W seg (p + ?sz) (p + ?sz) (bt_cl b1) (settle ix b1)"
      using skip_garbage [OF gi c q True] H1(1) R(6) by simp
    then have "batching ix iinv ikey_ok W seg s0 m0 (p + ?sz) b1" using R(4) unfolding batching_def by auto
    moreover have "copy_entry ix now p b = Inr b1" unfolding copy_entry_def R(1) using True same by simp
    moreover have "compact_entry ix now p (bt_cl b) (settle ix b) = Inr (bt_cl b1, settle ix b1)"
      using True R(2,3) H(1) by (simp add: compact_entry_def)
    ultimately show thesis using that by blast
  next
    case False
    have rm: "HasSpaceFor (vs_seg (bt_vs b1)) (kv_size (pm_bytes (lpool (bt_log b1))) p)" using R(5,6) by simp
    from buffer_item_sim [OF R(4) p(1) p1 rm um False] obtain b' v l where
      b': "buffer_item p b1 = Inr b'" "gc_append p (bt_cl b1) (settle_log b1) = Inr (v, l)"
        "gc_move ix p v (bt_cl b1) ((settle ix b1)\<lparr>db_log := l\<rparr>) = Inr (bt_cl b', settle ix b')"
        "batching ix iinv ikey_ok W seg s0 m0 (p + ?sz) b'" using R(6) by metis
    have "copy_entry ix now p b = Inr b'" unfolding copy_entry_def R(1) using False same b'(1) by simp
    moreover have "compact_entry ix now p (bt_cl b) (settle ix b) = Inr (bt_cl b', settle ix b')"
      using False R(2,3) H(1) b'(2,3) by (simp add: compact_entry_def)
    ultimately show thesis using that b'(4) by blast
  qed
qed

lemma copy_loop_sim:
  assumes "batching ix iinv ikey_ok W seg s0 m0 p b"
    and "\<forall>a \<in> set (entries m0 (data_start s0) (seg_tail s0)). \<not> kv_is_garbage m0 a"
  shows "\<exists>b' q. CopyValidItemToBuffer ix now p (seg_tail s0) b = Inr b' \<and>
    compact_loop ix now p (seg_tail s0) (bt_cl b) (settle ix b) = Inr (bt_cl b', settle ix b') \<and> batching ix iinv ikey_ok W seg s0 m0 q b'"
  using assms
proof (induction "seg_tail s0 - p" arbitrary: p b rule: less_induct)
  case less
  let ?sz = "kv_size (pm_bytes (lpool (bt_log b))) p"
  show ?case
  proof (cases "p < seg_tail s0 \<and> ?sz \<noteq> sizeof_KVItem")
    case True
    obtain b1 where b1: "copy_entry ix now p b = Inr b1" "compact_entry ix now p (bt_cl b) (settle ix b) = Inr (bt_cl b1, settle ix b1)"
      "batching ix iinv ikey_ok W seg s0 m0 (p + ?sz) b1"
      using copy_entry_sim [OF less.prems(1) _ _ less.prems(2)] True by metis
    have sz: "kv_size (pm_bytes (lpool (settle_log b))) p = ?sz" using batching_header(1) [OF less.prems(1)] True by simp
    have "seg_tail s0 - (p + ?sz) < seg_tail s0 - p" using True kv_size_pos [of "pm_bytes (lpool (bt_log b))" p] by (intro diff_less_mono2) auto
    from less.hyps [OF this b1(3) less.prems(2)] show ?thesis
      using b1(1,2) True sz by (subst CopyValidItemToBuffer.simps, subst compact_loop.simps) simp
  next
    case False
    have "\<not> (p < seg_tail s0 \<and> kv_size (pm_bytes (lpool (settle_log b))) p \<noteq> sizeof_KVItem)"
      using False batching_header(1) [OF less.prems(1)] by auto
    then have "compact_loop ix now p (seg_tail s0) (bt_cl b) (settle ix b) = Inr (bt_cl b, settle ix b)"
      by (subst compact_loop.simps) auto
    moreover have "CopyValidItemToBuffer ix now p (seg_tail s0) b = Inr b"
      using False by (subst CopyValidItemToBuffer.simps) auto
    ultimately show ?thesis using less.prems(1) by blast
  qed
qed

end


section \<open>A whole segment\<close>

text \<open>Between compactions the buffer mirrors the reserved segment and no item waits.\<close>

definition in_step :: "'i batch \<Rightarrow> bool" where
  "in_step b \<longleftrightarrow> bt_items b = [] \<and> (\<exists>r. mirrors b r \<and> get_offset (vs_seg (bt_vs b)) = get_offset (segs (bt_log b) r))"

definition counted :: "'i batch \<Rightarrow> 'i db" where
  "counted b = (bt_db b)\<lparr>db_log := count_entries (bt_vs b) (bt_cl b) (bt_log b)\<rparr>"

text \<open>No entry of the segment has its garbage bit set, as in a build without tombstones.\<close>

definition unmarked :: "nat \<Rightarrow> log \<Rightarrow> bool" where
  "unmarked seg l \<longleftrightarrow> list_all (\<lambda>a. \<not> kv_is_garbage (pm_bytes (lpool l)) a) (seg_entries l seg)"

lemma count_entries_quiet:
  "quiet l (count_entries v cl l)" "free_segments (count_entries v cl l) = free_segments l"
  "num_free_segments (count_entries v cl l) = num_free_segments l" "lpool (count_entries v cl l) = lpool l"
  by (simp_all add: count_entries_def quiet_def split: option.split)

lemma drop_garbage_quiet:
  "quiet l (drop_garbage c g l)" "free_segments (drop_garbage c g l) = free_segments l"
  "num_free_segments (drop_garbage c g l) = num_free_segments l" "lpool (drop_garbage c g l) = lpool l"
  by (simp_all add: drop_garbage_def quiet_def)

lemma counted_contents: "db_contents ix (counted b) = db_contents ix (bt_db b)"
  by (simp add: fun_eq_iff db_contents_def counted_def count_entries_quiet Let_def)

lemma finish_compaction_commutes:
  assumes "reserved_segment cl = Some r" and "r \<noteq> seg"
  shows "finish_compaction seg cl (count_entries v cl l) =
      (fst (finish_compaction seg cl l), count_entries v (fst (finish_compaction seg cl l)) (snd (finish_compaction seg cl l)))"
    and "finish_compaction seg cl (drop_garbage c g l) = (fst (finish_compaction seg cl l), drop_garbage c g (snd (finish_compaction seg cl l)))"
  using assms by (simp_all add: finish_compaction_def count_entries_def drop_garbage_def on_seg_def seg_Clear_def push_free_def Let_def fun_upd_twist
      data_start_def set_header_def)

lemma finish_compaction_frame:
  assumes "finish_compaction seg cl l = (cl', l')"
  shows "reserved_segment cl' = reserved_segment cl" "cleaner_id cl' = cleaner_id cl" "i \<noteq> seg \<Longrightarrow> segs l' i = segs l i"
  using assms by (auto simp: finish_compaction_def on_seg_def push_free_def Let_def split: if_splits prod.splits)

lemma count_drop: "count_entries v cl (drop_garbage c g l) = drop_garbage c g (count_entries v cl l)"
  by (simp add: count_entries_def drop_garbage_def split: option.split)

lemma batching_start:
  assumes inv: "gc_inv ix iinv ikey_ok W (bt_cl b) (bt_db b)" and seg: "closed_for W (bt_cl b) (bt_log b) seg"
    and room: "has_room (bt_cl b) (bt_log b)" and st: "in_step b"
  shows "settle ix b = counted b" "gc_inv ix iinv ikey_ok W (bt_cl b) (counted b)" "closed_for W (bt_cl b) (db_log (counted b)) seg"
    "has_room (bt_cl b) (db_log (counted b))"
    and "batching ix iinv ikey_ok W seg (segs (bt_log b) seg) (pm_bytes (lpool (bt_log b))) (data_start (segs (bt_log b) seg)) b"
proof -
  obtain r where r: "mirrors b r" "get_offset (vs_seg (bt_vs b)) = get_offset (segs (bt_log b) r)" "bt_items b = []"
    using st by (auto simp: in_step_def)
  have rr: "reserved_segment (bt_cl b) = Some r" using r(1) by (simp add: mirrors_def)
  show se: "settle ix b = counted b" using settle_empty(1) [OF r(3,2) rr] by (simp add: counted_def)
  note q = count_entries_quiet [where l = "bt_log b" and v = "bt_vs b" and cl = "bt_cl b"]
  show gi: "gc_inv ix iinv ikey_ok W (bt_cl b) (counted b)" unfolding counted_def by (rule gc_inv_quiet(1) [OF inv refl refl q(1-3)])
  show cf: "closed_for W (bt_cl b) (db_log (counted b)) seg" using seg q(1,2) by (simp add: counted_def closed_for_def quiet_def)
  show hr: "has_room (bt_cl b) (db_log (counted b))" using room q(1) by (simp add: counted_def has_room_def quiet_def data_start_def)
  have sr: "seg \<noteq> r" using seg rr by (auto simp: closed_for_def gc_heads_def)
  then have "segs (db_log (counted b)) seg = segs (bt_log b) seg" by (simp add: counted_def count_entries_def rr)
  then have "compacting ix ikey_ok W seg (data_start (segs (bt_log b) seg)) (data_start (segs (bt_log b) seg)) (bt_cl b) (counted b)"
    using compaction_start [OF gi cf hr] by simp
  then show "batching ix iinv ikey_ok W seg (segs (bt_log b) seg) (pm_bytes (lpool (bt_log b))) (data_start (segs (bt_log b) seg)) b"
    using r gi se unfolding batching_def by auto
qed

context flat_index
begin

lemma BatchCompactSegment_sim:
  assumes inv: "gc_inv ix iinv ikey_ok W (bt_cl b) (bt_db b)" and seg: "closed_for W (bt_cl b) (bt_log b) seg"
    and room: "has_room (bt_cl b) (bt_log b)" and st: "in_step b" and un: "unmarked seg (bt_log b)"
  shows "\<exists>b' db'. BatchCompactSegment ix now seg b = Inr b' \<and> CompactSegment ix now seg (bt_cl b) (counted b) = Inr (bt_cl b', db') \<and>
    counted b' = db'\<lparr>db_log := drop_garbage (cleaner_id (bt_cl b')) (garbage_bytes (segs (bt_log b) seg)) (db_log db')\<rparr> \<and> in_step b'"
proof -
  let ?s = "segs (bt_log b) seg" and ?m = "pm_bytes (lpool (bt_log b))"
  note S = batching_start [OF inv seg room st]
  obtain r0 where r0: "reserved_segment (bt_cl b) = Some r0" "seg \<noteq> r0"
    using st seg by (auto simp: in_step_def mirrors_def closed_for_def gc_heads_def)
  have s: "segs (db_log (counted b)) seg = ?s" using r0 by (simp add: counted_def count_entries_def)
  have "\<forall>a \<in> set (entries ?m (data_start ?s) (seg_tail ?s)). \<not> kv_is_garbage ?m a"
    using un by (simp add: unmarked_def list_all_iff seg_entries_def)
  from copy_loop_sim [OF S(5) this, of now] obtain b1 q where
    L: "CopyValidItemToBuffer ix now (data_start ?s) (seg_tail ?s) b = Inr b1"
      "compact_loop ix now (data_start ?s) (seg_tail ?s) (bt_cl b) (counted b) = Inr (bt_cl b1, settle ix b1)"
      "batching ix iinv ikey_ok W seg ?s ?m q b1" unfolding S(1) by blast
  obtain r where r: "reserved_segment (bt_cl b1) = Some r" using L(3) by (auto simp: batching_def mirrors_def)
  note D = batchingD [OF L(3) r]
  have g: "snd (updated ix b1) = []" and s1: "segs (bt_log b1) seg = ?s" using L(3) by (simp_all add: batching_def)
  obtain l' where F: "BatchFlush b1 = Inr (set_log l' b1)"
    "BatchIndexUpdate ix (set_log l' b1) = Inr (b1\<lparr>bt_items := [], bt_db := (settle ix b1)\<lparr>db_log := l'\<rparr>\<rparr>)"
    "count_entries (bt_vs b1) (bt_cl b1) l' = settle_log b1" "get_offset (segs l' r) = get_offset (vs_seg (bt_vs b1))"
    "seg_wf (segs l' r)" "\<forall>i. i \<noteq> r \<longrightarrow> segs l' i = segs (bt_log b1) i"
    by (rule flush_update [OF D(1) g])
  obtain cl2 l2 where f: "finish_compaction seg (bt_cl b1) l' = (cl2, l2)" by fastforce
  note ff = finish_compaction_frame [OF f]
  have sl: "segs l' seg = ?s" using F(6) D(2) s1 by simp
  let ?g = "drop_garbage (cleaner_id cl2) (garbage_bytes ?s)"
  define b2 where "b2 = b1\<lparr>bt_cl := cl2, bt_items := [], bt_db := (settle ix b1)\<lparr>db_log := ?g l2\<rparr>\<rparr>"
  have "finish_compaction seg (bt_cl b1) (?g l') = (cl2, ?g l2)" using finish_compaction_commutes(2) [OF r D(2) [symmetric]] f by simp
  then have B: "BatchCompactSegment ix now seg b = Inr b2"
    using L(1) F(1,2) sl ff(2) by (simp add: BatchCompactSegment_def Let_def set_log_def b2_def)
  have "finish_compaction seg (bt_cl b1) (settle_log b1) = (cl2, count_entries (bt_vs b1) cl2 l2)"
    using finish_compaction_commutes(1) [OF r D(2) [symmetric], of "bt_vs b1" l'] f F(3) by simp
  then have "CompactSegment ix now seg (bt_cl b) (counted b) = Inr (bt_cl b2, (settle ix b1)\<lparr>db_log := count_entries (bt_vs b1) cl2 l2\<rparr>)"
    using L(2) s by (simp add: CompactSegment_def Let_def b2_def)
  moreover have "counted b2 = (settle ix b1)\<lparr>db_log := ?g (count_entries (bt_vs b1) cl2 l2)\<rparr>"
    by (simp add: counted_def b2_def count_drop)
  moreover have "segs l2 r = segs l' r" "reserved_segment cl2 = Some r" using ff(1,3) D(2) r by auto
  then have "in_step b2" using D(1) F(4,5) by (auto simp: in_step_def mirrors_def b2_def drop_garbage_def)
  ultimately show ?thesis using B by (intro exI [of _ b2]) (simp add: b2_def)
qed

text \<open>So it keeps what the other compaction keeps.\<close>

lemma BatchCompactSegment_ok:
  assumes inv: "gc_inv ix iinv ikey_ok W (bt_cl b) (bt_db b)" and seg: "closed_for W (bt_cl b) (bt_log b) seg"
    and room: "has_room (bt_cl b) (bt_log b)" and st: "in_step b"
    and sim: "CompactSegment ix now seg (bt_cl b) (counted b) = Inr (bt_cl b', db')"
      "counted b' = db'\<lparr>db_log := drop_garbage (cleaner_id (bt_cl b')) g (db_log db')\<rparr>"
  shows "gc_inv ix iinv ikey_ok W (bt_cl b') (bt_db b')" "has_room (bt_cl b') (bt_log b')"
    and "ikey_ok k \<Longrightarrow> db_contents ix (bt_db b') k = db_contents ix (bt_db b) k"
proof -
  note S = batching_start [OF inv seg room st]
  from CompactSegment_ok [OF S(2-4), of now] sim(1) have C: "gc_inv ix iinv ikey_ok W (bt_cl b') db'"
    "\<And>k. ikey_ok k \<Longrightarrow> db_contents ix db' k = db_contents ix (counted b) k" "has_room (bt_cl b') (db_log db')" by auto
  note q = drop_garbage_quiet [where l = "db_log db'" and c = "cleaner_id (bt_cl b')" and g = g]
  have gi: "gc_inv ix iinv ikey_ok W (bt_cl b') (counted b')" unfolding sim(2) by (rule gc_inv_quiet(1) [OF C(1) refl refl q(1-3)])
  note c = count_entries_quiet [where l = "bt_log b'" and v = "bt_vs b'" and cl = "bt_cl b'"]
  have bk: "quiet (db_log (counted b')) (bt_log b')" "free_segments (bt_log b') = free_segments (db_log (counted b'))"
      "num_free_segments (bt_log b') = num_free_segments (db_log (counted b'))" "(counted b')\<lparr>db_log := bt_log b'\<rparr> = bt_db b'"
    using c by (simp_all add: counted_def quiet_def)
  show "gc_inv ix iinv ikey_ok W (bt_cl b') (bt_db b')" using gc_inv_quiet(1) [OF gi refl refl bk(1-3)] unfolding bk(4) .
  have "has_room (bt_cl b') (db_log (counted b'))" using C(3) q(1) unfolding sim(2) by (simp add: has_room_def quiet_def data_start_def)
  then show "has_room (bt_cl b') (bt_log b')" using bk(1) by (simp add: has_room_def quiet_def data_start_def)
  show "ikey_ok k \<Longrightarrow> db_contents ix (bt_db b') k = db_contents ix (bt_db b) k"
    using C(2) gc_inv_quiet(2) [OF C(1) refl refl q(1-3), of k] counted_contents [of ix b'] counted_contents [of ix b] sim(2) by metis
qed

end

end
