(* ===== verification/Flat_Batch_Store.thy ===== *)
theory Flat_Batch_Store
  imports Flat_Batch_GC Flat_Store
begin

text \<open>
  The two compactions compared for FlatStore with the CCEH index.
\<close>

lemma gc_inv_mono:
  assumes "gc_inv ix iinv ikey_ok W cl db" and "W' \<subseteq> W"
  shows "gc_inv ix iinv ikey_ok W' cl db"
  using assms by (auto simp: gc_inv_def gc_own_def db_inv_def log_inv_def gc_heads_def)

text \<open>
  C16: compaction through the volatile buffer is equivalent to compaction entry by entry. For a store and a cleaner in
  their invariant, a closed segment whose entries have no garbage bit and a buffer in step with the reserved segment,
  both succeed and end in the same state of cleaner, log, index and pool, but for the count of entries kept
  in the buffer and the garbage bytes that only the batched version takes off its account;
  the buffer is in step again, the invariant holds, and no lookup changes.
\<close>

theorem batch_compaction_same:
  assumes "gc_inv (cceh_ops h) (cceh_inv h) key_valid W (bt_cl b) (bt_db b)" and "closed_for W (bt_cl b) (bt_log b) seg"
    and "has_room (bt_cl b) (bt_log b)" and "in_step b" and "unmarked seg (bt_log b)"
  shows "\<exists>b' db'. BatchCompactSegment (cceh_ops h) now seg b = Inr b' \<and>
    CompactSegment (cceh_ops h) now seg (bt_cl b) (counted b) = Inr (bt_cl b', db') \<and>
    counted b' = db'\<lparr>db_log := drop_garbage (cleaner_id (bt_cl b')) (garbage_bytes (segs (bt_log b) seg)) (db_log db')\<rparr> \<and>
    in_step b' \<and> gc_inv (cceh_ops h) (cceh_inv h) key_valid W (bt_cl b') (bt_db b') \<and> has_room (bt_cl b') (bt_log b') \<and>
    (\<forall>k. key_valid k \<longrightarrow> db_contents (cceh_ops h) (bt_db b') k = db_contents (cceh_ops h) (bt_db b) k)"
proof -
  note F = cceh.flat_index_axioms [of h]
  from flat_index.BatchCompactSegment_sim [OF F assms, of now] obtain b' db' where
    s: "BatchCompactSegment (cceh_ops h) now seg b = Inr b'" "CompactSegment (cceh_ops h) now seg (bt_cl b) (counted b) = Inr (bt_cl b', db')"
      "counted b' = db'\<lparr>db_log := drop_garbage (cleaner_id (bt_cl b')) (garbage_bytes (segs (bt_log b) seg)) (db_log db')\<rparr>" "in_step b'" by blast
  from flat_index.BatchCompactSegment_ok [OF F assms(1-4) s(2,3)] s show ?thesis by blast
qed

section \<open>An example\<close>

lemma make_kv_loop_unmarked:
  assumes "length key < 2 ^ 15" "length val < 2 ^ 16" and "make_kv_loop now key val epoch head tmp l = Inr (v, head', tmp', l')"
  shows "\<not> kv_is_garbage (pm_bytes (lpool l')) v"
  using assms
proof (induction now key val epoch head tmp l rule: make_kv_loop.induct)
  case (1 now key val epoch head tmp l)
  show ?case
  proof (cases "try_append key val epoch head l")
    case (Some p)
    have res: "v = fst p" "l' = snd p" using "1.prems"(3) Some by (subst (asm) make_kv_loop.simps; simp add: split_beta)+
    let ?img = "kv_image key val epoch"
    obtain i where i: "head = Some i" "fst p = seg_tail (segs l i)" "pm_bytes (lpool (snd p)) = mem_write (pm_bytes (lpool l)) (seg_tail (segs l i)) ?img"
      using Some by (auto simp: try_append_def seg_Append_def Let_def tagged_pointer_def split: option.splits if_splits)
    show ?thesis using kv_image_read(6) [OF "1.prems"(1,2) kv_image_write_read [OF "1.prems"(1,2)]] by (simp add: res i)
  next
    case None
    obtain tmp1 l1 where fz: "worker_Freeze now head tmp l = (tmp1, l1)" by (cases "worker_Freeze now head tmp l")
    obtain a l2 where ns: "NewSegment True l1 = (a, l2)" by (cases "NewSegment True l1")
    have "a \<noteq> Waiting \<and> a \<noteq> No_cleaners" using "1.prems"(3) None fz ns by (subst (asm) make_kv_loop.simps) auto
    then obtain i where i: "a = Got i" by (cases a) auto
    have "make_kv_loop now key val epoch (Some i) tmp1 l2 = Inr (v, head', tmp', l')"
      using "1.prems"(3) None fz ns i by (subst (asm) make_kv_loop.simps) simp
    then show ?thesis by (rule "1.IH" [OF None fz [symmetric] ns [symmetric] i "1.prems"(1,2)])
  qed
qed

lemma first_put_unmarked:
  assumes inv: "log_inv H (db_log db)" and head: "set_option (log_head w) \<subseteq> H" and arg: "kv_arg_ok key val"
    and put: "worker_Put ix now key val w db = Inr (w', db')"
    and none: "\<And>i. i < num_segments (db_log db) \<Longrightarrow> seg_entries (db_log db) i = []" and i: "i < num_segments (db_log db)"
  shows "unmarked i (db_log db')"
proof -
  obtain v w1 db1 where mk: "MakeKVItem now key val w db = Inr (v, w1, db1)"
    using put by (auto simp: worker_Put_def split: sum.splits prod.splits)
  obtain epoch head' tmp' l' where loop: "make_kv_loop now key val epoch (log_head w) (tmp_garbage w) (db_log db)
        = Inr (v, head', tmp', l')" and d1: "db_log db1 = l'"
    using mk GetKeyEpoch_frame [of "index_key key" db]
    by (auto simp: MakeKVItem_def Let_def split_beta split: sum.splits simp del: GetKeyEpoch_frame)
  have len: "length key < 2 ^ 15" "length val < 2 ^ 16" "key \<noteq> []" using arg by (auto simp: kv_arg_ok_def)
  have "log_step {v} {} (db_log db) l'" using make_kv_loop_step [OF inv head len loop, of "{}"] by simp
  then have "set (seg_entries l' i) \<subseteq> {v}" using none [OF i] i unfolding log_step_def by fastforce
  moreover have "\<not> kv_is_garbage (pm_bytes (lpool l')) v" by (rule make_kv_loop_unmarked [OF len(1,2) loop])
  moreover have u: "UpdateIndex ix key v w1 db1 = Inr (w', db')" using put mk by (simp add: worker_Put_def)
  have "quiet l' (db_log db')"
    using u d1 worker_MarkGarbage_quiet [of _ w1 _ w' db'] by (fastforce simp: UpdateIndex_def Let_def split_beta split: if_splits)
  ultimately show ?thesis using quiet_segs(2) [of l' "db_log db'" i] by (auto simp: unmarked_def list_all_iff quiet_def)
qed

definition demo_batch :: "cleaner \<Rightarrow> 'i db \<Rightarrow> 'i batch" where
  "demo_batch cl db = \<lparr>bt_cl = cl, bt_vs = VirtualSegment_new 0 (\<lambda>_. 0), bt_items = [], bt_db = db\<rparr>"

text \<open>One record written to a new store of eight segments; its segment is then compacted.\<close>

lemma demo_put:
  obtains db i where "gc_inv (cceh_ops key_hash) (cceh_inv key_hash) key_valid {} (cleaner_new 0 1 7) db"
    "closed_for {} (cleaner_new 0 1 7) (db_log db) i" "has_room (cleaner_new 0 1 7) (db_log db)" "unmarked i (db_log db)"
    "db_contents (cceh_ops key_hash) db 1 = Some [10]"
proof -
  let ?ix = "cceh_ops key_hash" and ?db0 = "flatstore_new SEGMENT_SIZE (8 * SEGMENT_SIZE) demo_pool"
  let ?key = "[1, 0, 0, 0, 0, 0, 0, 0] :: byte list" and ?l0 = "log_new 1 1 SEGMENT_SIZE (8 * SEGMENT_SIZE) demo_pool"
  define s0 where "s0 = flatstore_gc_start 2 SEGMENT_SIZE (8 * SEGMENT_SIZE) demo_pool"
  have n: "8 * SEGMENT_SIZE div SEGMENT_SIZE = 8" by (simp add: SEGMENT_SIZE_def)
  note o = flatstore_open_ok [OF demo_size, where T = 2 and pm = demo_pool] and f = fs_open_fields [of 2 ?db0]
  have key: "index_key ?key = 1" by (simp add: index_key_def)
  have arg: "kv_arg_ok ?key [10]" "key_valid (index_key ?key)"
    by (simp_all add: kv_arg_ok_def key key_valid_def INVALID_KEY_def SENTINEL_def)
  have wok: "\<forall>(t, k, v) \<in> set [(0::nat, ?key, [10])]. fs_key_ok key_valid k \<and> fs_value_ok v"
    using arg(2) by (simp add: fs_key_ok_def fs_value_ok_def)
  have m: "min 32 (8 * SEGMENT_SIZE div SEGMENT_SIZE - 1) = length [(0::nat, ?key, [10 :: byte])] + 6" by (simp add: n)
  have "fs_ok cceh_ok (snd (insert_all (flatstore_api (\<lambda>_. 0)) [(0, ?key, [10])] (flatstore_start 2 SEGMENT_SIZE (8 * SEGMENT_SIZE) demo_pool)))"
    by (rule cceh.fs.insert_all_room [OF o(1,2) wok o(4) [unfolded m]])
  then have acc: "fs_ok cceh_ok (snd (fs_insert ?ix (\<lambda>_. 0) 0 ?key [10] (Inr (gc_store s0))))"
    by (simp add: fs_api_def s0_def gc_open_def split_beta)
  obtain w db where put: "worker_Put ?ix 0 ?key [10] (fs_workers (gc_store s0) 0) (gc_db s0) = Inr (w, db)" "cceh_ok (db_index db)"
    using acc by (auto simp: fs_insert_def fs_ok_def split: sum.splits)
  have i0: "gc_state_inv ?ix (cceh_inv key_hash) key_valid s0" unfolding s0_def
    by (rule gc_open_inv(1) [where ix = "cceh_ops key_hash" and iinv = "cceh_inv key_hash" and ikey_ok = key_valid,
        OF demo_size flatstore_new_sel(1) [of SEGMENT_SIZE "8 * SEGMENT_SIZE" demo_pool] flatstore_new_empty])
  have cl: "gc_cleaner s0 = cleaner_new 0 1 7" "gc_phase s0 = Idle" by (simp_all add: s0_def gc_open_def n)
  have l0: "gc_log s0 = ?l0" "log_head (fs_workers (gc_store s0) 0) = None" using f by (simp_all add: s0_def gc_open_def flatstore_new_sel)
  define s1 where "s1 = s0\<lparr>gc_store := (gc_store s0)\<lparr>fs_db := db, fs_workers := (fs_workers (gc_store s0))(0 := w)\<rparr>\<rparr>"
  note P = flat_index.gc_step_put [OF cceh.flat_index_axioms i0 put(1) arg put(2), folded s1_def]
  have s1: "gc_cleaner s1 = cleaner_new 0 1 7" "gc_phase s1 = Idle" "gc_db s1 = db" by (simp_all add: s1_def cl)
  have I: "gc_inv ?ix (cceh_inv key_hash) key_valid (fs_heads (gc_store s1)) (cleaner_new 0 1 7) db" "has_room (cleaner_new 0 1 7) (db_log db)"
    using P(1) by (simp_all add: gc_state_inv_def phase_ok_def s1)
  have c: "1 \<le> 8 * SEGMENT_SIZE div SEGMENT_SIZE" by (simp add: n)
  note L = log_new_facts(5) [OF c, where workers = 1 and start = SEGMENT_SIZE and pm = demo_pool]
  have li0: "log_inv {} (gc_log s0)" unfolding l0 by (rule log_new_inv [OF c demo_size(2,3)])
  have none: "seg_entries (gc_log s0) i = []" if "i < num_segments (gc_log s0)" for i
    using L [of i] that empty_seg_ok(2) [of ?l0 i] l0(1) by simp
  have hd: "set_option (log_head (fs_workers (gc_store s0) 0)) \<subseteq> {}" by (simp add: l0)
  have q0: "queue_ok {} {} (gc_log s0)" using i0 by (auto simp: gc_state_inv_def held_ok_def queue_ok_def)
  obtain i where i: "log_head w = Some i" "num_segments (db_log db) = num_segments (gc_log s0)"
    using worker_Put_step [OF li0 hd arg(1) put(1), of "{}" "{}"] q0 by (auto simp: log_step_def)
  have iW: "i \<in> fs_heads (gc_store s1)" using i by (auto simp: fs_heads_def s1_def)
  have li: "log_inv (insert 7 (fs_heads (gc_store s1))) (db_log db)" and "7 \<notin> fs_heads (gc_store s1)"
    using I(1) by (simp_all add: gc_inv_def gc_own_def db_inv_def gc_heads_def cleaner_new_def)
  then have cf: "closed_for {} (cleaner_new 0 1 7) (db_log db) i"
    using iW by (auto simp: closed_for_def log_inv_def gc_heads_def cleaner_new_def)
  then have "unmarked i (db_log db)"
    using first_put_unmarked [OF li0 hd arg(1) put(1) none] i(2) by (simp add: closed_for_def)
  moreover have "db_contents ?ix db 1 = Some [10]" using P(2) [of 1] arg(2) by (simp add: key s1)
  ultimately show thesis using that gc_inv_mono [OF I(1)] cf I(2) by blast
qed

theorem batch_compaction_same_witness:
  "\<exists>b seg b' db'. db_contents (cceh_ops key_hash) (bt_db b) 1 = Some [10] \<and> in_step b \<and>
     BatchCompactSegment (cceh_ops key_hash) 0 seg b = Inr b' \<and>
     CompactSegment (cceh_ops key_hash) 0 seg (bt_cl b) (counted b) = Inr (bt_cl b', db') \<and>
     db_contents (cceh_ops key_hash) (bt_db b') 1 = Some [10]"
proof -
  obtain db i where d: "gc_inv (cceh_ops key_hash) (cceh_inv key_hash) key_valid {} (cleaner_new 0 1 7) db"
    "closed_for {} (cleaner_new 0 1 7) (db_log db) i" "has_room (cleaner_new 0 1 7) (db_log db)" "unmarked i (db_log db)"
    "db_contents (cceh_ops key_hash) db 1 = Some [10]" by (rule demo_put)
  let ?b = "demo_batch (cleaner_new 0 1 7) db"
  have "seg_ok (db_log db) 7" "seg_tail (segs (db_log db) 7) = data_start (segs (db_log db) 7)"
    using d(1,3) by (auto simp: gc_inv_def db_inv_def gc_heads_def log_inv_def has_room_def cleaner_new_def)
  then have st: "in_step ?b"
    by (auto simp: in_step_def mirrors_def demo_batch_def cleaner_new_def VirtualSegment_new_def segment_object_def get_offset_def data_start_def
        seg_wf_def seg_ok_def seg_end_def HEADERS_SIZE_def SEGMENT_SIZE_def Let_def)
  have b: "bt_cl ?b = cleaner_new 0 1 7" "bt_db ?b = db" by (simp_all add: demo_batch_def)
  have kv: "key_valid 1" by (simp add: key_valid_def INVALID_KEY_def SENTINEL_def)
  from batch_compaction_same [of key_hash "{}" ?b i 0] d(1-4) st b show ?thesis using kv d(5) by (metis (no_types, lifting))
qed

end
