(* ===== verification/Wrappers.thy ===== *)
theory Wrappers
  imports Run_Phase
begin

text \<open>
  The clients of the third-party stores: \<^verbatim>\<open>rocksdb_wrapper.h\<close>, \<^verbatim>\<open>viper_wrapper.h\<close>, \<^verbatim>\<open>viper_wrapper_int.h\<close>,
  \<^verbatim>\<open>listdb_wrapper.h\<close> and \<^verbatim>\<open>ert_wrapper.h\<close>. The library behind a client is a parameter, a record of functions on its
  state; \<open>map_lib\<close> is what its documentation promises. The benchmark calls the \<open>find\<close> that fills a string when
  \<open>use_string_for_find\<close> holds, and the one with a character buffer otherwise; the buffer is passed in and
  returned here.
\<close>

section \<open>The libraries\<close>

text \<open>\<open>lib_seek\<close> is what an iterator placed at a key yields, in order.\<close>

record ('k, 'v, 's) kv_lib =
  lib_get :: "'k \<Rightarrow> 's \<Rightarrow> 'v option \<times> 's"
  lib_put :: "'k \<Rightarrow> 'v \<Rightarrow> 's \<Rightarrow> bool \<times> 's"
  lib_remove :: "'k \<Rightarrow> 's \<Rightarrow> bool \<times> 's"
  lib_seek :: "'k \<Rightarrow> 's \<Rightarrow> ('k \<times> 'v) list"

text \<open>A get returns what was put; a put succeeds as long as the store reports no failure (\<open>alive\<close>).\<close>

definition map_lib :: "('k, 'v, 's) kv_lib \<Rightarrow> ('s \<Rightarrow> 'k \<rightharpoonup> 'v) \<Rightarrow> ('s \<Rightarrow> bool) \<Rightarrow> ('s \<Rightarrow> bool) \<Rightarrow> bool" where
  "map_lib lib contents good alive \<longleftrightarrow>
     (\<forall>k s. good s \<longrightarrow> fst (lib_get lib k s) = contents s k \<and> contents (snd (lib_get lib k s)) = contents s \<and> good (snd (lib_get lib k s))) \<and>
     (\<forall>k v s. good s \<longrightarrow> alive (snd (lib_put lib k v s)) \<longrightarrow>
        fst (lib_put lib k v s) \<and> contents (snd (lib_put lib k v s)) = (contents s)(k \<mapsto> v) \<and> good (snd (lib_put lib k v s))) \<and>
     (\<forall>k v s. alive (snd (lib_put lib k v s)) \<longrightarrow> alive s)"

lemma map_libD:
  assumes "map_lib lib contents good alive"
  shows "good s \<Longrightarrow> fst (lib_get lib k s) = contents s k"
    and "good s \<Longrightarrow> contents (snd (lib_get lib k s)) = contents s"
    and "good s \<Longrightarrow> good (snd (lib_get lib k s))"
    and "good s \<Longrightarrow> alive (snd (lib_put lib k v s)) \<Longrightarrow> fst (lib_put lib k v s)"
    and "good s \<Longrightarrow> alive (snd (lib_put lib k v s)) \<Longrightarrow> contents (snd (lib_put lib k v s)) = (contents s)(k \<mapsto> v)"
    and "good s \<Longrightarrow> alive (snd (lib_put lib k v s)) \<Longrightarrow> good (snd (lib_put lib k v s))"
    and "alive (snd (lib_put lib k v s)) \<Longrightarrow> alive s"
  using assms by (simp_all add: map_lib_def)

text \<open>
  A state of the client is the library's, or \<open>None\<close> after a write outside the scan buffer.
\<close>

definition on_store :: "('s \<Rightarrow> 'r \<times> 's) \<Rightarrow> 'r \<Rightarrow> 's option \<Rightarrow> 'r \<times> 's option" where
  "on_store f r0 st = (case st of None \<Rightarrow> (r0, None) | Some s \<Rightarrow> (let (r, s') = f s in (r, Some s')))"

lemma on_store_simps [simp]:
  "on_store f r0 None = (r0, None)" "fst (on_store f r0 (Some s)) = fst (f s)" "snd (on_store f r0 (Some s)) = Some (snd (f s))"
  by (simp_all add: on_store_def split_beta Let_def)

section \<open>RocksDB\<close>

text \<open>The parameter \<open>value_out\<close> is a copy of the caller's pointer: assigning it leaves the buffer alone.\<close>

definition rocksdb_find_char :: "(byte list, byte list, 's) kv_lib \<Rightarrow> byte list \<Rightarrow> byte list \<Rightarrow> 's \<Rightarrow> (bool \<times> byte list) \<times> 's" where
  "rocksdb_find_char lib key value_out s = (let (r, s) = lib_get lib key s in ((r \<noteq> None, value_out), s))"

definition rocksdb_find :: "(byte list, byte list, 's) kv_lib \<Rightarrow> byte list \<Rightarrow> byte list \<Rightarrow> 's \<Rightarrow> (bool \<times> byte list) \<times> 's" where
  "rocksdb_find lib key value_out s =
     (let (r, s) = lib_get lib key s in
      (case r of None \<Rightarrow> (False, value_out) | Some v \<Rightarrow> (True, v), s))"

definition rocksdb_insert :: "(byte list, byte list, 's) kv_lib \<Rightarrow> byte list \<Rightarrow> byte list \<Rightarrow> 's \<Rightarrow> bool \<times> 's" where
  "rocksdb_insert lib key value s = lib_put lib key value s"

definition rocksdb_update :: "(byte list, byte list, 's) kv_lib \<Rightarrow> byte list \<Rightarrow> byte list \<Rightarrow> 's \<Rightarrow> bool \<times> 's" where
  "rocksdb_update lib key value s = rocksdb_insert lib key value s"

definition rocksdb_remove :: "(byte list, byte list, 's) kv_lib \<Rightarrow> byte list \<Rightarrow> 's \<Rightarrow> bool \<times> 's" where
  "rocksdb_remove lib key s = lib_remove lib key s"

text \<open>The loop of \<open>scan\<close>: \<open>dst\<close> moves on by eight bytes after the key and not at all after the value.\<close>

fun rocksdb_scan_loop :: "(byte list \<times> byte list) list \<Rightarrow> nat \<Rightarrow> nat \<Rightarrow> byte list \<Rightarrow> nat \<Rightarrow> (nat \<times> byte list) option" where
  "rocksdb_scan_loop [] scan_sz dst results scanned = Some (scanned, results)"
| "rocksdb_scan_loop ((k, v) # it) scan_sz dst results scanned =
     (if scanned < scan_sz then
        (case buf_write results dst k of
           None \<Rightarrow> None
         | Some results \<Rightarrow>
             (case buf_write results (dst + 8) v of
                None \<Rightarrow> None
              | Some results \<Rightarrow> rocksdb_scan_loop it scan_sz (dst + 8) results (scanned + 1)))
      else Some (scanned, results))"

definition results_size :: nat where "results_size = 2 ^ 20"

definition rocksdb_scan ::
  "(byte list, byte list, 's) kv_lib \<Rightarrow> byte list \<Rightarrow> nat \<Rightarrow> byte list \<Rightarrow> 's \<Rightarrow> (nat \<times> byte list) option" where
  "rocksdb_scan lib key scan_sz results s = rocksdb_scan_loop (lib_seek lib key s) scan_sz 0 results 0"

definition rocksdb_api :: "(byte list, byte list, 's) kv_lib \<Rightarrow> 's option client_api" where
  "rocksdb_api lib =
     \<lparr>api_find = (\<lambda>k. on_store (rocksdb_find lib k []) (False, [])),
      api_insert = (\<lambda>k v. on_store (rocksdb_insert lib k v) False),
      api_update = (\<lambda>k v. on_store (rocksdb_update lib k v) False),
      api_remove = (\<lambda>k. on_store (rocksdb_remove lib k) False),
      api_scan = (\<lambda>k n st. case st of
          None \<Rightarrow> (0, None)
        | Some s \<Rightarrow> (case rocksdb_scan lib k n (replicate results_size 0) s of
             None \<Rightarrow> (0, None) | Some (c, _) \<Rightarrow> (int c, Some s)))\<rparr>"

section \<open>Viper\<close>

definition viper_find_char :: "byte list \<Rightarrow> byte list \<Rightarrow> 's \<Rightarrow> (bool \<times> byte list) \<times> 's" where
  "viper_find_char key value_out s = ((False, value_out), s)"

definition viper_find :: "(byte list, byte list, 's) kv_lib \<Rightarrow> byte list \<Rightarrow> byte list \<Rightarrow> 's \<Rightarrow> (bool \<times> byte list) \<times> 's" where
  "viper_find lib key value_out s =
     (let (r, s) = lib_get lib key s in
      (case r of None \<Rightarrow> (False, value_out) | Some v \<Rightarrow> (True, v), s))"

definition viper_insert :: "(byte list, byte list, 's) kv_lib \<Rightarrow> byte list \<Rightarrow> byte list \<Rightarrow> 's \<Rightarrow> bool \<times> 's" where
  "viper_insert lib key value s = lib_put lib key value s"

definition viper_update :: "(byte list, byte list, 's) kv_lib \<Rightarrow> byte list \<Rightarrow> byte list \<Rightarrow> 's \<Rightarrow> bool \<times> 's" where
  "viper_update lib key value s = lib_put lib key value s"

definition viper_remove :: "(byte list, byte list, 's) kv_lib \<Rightarrow> byte list \<Rightarrow> 's \<Rightarrow> bool \<times> 's" where
  "viper_remove lib key s = lib_remove lib key s"

definition viper_scan :: "byte list \<Rightarrow> nat \<Rightarrow> 's \<Rightarrow> int \<times> 's" where
  "viper_scan key scan_sz s = (0, s)"

definition viper_api :: "(byte list, byte list, 's) kv_lib \<Rightarrow> 's client_api" where
  "viper_api lib =
     \<lparr>api_find = (\<lambda>k. viper_find lib k []), api_insert = viper_insert lib, api_update = viper_update lib,
      api_remove = viper_remove lib, api_scan = viper_scan\<rparr>"

section \<open>Stores of words\<close>

text \<open>\<open>*(uint64_t * )key\<close>; a key or value of fewer than eight bytes is read past its end.\<close>

definition read_u64 :: "byte list \<Rightarrow> u64" where
  "read_u64 bs = le_word (take 8 bs)"

definition viper_int_find_char :: "(u64, u64, 's) kv_lib \<Rightarrow> byte list \<Rightarrow> byte list \<Rightarrow> 's \<Rightarrow> (bool \<times> byte list) \<times> 's" where
  "viper_int_find_char lib key value_out s = (let (r, s) = lib_get lib (read_u64 key) s in ((r \<noteq> None, value_out), s))"

definition viper_int_insert :: "(u64, u64, 's) kv_lib \<Rightarrow> byte list \<Rightarrow> byte list \<Rightarrow> 's \<Rightarrow> bool \<times> 's" where
  "viper_int_insert lib key value s = lib_put lib (read_u64 key) (read_u64 value) s"

definition viper_int_update :: "(u64, u64, 's) kv_lib \<Rightarrow> byte list \<Rightarrow> byte list \<Rightarrow> 's \<Rightarrow> bool \<times> 's" where
  "viper_int_update lib key value s = viper_int_insert lib key value s"

definition viper_int_remove :: "(u64, u64, 's) kv_lib \<Rightarrow> byte list \<Rightarrow> 's \<Rightarrow> bool \<times> 's" where
  "viper_int_remove lib key s = lib_remove lib (read_u64 key) s"

definition viper_int_api :: "(u64, u64, 's) kv_lib \<Rightarrow> byte list \<Rightarrow> 's client_api" where
  "viper_int_api lib value_out =
     \<lparr>api_find = (\<lambda>k. viper_int_find_char lib k value_out), api_insert = viper_int_insert lib, api_update = viper_int_update lib,
      api_remove = viper_int_remove lib, api_scan = viper_scan\<rparr>"

text \<open>
  ListDB returns the encoded address of a value; \<open>decode\<close> reads the word there. The client of the program
  calls the version with a buffer, which reads the value and drops it.
\<close>

definition listdb_find_char ::
  "(u64, u64, 's) kv_lib \<Rightarrow> (u64 \<Rightarrow> 's \<Rightarrow> u64) \<Rightarrow> byte list \<Rightarrow> byte list \<Rightarrow> 's \<Rightarrow> (bool \<times> byte list) \<times> 's" where
  "listdb_find_char lib decode key value_out s =
     (let (r, s) = lib_get lib (read_u64 key) s in
      (case r of None \<Rightarrow> (False, value_out) | Some v \<Rightarrow> (let v = decode v s in (True, value_out)), s))"

definition listdb_find ::
  "(u64, u64, 's) kv_lib \<Rightarrow> (u64 \<Rightarrow> 's \<Rightarrow> u64) \<Rightarrow> byte list \<Rightarrow> byte list \<Rightarrow> 's \<Rightarrow> (bool \<times> byte list) \<times> 's" where
  "listdb_find lib decode key value_out s =
     (let (r, s) = lib_get lib (read_u64 key) s in
      (case r of None \<Rightarrow> (False, value_out) | Some v \<Rightarrow> (True, le_bytes 8 (decode v s)), s))"

definition listdb_insert :: "(u64, u64, 's) kv_lib \<Rightarrow> byte list \<Rightarrow> byte list \<Rightarrow> 's \<Rightarrow> bool \<times> 's" where
  "listdb_insert lib key value s = (True, snd (lib_put lib (read_u64 key) (read_u64 value) s))"

definition listdb_update :: "(u64, u64, 's) kv_lib \<Rightarrow> byte list \<Rightarrow> byte list \<Rightarrow> 's \<Rightarrow> bool \<times> 's" where
  "listdb_update lib key value s = listdb_insert lib key value s"

definition listdb_remove :: "byte list \<Rightarrow> 's \<Rightarrow> bool \<times> 's" where
  "listdb_remove key s = (False, s)"

definition listdb_scan :: "byte list \<Rightarrow> nat \<Rightarrow> 's \<Rightarrow> int \<times> 's" where
  "listdb_scan key scan_sz s = (0, s)"

definition listdb_api :: "(u64, u64, 's) kv_lib \<Rightarrow> (u64 \<Rightarrow> 's \<Rightarrow> u64) \<Rightarrow> 's client_api" where
  "listdb_api lib decode =
     \<lparr>api_find = (\<lambda>k. listdb_find lib decode k []), api_insert = listdb_insert lib, api_update = listdb_update lib,
      api_remove = listdb_remove, api_scan = listdb_scan\<rparr>"

text \<open>The radix tree: \<open>Search\<close> returns 0 for an absent key; \<open>*(value_out) = v\<close> stores one byte.\<close>

definition ert_find_char :: "(u64 \<Rightarrow> 's \<Rightarrow> u64) \<Rightarrow> byte list \<Rightarrow> byte list \<Rightarrow> 's \<Rightarrow> (bool \<times> byte list) \<times> 's" where
  "ert_find_char search key value_out s = ((True, value_out[0 := ucast (search (read_u64 key) s)]), s)"

definition ert_find :: "byte list \<Rightarrow> byte list \<Rightarrow> 's \<Rightarrow> (bool \<times> byte list) \<times> 's" where
  "ert_find key value_out s = ((False, value_out), s)"

definition ert_insert :: "(u64 \<Rightarrow> u64 \<Rightarrow> 's \<Rightarrow> 's) \<Rightarrow> byte list \<Rightarrow> byte list \<Rightarrow> 's \<Rightarrow> bool \<times> 's" where
  "ert_insert ins key value s = (True, ins (read_u64 key) (read_u64 value) s)"

definition ert_update :: "(u64 \<Rightarrow> u64 \<Rightarrow> 's \<Rightarrow> 's) \<Rightarrow> byte list \<Rightarrow> byte list \<Rightarrow> 's \<Rightarrow> bool \<times> 's" where
  "ert_update ins key value s = ert_insert ins key value s"

definition ert_remove :: "byte list \<Rightarrow> 's \<Rightarrow> bool \<times> 's" where
  "ert_remove key s = (False, s)"

definition ert_scan :: "byte list \<Rightarrow> nat \<Rightarrow> 's \<Rightarrow> int \<times> 's" where
  "ert_scan key scan_sz s = (0, s)"

definition ert_api :: "(u64 \<Rightarrow> 's \<Rightarrow> u64) \<Rightarrow> (u64 \<Rightarrow> u64 \<Rightarrow> 's \<Rightarrow> 's) \<Rightarrow> byte list \<Rightarrow> 's client_api" where
  "ert_api search ins value_out =
     \<lparr>api_find = (\<lambda>k. ert_find_char search k value_out), api_insert = ert_insert ins, api_update = ert_update ins,
      api_remove = ert_remove, api_scan = ert_scan\<rparr>"

section \<open>The contract\<close>

abbreviation opt_contents :: "('s \<Rightarrow> kvmap) \<Rightarrow> 's option \<Rightarrow> kvmap" where
  "opt_contents contents st \<equiv> (case st of None \<Rightarrow> Map.empty | Some s \<Rightarrow> contents s)"

abbreviation opt_holds :: "('s \<Rightarrow> bool) \<Rightarrow> 's option \<Rightarrow> bool" where
  "opt_holds P st \<equiv> (case st of None \<Rightarrow> False | Some s \<Rightarrow> P s)"

lemma rocksdb_upsert:
  assumes lib: "map_lib lib contents good alive"
  shows "kv_upsert (\<lambda>_. rocksdb_api lib) (opt_contents contents) (opt_holds good) (\<lambda>_. True) (\<lambda>_. True) (opt_holds alive)"
proof unfold_locales
  fix s k v
  assume "opt_holds good s"
  then obtain x where x: "s = Some x" "good x" by (cases s) auto
  note L = map_libD [OF lib] and D = rocksdb_api_def rocksdb_find_def rocksdb_insert_def
  show "fst (fst (api_find (rocksdb_api lib) k s)) = (opt_contents contents s k \<noteq> None)"
    using L(1) [OF x(2), of k] by (simp add: D x(1) Let_def split_beta split: option.splits)
  show "snd (fst (api_find (rocksdb_api lib) k s)) = v" if "opt_contents contents s k = Some v"
    using L(1) [OF x(2), of k] that by (simp add: D x(1) Let_def split_beta)
  show "opt_contents contents (snd (api_find (rocksdb_api lib) k s)) = opt_contents contents s"
    "opt_holds good (snd (api_find (rocksdb_api lib) k s))"
    using L(2,3) [OF x(2), of k] by (simp_all add: D x(1) Let_def split_beta)
  show "fst (api_insert (rocksdb_api lib) k v s) \<and>
      opt_contents contents (snd (api_insert (rocksdb_api lib) k v s)) = (opt_contents contents s)(k \<mapsto> v) \<and>
      opt_holds good (snd (api_insert (rocksdb_api lib) k v s))" if "opt_holds alive (snd (api_insert (rocksdb_api lib) k v s))"
    using L(4-6) [OF x(2), of k v] that by (simp add: D x(1))
next
  fix k v s
  assume "opt_holds alive (snd (api_insert (rocksdb_api lib) k v s))"
  then show "opt_holds alive s"
    using map_libD(7) [OF lib, of k v] by (cases s) (simp_all add: rocksdb_api_def rocksdb_insert_def)
qed

lemma viper_upsert:
  assumes lib: "map_lib lib contents good alive"
  shows "kv_upsert (\<lambda>_. viper_api lib) contents good (\<lambda>_. True) (\<lambda>_. True) alive"
proof unfold_locales
  note L = map_libD [OF lib] and D = viper_api_def viper_find_def viper_insert_def
  fix s k v
  assume i: "good s"
  show "fst (fst (api_find (viper_api lib) k s)) = (contents s k \<noteq> None)"
    using L(1) [OF i, of k] by (simp add: D Let_def split_beta split: option.splits)
  show "snd (fst (api_find (viper_api lib) k s)) = v" if "contents s k = Some v"
    using L(1) [OF i, of k] that by (simp add: D Let_def split_beta)
  show "contents (snd (api_find (viper_api lib) k s)) = contents s" "good (snd (api_find (viper_api lib) k s))"
    using L(2,3) [OF i, of k] by (simp_all add: D Let_def split_beta)
  show "fst (api_insert (viper_api lib) k v s) \<and> contents (snd (api_insert (viper_api lib) k v s)) = (contents s)(k \<mapsto> v) \<and>
      good (snd (api_insert (viper_api lib) k v s))" if "alive (snd (api_insert (viper_api lib) k v s))"
    using L(4-6) [OF i, of k v] that by (simp add: D)
next
  fix k v s
  show "alive (snd (api_insert (viper_api lib) k v s)) \<Longrightarrow> alive s"
    using map_libD(7) [OF lib, of k v] by (simp add: viper_api_def viper_insert_def)
qed

text \<open>What ListDB holds as bytes: the keys and values of eight bytes.\<close>

definition word_contents :: "('s \<Rightarrow> u64 \<rightharpoonup> u64) \<Rightarrow> (u64 \<Rightarrow> 's \<Rightarrow> u64) \<Rightarrow> 's \<Rightarrow> kvmap" where
  "word_contents contents decode s k = map_option (\<lambda>v. le_bytes 8 (decode v s)) (contents s (read_u64 k))"

text \<open>The promise of ListDB: a put stores the word somewhere and moves no other value.\<close>

definition listdb_lib ::
  "(u64, u64, 's) kv_lib \<Rightarrow> (u64 \<Rightarrow> 's \<Rightarrow> u64) \<Rightarrow> ('s \<Rightarrow> u64 \<rightharpoonup> u64) \<Rightarrow> ('s \<Rightarrow> bool) \<Rightarrow> ('s \<Rightarrow> bool) \<Rightarrow> bool" where
  "listdb_lib lib decode contents good alive \<longleftrightarrow>
     (\<forall>k s. good s \<longrightarrow> fst (lib_get lib k s) = contents s k \<and> snd (lib_get lib k s) = s) \<and>
     (\<forall>k v s. good s \<longrightarrow> alive (snd (lib_put lib k v s)) \<longrightarrow> good (snd (lib_put lib k v s)) \<and>
        (\<forall>j. map_option (\<lambda>a. decode a (snd (lib_put lib k v s))) (contents (snd (lib_put lib k v s)) j) =
             (if j = k then Some v else map_option (\<lambda>a. decode a s) (contents s j)))) \<and>
     (\<forall>k v s. alive (snd (lib_put lib k v s)) \<longrightarrow> alive s)"

lemma le_bytes_read_u64: "length v = 8 \<Longrightarrow> le_bytes 8 (read_u64 v) = v"
  using le_bytes_le_word [where 'a = 64, of v] by (simp add: read_u64_def)

lemma read_u64_inj: "length a = 8 \<Longrightarrow> length b = 8 \<Longrightarrow> read_u64 a = read_u64 b \<longleftrightarrow> a = b"
  by (metis le_bytes_read_u64)

abbreviation eight :: "byte list \<Rightarrow> bool" where "eight k \<equiv> length k = 8"

definition word_map :: "('s \<Rightarrow> u64 \<rightharpoonup> u64) \<Rightarrow> (u64 \<Rightarrow> 's \<Rightarrow> u64) \<Rightarrow> 's \<Rightarrow> kvmap" where
  "word_map contents decode s k = (if eight k then word_contents contents decode s k else None)"

lemma listdb_upsert:
  assumes lib: "listdb_lib lib decode contents good alive"
  shows "kv_upsert (\<lambda>_. listdb_api lib decode) (word_map contents decode) good eight eight alive"
proof unfold_locales
  note D = listdb_api_def listdb_find_def listdb_insert_def word_map_def word_contents_def
  fix s k v
  assume i: "good s" and k: "eight k"
  have g: "fst (lib_get lib j s) = contents s j" "snd (lib_get lib j s) = s" for j using lib i by (simp_all add: listdb_lib_def)
  show "fst (fst (api_find (listdb_api lib decode) k s)) = (word_map contents decode s k \<noteq> None)"
    using g [of "read_u64 k"] k by (simp add: D Let_def split_beta split: option.splits)
  show "snd (fst (api_find (listdb_api lib decode) k s)) = v" if "word_map contents decode s k = Some v"
    using g [of "read_u64 k"] that k by (auto simp: D Let_def split_beta)
  show "word_map contents decode (snd (api_find (listdb_api lib decode) k s)) = word_map contents decode s"
    "good (snd (api_find (listdb_api lib decode) k s))"
    using g i by (simp_all add: listdb_api_def listdb_find_def Let_def split_beta)
  show "fst (api_insert (listdb_api lib decode) k v s) \<and>
      word_map contents decode (snd (api_insert (listdb_api lib decode) k v s)) = (word_map contents decode s)(k \<mapsto> v) \<and>
      good (snd (api_insert (listdb_api lib decode) k v s))"
    if v: "eight v" and a: "alive (snd (api_insert (listdb_api lib decode) k v s))"
  proof -
    let ?s = "snd (lib_put lib (read_u64 k) (read_u64 v) s)"
    have "alive ?s" using a by (simp add: listdb_api_def listdb_insert_def)
    then have p: "good ?s" "map_option (\<lambda>a. decode a ?s) (contents ?s j) =
        (if j = read_u64 k then Some (read_u64 v) else map_option (\<lambda>a. decode a s) (contents s j))" for j
      using lib i by (simp_all add: listdb_lib_def)
    have "word_contents contents decode ?s j = (if read_u64 j = read_u64 k then Some v else word_contents contents decode s j)" for j
      using arg_cong [OF p(2) [of "read_u64 j"], of "map_option (le_bytes 8)"] v
      by (auto simp: word_contents_def option.map_comp o_def le_bytes_read_u64)
    then have "word_map contents decode ?s = (word_map contents decode s)(k \<mapsto> v)"
      using k by (intro ext) (auto simp: word_map_def read_u64_inj)
    then show ?thesis using p(1) by (simp add: listdb_api_def listdb_insert_def)
  qed
next
  fix k v s
  show "alive (snd (api_insert (listdb_api lib decode) k v s)) \<Longrightarrow> alive s"
    using lib by (simp add: listdb_api_def listdb_insert_def listdb_lib_def)
qed


text \<open>A lookup that misses leaves the empty string of the caller as it is.\<close>

lemma missed_value:
  "\<not> fst (fst (api_find (rocksdb_api lib) k (Some s))) \<Longrightarrow> snd (fst (api_find (rocksdb_api lib) k (Some s))) = []"
  "\<not> fst (fst (api_find (viper_api lib) k s)) \<Longrightarrow> snd (fst (api_find (viper_api lib) k s)) = []"
  "\<not> fst (fst (api_find (listdb_api lib' decode) k s)) \<Longrightarrow> snd (fst (api_find (listdb_api lib' decode) k s)) = []"
  by (auto simp: rocksdb_api_def rocksdb_find_def viper_api_def viper_find_def listdb_api_def listdb_find_def Let_def split_beta
      split: option.splits)

lemma found_pair:
  assumes "case m of None \<Rightarrow> \<not> fst r | Some v \<Rightarrow> r = (True, v)" and "\<not> fst r \<Longrightarrow> snd r = []"
  shows "r = (case m of None \<Rightarrow> (False, []) | Some v \<Rightarrow> (True, v))"
  using assms by (cases m; cases r) auto

text \<open>
  over a library that keeps what is put, the clients of RocksDB and of Viper with string keys implement a map: after any writes of any
  threads, as long as the library reported no failure, a lookup returns exactly the last value
  written for the key, and nothing for a key never written.
\<close>

theorem string_clients_refine_map:
  assumes lib: "map_lib lib contents good alive" and s: "good s"
  shows "(snd (insert_all (\<lambda>_. rocksdb_api lib) ws (Some s)) = Some s' \<and> alive s' \<longrightarrow>
      fst (api_find (rocksdb_api lib) k (Some s')) = (case map_after ws (contents s) k of None \<Rightarrow> (False, []) | Some v \<Rightarrow> (True, v))) \<and>
    (snd (insert_all (\<lambda>_. viper_api lib) ws s) = s' \<and> alive s' \<longrightarrow>
      fst (api_find (viper_api lib) k s') = (case map_after ws (contents s) k of None \<Rightarrow> (False, []) | Some v \<Rightarrow> (True, v)))"
proof -
  have t: "\<forall>(t :: nat, k :: byte list, v :: byte list) \<in> set ws. True \<and> True" by simp
  have "fst (api_find (rocksdb_api lib) k (Some s')) = (case map_after ws (contents s) k of None \<Rightarrow> (False, []) | Some v \<Rightarrow> (True, v))"
    if r: "snd (insert_all (\<lambda>_. rocksdb_api lib) ws (Some s)) = Some s'" "alive s'"
    by (rule found_pair [OF _ missed_value(1)])
      (use kv_upsert.insert_all_find [OF rocksdb_upsert [OF lib], of "Some s" ws k, unfolded r(1)] s t r(2) in simp)
  moreover have "fst (api_find (viper_api lib) k s') = (case map_after ws (contents s) k of None \<Rightarrow> (False, []) | Some v \<Rightarrow> (True, v))"
    if r: "snd (insert_all (\<lambda>_. viper_api lib) ws s) = s'" "alive s'"
    by (rule found_pair [OF _ missed_value(2)])
      (use kv_upsert.insert_all_find [OF viper_upsert [OF lib], of s ws k, unfolded r(1)] s t r(2) in simp)
  ultimately show ?thesis by blast
qed

definition demo_lib :: "('k, 'v, 'k \<rightharpoonup> 'v) kv_lib" where
  "demo_lib = \<lparr>lib_get = (\<lambda>k s. (s k, s)), lib_put = (\<lambda>k v s. (True, s(k \<mapsto> v))), lib_remove = (\<lambda>k s. (s k \<noteq> None, s(k := None))),
     lib_seek = (\<lambda>k s. [])\<rparr>"

lemma demo_lib_map: "map_lib demo_lib (\<lambda>s. s) (\<lambda>_. True) (\<lambda>_. True)"
  by (simp add: map_lib_def demo_lib_def)

theorem string_clients_refine_map_witness:
  "fst (api_find (viper_api demo_lib) [1] (snd (insert_all (\<lambda>_. viper_api demo_lib) [(0, [1], [2]), (1, [1], [3])] Map.empty))) = (True, [3])"
  using string_clients_refine_map [OF demo_lib_map, where s = Map.empty and ws = "[(0, [1], [2]), (1, [1], [3])]" and k = "[1]"] by simp

text \<open>
  ListDB with keys and values of eight bytes implements a map through the lookup that fills a string.
\<close>

theorem listdb_refines_map:
  assumes lib: "listdb_lib lib decode contents good alive" and s: "good s" and "eight k"
    and "\<forall>(t, k, v) \<in> set ws. eight k \<and> eight v" and "alive (snd (insert_all (\<lambda>_. listdb_api lib decode) ws s))"
  shows "fst (api_find (listdb_api lib decode) k (snd (insert_all (\<lambda>_. listdb_api lib decode) ws s))) =
    (case map_after ws (word_map contents decode s) k of None \<Rightarrow> (False, []) | Some v \<Rightarrow> (True, v))"
  by (rule found_pair [OF kv_upsert.insert_all_find [OF listdb_upsert [OF lib] s assms(4,5,3)] missed_value(3)])

theorem listdb_refines_map_witness:
  "fst (api_find (listdb_api demo_lib (\<lambda>v s. v)) [1, 0, 0, 0, 0, 0, 0, 0]
     (snd (insert_all (\<lambda>_. listdb_api demo_lib (\<lambda>v s. v)) [(0, [1, 0, 0, 0, 0, 0, 0, 0], [2, 0, 0, 0, 0, 0, 0, 9])] Map.empty))) =
   (True, [2, 0, 0, 0, 0, 0, 0, 9])"
proof -
  have "listdb_lib demo_lib (\<lambda>v s. v) (\<lambda>s. s) (\<lambda>_. True) (\<lambda>_. True)"
    by (simp add: listdb_lib_def demo_lib_def option.map_ident)
  from listdb_refines_map [OF this, where s = Map.empty and k = "[1, 0, 0, 0, 0, 0, 0, 0]" and ws = "[(0, [1, 0, 0, 0, 0, 0, 0, 0], [2, 0, 0, 0, 0, 0, 0, 9])]"]
  show ?thesis by simp
qed

section \<open>What the benchmark gets from the integer stores\<close>



section \<open>The layout of a scan\<close>

lemma concat_keys_length: "\<forall>(k, v) \<in> set rs. length k = 8 \<and> length v = m \<Longrightarrow> length (concat (map fst rs)) = 8 * length rs"
  by (induction rs) auto

lemma rocksdb_scan_loop_layout:
  assumes "\<forall>(k, v) \<in> set rs. length k = 8 \<and> length v = m" and "dst + 8 * length rs + m \<le> length buf"
    and "rs \<noteq> []" and "length rs \<le> n - scanned"
  shows "\<exists>buf'. rocksdb_scan_loop (rs @ ms) n dst buf scanned = rocksdb_scan_loop ms n (dst + 8 * length rs) buf' (scanned + length rs) \<and>
    length buf' = length buf \<and> take (dst + 8 * length rs + m) buf' = take dst buf @ concat (map fst rs) @ snd (last rs)"
  using assms
proof (induction rs arbitrary: dst buf scanned)
  case (Cons r rs)
  obtain k v where r: "r = (k, v)" by (cases r)
  have len: "length k = 8" "length v = m" using Cons.prems(1) by (simp_all add: r)
  have lt: "scanned < n" using Cons.prems(4) by simp
  define b1 where "b1 = take dst buf @ k @ drop (dst + 8) buf"
  define b2 where "b2 = take (dst + 8) b1 @ v @ drop (dst + 8 + m) b1"
  have w1: "buf_write buf dst k = Some b1" using Cons.prems(2) len by (simp add: buf_write_def b1_def)
  have l1: "length b1 = length buf" using buf_write_length [OF w1] .
  have w2: "buf_write b1 (dst + 8) v = Some b2" using Cons.prems(2) len l1 by (simp add: buf_write_def b2_def)
  have l2: "length b2 = length buf" using buf_write_length [OF w2] l1 by simp
  have t1: "take (dst + 8) b1 = take dst buf @ k" using take_all_buf_write [OF w1] len by simp
  have t2: "take (dst + 8 + m) b2 = take dst buf @ k @ v" using take_all_buf_write [OF w2] len t1 by simp
  have step: "rocksdb_scan_loop ((r # rs) @ ms) n dst buf scanned = rocksdb_scan_loop (rs @ ms) n (dst + 8) b2 (scanned + 1)"
    using lt by (simp add: r w1 w2)
  show ?case
  proof (cases "rs = []")
    case True
    then show ?thesis unfolding step using t2 l2 by (intro exI [of _ b2]) (simp add: r)
  next
    case False
    have "\<exists>buf'. rocksdb_scan_loop (rs @ ms) n (dst + 8) b2 (scanned + 1) =
        rocksdb_scan_loop ms n (dst + 8 + 8 * length rs) buf' (scanned + 1 + length rs) \<and>
      length buf' = length b2 \<and> take (dst + 8 + 8 * length rs + m) buf' = take (dst + 8) b2 @ concat (map fst rs) @ snd (last rs)"
      by (rule Cons.IH) (use Cons.prems False l2 in auto)
    moreover have "take (dst + 8) b2 = take dst buf @ k" using arg_cong [OF t2, of "take (dst + 8)"] len Cons.prems(2) by simp
    ultimately show ?thesis unfolding step using l2 False by (simp add: r add.assoc)
  qed
qed simp

text \<open>
  C39: what a scan of RocksDB leaves in the result buffer. With keys of eight bytes and values of \<open>m\<close>, the buffer holds
  the keys of the scanned records one after the other and then the value of the last record only: each
  key is written over the value before it, so that where the interface documents the first value
  there is the second key.
\<close>

theorem rocksdb_scan_layout:
  assumes rs: "lib_seek lib key s = rs" "\<forall>(k, v) \<in> set rs. length k = 8 \<and> length v = m" and "length results = results_size"
    and c: "c = min n (length rs)" "0 < c" "8 * c + m \<le> results_size"
  shows "\<exists>buf. rocksdb_scan lib key n results s = Some (c, buf) \<and> take (8 * c) buf = concat (map fst (take c rs)) \<and>
    take m (drop (8 * c) buf) = snd (rs ! (c - 1)) \<and> (2 \<le> c \<and> m \<le> 8 \<longrightarrow> take m (drop 8 buf) = take m (fst (rs ! 1)))"
proof -
  let ?a = "take c rs"
  have n: "?a \<noteq> []" "length ?a = c" using c by auto
  have a8: "\<forall>(k, v) \<in> set ?a. length k = 8 \<and> length v = m" using rs(2) by (auto dest: in_set_takeD)
  obtain buf where b: "rocksdb_scan_loop (?a @ drop c rs) n 0 results 0 = rocksdb_scan_loop (drop c rs) n (8 * c) buf c"
      "take (8 * c + m) buf = concat (map fst ?a) @ snd (last ?a)"
    using rocksdb_scan_loop_layout [OF a8, of 0 results n 0 "drop c rs"] n c assms(3) by auto
  have "rocksdb_scan_loop (drop c rs) n (8 * c) buf c = Some (c, buf)"
    using c(1) by (cases "drop c rs") (auto simp: min_def split: if_splits)
  then have r: "rocksdb_scan lib key n results s = Some (c, buf)" using b(1) rs(1) by (simp add: rocksdb_scan_def)
  have cl: "length (concat (map fst ?a)) = 8 * c"
    using concat_keys_length [OF a8] n(2) by simp
  have t: "take (8 * c) buf = concat (map fst ?a)" using arg_cong [OF b(2), of "take (8 * c)"] cl by simp
  have "take m (drop (8 * c) buf) = drop (8 * c) (take (8 * c + m) buf)" by (simp add: take_drop add.commute)
  also have "\<dots> = snd (last ?a)" using b(2) cl by simp
  also have "last ?a = rs ! (c - 1)" using n c(2) by (simp add: last_conv_nth [OF n(1)])
  finally have v: "take m (drop (8 * c) buf) = snd (rs ! (c - 1))" .
  have "take m (drop 8 buf) = take m (fst (rs ! 1))" if "2 \<le> c" "m \<le> 8"
  proof -
    have "2 \<le> length rs" using that(1) c(1) by simp
    then obtain r0 r1 rest where e: "rs = r0 # r1 # rest" by (cases rs; cases "tl rs") auto
    define d where "d = c - 2"
    have d: "c = Suc (Suc d)" using that(1) by (simp add: d_def)
    have l: "length (fst r0) = 8" "length (fst r1) = 8" using rs(2) by (auto simp: e)
    have "take m (drop 8 buf) = take m (drop 8 (take (8 * c) buf))" using that by (simp add: take_drop min_def)
    then show ?thesis unfolding t using l that by (simp add: e d)
  qed
  then show ?thesis using r t v by blast
qed

theorem rocksdb_scan_layout_witness:
  "\<exists>buf. rocksdb_scan (demo_lib\<lparr>lib_seek := (\<lambda>k s. [([1, 0, 0, 0, 0, 0, 0, 0], [7]), ([2, 0, 0, 0, 0, 0, 0, 0], [8])])\<rparr>) [1] 5
      (replicate results_size 0) Map.empty = Some (2, buf) \<and> take 1 (drop 8 buf) = [2] \<and> take 1 (drop 16 buf) = [8]"
  (is "\<exists>buf. rocksdb_scan ?lib _ _ ?z _ = _ \<and> _")
proof -
  let ?rs = "[([1, 0, 0, 0, 0, 0, 0, 0], [7]), ([2, 0, 0, 0, 0, 0, 0, 0], [8])] :: (byte list \<times> byte list) list"
  have "\<exists>buf. rocksdb_scan ?lib [1] 5 ?z Map.empty = Some (2, buf) \<and> take (8 * 2) buf = concat (map fst (take 2 ?rs)) \<and>
      take 1 (drop (8 * 2) buf) = snd (?rs ! (2 - 1)) \<and> (2 \<le> (2 :: nat) \<and> 1 \<le> (8 :: nat) \<longrightarrow> take 1 (drop 8 buf) = take 1 (fst (?rs ! 1)))"
    by (rule rocksdb_scan_layout) (simp_all add: results_size_def)
  then show ?thesis by (elim exE conjE) (simp only: nth_Cons_Suc nth_Cons_0 One_nat_def numeral_2_eq_2 diff_Suc_Suc diff_zero, auto)
qed

end
