(* ===== verification/Pactree_Client.thy ===== *)
theory Pactree_Client
  imports Wrappers Locks
begin

text \<open>
  The client of PACTree (\<^verbatim>\<open>pactree_wrapper.h\<close>): its operations over the tree, which is a parameter, and how its threads
  register with the tree (\<^verbatim>\<open>src/pactree.cpp\<close>, \<^verbatim>\<open>src/threadData.h\<close>). Every operation declares a \<open>thread_local\<close> helper of its own that
  registers the thread when the operation first runs on it and unregisters it when the thread
  ends; the combiner thread of the tree frees the data of threads that are finished.
\<close>

section \<open>Operations\<close>

text \<open>\<open>lookup\<close> returns 0 for an absent key.\<close>

record 's pt_lib =
  pt_insert :: "u64 \<Rightarrow> u64 \<Rightarrow> 's \<Rightarrow> bool \<times> 's"
  pt_update :: "u64 \<Rightarrow> u64 \<Rightarrow> 's \<Rightarrow> bool \<times> 's"
  pt_lookup :: "u64 \<Rightarrow> 's \<Rightarrow> u64 \<times> 's"
  pt_remove :: "u64 \<Rightarrow> 's \<Rightarrow> bool \<times> 's"
  pt_scan :: "u64 \<Rightarrow> nat \<Rightarrow> 's \<Rightarrow> nat \<times> 's"

text \<open>The value is copied to the caller's buffer; \<open>None\<close> when it does not fit.\<close>

definition pactree_find :: "'s pt_lib \<Rightarrow> byte list \<Rightarrow> byte list \<Rightarrow> 's \<Rightarrow> ((bool \<times> byte list) \<times> 's) option" where
  "pactree_find lib key value_out s =
     (let (value, s) = pt_lookup lib (read_u64 key) s in
      if value = 0 then Some ((False, value_out), s)
      else map_option (\<lambda>buf. ((True, buf), s)) (buf_write value_out 0 (le_bytes 8 value)))"

definition pactree_insert :: "'s pt_lib \<Rightarrow> byte list \<Rightarrow> byte list \<Rightarrow> 's \<Rightarrow> bool \<times> 's" where
  "pactree_insert lib key value s = pt_insert lib (read_u64 key) (read_u64 value) s"

definition pactree_update :: "'s pt_lib \<Rightarrow> byte list \<Rightarrow> byte list \<Rightarrow> 's \<Rightarrow> bool \<times> 's" where
  "pactree_update lib key value s = pt_update lib (read_u64 key) (read_u64 value) s"

definition pactree_remove :: "'s pt_lib \<Rightarrow> byte list \<Rightarrow> 's \<Rightarrow> bool \<times> 's" where
  "pactree_remove lib key s = pt_remove lib (read_u64 key) s"

definition pactree_scan :: "'s pt_lib \<Rightarrow> byte list \<Rightarrow> nat \<Rightarrow> 's \<Rightarrow> int \<times> 's" where
  "pactree_scan lib key scan_sz s = (let (scanned, s) = pt_scan lib (read_u64 key) scan_sz s in (int scanned, s))"

text \<open>What the tree promises: a successful insertion or update stores the value.\<close>

definition tree_lib :: "'s pt_lib \<Rightarrow> ('s \<Rightarrow> u64 \<rightharpoonup> u64) \<Rightarrow> bool" where
  "tree_lib lib contents \<longleftrightarrow>
     (\<forall>k s. pt_lookup lib k s = (case contents s k of None \<Rightarrow> 0 | Some v \<Rightarrow> v, s)) \<and>
     (\<forall>k v s. fst (pt_insert lib k v s) \<longrightarrow> contents (snd (pt_insert lib k v s)) = (contents s)(k \<mapsto> v)) \<and>
     (\<forall>k v s. fst (pt_update lib k v s) \<longrightarrow> contents (snd (pt_update lib k v s)) = (contents s)(k \<mapsto> v))"

lemma read_u64_zero: "eight v \<Longrightarrow> read_u64 v = 0 \<longleftrightarrow> v = replicate 8 0"
proof -
  assume v: "eight v"
  have "read_u64 (replicate 8 0) = 0" by (simp add: read_u64_def eval_nat_numeral)
  then show ?thesis using read_u64_inj [OF v, of "replicate 8 0"] by simp
qed

text \<open>
  a record inserted or updated through the client of PACTree is found with its value, other records are
  as before, and there is one exception: a value of eight zero bytes is stored, and reported as
  not found.
\<close>

theorem pactree_find_inserted:
  assumes lib: "tree_lib lib contents" and k: "eight key" and v: "eight value" and j: "eight key'" and out: "8 \<le> length value_out"
    and ok: "pactree_insert lib key value s = (True, s') \<or> pactree_update lib key value s = (True, s')"
  shows "pactree_find lib key value_out s' =
      Some (if value = replicate 8 0 then (False, value_out) else (True, value @ drop 8 value_out), s') \<and>
    (key' \<noteq> key \<longrightarrow> map_option fst (pactree_find lib key' value_out s') = map_option fst (pactree_find lib key' value_out s))"
proof -
  have c: "contents s' = (contents s)(read_u64 key \<mapsto> read_u64 value)"
    using lib ok unfolding tree_lib_def pactree_insert_def pactree_update_def by (metis fst_conv snd_conv)
  have l: "pt_lookup lib n x = (case contents x n of None \<Rightarrow> 0 | Some v \<Rightarrow> v, x)" for n x using lib by (simp add: tree_lib_def)
  have w: "buf_write value_out 0 (le_bytes 8 (x :: u64)) = Some (le_bytes 8 x @ drop 8 value_out)" for x
    using out by (simp add: buf_write_def)
  have "pactree_find lib key value_out s' =
      Some (if value = replicate 8 0 then (False, value_out) else (True, value @ drop 8 value_out), s')"
    using read_u64_zero [OF v] w [of "read_u64 value"] le_bytes_read_u64 [OF v] by (simp add: pactree_find_def l c)
  moreover have "map_option fst (pactree_find lib key' value_out s') = map_option fst (pactree_find lib key' value_out s)" if "key' \<noteq> key"
    using read_u64_inj [OF j k] that by (simp add: pactree_find_def l c w)
  ultimately show ?thesis by blast
qed

definition demo_tree :: "(u64 \<rightharpoonup> u64) pt_lib" where
  "demo_tree = \<lparr>pt_insert = (\<lambda>k v s. (s k = None, if s k = None then s(k \<mapsto> v) else s)),
     pt_update = (\<lambda>k v s. (s k \<noteq> None, if s k \<noteq> None then s(k \<mapsto> v) else s)),
     pt_lookup = (\<lambda>k s. (case s k of None \<Rightarrow> 0 | Some v \<Rightarrow> v, s)), pt_remove = (\<lambda>k s. (s k \<noteq> None, s(k := None))),
     pt_scan = (\<lambda>k n s. (0, s))\<rparr>"

theorem pactree_find_inserted_witness:
  "pactree_find demo_tree [1, 0, 0, 0, 0, 0, 0, 0] (replicate 8 7) [1 \<mapsto> 0] = Some ((False, replicate 8 7), [1 \<mapsto> 0])"
proof -
  have t: "tree_lib demo_tree (\<lambda>s. s)" by (simp add: tree_lib_def demo_tree_def)
  have k: "read_u64 [1, 0, 0, 0, 0, 0, 0, 0] = 1" by (simp add: read_u64_def)
  have z: "read_u64 (replicate 8 0) = 0" using read_u64_zero [of "replicate 8 0"] by simp
  have "pactree_insert demo_tree [1, 0, 0, 0, 0, 0, 0, 0] (replicate 8 0) Map.empty = (True, [1 \<mapsto> 0])"
    by (simp add: pactree_insert_def demo_tree_def k z)
  from pactree_find_inserted [OF t _ _ _ _ disjI1 [OF this], of "[1, 0, 0, 0, 0, 0, 0, 0]" "replicate 8 7"]
  show ?thesis by simp
qed

section \<open>Registration of threads\<close>

datatype pt_op = Op_find | Op_insert | Op_update | Op_remove | Op_scan

text \<open>A thread between operations, in one, or ending with helpers still to destroy.\<close>

datatype pt_pc = Pt_idle | Pt_running pt_op | Pt_exiting "pt_op list"

text \<open>
  The data of a thread is named by the number it is given. \<open>helpers\<close> lists the operations whose helper a thread has
  constructed, the latest first, which is the order of their destruction.
\<close>

record pt_threads =
  numThreads :: nat
  td_finish :: "nat \<Rightarrow> bool"
  td_runCnt :: "nat \<Rightarrow> nat"
  td_freed :: "nat set"
  threadDataSet :: "nat set"
  curThreadData :: "nat \<Rightarrow> nat option"
  helpers :: "nat \<Rightarrow> pt_op list"
  pt_pcs :: "nat \<Rightarrow> pt_pc"
  use_after_free :: bool

definition pt_new :: pt_threads where
  "pt_new = \<lparr>numThreads = 0, td_finish = (\<lambda>_. False), td_runCnt = (\<lambda>_. 0), td_freed = {}, threadDataSet = {},
     curThreadData = (\<lambda>_. None), helpers = (\<lambda>_. []), pt_pcs = (\<lambda>_. Pt_idle), use_after_free = False\<rparr>"

definition registerThread :: "nat \<Rightarrow> pt_threads \<Rightarrow> pt_threads" where
  "registerThread t s =
     (let threadId = numThreads s in
      s\<lparr>numThreads := threadId + 1, td_finish := (td_finish s)(threadId := False), td_runCnt := (td_runCnt s)(threadId := 0),
        threadDataSet := insert threadId (threadDataSet s), curThreadData := (curThreadData s)(t := Some threadId)\<rparr>)"

definition unregisterThread :: "nat \<Rightarrow> pt_threads \<Rightarrow> pt_threads" where
  "unregisterThread t s =
     (case curThreadData s t of
        None \<Rightarrow> s
      | Some d \<Rightarrow> s\<lparr>use_after_free := (use_after_free s \<or> d \<in> td_freed s), td_finish := (td_finish s)(d := True)\<rparr>)"

text \<open>The constructor of an operation's helper, when the thread runs the operation for the first time.\<close>

definition ThreadHelper :: "nat \<Rightarrow> pt_op \<Rightarrow> pt_threads \<Rightarrow> pt_threads" where
  "ThreadHelper t f s =
     (if f \<in> set (helpers s t) then s else registerThread t (s\<lparr>helpers := (helpers s)(t := f # helpers s t)\<rparr>))"

text \<open>\<open>read_lock\<close> and \<open>read_unlock\<close> both count; \<open>scan\<close> does neither.\<close>

definition count_run :: "nat \<Rightarrow> pt_op \<Rightarrow> pt_threads \<Rightarrow> pt_threads" where
  "count_run t f s =
     (if f = Op_scan then s
      else case curThreadData s t of
        None \<Rightarrow> s
      | Some d \<Rightarrow> s\<lparr>use_after_free := (use_after_free s \<or> d \<in> td_freed s), td_runCnt := (td_runCnt s)(d := td_runCnt s d + 1)\<rparr>)"

definition pt_at :: "nat \<Rightarrow> pt_pc \<Rightarrow> pt_threads \<Rightarrow> pt_threads" where
  "pt_at t pc s = s\<lparr>pt_pcs := (pt_pcs s)(t := pc)\<rparr>"

text \<open>The threads and the combiner, which frees the data of finished threads (\<open>gracePeriodInit\<close>).\<close>

inductive pt_step :: "pt_threads \<Rightarrow> pt_threads \<Rightarrow> bool" where
  pt_enter: "pt_pcs s t = Pt_idle \<Longrightarrow> pt_step s (pt_at t (Pt_running f) (count_run t f (ThreadHelper t f s)))"
| pt_leave: "pt_pcs s t = Pt_running f \<Longrightarrow> pt_step s (pt_at t Pt_idle (count_run t f s))"
| pt_exit: "pt_pcs s t = Pt_idle \<Longrightarrow> pt_step s (pt_at t (Pt_exiting (helpers s t)) s)"
| pt_destroy: "pt_pcs s t = Pt_exiting (f # fs) \<Longrightarrow> pt_step s (pt_at t (Pt_exiting fs) (unregisterThread t s))"
| pt_sweep: "d \<in> threadDataSet s \<Longrightarrow> td_finish s d \<Longrightarrow>
    pt_step s (s\<lparr>threadDataSet := threadDataSet s - {d}, td_freed := insert d (td_freed s)\<rparr>)"

text \<open>Which thread still needs its data, and how many of its helpers were destroyed.\<close>

definition fresh_td :: "pt_threads \<Rightarrow> nat \<Rightarrow> bool" where
  "fresh_td s d \<longleftrightarrow> \<not> td_finish s d \<and> d \<notin> td_freed s \<and> d \<in> threadDataSet s"

definition pt_inv :: "pt_threads \<Rightarrow> bool" where
  "pt_inv s \<longleftrightarrow>
     (\<forall>d. d \<in> td_freed s \<longrightarrow> td_finish s d) \<and> (\<forall>d. d \<in> td_freed s \<or> d \<in> threadDataSet s \<longrightarrow> d < numThreads s) \<and>
     (\<forall>t d. curThreadData s t = Some d \<longrightarrow> d < numThreads s \<and> (\<forall>u. curThreadData s u = Some d \<longrightarrow> u = t)) \<and>
     (\<forall>t. helpers s t = [] \<longleftrightarrow> curThreadData s t = None) \<and>
     (\<forall>t d. curThreadData s t = Some d \<longrightarrow>
        (case pt_pcs s t of
           Pt_idle \<Rightarrow> fresh_td s d \<and> even (td_runCnt s d)
         | Pt_running f \<Rightarrow> fresh_td s d \<and> (f \<noteq> Op_scan \<longleftrightarrow> odd (td_runCnt s d))
         | Pt_exiting fs \<Rightarrow> length fs \<le> length (helpers s t) \<and> (length fs = length (helpers s t) \<longrightarrow> fresh_td s d))) \<and>
     (\<forall>t f. pt_pcs s t = Pt_running f \<longrightarrow> f \<in> set (helpers s t)) \<and>
     (\<forall>t fs. pt_pcs s t = Pt_exiting fs \<longrightarrow> length fs \<le> length (helpers s t)) \<and>
     (use_after_free s \<longrightarrow> (\<exists>t. 2 \<le> length (helpers s t)))"

lemma pt_inv_D:
  assumes "pt_inv s"
  shows "d \<in> td_freed s \<Longrightarrow> td_finish s d" and "d \<in> td_freed s \<or> d \<in> threadDataSet s \<Longrightarrow> d < numThreads s"
    and "curThreadData s t = Some d \<Longrightarrow> d < numThreads s"
    and "curThreadData s t = Some d \<Longrightarrow> curThreadData s u = Some d \<Longrightarrow> u = t"
    and "helpers s t = [] \<longleftrightarrow> curThreadData s t = None"
    and "curThreadData s t = Some d \<Longrightarrow> pt_pcs s t = Pt_idle \<Longrightarrow> fresh_td s d \<and> even (td_runCnt s d)"
    and "curThreadData s t = Some d \<Longrightarrow> pt_pcs s t = Pt_running f \<Longrightarrow> fresh_td s d \<and> (f \<noteq> Op_scan \<longleftrightarrow> odd (td_runCnt s d))"
    and "curThreadData s t = Some d \<Longrightarrow> pt_pcs s t = Pt_exiting fs \<Longrightarrow> length fs = length (helpers s t) \<Longrightarrow> fresh_td s d"
    and "pt_pcs s t = Pt_running f \<Longrightarrow> f \<in> set (helpers s t)"
    and "pt_pcs s t = Pt_exiting fs \<Longrightarrow> length fs \<le> length (helpers s t)"
    and "use_after_free s \<Longrightarrow> \<exists>t. 2 \<le> length (helpers s t)"
proof -
  assume c: "curThreadData s t = Some d"
  then have m: "case pt_pcs s t of
           Pt_idle \<Rightarrow> fresh_td s d \<and> even (td_runCnt s d)
         | Pt_running f \<Rightarrow> fresh_td s d \<and> (f \<noteq> Op_scan \<longleftrightarrow> odd (td_runCnt s d))
         | Pt_exiting fs \<Rightarrow> length fs \<le> length (helpers s t) \<and> (length fs = length (helpers s t) \<longrightarrow> fresh_td s d)"
    using assms unfolding pt_inv_def by blast
  show "pt_pcs s t = Pt_idle \<Longrightarrow> fresh_td s d \<and> even (td_runCnt s d)"
    "pt_pcs s t = Pt_running f \<Longrightarrow> fresh_td s d \<and> (f \<noteq> Op_scan \<longleftrightarrow> odd (td_runCnt s d))"
    "pt_pcs s t = Pt_exiting fs \<Longrightarrow> length fs = length (helpers s t) \<Longrightarrow> fresh_td s d" using m by simp_all
qed (use assms in \<open>unfold pt_inv_def, blast+\<close>)

lemma pt_invI:
  assumes "\<And>d. d \<in> td_freed s \<Longrightarrow> td_finish s d" and "\<And>d. d \<in> td_freed s \<or> d \<in> threadDataSet s \<Longrightarrow> d < numThreads s"
    and "\<And>t d. curThreadData s t = Some d \<Longrightarrow> d < numThreads s"
    and "\<And>t u d. curThreadData s t = Some d \<Longrightarrow> curThreadData s u = Some d \<Longrightarrow> u = t"
    and "\<And>t. helpers s t = [] \<longleftrightarrow> curThreadData s t = None"
    and "\<And>t d. curThreadData s t = Some d \<Longrightarrow> pt_pcs s t = Pt_idle \<Longrightarrow> fresh_td s d \<and> even (td_runCnt s d)"
    and "\<And>t d f. curThreadData s t = Some d \<Longrightarrow> pt_pcs s t = Pt_running f \<Longrightarrow> fresh_td s d \<and> (f \<noteq> Op_scan \<longleftrightarrow> odd (td_runCnt s d))"
    and "\<And>t d fs. curThreadData s t = Some d \<Longrightarrow> pt_pcs s t = Pt_exiting fs \<Longrightarrow> length fs = length (helpers s t) \<Longrightarrow> fresh_td s d"
    and "\<And>t f. pt_pcs s t = Pt_running f \<Longrightarrow> f \<in> set (helpers s t)"
    and "\<And>t fs. pt_pcs s t = Pt_exiting fs \<Longrightarrow> length fs \<le> length (helpers s t)"
    and "use_after_free s \<Longrightarrow> \<exists>t. 2 \<le> length (helpers s t)"
  shows "pt_inv s"
  unfolding pt_inv_def using assms by (intro conjI allI impI) (auto split: pt_pc.splits)

lemma ThreadHelper_inv:
  assumes i: "pt_inv s" and t: "pt_pcs s t = Pt_idle"
  shows "pt_inv (ThreadHelper t f s)" and "pt_pcs (ThreadHelper t f s) t = Pt_idle" and "f \<in> set (helpers (ThreadHelper t f s) t)"
proof -
  note D = pt_inv_D [OF i]
  show "pt_inv (ThreadHelper t f s)"
  proof (cases "f \<in> set (helpers s t)")
    case False
    have new: "d \<noteq> numThreads s" if "d \<in> td_freed s \<or> d \<in> threadDataSet s \<or> curThreadData s u = Some d" for d u
      using D(2,3) that by blast
    have uaf: "\<exists>u. (u = t \<longrightarrow> Suc 0 \<le> length (helpers s t)) \<and> (u \<noteq> t \<longrightarrow> 2 \<le> length (helpers s u))" if u: "use_after_free s"
    proof -
      obtain u where "2 \<le> length (helpers s u)" using D(11) [OF u] by blast
      then show ?thesis by (intro exI [of _ u]) auto
    qed
    show ?thesis unfolding ThreadHelper_def using False
      by (intro pt_invI; simp add: registerThread_def Let_def)
        (use D(1-10) uaf t new in \<open>auto simp: fresh_td_def less_Suc_eq split: if_splits\<close>)
  qed (simp add: ThreadHelper_def i)
  show "pt_pcs (ThreadHelper t f s) t = Pt_idle" "f \<in> set (helpers (ThreadHelper t f s) t)"
    using t by (simp_all add: ThreadHelper_def registerThread_def Let_def)
qed

lemma count_run_inv:
  assumes i: "pt_inv s"
  shows "pt_pcs s t = Pt_idle \<Longrightarrow> f \<in> set (helpers s t) \<Longrightarrow> pt_inv (pt_at t (Pt_running f) (count_run t f s))"
    and "pt_pcs s t = Pt_running f \<Longrightarrow> pt_inv (pt_at t Pt_idle (count_run t f s))"
proof -
  note D = pt_inv_D [OF i]
  have one: "u = t" if "curThreadData s t = Some d" "curThreadData s u = Some d" for u d using D(4) that by blast
  show "pt_inv (pt_at t (Pt_running f) (count_run t f s))" if t: "pt_pcs s t = Pt_idle" and f: "f \<in> set (helpers s t)"
  proof -
    have "helpers s t \<noteq> []" using f by auto
    then obtain d where d: "curThreadData s t = Some d" using D(5) [of t] by auto
    have fr: "fresh_td s d" "even (td_runCnt s d)" using D(6) [OF d t] by auto
    show ?thesis
      by (rule pt_invI; simp add: pt_at_def count_run_def d)
        (use D t f fr d one in \<open>auto simp: fresh_td_def split: if_splits\<close>)
  qed
  show "pt_inv (pt_at t Pt_idle (count_run t f s))" if t: "pt_pcs s t = Pt_running f"
  proof -
    have "helpers s t \<noteq> []" using D(9) [OF t] by auto
    then obtain d where d: "curThreadData s t = Some d" using D(5) [of t] by auto
    have fr: "fresh_td s d" "f \<noteq> Op_scan \<longleftrightarrow> odd (td_runCnt s d)" using D(7) [OF d t] by auto
    show ?thesis
      by (rule pt_invI; simp add: pt_at_def count_run_def d)
        (use D t fr d one in \<open>auto simp: fresh_td_def split: if_splits\<close>)
  qed
qed

lemma pt_destroy_inv:
  assumes i: "pt_inv s" and t: "pt_pcs s t = Pt_exiting (f # fs)"
  shows "pt_inv (pt_at t (Pt_exiting fs) (unregisterThread t s))"
proof -
  note D = pt_inv_D [OF i]
  have h: "Suc (length fs) \<le> length (helpers s t)" using D(10) [OF t] by simp
  then have "helpers s t \<noteq> []" by auto
  then obtain d where d: "curThreadData s t = Some d" using D(5) [of t] by auto
  have one: "u = t" if "curThreadData s u = Some d" for u using D(4) d that by blast
  have uaf: "\<exists>t. 2 \<le> length (helpers s t)" if "use_after_free s \<or> d \<in> td_freed s"
  proof (cases "Suc (length fs) = length (helpers s t)")
    case True
    then have "fresh_td s d" using D(8) [OF d t] by simp
    then show ?thesis using that D(11) by (auto simp: fresh_td_def)
  next
    case False
    then show ?thesis using h by (intro exI [of _ t]) simp
  qed
  have other: "a \<noteq> d" if "u \<noteq> t" "curThreadData s u = Some a" for u a using one that by blast
  show ?thesis
  proof (rule pt_invI; simp add: pt_at_def unregisterThread_def d fresh_td_def)
    fix u a fs'
    assume u: "curThreadData s u = Some a" and pc: "(if u = t then Pt_exiting fs else pt_pcs s u) = Pt_exiting fs'"
      and l: "length fs' = length (helpers s u)"
    then have "u \<noteq> t" using h by auto
    then show "a \<noteq> d \<and> (a \<noteq> d \<longrightarrow> \<not> td_finish s a \<and> a \<notin> td_freed s \<and> a \<in> threadDataSet s)"
      using other u D(8) [OF u _ l] pc by (simp add: fresh_td_def)
  qed (use D(1-7) D(9,10) uaf other h in \<open>auto simp: fresh_td_def split: if_splits\<close>)
qed

lemma pt_step_inv: "pt_step s s' \<Longrightarrow> pt_inv s \<Longrightarrow> pt_inv s'"
proof (induction rule: pt_step.induct)
  case (pt_enter s t f)
  then show ?case using ThreadHelper_inv [of s t f] by (intro count_run_inv) simp_all
next
  case (pt_leave s t f)
  then show ?case by (intro count_run_inv)
next
  case (pt_exit s t)
  note D = pt_inv_D [OF pt_exit(2)]
  show ?case by (rule pt_invI; simp add: pt_at_def) (use D pt_exit(1) in \<open>auto simp: fresh_td_def split: if_splits\<close>)
next
  case (pt_destroy s t f fs)
  then show ?case by (intro pt_destroy_inv)
next
  case (pt_sweep d s)
  note D = pt_inv_D [OF pt_sweep(3)]
  show ?case by (rule pt_invI; simp) (use D pt_sweep(1,2) in \<open>auto simp: fresh_td_def split: if_splits\<close>)
qed

lemma pt_reachable_inv: "pt_step\<^sup>*\<^sup>* pt_new s \<Longrightarrow> pt_inv s"
proof (erule reachable_inv [where I = pt_inv])
  show "pt_inv pt_new" by (rule pt_invI) (simp_all add: pt_new_def)
qed (rule pt_step_inv)

text \<open>
  C22: the registration of threads. Whatever the interleaving of the operations of the threads, their ends and the
  combiner, a thread inside an operation other than a scan has data that is registered, not freed, and marked
  as running (its counter is odd), so that a grace period waits for it; and no freed data is
  touched as long as every thread uses one kind of operation only.
\<close>

theorem pactree_registration:
  assumes "pt_step\<^sup>*\<^sup>* pt_new s"
  shows "(pt_pcs s t = Pt_running f \<and> f \<noteq> Op_scan \<longrightarrow>
      (\<exists>d. curThreadData s t = Some d \<and> d \<in> threadDataSet s \<and> d \<notin> td_freed s \<and> odd (td_runCnt s d))) \<and>
    ((\<forall>u. length (helpers s u) \<le> 1) \<longrightarrow> \<not> use_after_free s)"
proof -
  note D = pt_inv_D [OF pt_reachable_inv [OF assms]]
  have "\<exists>d. curThreadData s t = Some d \<and> d \<in> threadDataSet s \<and> d \<notin> td_freed s \<and> odd (td_runCnt s d)"
    if r: "pt_pcs s t = Pt_running f" "f \<noteq> Op_scan"
  proof -
    obtain d where "curThreadData s t = Some d" using D(5) [of t] D(9) [OF r(1)] by fastforce
    then show ?thesis using D(7) r by (auto simp: fresh_td_def)
  qed
  moreover have "\<not> use_after_free s" if "\<forall>u. length (helpers s u) \<le> 1"
  proof
    assume "use_after_free s"
    then obtain u where "2 \<le> length (helpers s u)" using D(11) by blast
    then show False using that [rule_format, of u] by simp
  qed
  ultimately show ?thesis by blast
qed

text \<open>The runs below are of thread 0: one or two operations, the end of the thread, and the combiner between the helpers' destructors.\<close>

lemma pt_op_run:
  assumes "pt_pcs s 0 = Pt_idle"
  shows "pt_step\<^sup>*\<^sup>* s (pt_at 0 Pt_idle (count_run 0 f (pt_at 0 (Pt_running f) (count_run 0 f (ThreadHelper 0 f s)))))"
proof -
  let ?a = "pt_at 0 (Pt_running f) (count_run 0 f (ThreadHelper 0 f s))"
  have "pt_step s ?a" by (rule pt_enter) (rule assms)
  moreover have "pt_step ?a (pt_at 0 Pt_idle (count_run 0 f ?a))" by (rule pt_leave) (simp add: pt_at_def)
  ultimately show ?thesis by (meson converse_rtranclp_into_rtranclp rtranclp.rtrancl_refl)
qed

lemmas pt_run_defs = pt_new_def pt_at_def count_run_def ThreadHelper_def registerThread_def unregisterThread_def Let_def

theorem pactree_registration_witness:
  "\<exists>s. pt_step\<^sup>*\<^sup>* pt_new s \<and> pt_pcs s 0 = Pt_running Op_find \<and> (\<exists>d. curThreadData s 0 = Some d \<and> odd (td_runCnt s d))"
proof -
  let ?a = "pt_at 0 (Pt_running Op_find) (count_run 0 Op_find (ThreadHelper 0 Op_find pt_new))"
  have "pt_step pt_new ?a" by (rule pt_enter) (simp add: pt_new_def)
  then have r: "pt_step\<^sup>*\<^sup>* pt_new ?a" by simp
  have p: "pt_pcs ?a 0 = Pt_running Op_find" by (simp add: pt_at_def)
  from pactree_registration [OF r, of 0 Op_find] p have "\<exists>d. curThreadData ?a 0 = Some d \<and> odd (td_runCnt ?a d)" by blast
  then show ?thesis using r p by blast
qed

text \<open>
  C38: a thread that has used two kinds of operations unregisters twice, through its latest data both times. The combiner may free
  that data in between, and the second destructor then writes to freed memory: such a state can be
  reached; the data of the first registration stays in the set for ever.
\<close>

theorem pactree_double_unregister:
  "\<exists>s. pt_step\<^sup>*\<^sup>* pt_new s \<and> use_after_free s \<and> 0 \<in> threadDataSet s \<and> \<not> td_finish s 0 \<and> pt_pcs s 0 = Pt_exiting []"
proof -
  define s1 where "s1 = pt_at 0 Pt_idle (count_run 0 Op_find (pt_at 0 (Pt_running Op_find) (count_run 0 Op_find (ThreadHelper 0 Op_find pt_new))))"
  define s2 where "s2 = pt_at 0 Pt_idle (count_run 0 Op_insert (pt_at 0 (Pt_running Op_insert) (count_run 0 Op_insert (ThreadHelper 0 Op_insert s1))))"
  define s3 where "s3 = pt_at 0 (Pt_exiting (helpers s2 0)) s2"
  define s4 where "s4 = pt_at 0 (Pt_exiting [Op_find]) (unregisterThread 0 s3)"
  define s5 where "s5 = s4\<lparr>threadDataSet := threadDataSet s4 - {1}, td_freed := insert 1 (td_freed s4)\<rparr>"
  define s6 where "s6 = pt_at 0 (Pt_exiting []) (unregisterThread 0 s5)"
  note d1 = s1_def [unfolded pt_run_defs, simplified] and d2 = s2_def [unfolded pt_run_defs]
  have i1: "pt_pcs s1 0 = Pt_idle" and i2: "pt_pcs s2 0 = Pt_idle" by (simp_all add: s1_def s2_def pt_at_def)
  have h2: "helpers s2 0 = [Op_insert, Op_find]" "curThreadData s2 0 = Some 1" "threadDataSet s2 = {0, 1}" "\<not> td_finish s2 0" "td_freed s2 = {}"
    by (auto simp: d2 d1)
  have "pt_step\<^sup>*\<^sup>* pt_new s1" unfolding s1_def by (rule pt_op_run) (simp add: pt_new_def)
  moreover have "pt_step\<^sup>*\<^sup>* s1 s2" unfolding s2_def by (rule pt_op_run) (rule i1)
  moreover have "pt_step s2 s3" unfolding s3_def by (rule pt_exit) (rule i2)
  moreover have "pt_step s3 s4" unfolding s4_def by (rule pt_destroy) (simp add: s3_def pt_at_def h2)
  moreover have "pt_step s4 s5" unfolding s5_def
    by (rule pt_sweep) (simp_all add: s4_def s3_def pt_at_def unregisterThread_def h2)
  moreover have "pt_step s5 s6" unfolding s6_def by (rule pt_destroy) (simp add: s5_def s4_def pt_at_def)
  ultimately have "pt_step\<^sup>*\<^sup>* pt_new s6" by (meson rtranclp.rtrancl_into_rtrancl rtranclp_trans)
  moreover have "use_after_free s6" "0 \<in> threadDataSet s6" "\<not> td_finish s6 0" "pt_pcs s6 0 = Pt_exiting []"
    by (simp_all add: s6_def s5_def s4_def s3_def pt_at_def unregisterThread_def h2)
  ultimately show ?thesis by blast
qed

end
