(* ===== verification/Spec2Isabelle.thy ===== *)
theory Spec2Isabelle
  imports Load_Phase Options Flat_Restart Fair_Store CCEH_Extra Locks Hot_Keys
    Flat_Tombstone Flat_Batching Flat_Batch_Store Pactree_Client
begin

text \<open>
  PKBench drives persistent key-value stores through one interface (\<^verbatim>\<open>src/include/kvs_api.hpp\<close>): a
  program (\<^verbatim>\<open>src/benchmark\<close>) parses its options, loads a number of records with a team of threads,
  runs a mix of operations with random keys and values, and reports throughput and latency; each
  store is a shared library with a small wrapper (\<^verbatim>\<open>src/kvswrapper\<close>). The development models the driver and
  one of the stores, FlatStore in \<^verbatim>\<open>src/kvswrapper/flatstore-pacman\<close>, down to the bytes of its log, its
  two indexes, its cleaner, its recovery and its locks, and composes the two.

  \<^bold>\<open>The driver.\<close>
  \<^item> \<^verbatim>\<open>Utils\<close>: the hash functions, \<open>discrete_log\<close>, byte order and the string helpers of \<^verbatim>\<open>utils.hpp\<close>,
    \<^verbatim>\<open>ycsb/utils.h\<close> and \<^verbatim>\<open>benchmark.cpp\<close>.
  \<^item> \<^verbatim>\<open>Key_Generator\<close>: \<open>key_generator_t\<close>. The thread-local buffer, counter and seed are a record that the
    operations take and return; \<open>hash_id\<close> writes into the buffer at the width of the key.
  \<^item> \<^verbatim>\<open>Distributions\<close>, \<^verbatim>\<open>Generators\<close>: the Zipfian, self-similar, latest and discrete generators over the
    reals, with the uniform draw as an argument, and the operation and value generators.
  \<^item> \<^verbatim>\<open>Options\<close>: the options, the parser with its exit codes, the sanity checks and the order of the phases.
  \<^item> \<^verbatim>\<open>Kvs_Api\<close>: the client interface as a record of functions on a store state, and its contract as the
    locales \<open>kv_upsert\<close> and \<open>kv_upsert_room\<close>, in which the effect of a sequence of inserts is proved once.
  \<^item> \<^verbatim>\<open>Benchmark\<close>, \<^verbatim>\<open>Run_Phase\<close>: \<open>run_op\<close> and \<open>execute_op\<close> of \<^verbatim>\<open>benchmark.cpp\<close>, the worker threads as a step
    relation (one iteration of one thread is a step, the static schedule of the parallel loop is
    \<open>chunk\<close>), the totals and the fatal check, the samples and the latency report.
  \<^item> \<^verbatim>\<open>Load_Phase\<close>: the threads of \<open>load\<close> as a step relation, and which record numbers they insert.

  \<^bold>\<open>FlatStore.\<close> The build modelled is the default one, with either the FAST and FAIR tree (\<open>INDEX_TYPE\<close> 2)
  or the CCEH hash table (\<open>INDEX_TYPE\<close> 1): persistent log, no hot/cold separation or batching, assertions compiled out; options that are off there
  have theories of their own. Addresses are natural numbers
  below \<open>2 ^ 48\<close>, the pool is a function from addresses to bytes with the segment headers beside it. The pages of the tree
  live in a pool of their own, placed from \<open>2 ^ 48\<close> upwards: pointers into it are compared for equality
  with each other and with zero only, and the two mappings are disjoint.
  \<^item> \<^verbatim>\<open>Flat_Segment\<close>: the byte image of an entry (\<^verbatim>\<open>db_common.h\<close>) and the segment operations (\<^verbatim>\<open>segment.h\<close>).
  \<^item> \<^verbatim>\<open>Flat_Log\<close>: segments, free list and cleaning threshold (\<^verbatim>\<open>log_structured.cpp\<close>).
  \<^item> \<^verbatim>\<open>Flat_Walk\<close>: the sequence of entries in a segment, and the invariant of the log.
  \<^item> \<^verbatim>\<open>Flat_DB\<close>: \<open>DB::Worker\<close> (\<^verbatim>\<open>db.cpp\<close>) over the interface \<open>flat_index\<close> (the class \<open>Index\<close> of \<^verbatim>\<open>db.h\<close> with the
    laws its users rely on); the store satisfies \<open>kv_upsert\<close> (a \<open>sublocale\<close>).
  \<^item> \<^verbatim>\<open>Flat_Hash\<close>, \<^verbatim>\<open>CCEH\<close>: the hash functions and the extendible hash table with its splits and directory
    doubling; the interpretation \<open>cceh\<close> discharges the laws of \<open>flat_index\<close> for it.
  \<^item> \<^verbatim>\<open>Flat_Frame\<close>, \<^verbatim>\<open>Flat_Cleaner\<close>, \<^verbatim>\<open>Flat_Compact\<close>, \<^verbatim>\<open>Flat_Concurrent\<close>: the cleaner (\<^verbatim>\<open>log_cleaner.cpp\<close>), that a
    compaction keeps the contents, and the interleaving of the cleaner with the clients.
  \<^item> \<^verbatim>\<open>Flat_Store\<close>: opening the store (\<^verbatim>\<open>flatstore_wrapper.h\<close>) and the theorems about the composition with
    CCEH and with the load phase of the driver.
  \<^item> \<^verbatim>\<open>Flat_Recovery\<close>, \<^verbatim>\<open>Flat_Replay\<close>, \<^verbatim>\<open>Flat_Order\<close>, \<^verbatim>\<open>Flat_Restart\<close>: both recoveries (\<^verbatim>\<open>recovery.cpp\<close>), what a replay
    of the log makes of the index, that a filled store is restored, and the wrapper on an existing pool.
  \<^item> \<^verbatim>\<open>Index_Arena\<close>: the allocator of the index pages (\<^verbatim>\<open>index_arena.h\<close>); blocks in use never overlap.
  \<^item> \<^verbatim>\<open>FF_Page\<close>, \<^verbatim>\<open>FF_Tree\<close>: a page with its shifting insertion and removal and the search in the direction of the
    switch counter, and the tree operations over a heap of pages (\<^verbatim>\<open>ff_btree.h\<close>, \<^verbatim>\<open>ff_btree.cpp\<close>). The mutual
    recursion of \<open>store\<close> and \<open>btree_insert_internal\<close> is one partial function on calls, \<open>ff_run\<close>.
  \<^item> \<^verbatim>\<open>FF_Inv\<close>, \<^verbatim>\<open>FF_Update\<close>, \<^verbatim>\<open>FF_Insert\<close>, \<^verbatim>\<open>FF_Index\<close>: the invariant of the tree (fences, sibling links and levels),
    that an update and an insertion with its splits keep it, return, and act on the stored pairs as on a
    map; what the searches and the deletion return, and when the deletion does not return.
  \<^item> \<^verbatim>\<open>FF_Shortcut\<close>, \<^verbatim>\<open>CCEH_Extra\<close>: the collector's fast paths of the two indexes (\<open>GC_SHORTCUT\<close>), with the effect of the
    slow ones; the walks over the hash directory.
  \<^item> \<^verbatim>\<open>Fair_Store\<close>: the tree as an index of the store (\<^verbatim>\<open>index_fastfair.h\<close>), the interpretation \<open>fair\<close> of the same
    locales, and the theorems about the store with it, scans included.
  \<^item> \<^verbatim>\<open>Locks\<close>: the spin lock and the read-write lock (\<^verbatim>\<open>lock.h\<close>), the semaphore of a CCEH segment (\<^verbatim>\<open>CCEH.h\<close>) and the
    epochs (\<^verbatim>\<open>thread_status.h\<close>), each as a step relation with one atomic access per step.
  \<^item> \<^verbatim>\<open>Hot_Keys\<close>: the hot key set with its update thread (\<^verbatim>\<open>hotkeyset.cpp\<close>).
  \<^item> \<^verbatim>\<open>Flat_Tombstone\<close>: the pointers with a size and the volatile bitmap of garbage (\<open>REDUCE_PM_ACCESS\<close>), which workers update
    by compare-and-swap; when the bitmap is exact, and that it is not for the smallest entries; the packed shortcuts.
  \<^item> \<^verbatim>\<open>Flat_Batching\<close>: batched persistence of appends (\<open>LOG_BATCHING\<close>) over the set of addresses that were written back.
  \<^item> \<^verbatim>\<open>Flat_Batch_GC\<close>, \<^verbatim>\<open>Flat_Batch_Store\<close>: the compaction through a volatile buffer (\<open>BATCH_COMPACTION\<close>). \<open>settle\<close> is the store
    after the buffer is flushed and its items are in the index; copying an entry to the buffer does to the settled store what
    the compaction of \<^verbatim>\<open>Flat_Cleaner\<close> does to its own.

  \<^bold>\<open>The other stores.\<close>
  \<^item> \<^verbatim>\<open>Wrappers\<close>: the clients of RocksDB, Viper (strings and integers), ListDB and the extendible radix tree. The
    library is a parameter, a record of functions on its state, with what its documentation promises as a
    hypothesis; which clients satisfy \<open>kv_upsert\<close>, and what their lookups and scans leave in the caller's buffers.
  \<^item> \<^verbatim>\<open>Pactree_Client\<close>: the client of PACTree, and the registration of its threads with the combiner that frees their data, as
    a step relation.

  \<^bold>\<open>Bounds.\<close> \<open>CCEH::Insert\<close> retries after each split; its model takes \<open>insert_rounds = 66\<close> rounds, proved to be
  enough because the hash is one-to-one on 64-bit keys. A put waits for a free segment: the model
  reports the wait as a failure of the call, and the acceptance theorem gives a number of writes that
  never wait. FlatStore keys are at least eight bytes (the index reads the first eight) and
  neither all zero nor all one bits in them; record numbers of a load are below \<open>2 ^ 61\<close>, so that no
  key collides with the reserved ones.

  \<^bold>\<open>Concurrency.\<close> A put of a client is one action, as is a lookup. The cleaner's decision that an
  entry is live, its copy, and the compare-and-swap in the index are separate actions, between
  which any client may write. The grace period before a segment is reused is thereby implied: no
  client is in the middle of an operation at an action boundary; that \<open>rcu_barrier\<close> gives it is a
  theorem of \<^verbatim>\<open>Locks\<close>. The locks and epochs are modelled under sequential consistency.
  The compaction through a buffer is compared with the other one without clients writing meanwhile.

  \<^bold>\<open>Not modelled.\<close> The rebalancing removal of the tree (\<open>remove_rebalancing\<close>, \<open>btree_delete_internal\<close>, which nothing
  calls in this program), the Masstree index and the variants of FlatStore built on other
  indexes, cache flushes (but for the batched appends) and the ordering of plain memory accesses, the allocator that calls PMDK,
  printing and timing, the command-line library, and the vendored stores themselves (RocksDB, ListDB, Viper,
  PACTree, the radix tree, pmemkv, LevelDB). The wrappers of LevelDB, pmemkv and Bullet override functions that the
  interface does not have and do not compile. Of the options of FlatStore,
  the separate segments for hot keys (\<open>HOT_COLD_SEPARATE\<close>) are left out, except for the hot key set itself.
\<close>

end
